(* ===== verification/Prelude.thy ===== *)
theory Prelude
  imports Main "HOL-Library.Word"
begin

text \<open>
  Shared vocabulary of the development: the machine types of the kernel, its error numbers, the
  outcome types of its handlers, Rust's checked integer arithmetic, little-endian encodings, and
  the ordered map \<open>BTreeMap\<close> that almost every kernel table is.

  Conventions used by every component theory:
  \<^item> identifiers that only count up (\<open>u64\<close> ids, pids, file handles) and addresses are \<^typ>\<open>nat\<close>;
    where the source checks for overflow the check is written out;
  \<^item> flags, modes and system call arguments are words of their width;
  \<^item> signed 16/32/64-bit values are \<^typ>\<open>int\<close>; an addition the source does in \<open>i32\<close> is
    \<open>add_i32\<close>, which is \<^const>\<open>None\<close> where the development build (overflow checks on)
    panics;
  \<^item> a handler returns \<open>Ok\<close> a value, \<open>Err\<close> an error number, or \<open>Panic\<close>;
  \<^item> one pass through the body of a blocking loop returns \<open>Return\<close> of such a result, or
    \<open>Sleep\<close> when the caller was put to sleep and the loop is to be entered again.
\<close>

unbundle bit_operations_syntax

named_theorems bmap_simps \<open>laws of the ordered map\<close>
named_theorems step_defs \<open>definitions unfolded when one kernel step is evaluated\<close>

type_synonym u8 = "8 word"
type_synonym u16 = "16 word"
type_synonym u32 = "32 word"
type_synonym u64 = "64 word"
type_synonym pid = nat

section \<open>Error numbers and results\<close>

datatype errno =
    EPERM | ENOENT | ESRCH | EINTR | EIO | ENXIO | E2BIG | EBADF | EAGAIN | ENOMEM | EACCES
  | EFAULT | EBUSY | EEXIST | EINVAL | ENFILE | EMFILE | ENOTTY | EFBIG | ESPIPE | EPIPE | ERANGE
  | ENAMETOOLONG | ENOMSG | EIDRM | EMSGSIZE | ETIMEDOUT | ERESTART | ENOSYS

datatype 'a kres = Ok 'a | Err errno | Panic

datatype 'a pass = Return "'a kres" | Sleep

fun bind_kres :: "'a kres \<Rightarrow> ('a \<Rightarrow> 'b kres) \<Rightarrow> 'b kres" where
  "bind_kres (Ok a) f = f a"
| "bind_kres (Err e) f = Err e"
| "bind_kres Panic f = Panic"

lemma bind_kres_Ok_iff: "bind_kres r f = Ok b \<longleftrightarrow> (\<exists>a. r = Ok a \<and> f a = Ok b)"
  by (cases r) auto

section \<open>Checked integer arithmetic and casts\<close>

definition i32_min :: int where "i32_min = - (2 ^ 31)"
definition i32_max :: int where "i32_max = 2 ^ 31 - 1"

definition in_i32 :: "int \<Rightarrow> bool" where
  "in_i32 x \<longleftrightarrow> i32_min \<le> x \<and> x \<le> i32_max"

text \<open>\<open>a + b\<close> on \<open>i32\<close>: \<^const>\<open>None\<close> is the overflow panic.\<close>

definition add_i32 :: "int \<Rightarrow> int \<Rightarrow> int option" where
  "add_i32 a b = (if in_i32 (a + b) then Some (a + b) else None)"

lemma add_i32_Some_iff: "add_i32 a b = Some c \<longleftrightarrow> c = a + b \<and> in_i32 c"
  by (auto simp: add_i32_def)

lemma add_i32_None_iff: "add_i32 a b = None \<longleftrightarrow> \<not> in_i32 (a + b)"
  by (auto simp: add_i32_def)

text \<open>\<open>x as i32\<close> for a 64-bit argument, and \<open>i as u64\<close> for an \<open>i32\<close> (sign extension).\<close>

definition as_i32 :: "u64 \<Rightarrow> int" where
  "as_i32 x = sint (ucast x :: u32)"

definition i32_as_u64 :: "int \<Rightarrow> u64" where
  "i32_as_u64 i = word_of_int i"

definition as_i64 :: "u64 \<Rightarrow> int" where
  "as_i64 x = sint x"

definition u64_max :: nat where "u64_max = 2 ^ 64 - 1"

text \<open>\<open>checked_add\<close> on \<open>u64\<close> values kept as naturals.\<close>

definition checked_add_u64 :: "nat \<Rightarrow> nat \<Rightarrow> nat option" where
  "checked_add_u64 a b = (if a + b \<le> u64_max then Some (a + b) else None)"

lemma checked_add_u64_Some_iff:
  "checked_add_u64 a b = Some c \<longleftrightarrow> c = a + b \<and> a + b \<le> u64_max"
  by (auto simp: checked_add_u64_def)

section \<open>Little-endian encodings\<close>

text \<open>\<open>to_ne_bytes\<close> on this target, and the bytes of a \<open>repr(C)\<close> integer field.\<close>

primrec le_bytes :: "nat \<Rightarrow> nat \<Rightarrow> u8 list" where
  "le_bytes 0 x = []"
| "le_bytes (Suc n) x = of_nat (x mod 256) # le_bytes n (x div 256)"

fun le_val :: "u8 list \<Rightarrow> nat" where
  "le_val [] = 0"
| "le_val (b # bs) = unat b + 256 * le_val bs"

lemma length_le_bytes [simp]: "length (le_bytes n x) = n"
  by (induction n arbitrary: x) auto

lemma le_val_le_bytes: "le_val (le_bytes n x) = x mod 256 ^ n"
proof (induction n arbitrary: x)
  case 0
  then show ?case by simp
next
  case (Suc n)
  have "unat (of_nat (x mod 256) :: u8) = x mod 256"
    by (simp add: unat_of_nat)
  then show ?case
    by (simp add: Suc.IH mod_mult2_eq mult.commute)
qed

lemma le_val_le_bytes_id [simp]: "x < 256 ^ n \<Longrightarrow> le_val (le_bytes n x) = x"
  by (simp add: le_val_le_bytes)

lemma le_val_bound: "le_val bs < 256 ^ length bs"
proof (induction bs)
  case (Cons b bs)
  have "unat b < 256" using unsigned_less [of b] by simp
  with Cons.IH show ?case by simp
qed simp

lemma le_bytes_le_val: "le_bytes (length bs) (le_val bs) = bs"
proof (induction bs)
  case (Cons b bs)
  have b: "unat b < 256" using unsigned_less [of b] by simp
  then have "(unat b + 256 * le_val bs) mod 256 = unat b" by simp
  moreover from b have "(unat b + 256 * le_val bs) div 256 = le_val bs" by simp
  ultimately show ?case using Cons.IH by simp
qed simp

text \<open>A signed field of \<open>n\<close> bytes: two's complement.\<close>

definition le_sbytes :: "nat \<Rightarrow> int \<Rightarrow> u8 list" where
  "le_sbytes n x = le_bytes n (nat (x mod 256 ^ n))"

definition le_sval :: "u8 list \<Rightarrow> int" where
  "le_sval bs =
     (let u = int (le_val bs); m = 256 ^ length bs in if 2 * u < m then u else u - m)"

lemma length_le_sbytes [simp]: "length (le_sbytes n x) = n"
  by (simp add: le_sbytes_def)

lemma le_sval_le_sbytes:
  assumes "- (256 ^ n) \<le> 2 * x" and "2 * x < 256 ^ n"
  shows "le_sval (le_sbytes n x) = x"
proof -
  let ?m = "(256::int) ^ n"
  have pos: "0 < ?m" by simp
  have bnd: "nat (x mod ?m) < 256 ^ n"
    using pos by (simp add: nat_less_iff)
  then have v: "int (le_val (le_sbytes n x)) = x mod ?m"
    using pos by (simp add: le_sbytes_def)
  show ?thesis
  proof (cases "0 \<le> x")
    case True
    then have "x mod ?m = x" using assms(2) by (intro mod_pos_pos_trivial) auto
    then show ?thesis using v assms True by (simp add: le_sval_def Let_def)
  next
    case False
    have "x mod ?m = (x + ?m) mod ?m" by simp
    also have "\<dots> = x + ?m"
      using assms(1) False by (intro mod_pos_pos_trivial) auto
    finally have "x mod ?m = x + ?m" .
    then show ?thesis using v assms False by (simp add: le_sval_def Let_def)
  qed
qed

end
