(* ===== verification/Ordered_Map.thy ===== *)
theory Ordered_Map
  imports Prelude
begin

text \<open>
  The kernel's tables are \<open>BTreeMap\<close>s: finite maps iterated in key order, with range queries.
  The model is the list of entries in key order. \<open>bget\<close> is \<open>get\<close>, \<open>binsert\<close> is
  \<open>insert\<close> (which replaces), \<open>bremove\<close> is \<open>remove\<close>, \<open>bupdate\<close> is a write
  through \<open>get_mut\<close>, \<open>brange\<close> is \<open>range(lo..hi)\<close>, \<open>blast_le\<close> and
  \<open>blast_lt\<close> are \<open>range(..=k).next_back()\<close> and \<open>range(..k).next_back()\<close>.

  The locale \<open>ordered_map\<close> is the contract the components rely on, and it is interpreted on
  these functions. The laws of lookup need no invariant; \<open>bwf\<close> (strictly ascending keys)
  matters only where the order of entries does.
\<close>

type_synonym ('k, 'v) bmap = "('k \<times> 'v) list"

definition bget :: "('k, 'v) bmap \<Rightarrow> 'k \<Rightarrow> 'v option" where
  "bget m k = map_of m k"

fun binsert :: "('k::linorder) \<Rightarrow> 'v \<Rightarrow> ('k, 'v) bmap \<Rightarrow> ('k, 'v) bmap" where
  "binsert k v [] = [(k, v)]"
| "binsert k v ((a, b) # m) =
     (if k < a then (k, v) # (a, b) # m
      else if k = a then (k, v) # m
      else (a, b) # binsert k v m)"

definition bremove :: "'k \<Rightarrow> ('k, 'v) bmap \<Rightarrow> ('k, 'v) bmap" where
  "bremove k m = filter (\<lambda>e. fst e \<noteq> k) m"

definition bupdate :: "'k \<Rightarrow> ('v \<Rightarrow> 'v) \<Rightarrow> ('k, 'v) bmap \<Rightarrow> ('k, 'v) bmap" where
  "bupdate k f m = map (\<lambda>e. if fst e = k then (fst e, f (snd e)) else e) m"

definition bkeys :: "('k, 'v) bmap \<Rightarrow> 'k list" where
  "bkeys m = map fst m"

definition brange :: "('k::linorder) \<Rightarrow> 'k \<Rightarrow> ('k, 'v) bmap \<Rightarrow> ('k, 'v) bmap" where
  "brange lo hi m = filter (\<lambda>e. lo \<le> fst e \<and> fst e < hi) m"

definition last_opt :: "'a list \<Rightarrow> 'a option" where
  "last_opt xs = (if xs = [] then None else Some (last xs))"

definition blast_le :: "('k::linorder) \<Rightarrow> ('k, 'v) bmap \<Rightarrow> ('k \<times> 'v) option" where
  "blast_le k m = last_opt (filter (\<lambda>e. fst e \<le> k) m)"

definition blast_lt :: "('k::linorder) \<Rightarrow> ('k, 'v) bmap \<Rightarrow> ('k \<times> 'v) option" where
  "blast_lt k m = last_opt (filter (\<lambda>e. fst e < k) m)"

definition bwf :: "('k::linorder, 'v) bmap \<Rightarrow> bool" where
  "bwf m \<longleftrightarrow> sorted_wrt (<) (map fst m)"

section \<open>The contract\<close>

locale ordered_map =
  fixes get :: "'m \<Rightarrow> 'k::linorder \<Rightarrow> 'v option"
    and ins :: "'k \<Rightarrow> 'v \<Rightarrow> 'm \<Rightarrow> 'm"
    and del :: "'k \<Rightarrow> 'm \<Rightarrow> 'm"
    and upd :: "'k \<Rightarrow> ('v \<Rightarrow> 'v) \<Rightarrow> 'm \<Rightarrow> 'm"
    and keys :: "'m \<Rightarrow> 'k list"
    and invar :: "'m \<Rightarrow> bool"
  assumes get_ins: "get (ins k v m) = (get m)(k \<mapsto> v)"
    and get_del: "get (del k m) = (get m)(k := None)"
    and get_upd: "get (upd k f m) = (get m)(k := map_option f (get m k))"
    and keys_dom: "set (keys m) = dom (get m)"
    and keys_sorted: "invar m \<Longrightarrow> sorted_wrt (<) (keys m)"
    and invar_ins: "invar m \<Longrightarrow> invar (ins k v m)"
    and invar_del: "invar m \<Longrightarrow> invar (del k m)"
    and invar_upd: "invar m \<Longrightarrow> invar (upd k f m)"
begin

lemma get_ins_apply: "get (ins k v m) k' = (if k' = k then Some v else get m k')"
  by (simp add: get_ins)

lemma get_del_apply: "get (del k m) k' = (if k' = k then None else get m k')"
  by (simp add: get_del)

lemma get_upd_apply: "get (upd k f m) k' = (if k' = k then map_option f (get m k) else get m k')"
  by (simp add: get_upd)

lemma dom_ins: "dom (get (ins k v m)) = insert k (dom (get m))"
  by (auto simp: get_ins)

lemma dom_del: "dom (get (del k m)) = dom (get m) - {k}"
  by (auto simp: get_del)

lemma dom_upd: "dom (get (upd k f m)) = dom (get m)"
  by (auto simp: get_upd split: if_splits)

lemma finite_dom: "finite (dom (get m))"
  by (metis keys_dom List.finite_set)

lemma keys_distinct: "invar m \<Longrightarrow> distinct (keys m)"
  using keys_sorted strict_sorted_iff by blast

lemma length_keys: "invar m \<Longrightarrow> length (keys m) = card (dom (get m))"
  by (metis distinct_card keys_distinct keys_dom)

lemma length_keys_ins_fresh:
  assumes "invar m" and "get m k = None"
  shows "length (keys (ins k v m)) = Suc (length (keys m))"
proof -
  have "k \<notin> dom (get m)" using assms(2) by auto
  then show ?thesis
    using assms(1) invar_ins by (simp add: length_keys dom_ins finite_dom)
qed

end

section \<open>The entry list implements it\<close>

lemma bget_simps [simp]:
  "bget [] k = None"
  "bget ((a, b) # m) k = (if k = a then Some b else bget m k)"
  by (auto simp: bget_def)

lemma bget_binsert: "bget (binsert k v m) = (bget m)(k \<mapsto> v)"
  by (induction k v m rule: binsert.induct) (auto simp: fun_eq_iff bget_def)

lemma bget_bremove: "bget (bremove k m) = (bget m)(k := None)"
  by (induction m) (auto simp: fun_eq_iff bget_def bremove_def)

lemma bget_bupdate: "bget (bupdate k f m) = (bget m)(k := map_option f (bget m k))"
  by (induction m) (auto simp: fun_eq_iff bget_def bupdate_def)

lemma bkeys_dom: "set (bkeys m) = dom (bget m)"
  by (induction m) (auto simp: bkeys_def dom_def split: if_splits)

lemma binsert_fst_set: "fst ` set (binsert k v m) = insert k (fst ` set m)"
  by (induction k v m rule: binsert.induct) auto

lemma bwf_binsert: "bwf m \<Longrightarrow> bwf (binsert k v m)"
proof (induction k v m rule: binsert.induct)
  case (2 k v a b m)
  have eq: "\<forall>x \<in> set (map fst (binsert k v m)). x = k \<or> x \<in> set (map fst m)"
    using binsert_fst_set [of k v m] by auto
  from 2 have m: "\<forall>x \<in> set (map fst m). a < x" "bwf m" by (auto simp: bwf_def)
  consider "k < a" | "k = a" | "a < k" by (rule linorder_cases)
  then show ?case
  proof cases
    case 3
    with eq m have "\<forall>x \<in> set (map fst (binsert k v m)). a < x" by metis
    with 3 2 m show ?thesis by (auto simp: bwf_def)
  qed (use m in \<open>auto simp: bwf_def\<close>)
qed (simp add: bwf_def)

lemma map_fst_bupdate [simp]: "map fst (bupdate k f m) = map fst m"
  by (induction m) (auto simp: bupdate_def)

lemma bwf_bupdate: "bwf m \<Longrightarrow> bwf (bupdate k f m)"
  by (simp add: bwf_def)

lemma bwf_filter: "bwf m \<Longrightarrow> bwf (filter P m)"
  by (induction m) (auto simp: bwf_def)

lemma bwf_bremove: "bwf m \<Longrightarrow> bwf (bremove k m)"
  by (simp add: bremove_def bwf_filter)

interpretation bm: ordered_map bget binsert bremove bupdate bkeys bwf
proof unfold_locales
  show "bwf m \<Longrightarrow> sorted_wrt (<) (bkeys m)" for m :: "('a, 'b) bmap"
    by (simp add: bwf_def bkeys_def)
qed (simp_all add: bget_binsert bget_bremove bget_bupdate bkeys_dom bwf_binsert bwf_bremove
      bwf_bupdate)

lemmas bmap_get [simp, bmap_simps] = bm.get_ins_apply bm.get_del_apply bm.get_upd_apply
lemmas bmap_wf [simp, intro, bmap_simps] = bm.invar_ins bm.invar_del bm.invar_upd

lemma bwf_Nil [simp]: "bwf []"
  by (simp add: bwf_def)

lemma length_bkeys [simp]: "length (bkeys m) = length m"
  by (simp add: bkeys_def)

lemma length_bupdate [simp]: "length (bupdate k f m) = length m"
  by (simp add: bupdate_def)

lemma length_binsert_fresh: "bwf m \<Longrightarrow> bget m k = None \<Longrightarrow> length (binsert k v m) = Suc (length m)"
  using bm.length_keys_ins_fresh [of m k v] by simp

lemma bget_in_set: "bget m k = Some v \<Longrightarrow> (k, v) \<in> set m"
  by (simp add: bget_def map_of_SomeD)

lemma bwf_distinct: "bwf m \<Longrightarrow> distinct (map fst m)"
  using bm.keys_distinct [of m] by (simp add: bkeys_def)

lemma bwf_in_set_iff: "bwf m \<Longrightarrow> (k, v) \<in> set m \<longleftrightarrow> bget m k = Some v"
  by (simp add: bget_def bwf_distinct)

lemma bget_None_iff: "bget m k = None \<longleftrightarrow> k \<notin> fst ` set m"
  by (simp add: bget_def map_of_eq_None_iff)

section \<open>Neighbouring keys\<close>

lemma last_opt_filter_Some:
  assumes "bwf m" and "last_opt (filter (\<lambda>e. P (fst e)) m) = Some (s, e)"
  shows "(s, e) \<in> set m \<and> P s \<and> (\<forall>s' e'. (s', e') \<in> set m \<longrightarrow> P s' \<longrightarrow> s' \<le> s)"
proof -
  define f where "f = filter (\<lambda>e. P (fst e)) m"
  from assms(2) have "f \<noteq> []" and "last f = (s, e)"
    by (auto simp: last_opt_def f_def split: if_splits)
  then have f: "f = butlast f @ [(s, e)]" using append_butlast_last_id by metis
  then obtain ys where ys: "f = ys @ [(s, e)]" by blast
  have "bwf f" unfolding f_def using assms(1) by (rule bwf_filter)
  then have "\<forall>x \<in> set f. fst x \<le> s" unfolding ys by (auto simp: bwf_def sorted_wrt_append)
  moreover have "set f = {x \<in> set m. P (fst x)}" by (simp add: f_def)
  moreover have "(s, e) \<in> set f" by (simp add: ys)
  ultimately show ?thesis by auto
qed

lemma last_opt_filter_None:
  "last_opt (filter (\<lambda>e. P (fst e)) m) = None \<longleftrightarrow> (\<forall>e \<in> set m. \<not> P (fst e))"
  by (auto simp: last_opt_def filter_empty_conv)

lemma blast_le_Some:
  assumes "bwf m" and "blast_le k m = Some (s, e)"
  shows "bget m s = Some e" and "s \<le> k" and "bget m s' = Some e' \<Longrightarrow> s' \<le> k \<Longrightarrow> s' \<le> s"
  using last_opt_filter_Some [OF assms(1), of "\<lambda>x. x \<le> k" s e] assms
  by (auto simp: blast_le_def bwf_in_set_iff)

lemma blast_le_None: "blast_le k m = None \<Longrightarrow> bget m s = Some e \<Longrightarrow> k < s"
  using last_opt_filter_None [of "\<lambda>x. x \<le> k" m]
  by (fastforce simp: blast_le_def dest: bget_in_set)

lemma blast_lt_Some:
  assumes "bwf m" and "blast_lt k m = Some (s, e)"
  shows "bget m s = Some e" and "s < k" and "bget m s' = Some e' \<Longrightarrow> s' < k \<Longrightarrow> s' \<le> s"
  using last_opt_filter_Some [OF assms(1), of "\<lambda>x. x < k" s e] assms
  by (auto simp: blast_lt_def bwf_in_set_iff)

lemma blast_lt_None: "blast_lt k m = None \<Longrightarrow> bget m s = Some e \<Longrightarrow> k \<le> s"
  using last_opt_filter_None [of "\<lambda>x. x < k" m]
  by (fastforce simp: blast_lt_def dest: bget_in_set)

lemma bget_brange:
  "bget (brange lo hi m) k = (if lo \<le> k \<and> k < hi then bget m k else None)"
  by (induction m) (auto simp: brange_def bget_def)

lemma brange_empty_iff:
  "brange lo hi m = [] \<longleftrightarrow> (\<forall>k v. bget m k = Some v \<longrightarrow> lo \<le> k \<longrightarrow> hi \<le> k)"
proof -
  have "brange lo hi m = [] \<longleftrightarrow> (\<forall>k \<in> fst ` set m. lo \<le> k \<longrightarrow> hi \<le> k)"
    by (auto simp: brange_def filter_empty_conv not_less)
  also have "fst ` set m = {k. \<exists>v. bget m k = Some v}"
    using bkeys_dom [of m] by (auto simp: bkeys_def dom_def)
  finally show ?thesis by blast
qed

lemma bwf_brange [simp]: "bwf m \<Longrightarrow> bwf (brange lo hi m)"
  by (simp add: brange_def bwf_filter)

lemma set_brange: "set (brange lo hi m) = {e \<in> set m. lo \<le> fst e \<and> fst e < hi}"
  by (simp add: brange_def)

section \<open>Extensionality\<close>

lemma bmap_eqI:
  assumes "bwf m" and "bwf n" and "\<And>k. bget m k = bget n k"
  shows "m = n"
proof -
  have "map_of m = map_of n" using assms(3) by (simp add: fun_eq_iff bget_def)
  then have se: "set m = set n"
    using assms(1,2) by (simp add: map_of_inject_set bwf_distinct)
  have fst_eq: "map fst m = map fst n"
  proof (rule sorted_distinct_set_unique)
    show "set (map fst m) = set (map fst n)" using se by simp
  qed (use assms(1,2) in \<open>simp_all add: bwf_def strict_sorted_iff\<close>)
  have "inj_on fst (set m)" using assms(1) bwf_distinct distinct_map by blast
  then show ?thesis using fst_eq se by (simp add: inj_on_map_eq_map)
qed

section \<open>Sums over the entries\<close>

definition bsum :: "('k \<Rightarrow> 'v \<Rightarrow> int) \<Rightarrow> ('k, 'v) bmap \<Rightarrow> int" where
  "bsum f m = sum_list (map (\<lambda>(k, v). f k v) m)"

definition bterm :: "('k \<Rightarrow> 'v \<Rightarrow> int) \<Rightarrow> 'k \<Rightarrow> 'v option \<Rightarrow> int" where
  "bterm f k v = (case v of None \<Rightarrow> 0 | Some v \<Rightarrow> f k v)"

lemma bterm_simps [simp]: "bterm f k None = 0" "bterm f k (Some v) = f k v"
  by (simp_all add: bterm_def)

lemma bsum_simps [simp]: "bsum f [] = 0" "bsum f ((k, v) # m) = f k v + bsum f m"
  by (simp_all add: bsum_def)

lemma bwf_Cons: "bwf ((k, v) # m) \<longleftrightarrow> (\<forall>x \<in> fst ` set m. k < x) \<and> bwf m"
  by (auto simp: bwf_def)

lemma bsum_binsert:
  "bwf m \<Longrightarrow> bsum f (binsert k v m) = bsum f m - bterm f k (bget m k) + f k v"
proof (induction k v m rule: binsert.induct)
  case (2 k v a b m)
  have "bget m k = None" if "k < a"
    using 2(2) that by (auto simp: bwf_Cons bget_None_iff)
  then show ?case using 2 by (auto simp: bwf_Cons)
qed simp

lemma bremove_fresh: "k \<notin> fst ` set m \<Longrightarrow> bremove k m = m"
  by (force simp: bremove_def filter_id_conv)

lemma bsum_bremove: "bwf m \<Longrightarrow> bsum f (bremove k m) = bsum f m - bterm f k (bget m k)"
proof (induction m)
  case (Cons x m)
  obtain a b where x: "x = (a, b)" by (cases x)
  have "k = a \<Longrightarrow> bremove k m = m" using Cons.prems by (auto simp: x bwf_Cons intro!: bremove_fresh)
  then show ?case using Cons by (auto simp: x bwf_Cons bremove_def)
qed (simp add: bremove_def)

lemma bupdate_as_insert:
  assumes "bwf m" and "bget m k = Some v"
  shows "bupdate k f m = binsert k (f v) m"
  by (rule bmap_eqI) (use assms in auto)

lemma bsum_nonneg: "(\<And>k v. bget m k = Some v \<Longrightarrow> 0 \<le> f k v) \<Longrightarrow> bwf m \<Longrightarrow> 0 \<le> bsum f m"
proof (induction m)
  case (Cons x m)
  obtain a b where x: "x = (a, b)" by (cases x)
  have "0 \<le> f k v" if "bget m k = Some v" for k v
  proof -
    have "a < k" using Cons.prems(2) bget_in_set [OF that] by (force simp: x bwf_Cons)
    then have "k \<noteq> a" by blast
    then show ?thesis using Cons.prems(1) [of k v] that by (simp add: x)
  qed
  then show ?case using Cons by (auto simp: x bwf_Cons)
qed simp

end
