(* ===== verification/Process_Table.thy ===== *)
theory Process_Table
  imports Ordered_Map
begin

text \<open>
  The process table and what every blocking primitive does with it: \<open>sys/process/mod.rs\<close>
  (states, block reasons, the \<open>Process\<close> fields the modelled code uses) and
  \<open>sys/process/identity.rs\<close> (credentials).

  A kernel state \<open>kcore\<close> holds the table, the ready queue, the running pid, the clocks and the
  threads queued for reaping. The many wake-up functions of the kernel
  (\<open>wake_blocked_readers\<close>, \<open>wake_blocked_semop\<close>, \<open>wake_pollers\<close>, the timer's
  deadline scan, ...) are one loop with different conditions: walk the table in pid order and, for
  each process whose state satisfies the condition, make it ready and append it to the ready queue.
  \<open>wake_where\<close> is that loop, and the lemmas about it are proved once here.
\<close>

section \<open>States\<close>

datatype block_reason =
    WaitingForFsLock
  | WaitingForDisk
  | WaitingForChild "pid option"
  | WaitingForPipeData nat
  | WaitingForPipeSpace nat
  | WaitingForTty nat "nat option"
  | WaitingForTtyOutput nat
  | Sleeping nat
  | KernelSleep nat nat nat
  | WaitingForSignal
  | Polling nat
  | WaitingForMqData nat nat
  | WaitingForMqSpace nat nat
  | WaitingForSysvMsgSend nat
  | WaitingForSysvMsgRecv nat
  | WaitingForFlock nat
  | WaitingForSemOp nat nat bool nat
  | WaitingForSpecificSignal u64 nat
  | WaitingForFutex pid nat nat
  | WaitingForVforkChild pid

datatype proc_state = Ready | Running | Blocked block_reason | Zombie int | Stopped nat

section \<open>Credentials\<close>

record cred =
  ruid :: nat
  euid :: nat
  suid :: nat
  rgid :: nat
  egid :: nat
  sgid :: nat
  cgroups :: "nat list"

definition cred_root :: cred where
  "cred_root = \<lparr> ruid = 0, euid = 0, suid = 0, rgid = 0, egid = 0, sgid = 0, cgroups = [0] \<rparr>"

definition privileged :: "cred \<Rightarrow> bool" where
  "privileged c \<longleftrightarrow> euid c = 0"

definition in_group :: "cred \<Rightarrow> nat \<Rightarrow> bool \<Rightarrow> bool" where
  "in_group c gid real \<longleftrightarrow> (if real then rgid c else egid c) = gid \<or> gid \<in> set (cgroups c)"

definition may_signal :: "cred \<Rightarrow> cred \<Rightarrow> bool" where
  "may_signal c target \<longleftrightarrow> privileged c
     \<or> list_ex (\<lambda>i. i = ruid target \<or> i = suid target) [ruid c, euid c]"

definition may_see :: "bool \<Rightarrow> cred \<Rightarrow> nat list \<Rightarrow> bool" where
  "may_see see_other_uids c uids \<longleftrightarrow> see_other_uids \<or> privileged c \<or> ruid c \<in> set uids"

definition may_schedule :: "cred \<Rightarrow> cred \<Rightarrow> bool" where
  "may_schedule c target \<longleftrightarrow> privileged c \<or> euid c = ruid target \<or> euid c = euid target"

section \<open>Processes\<close>

record sigaction =
  sa_handler :: u64
  sa_flags :: u64
  sa_restorer :: u64
  sa_mask :: u64

record siginfo =
  si_code :: int
  si_pid :: pid
  si_uid :: nat
  si_value :: u64

record cascade_budget =
  cb_standard :: u64
  cb_rt :: "nat list"

record signal_stack_frame =
  sf_saved :: "u64 list"
  sf_blocked_before :: u64
  sf_used_altstack :: bool
  sf_ucontext_addr :: u64

record thread_group_shared =
  tg_cred :: cred
  tg_sigactions :: "sigaction list"

record process =
  p_tgid :: pid
  p_parent :: "pid option"
  p_state :: proc_state
  p_space :: "nat option"
  p_shared :: thread_group_shared
  p_pending :: u64
  p_blocked :: u64
  p_signal_stack :: "signal_stack_frame list"
  p_on_altstack :: bool
  p_estcpu :: nat
  p_pgid :: pid
  p_timer_deadline :: "nat option"
  p_timer_interval :: nat
  p_nice :: int
  p_sched_policy :: int
  p_sched_priority :: int
  p_stop_notify :: bool
  p_cont_notify :: bool
  p_sigsuspend_mask :: "u64 option"
  p_sem_undo :: "(int \<times> nat \<times> int) list"
  p_siginfo :: "siginfo list"
  p_rt_queue :: "siginfo list list"
  p_cpu_ticks :: nat
  p_sys_ticks :: nat
  p_quantum :: nat
  p_cascade :: "cascade_budget option"

datatype reap_kind = RemoveEntry | TeardownOnly

record kcore =
  k_table :: "(pid, process) bmap"
  k_ready :: "pid list"
  k_current :: pid
  k_ticks :: nat
  k_epoch :: nat
  k_reaps :: "(pid \<times> reap_kind) list"
  k_see_other_uids :: bool
  k_sleep_seq :: nat

definition kernel_tgid :: pid where
  "kernel_tgid = 0"

definition is_kernel_thread :: "process \<Rightarrow> bool" where
  "is_kernel_thread p \<longleftrightarrow> p_tgid p = kernel_tgid"

definition current_cred :: "kcore \<Rightarrow> cred" where
  "current_cred k =
     (if k_current k = 0 then cred_root
      else case bget (k_table k) (k_current k) of
        Some p \<Rightarrow> tg_cred (p_shared p)
      | None \<Rightarrow> cred_root)"

definition current_tgid :: "kcore \<Rightarrow> pid" where
  "current_tgid k =
     (case bget (k_table k) (k_current k) of Some p \<Rightarrow> p_tgid p | None \<Rightarrow> k_current k)"

definition enqueue_ready :: "pid \<Rightarrow> kcore \<Rightarrow> kcore" where
  "enqueue_ready pid k = k\<lparr>k_ready := k_ready k @ [pid]\<rparr>"

definition remove_ready :: "pid \<Rightarrow> kcore \<Rightarrow> kcore" where
  "remove_ready pid k = k\<lparr>k_ready := filter (\<lambda>p. p \<noteq> pid) (k_ready k)\<rparr>"

section \<open>Changing one process\<close>

definition upd_proc :: "pid \<Rightarrow> (process \<Rightarrow> process) \<Rightarrow> kcore \<Rightarrow> kcore" where
  "upd_proc pid f k = k\<lparr>k_table := bupdate pid f (k_table k)\<rparr>"

definition set_state :: "proc_state \<Rightarrow> process \<Rightarrow> process" where
  "set_state st p = p\<lparr>p_state := st\<rparr>"

text \<open>
  A blocking loop's \<open>if let Some(proc) = table.get_mut(&pid) { proc.state = Blocked(reason) }\<close>;
  the caller then gives up the CPU.
\<close>

definition block_current :: "block_reason \<Rightarrow> kcore \<Rightarrow> kcore" where
  "block_current r k = upd_proc (k_current k) (set_state (Blocked r)) k"

text \<open>A wake-up of one process: state ready, at the tail of the ready queue.\<close>

definition wake_proc :: "pid \<Rightarrow> kcore \<Rightarrow> kcore" where
  "wake_proc pid k = enqueue_ready pid (upd_proc pid (set_state Ready) k)"

section \<open>The wake-up loop\<close>

fun wake_entries :: "(proc_state \<Rightarrow> bool) \<Rightarrow> (pid, process) bmap \<Rightarrow> (pid, process) bmap \<times> pid list"
where
  "wake_entries P [] = ([], [])"
| "wake_entries P ((pid, p) # t) =
     (let (t', woken) = wake_entries P t in
      if P (p_state p) then ((pid, set_state Ready p) # t', pid # woken)
      else ((pid, p) # t', woken))"

definition wake_where :: "(proc_state \<Rightarrow> bool) \<Rightarrow> kcore \<Rightarrow> kcore" where
  "wake_where P k =
     (let (t', woken) = wake_entries P (k_table k) in
      k\<lparr>k_table := t', k_ready := k_ready k @ woken\<rparr>)"

definition is_polling :: "proc_state \<Rightarrow> bool" where
  "is_polling st \<longleftrightarrow> (case st of Blocked (Polling _) \<Rightarrow> True | _ \<Rightarrow> False)"

definition wake_pollers :: "kcore \<Rightarrow> kcore" where
  "wake_pollers = wake_where is_polling"

section \<open>What the wake-up loop does\<close>

lemma wake_entries_woken: "snd (wake_entries P t) = map fst (filter (\<lambda>e. P (p_state (snd e))) t)"
  by (induction P t rule: wake_entries.induct) (auto split: prod.splits)

lemma wake_entries_table:
  "fst (wake_entries P t) = map (\<lambda>(i, p). (i, if P (p_state p) then set_state Ready p else p)) t"
  by (induction P t rule: wake_entries.induct) (auto split: prod.splits)

lemma wake_where_table:
  "k_table (wake_where P k) =
     map (\<lambda>(i, p). (i, if P (p_state p) then set_state Ready p else p)) (k_table k)"
  by (simp add: wake_where_def wake_entries_table split: prod.splits) (metis fst_conv wake_entries_table)

lemma wake_where_ready:
  "k_ready (wake_where P k) = k_ready k @ map fst (filter (\<lambda>e. P (p_state (snd e))) (k_table k))"
  by (simp add: wake_where_def split: prod.splits) (metis snd_conv wake_entries_woken)

lemma bget_map_snd: "bget (map (\<lambda>(i, p). (i, f p)) t) pid = map_option f (bget t pid)"
  by (induction t) auto

lemma wake_where_get:
  "bget (k_table (wake_where P k)) pid =
     map_option (\<lambda>p. if P (p_state p) then set_state Ready p else p) (bget (k_table k) pid)"
  by (simp add: wake_where_table bget_map_snd)

lemma wake_where_frame [simp]:
  "k_current (wake_where P k) = k_current k"
  "k_ticks (wake_where P k) = k_ticks k"
  "k_epoch (wake_where P k) = k_epoch k"
  "k_reaps (wake_where P k) = k_reaps k"
  "k_see_other_uids (wake_where P k) = k_see_other_uids k"
  "k_sleep_seq (wake_where P k) = k_sleep_seq k"
  by (simp_all add: wake_where_def split: prod.splits)

lemma set_state_sel [simp]:
  "p_state (set_state st p) = st"
  "p_tgid (set_state st p) = p_tgid p"
  "p_shared (set_state st p) = p_shared p"
  "p_pending (set_state st p) = p_pending p"
  "p_blocked (set_state st p) = p_blocked p"
  "p_sem_undo (set_state st p) = p_sem_undo p"
  "p_space (set_state st p) = p_space p"
  "p_parent (set_state st p) = p_parent p"
  by (simp_all add: set_state_def)

lemma upd_proc_sel [simp]:
  "k_table (upd_proc pid f k) = bupdate pid f (k_table k)"
  "k_ready (upd_proc pid f k) = k_ready k"
  "k_current (upd_proc pid f k) = k_current k"
  "k_ticks (upd_proc pid f k) = k_ticks k"
  "k_epoch (upd_proc pid f k) = k_epoch k"
  "k_reaps (upd_proc pid f k) = k_reaps k"
  "k_see_other_uids (upd_proc pid f k) = k_see_other_uids k"
  "k_sleep_seq (upd_proc pid f k) = k_sleep_seq k"
  by (simp_all add: upd_proc_def)

lemma bwf_map_snd: "bwf (map (\<lambda>(i, p). (i, f p)) t) = bwf t"
proof -
  have "map fst (map (\<lambda>(i, p). (i, f p)) t) = map fst t" by (induction t) auto
  then show ?thesis by (simp only: bwf_def)
qed

lemma bwf_wake_where [simp]: "bwf (k_table (wake_where P k)) = bwf (k_table k)"
  by (simp add: wake_where_table bwf_map_snd)

lemma in_filter_fst_iff:
  assumes "bwf t"
  shows "pid \<in> fst ` set (filter (\<lambda>e. Q (snd e)) t) \<longleftrightarrow> (\<exists>p. bget t pid = Some p \<and> Q p)"
proof
  assume "pid \<in> fst ` set (filter (\<lambda>e. Q (snd e)) t)"
  then obtain p where "(pid, p) \<in> set t" "Q p" by auto
  then show "\<exists>p. bget t pid = Some p \<and> Q p" using bwf_in_set_iff [OF assms] by blast
next
  assume "\<exists>p. bget t pid = Some p \<and> Q p"
  then obtain p where "bget t pid = Some p" "Q p" by blast
  then have "(pid, p) \<in> set (filter (\<lambda>e. Q (snd e)) t)" using bget_in_set by fastforce
  then show "pid \<in> fst ` set (filter (\<lambda>e. Q (snd e)) t)" by force
qed

section \<open>The ready queue's invariant\<close>

text \<open>
  The invariant the kernel states in \<open>schedule_inner\<close>: the queue holds exactly the pids whose
  state is \<open>Ready\<close>, each once.
\<close>

definition is_ready :: "kcore \<Rightarrow> pid \<Rightarrow> bool" where
  "is_ready k pid \<longleftrightarrow> (\<exists>p. bget (k_table k) pid = Some p \<and> p_state p = Ready)"

definition ready_inv :: "kcore \<Rightarrow> bool" where
  "ready_inv k \<longleftrightarrow> bwf (k_table k) \<and> distinct (k_ready k)
     \<and> (\<forall>pid. pid \<in> set (k_ready k) \<longleftrightarrow> is_ready k pid)"

lemma ready_invD:
  assumes "ready_inv k"
  shows "bwf (k_table k)" and "distinct (k_ready k)"
    and "pid \<in> set (k_ready k) \<longleftrightarrow> is_ready k pid"
  using assms by (simp_all add: ready_inv_def)

text \<open>Every wake-up condition in the kernel matches some blocked states only.\<close>

locale wake_condition =
  fixes cond :: "'i \<Rightarrow> proc_state \<Rightarrow> bool"
  assumes cond_blocked: "cond i st \<Longrightarrow> \<exists>r. st = Blocked r"
begin

lemma cond_not_ready: "\<not> cond i Ready" and cond_not_running: "\<not> cond i Running"
  using cond_blocked by blast+

lemma is_ready_wake:
  "is_ready (wake_where (cond i) k) pid \<longleftrightarrow>
     is_ready k pid \<or> (\<exists>p. bget (k_table k) pid = Some p \<and> cond i (p_state p))"
  by (cases "bget (k_table k) pid") (auto simp: is_ready_def wake_where_get)

lemma wake_ready_inv:
  assumes "ready_inv k"
  shows "ready_inv (wake_where (cond i) k)"
proof -
  note inv = ready_invD [OF assms]
  let ?W = "filter (\<lambda>e. cond i (p_state (snd e))) (k_table k)"
  have "distinct (map fst ?W)" using bwf_distinct [OF bwf_filter [OF inv(1)]] .
  moreover have mem: "pid \<in> fst ` set ?W \<longleftrightarrow> (\<exists>p. bget (k_table k) pid = Some p \<and> cond i (p_state p))" for pid
    by (rule in_filter_fst_iff [OF inv(1)])
  moreover have "x \<notin> fst ` set ?W" if "x \<in> set (k_ready k)" for x
    using that mem [of x] inv(3) [of x] cond_not_ready by (metis is_ready_def option.inject)
  then have "set (k_ready k) \<inter> fst ` set ?W = {}" by blast
  ultimately show ?thesis
    using inv by (simp add: ready_inv_def wake_where_ready is_ready_wake del: set_filter)
qed

lemma wake_none_left:
  assumes "bget (k_table (wake_where (cond i) k)) pid = Some p"
  shows "\<not> cond i (p_state p)"
proof -
  from assms obtain q where "p = (if cond i (p_state q) then set_state Ready q else q)"
    by (auto simp: wake_where_get)
  then show ?thesis using cond_not_ready by (cases "cond i (p_state q)") auto
qed

lemma wake_others_keep:
  assumes "bget (k_table k) pid = Some p" and "\<not> cond i (p_state p)"
  shows "bget (k_table (wake_where (cond i) k)) pid = Some p"
  using assms by (simp add: wake_where_get)

lemma wake_blocked_iff:
  "bget (k_table (wake_where (cond i) k)) pid = Some p \<and> p_state p = Blocked r \<longleftrightarrow>
     bget (k_table k) pid = Some p \<and> p_state p = Blocked r \<and> \<not> cond i (Blocked r)"
  by (cases "bget (k_table k) pid") (auto simp: wake_where_get)

end

interpretation pollers: wake_condition "\<lambda>_ :: unit. is_polling"
  by unfold_locales (auto simp: is_polling_def split: proc_state.splits)

lemma wake_pollers_ready_inv: "ready_inv k \<Longrightarrow> ready_inv (wake_pollers k)"
  unfolding wake_pollers_def by (rule pollers.wake_ready_inv)

lemma is_ready_upd_proc:
  "is_ready (upd_proc pid f k) q \<longleftrightarrow>
     (if q = pid then \<exists>p. bget (k_table k) pid = Some p \<and> p_state (f p) = Ready else is_ready k q)"
  by (auto simp: is_ready_def)

text \<open>Changing a field other than the state, and blocking a process that is not ready.\<close>

lemma ready_inv_upd_same:
  assumes "ready_inv k" and "\<And>p. p_state (f p) = p_state p"
  shows "ready_inv (upd_proc pid f k)"
  using assms by (auto simp: ready_inv_def is_ready_upd_proc is_ready_def)

lemma ready_inv_upd_not_ready:
  assumes "ready_inv k" and "\<not> is_ready k pid" and "\<And>p. p_state (f p) \<noteq> Ready"
  shows "ready_inv (upd_proc pid f k)"
  using assms by (auto simp: ready_inv_def is_ready_upd_proc)

lemma ready_inv_block_current:
  assumes "ready_inv k" and "\<not> is_ready k (k_current k)"
  shows "ready_inv (block_current r k)"
  unfolding block_current_def by (rule ready_inv_upd_not_ready [OF assms]) simp

lemma ready_inv_wake_proc:
  assumes "ready_inv k" and "bget (k_table k) pid = Some p" and "p_state p \<noteq> Ready"
  shows "ready_inv (wake_proc pid k)"
  using assms
  by (auto simp: ready_inv_def wake_proc_def enqueue_ready_def is_ready_def)

lemma ready_inv_remove_ready:
  assumes "ready_inv k" and "\<And>p. p_state (f p) \<noteq> Ready"
  shows "ready_inv (upd_proc pid f (remove_ready pid k))"
  using assms by (auto simp: ready_inv_def remove_ready_def is_ready_def)

end
