(* ===== verification/Scheduler.thy ===== *)
theory Scheduler
  imports Process_Table
begin

text \<open>
  The scheduler: the 4.4BSD priorities of \<open>sys/process/sched_4bsd.rs\<close>, the ready queue and the
  context switch decision of \<open>sys/process/scheduler.rs\<close>, wait channels and the load average of
  \<open>sys/kern/kern_synch.rs\<close>, and the timer's deadline scan
  (\<open>sys/cpu/interrupts.rs\<close>, \<open>timer_interrupt_handler\<close>).

  \<open>schedule_inner\<close> is the function up to the context switch itself: the registers, page tables
  and floating-point state it swaps are hardware. Its idle wait is the result \<open>Idle\<close>: nothing
  is ready until an interrupt changes the state.
\<close>

section \<open>Priorities\<close>

definition pri_min_timeshare :: nat where "pri_min_timeshare = 120"
definition pri_max_timeshare :: nat where "pri_max_timeshare = 223"
definition prio_min :: int where "prio_min = -20"
definition prio_max :: int where "prio_max = 20"
definition nice_weight :: nat where "nice_weight = 1"
definition inverse_estcpu_weight :: nat where "inverse_estcpu_weight = 8"
definition rq_ppq :: nat where "rq_ppq = 4"
definition realtime_keys :: nat where "realtime_keys = 100"
definition pri_kern :: nat where "pri_kern = realtime_keys"
definition sched_fifo :: int where "sched_fifo = 1"
definition sched_rr :: int where "sched_rr = 2"
definition fshift :: nat where "fshift = 11"
definition fscale :: nat where "fscale = 2 ^ fshift"
definition timer_hz :: nat where "timer_hz = 100"
definition preempt_quantum_ticks :: nat where "preempt_quantum_ticks = 4"
definition u32_max :: nat where "u32_max = 2 ^ 32 - 1"

definition estcpu_limit :: nat where
  "estcpu_limit =
     inverse_estcpu_weight * (nice_weight * nat (prio_max - prio_min) - rq_ppq)
       + inverse_estcpu_weight - 1"

definition charge_tick :: "process \<Rightarrow> process" where
  "charge_tick p = p\<lparr>p_estcpu := min (p_estcpu p + 1) estcpu_limit\<rparr>"

text \<open>The decay: \<open>load\<close> is the one-minute average of \<open>kern_synch::averages\<close>.\<close>

definition decay :: "nat \<Rightarrow> nat \<Rightarrow> nat" where
  "decay load est =
     (let loadfac = 2 * load;
          (num, den) = (if loadfac = 0 then (1, 2) else (loadfac, loadfac + fscale))
      in est * num div den)"

definition schedcpu :: "nat \<Rightarrow> (pid, process) bmap \<Rightarrow> (pid, process) bmap" where
  "schedcpu load t = map (\<lambda>(i, p). (i, p\<lparr>p_estcpu := decay load (p_estcpu p)\<rparr>)) t"

definition usrpri :: "process \<Rightarrow> nat" where
  "usrpri p =
     (let nice = unat (word_of_int (p_nice p - prio_min) :: u32) in
      min (pri_min_timeshare + p_estcpu p div inverse_estcpu_weight + nice_weight * nice)
          pri_max_timeshare)"

definition sched_key :: "process \<Rightarrow> nat" where
  "sched_key p =
     (if is_kernel_thread p then pri_kern
      else if (p_sched_policy p = sched_fifo \<or> p_sched_policy p = sched_rr) \<and> 0 < p_sched_priority p
      then realtime_keys - nat (max 1 (min 99 (p_sched_priority p)))
      else usrpri p)"

definition queue_of :: "nat \<Rightarrow> nat" where
  "queue_of key =
     (if key < realtime_keys then key else realtime_keys + (key - realtime_keys) div rq_ppq)"

section \<open>The ready queue\<close>

definition key_of :: "(pid, process) bmap \<Rightarrow> pid \<Rightarrow> nat" where
  "key_of t pid = (case bget t pid of Some p \<Rightarrow> sched_key p | None \<Rightarrow> u32_max)"

fun best_loop :: "(pid \<Rightarrow> nat) \<Rightarrow> nat \<Rightarrow> pid list \<Rightarrow> nat \<Rightarrow> nat \<Rightarrow> nat" where
  "best_loop key i [] best best_idx = best_idx"
| "best_loop key i (pid # q) best best_idx =
     (if key pid < best then best_loop key (Suc i) q (key pid) i
      else best_loop key (Suc i) q best best_idx)"

definition dequeue_highest_priority :: "kcore \<Rightarrow> pid option \<times> kcore" where
  "dequeue_highest_priority k =
     (case k_ready k of
        [] \<Rightarrow> (None, k)
      | q0 # q \<Rightarrow>
          let key = key_of (k_table k);
              i = best_loop key 1 q (key q0) 0
          in (Some (k_ready k ! i), k\<lparr>k_ready := take i (k_ready k) @ drop (Suc i) (k_ready k)\<rparr>))"

definition ready_queue_has_better_than :: "nat \<Rightarrow> kcore \<Rightarrow> bool" where
  "ready_queue_has_better_than current k \<longleftrightarrow>
     list_ex (\<lambda>pid. case bget (k_table k) pid of
                Some p \<Rightarrow> queue_of (sched_key p) < queue_of current
              | None \<Rightarrow> False) (k_ready k)"

section \<open>Reaping\<close>

definition queue_thread_reap :: "pid \<Rightarrow> reap_kind \<Rightarrow> kcore \<Rightarrow> kcore" where
  "queue_thread_reap pid kind k = k\<lparr>k_reaps := k_reaps k @ [(pid, kind)]\<rparr>"

fun reap_entry :: "pid \<Rightarrow> (pid, process) bmap \<Rightarrow> pid \<times> reap_kind \<Rightarrow> (pid, process) bmap" where
  "reap_entry cur t (pid, kind) =
     (if pid = cur then t
      else case kind of
        RemoveEntry \<Rightarrow> bremove pid t
      | TeardownOnly \<Rightarrow> bupdate pid (\<lambda>p. p\<lparr>p_space := None\<rparr>) t)"

definition reap_pending_threads :: "kcore \<Rightarrow> kcore" where
  "reap_pending_threads k =
     k\<lparr>k_table := foldl (reap_entry (k_current k)) (k_table k) (k_reaps k),
       k_reaps := filter (\<lambda>e. fst e = k_current k) (k_reaps k)\<rparr>"

section \<open>Switching\<close>

datatype sched_result = Switched kcore | Idle kcore | SchedPanic

definition run_proc :: "process \<Rightarrow> process" where
  "run_proc p = p\<lparr>p_state := Running, p_quantum := preempt_quantum_ticks\<rparr>"

definition activate_and_prepare :: "pid \<Rightarrow> kcore \<Rightarrow> kcore option" where
  "activate_and_prepare pid k =
     (case bget (k_table k) pid of
        None \<Rightarrow> None
      | Some p \<Rightarrow> if p_space p = None then None else Some (upd_proc pid run_proc k))"

definition requeue_prev :: "process \<Rightarrow> kcore \<Rightarrow> kcore" where
  "requeue_prev prev k =
     (if p_state prev = Ready \<or> p_state prev = Running then wake_proc (k_current k) k else k)"

definition switch_to_next :: "kcore \<Rightarrow> sched_result" where
  "switch_to_next k =
     (case dequeue_highest_priority k of
        (None, k1) \<Rightarrow> Idle k1
      | (Some next, k1) \<Rightarrow>
          if k_current k \<noteq> 0 \<and> next = k_current k
          then Switched (upd_proc next run_proc k1)
          else case activate_and_prepare next k1 of
                 None \<Rightarrow> SchedPanic
               | Some k2 \<Rightarrow> Switched (k2\<lparr>k_current := next\<rparr>))"

definition schedule_inner :: "kcore \<Rightarrow> sched_result" where
  "schedule_inner k0 =
     (let k = reap_pending_threads k0 in
      if k_current k = 0 then switch_to_next k
      else case bget (k_table k) (k_current k) of
             None \<Rightarrow> SchedPanic
           | Some prev \<Rightarrow> switch_to_next (requeue_prev prev k))"

definition sched_start :: "pid \<Rightarrow> kcore \<Rightarrow> kcore option" where
  "sched_start first_pid k =
     map_option (\<lambda>k'. k'\<lparr>k_current := first_pid\<rparr>) (activate_and_prepare first_pid k)"

section \<open>Wait channels\<close>

definition asleep_on :: "(nat \<Rightarrow> nat \<Rightarrow> bool) \<Rightarrow> proc_state \<Rightarrow> bool" where
  "asleep_on which st \<longleftrightarrow> (case st of Blocked (KernelSleep c _ seq) \<Rightarrow> which c seq | _ \<Rightarrow> False)"

definition kwake :: "(nat \<Rightarrow> nat \<Rightarrow> bool) \<Rightarrow> kcore \<Rightarrow> kcore" where
  "kwake which = wake_where (asleep_on which)"

definition tsleep_deadline :: "nat option \<Rightarrow> kcore \<Rightarrow> nat" where
  "tsleep_deadline timeout k =
     (case timeout of None \<Rightarrow> u64_max | Some t \<Rightarrow> k_ticks k + max t 1)"

definition tsleep_enter :: "nat \<Rightarrow> nat option \<Rightarrow> kcore \<Rightarrow> kcore" where
  "tsleep_enter chan timeout k =
     block_current (KernelSleep chan (tsleep_deadline timeout k) (k_sleep_seq k))
       (k\<lparr>k_sleep_seq := k_sleep_seq k + 1\<rparr>)"

datatype slept = Woken | TimedOut

definition tsleep_result :: "nat \<Rightarrow> kcore \<Rightarrow> slept" where
  "tsleep_result deadline k =
     (if deadline \<noteq> u64_max \<and> deadline \<le> k_ticks k then TimedOut else Woken)"

definition wakeup :: "nat \<Rightarrow> kcore \<Rightarrow> kcore" where
  "wakeup chan = kwake (\<lambda>c _. c = chan)"

definition sleep_seqs :: "nat \<Rightarrow> (pid, process) bmap \<Rightarrow> nat list" where
  "sleep_seqs chan t =
     List.map_filter (\<lambda>(_, p). case p_state p of
        Blocked (KernelSleep c _ seq) \<Rightarrow> if c = chan then Some seq else None | _ \<Rightarrow> None) t"

definition wakeup_one :: "nat \<Rightarrow> kcore \<Rightarrow> kcore" where
  "wakeup_one chan k =
     (case sleep_seqs chan (k_table k) of
        [] \<Rightarrow> k
      | seqs \<Rightarrow> kwake (\<lambda>c seq. c = chan \<and> seq = Min (set seqs)) k)"

definition sleep_expired :: "nat \<Rightarrow> proc_state \<Rightarrow> bool" where
  "sleep_expired now st \<longleftrightarrow> (case st of Blocked (KernelSleep _ deadline _) \<Rightarrow> deadline \<le> now | _ \<Rightarrow> False)"

definition expire_sleeps :: "nat \<Rightarrow> kcore \<Rightarrow> kcore" where
  "expire_sleeps now = wake_where (sleep_expired now)"

text \<open>The timer's scan of every other timed wait.\<close>

definition wait_expired :: "nat \<Rightarrow> proc_state \<Rightarrow> bool" where
  "wait_expired now st \<longleftrightarrow>
     (case st of
        Blocked (Sleeping deadline) \<Rightarrow> deadline \<le> now
      | Blocked (Polling deadline) \<Rightarrow> deadline \<le> now
      | Blocked (WaitingForMqData _ deadline) \<Rightarrow> deadline \<le> now
      | Blocked (WaitingForMqSpace _ deadline) \<Rightarrow> deadline \<le> now
      | Blocked (WaitingForSemOp _ _ _ deadline) \<Rightarrow> deadline \<le> now
      | Blocked (WaitingForSpecificSignal _ deadline) \<Rightarrow> deadline \<le> now
      | Blocked (WaitingForFutex _ _ deadline) \<Rightarrow> deadline \<le> now
      | _ \<Rightarrow> False)"

definition expire_waits :: "nat \<Rightarrow> kcore \<Rightarrow> kcore" where
  "expire_waits now = wake_where (wait_expired now)"

section \<open>The load average\<close>

record loadav =
  avenrun :: "nat list"
  next_sample :: nat

definition cexp :: "nat list" where
  "cexp = [1884, 2014, 2037]"

definition sample_ticks :: nat where
  "sample_ticks = 5 * timer_hz"

definition runnable :: "(pid, process) bmap \<Rightarrow> nat" where
  "runnable t = length (filter (\<lambda>(_, p). p_state p = Ready \<or> p_state p = Running) t)"

definition avg_step :: "nat \<Rightarrow> nat \<Rightarrow> nat \<Rightarrow> nat" where
  "avg_step n c old = ((c * old + n * fscale * (fscale - c)) div 2 ^ fshift) mod 2 ^ 32"

definition loadav_tick :: "(pid, process) bmap \<Rightarrow> nat \<Rightarrow> loadav \<Rightarrow> loadav" where
  "loadav_tick t now la =
     (if now < next_sample la then la
      else la\<lparr>next_sample := now + sample_ticks,
              avenrun := map (\<lambda>(avg, c). avg_step (runnable t) c avg) (zip (avenrun la) cexp)\<rparr>)"

section \<open>Keys and decay\<close>

lemmas sched_consts = pri_min_timeshare_def pri_max_timeshare_def prio_min_def prio_max_def
  nice_weight_def inverse_estcpu_weight_def rq_ppq_def realtime_keys_def pri_kern_def sched_fifo_def
  sched_rr_def fshift_def fscale_def timer_hz_def preempt_quantum_ticks_def u32_max_def
  estcpu_limit_def

lemma usrpri_bounds: "pri_min_timeshare \<le> usrpri p" "usrpri p \<le> pri_max_timeshare"
  by (simp_all add: usrpri_def sched_consts Let_def)

lemma decay_less: "0 < est \<Longrightarrow> decay load est < est"
  by (auto simp: decay_def Let_def sched_consts div_less_iff_less_mult less_mult_imp_div_less)

lemma decay_mono: "a \<le> b \<Longrightarrow> decay load a \<le> decay load b"
  by (auto simp: decay_def Let_def intro!: div_le_mono mult_right_mono)

lemma avg_step_bounded:
  assumes "n \<le> N" and "old \<le> N * fscale" and "c \<le> fscale"
  shows "avg_step n c old \<le> N * fscale"
proof -
  have "c * old + n * fscale * (fscale - c) \<le> c * (N * fscale) + N * fscale * (fscale - c)"
    using assms by (intro add_mono mult_le_mono) auto
  also have "\<dots> = N * fscale * (c + (fscale - c))"
    by (simp add: algebra_simps)
  also have "\<dots> = N * fscale * fscale" using assms(3) by simp
  finally have "(c * old + n * fscale * (fscale - c)) div 2 ^ fshift \<le> (N * fscale * fscale) div 2 ^ fshift"
    by (rule div_le_mono)
  also have "\<dots> = N * fscale" by (simp add: fscale_def)
  finally show ?thesis unfolding avg_step_def by (meson mod_less_eq_dividend le_trans)
qed

section \<open>Picking the next thread\<close>

definition first_best :: "(pid \<Rightarrow> nat) \<Rightarrow> pid list \<Rightarrow> nat \<Rightarrow> bool" where
  "first_best key q i \<longleftrightarrow> i < length q \<and> (\<forall>j < length q. key (q ! i) \<le> key (q ! j))
     \<and> (\<forall>j < i. key (q ! i) < key (q ! j))"

lemma best_loop_first_best:
  assumes "i = length pre" and "first_best key pre b" and "best = key (pre ! b)"
  shows "first_best key (pre @ q) (best_loop key i q best b)"
  using assms
proof (induction key i q best b arbitrary: pre rule: best_loop.induct)
  case (1 key i best b)
  then show ?case by simp
next
  case (2 key i pid q best b)
  let ?pre = "pre @ [pid]"
  have len: "Suc i = length ?pre" using 2(3) by simp
  have nth: "?pre ! j = (if j < length pre then pre ! j else pid)" if "j < length ?pre" for j
    using that by (auto simp: nth_append)
  show ?case
  proof (cases "key pid < best")
    case True
    have "first_best key ?pre i"
      using 2(3-5) True by (auto simp: first_best_def nth_append less_Suc_eq)
    moreover have "key pid = key (?pre ! i)" using 2(3) by simp
    ultimately show ?thesis using 2(1) [OF True len] True by simp
  next
    case False
    then have "first_best key ?pre b" and "best = key (?pre ! b)"
      using 2(3-5) by (auto simp: first_best_def nth_append less_Suc_eq)
    then show ?thesis using 2(2) [OF False len] False by simp
  qed
qed

lemma dequeue_cases:
  obtains (empty) "k_ready k = []" "dequeue_highest_priority k = (None, k)"
  | (pick) i where "first_best (key_of (k_table k)) (k_ready k) i"
      "dequeue_highest_priority k =
         (Some (k_ready k ! i), k\<lparr>k_ready := take i (k_ready k) @ drop (Suc i) (k_ready k)\<rparr>)"
proof (cases "k_ready k")
  case Nil
  then show ?thesis using empty by (simp add: dequeue_highest_priority_def)
next
  case (Cons q0 q)
  let ?key = "key_of (k_table k)"
  have "first_best ?key [q0] 0" by (simp add: first_best_def)
  then have "first_best ?key ([q0] @ q) (best_loop ?key 1 q (?key q0) 0)"
    by (intro best_loop_first_best) simp_all
  then show ?thesis using pick Cons by (simp add: dequeue_highest_priority_def Let_def)
qed

lemma distinct_remove_nth:
  assumes "distinct q" and "i < length q"
  shows "distinct (take i q @ drop (Suc i) q)"
    and "set (take i q @ drop (Suc i) q) = set q - {q ! i}"
proof -
  have q: "q = take i q @ q ! i # drop (Suc i) q" using assms(2) by (rule id_take_nth_drop)
  then show "distinct (take i q @ drop (Suc i) q)"
    using assms(1) by (metis distinct_append distinct.simps(2) Int_insert_right list.simps(15) not_distinct_conv_prefix)
  have "distinct (take i q @ q ! i # drop (Suc i) q)" using q assms(1) by simp
  moreover have "set q = set (take i q @ q ! i # drop (Suc i) q)" using q by simp
  ultimately show "set (take i q @ drop (Suc i) q) = set q - {q ! i}"
    by (simp only:) auto
qed

section \<open>Invariants of the CPU\<close>

text \<open>
  \<open>cpu_inv\<close>: the ready queue is exact; only the current process may be running, and it is not
  queued; a ready process has an address space; a process queued for reaping is a zombie.
\<close>

definition pending_reap :: "kcore \<Rightarrow> pid \<Rightarrow> bool" where
  "pending_reap k pid \<longleftrightarrow> pid \<in> fst ` set (k_reaps k)"

definition proc_ok :: "bool \<Rightarrow> process \<Rightarrow> bool" where
  "proc_ok reaped p \<longleftrightarrow>
     (p_state p = Ready \<or> p_state p = Running \<longrightarrow> p_space p \<noteq> None)
   \<and> (reaped \<longrightarrow> (\<exists>c. p_state p = Zombie c))"

definition procs_ok :: "kcore \<Rightarrow> bool" where
  "procs_ok k \<longleftrightarrow> (\<forall>pid p. bget (k_table k) pid = Some p \<longrightarrow> proc_ok (pending_reap k pid) p)"

definition cpu_inv :: "kcore \<Rightarrow> bool" where
  "cpu_inv k \<longleftrightarrow> ready_inv k \<and> \<not> is_ready k (k_current k) \<and> procs_ok k
     \<and> (\<forall>pid p. bget (k_table k) pid = Some p \<longrightarrow> p_state p = Running \<longrightarrow> pid = k_current k)"

lemma procs_okD: "procs_ok k \<Longrightarrow> bget (k_table k) pid = Some p \<Longrightarrow> proc_ok (pending_reap k pid) p"
  by (simp add: procs_ok_def)

lemma cpu_invD:
  assumes "cpu_inv k"
  shows "ready_inv k" and "\<not> is_ready k (k_current k)" and "procs_ok k"
    and "bget (k_table k) pid = Some p \<Longrightarrow> p_state p = Running \<Longrightarrow> pid = k_current k"
  using assms unfolding cpu_inv_def by blast+

lemma reap_entry_get:
  "bget (reap_entry cur t (q, kind)) pid =
     (if pid = q \<and> q \<noteq> cur
      then (case kind of RemoveEntry \<Rightarrow> None
            | TeardownOnly \<Rightarrow> map_option (\<lambda>p. p\<lparr>p_space := None\<rparr>) (bget t pid))
      else bget t pid)"
  by (cases kind) auto

lemma bwf_reap_entry: "bwf t \<Longrightarrow> bwf (reap_entry cur t r)"
  by (cases r; cases "snd r") auto

lemma bwf_reap_fold: "bwf t \<Longrightarrow> bwf (foldl (reap_entry cur) t rs)"
  by (induction rs arbitrary: t) (simp_all add: bwf_reap_entry)

lemma reap_fold_other:
  "pid = cur \<or> pid \<notin> fst ` set rs \<Longrightarrow> bget (foldl (reap_entry cur) t rs) pid = bget t pid"
proof (induction rs arbitrary: t)
  case (Cons r rs)
  then have "bget (reap_entry cur t r) pid = bget t pid"
    by (cases r) (auto simp: reap_entry_get simp del: reap_entry.simps)
  moreover have "pid = cur \<or> pid \<notin> fst ` set rs" using Cons.prems by auto
  ultimately show ?case using Cons.IH [of "reap_entry cur t r"] by simp
qed simp

lemma reap_fold_back:
  assumes "bget (foldl (reap_entry cur) t rs) pid = Some p"
  shows "\<exists>p0. bget t pid = Some p0 \<and> p_state p0 = p_state p"
  using assms
proof (induction rs arbitrary: t)
  case (Cons r rs)
  then obtain p1 where "bget (reap_entry cur t r) pid = Some p1" "p_state p1 = p_state p"
    using Cons.IH [of "reap_entry cur t r"] by auto
  then show ?case
    by (cases r) (auto simp: reap_entry_get simp del: reap_entry.simps split: if_splits reap_kind.splits)
qed simp

lemma reap_get_kept:
  assumes "\<not> pending_reap k pid"
  shows "bget (k_table (reap_pending_threads k)) pid = bget (k_table k) pid"
  using assms by (simp add: reap_pending_threads_def reap_fold_other pending_reap_def)

lemma reap_get_current:
  "bget (k_table (reap_pending_threads k)) (k_current k) = bget (k_table k) (k_current k)"
  by (simp add: reap_pending_threads_def reap_fold_other)

lemma reap_get_orig:
  assumes "bget (k_table (reap_pending_threads k)) pid = Some p"
  shows "\<exists>p0. bget (k_table k) pid = Some p0 \<and> p_state p0 = p_state p"
  using assms reap_fold_back by (simp add: reap_pending_threads_def)

lemma reap_frame [simp]:
  "k_current (reap_pending_threads k) = k_current k"
  "k_ready (reap_pending_threads k) = k_ready k"
  by (simp_all add: reap_pending_threads_def)

lemma reap_pending: "pending_reap (reap_pending_threads k) pid \<Longrightarrow> pending_reap k pid"
  by (auto simp: reap_pending_threads_def pending_reap_def intro: rev_image_eqI)

lemma reap_live_same:
  assumes "procs_ok k" and "bget (k_table k) pid = Some p" and "p_state p = Ready \<or> p_state p = Running"
  shows "bget (k_table (reap_pending_threads k)) pid = Some p"
proof -
  have "\<not> pending_reap k pid" using procs_okD [OF assms(1,2)] assms(3) by (auto simp: proc_ok_def)
  then show ?thesis using reap_get_kept assms(2) by simp
qed

lemma reap_is_ready:
  assumes "procs_ok k"
  shows "is_ready (reap_pending_threads k) pid = is_ready k pid"
  using reap_live_same [OF assms] reap_get_orig unfolding is_ready_def by metis

lemma reap_cpu_inv:
  assumes "cpu_inv k"
  shows "cpu_inv (reap_pending_threads k)"
proof -
  let ?k = "reap_pending_threads k"
  note ok = cpu_invD(3) [OF assms] and inv = cpu_invD(1) [OF assms]
  have "bwf (k_table ?k)" using ready_invD(1) [OF inv] by (simp add: reap_pending_threads_def bwf_reap_fold)
  then have "ready_inv ?k"
    using ready_invD [OF inv] reap_is_ready [OF ok] by (simp add: ready_inv_def)
  moreover have "proc_ok (pending_reap ?k pid) p" if get: "bget (k_table ?k) pid = Some p" for pid p
  proof -
    obtain p0 where p0: "bget (k_table k) pid = Some p0" "p_state p0 = p_state p"
      using reap_get_orig [OF get] by blast
    have "p = p0" if "p_state p = Ready \<or> p_state p = Running"
      using reap_live_same [OF ok p0(1)] p0(2) get that by simp
    then show ?thesis
      using procs_okD [OF ok p0(1)] p0(2) reap_pending by (auto simp: proc_ok_def)
  qed
  moreover have "pid = k_current ?k" if "bget (k_table ?k) pid = Some p" "p_state p = Running" for pid p
    using reap_get_orig [OF that(1)] that(2) cpu_invD(4) [OF assms] by auto
  ultimately show ?thesis
    using cpu_invD(2) [OF assms] reap_is_ready [OF ok] by (simp add: cpu_inv_def procs_ok_def)
qed

section \<open>The switch\<close>

text \<open>Between the two halves of \<open>schedule_inner\<close> no process is running.\<close>

definition no_running :: "kcore \<Rightarrow> bool" where
  "no_running k \<longleftrightarrow> ready_inv k \<and> procs_ok k
     \<and> (\<forall>pid p. bget (k_table k) pid = Some p \<longrightarrow> p_state p \<noteq> Running)"

lemma no_runningD:
  assumes "no_running k"
  shows "ready_inv k" and "procs_ok k" and "bget (k_table k) pid = Some p \<Longrightarrow> p_state p \<noteq> Running"
  using assms unfolding no_running_def by blast+

lemma pending_reap_wake [simp]: "pending_reap (wake_proc q k) = pending_reap k"
  by (simp add: fun_eq_iff pending_reap_def wake_proc_def enqueue_ready_def)

lemma wake_proc_get:
  "bget (k_table (wake_proc q k)) pid =
     (if pid = q then map_option (set_state Ready) (bget (k_table k) q) else bget (k_table k) pid)"
  by (simp add: wake_proc_def enqueue_ready_def)

lemma requeue_prev_no_running:
  assumes "cpu_inv k" and prev: "bget (k_table k) (k_current k) = Some prev"
  shows "no_running (requeue_prev prev k)"
proof (cases "p_state prev = Running")
  case True
  let ?k = "wake_proc (k_current k) k"
  have "ready_inv ?k"
    using ready_inv_wake_proc [OF cpu_invD(1) [OF assms(1)] prev] True by simp
  moreover have "proc_ok (pending_reap k pid) p \<and> p_state p \<noteq> Running"
    if "bget (k_table ?k) pid = Some p" for pid p
  proof (cases "pid = k_current k")
    case current: True
    then have "p = set_state Ready prev" using that prev by (simp add: wake_proc_get)
    then show ?thesis
      using procs_okD [OF cpu_invD(3) [OF assms(1)] prev] True current by (simp add: proc_ok_def)
  next
    case False
    then have "bget (k_table k) pid = Some p" using that by (simp add: wake_proc_get)
    then show ?thesis
      using procs_okD [OF cpu_invD(3) [OF assms(1)]] cpu_invD(4) [OF assms(1)] False by blast
  qed
  moreover have "requeue_prev prev k = ?k" using True by (simp add: requeue_prev_def)
  ultimately show ?thesis by (simp add: no_running_def procs_ok_def)
next
  case False
  have "p_state prev \<noteq> Ready" using cpu_invD(2) [OF assms(1)] prev by (auto simp: is_ready_def)
  then have "requeue_prev prev k = k" using False by (simp add: requeue_prev_def)
  moreover have "p_state p \<noteq> Running" if "bget (k_table k) pid = Some p" for pid p
    using cpu_invD(4) [OF assms(1) that] False prev that by auto
  ultimately show ?thesis
    using cpu_invD(1,3) [OF assms(1)] by (simp add: no_running_def)
qed

lemma run_proc_sel [simp]:
  "p_state (run_proc p) = Running" "p_space (run_proc p) = p_space p"
  "p_quantum (run_proc p) = preempt_quantum_ticks"
  by (simp_all add: run_proc_def)

lemma sched_key_run [simp]: "sched_key (run_proc p) = sched_key p" "sched_key (set_state st p) = sched_key p"
  by (simp_all add: sched_key_def usrpri_def is_kernel_thread_def run_proc_def set_state_def)

definition run_nth :: "nat \<Rightarrow> kcore \<Rightarrow> kcore" where
  "run_nth i k = (upd_proc (k_ready k ! i) run_proc
     (k\<lparr>k_ready := take i (k_ready k) @ drop (Suc i) (k_ready k)\<rparr>))\<lparr>k_current := k_ready k ! i\<rparr>"

lemma run_nth_sel [simp]:
  "k_current (run_nth i k) = k_ready k ! i"
  "k_ready (run_nth i k) = take i (k_ready k) @ drop (Suc i) (k_ready k)"
  "k_table (run_nth i k) = bupdate (k_ready k ! i) run_proc (k_table k)"
  "pending_reap (run_nth i k) = pending_reap k"
  by (simp_all add: run_nth_def pending_reap_def fun_eq_iff)

lemma run_nth_cpu_inv:
  assumes nr: "no_running k" and i: "i < length (k_ready k)"
  shows "cpu_inv (run_nth i k)"
proof -
  let ?n = "k_ready k ! i" and ?k = "run_nth i k"
  note inv = ready_invD [OF no_runningD(1) [OF nr]]
  obtain p where p: "bget (k_table k) ?n = Some p" "p_state p = Ready"
    using inv(3) [of ?n] i by (auto simp: is_ready_def)
  have get: "bget (k_table ?k) pid = (if pid = ?n then Some (run_proc p) else bget (k_table k) pid)" for pid
    using p by simp
  have ready: "is_ready ?k pid \<longleftrightarrow> pid \<noteq> ?n \<and> is_ready k pid" for pid
    by (auto simp: is_ready_def get simp del: run_nth_sel)
  have ri: "ready_inv ?k"
    using distinct_remove_nth [OF inv(2) i] ready inv(1,3) by (simp add: ready_inv_def) blast
  have ok: "proc_ok (pending_reap ?k pid) q" if "bget (k_table ?k) pid = Some q" for pid q
  proof (cases "pid = ?n")
    case True
    then have "q = run_proc p" using that p by simp
    then show ?thesis
      using True procs_okD [OF no_runningD(2) [OF nr] p(1)] p(2) unfolding proc_ok_def run_nth_sel by auto
  next
    case False
    then have "bget (k_table k) pid = Some q" using that by simp
    then show ?thesis unfolding run_nth_sel by (rule procs_okD [OF no_runningD(2) [OF nr]])
  qed
  have run: "pid = k_current ?k" if "bget (k_table ?k) pid = Some q" "p_state q = Running" for pid q
  proof (rule ccontr)
    assume "pid \<noteq> k_current ?k"
    then have "bget (k_table k) pid = Some q" using that(1) by simp
    then show False using no_runningD(3) [OF nr] that(2) by blast
  qed
  have "\<not> is_ready ?k (k_current ?k)" using ready by simp
  then show ?thesis using ri ok run unfolding cpu_inv_def procs_ok_def by blast
qed

lemma switch_to_next_cases:
  assumes nr: "no_running k"
  obtains (idle) "switch_to_next k = Idle k" "k_ready k = []"
  | (switched) i where "switch_to_next k = Switched (run_nth i k)"
      "first_best (key_of (k_table k)) (k_ready k) i" "cpu_inv (run_nth i k)"
proof (cases rule: dequeue_cases [of k])
  case empty
  then show ?thesis using idle by (simp add: switch_to_next_def)
next
  case (pick i)
  have i: "i < length (k_ready k)" using pick(1) by (simp add: first_best_def)
  obtain p where p: "bget (k_table k) (k_ready k ! i) = Some p" "p_state p = Ready"
    using ready_invD(3) [OF no_runningD(1) [OF nr], of "k_ready k ! i"] i by (auto simp: is_ready_def)
  then obtain sp where "p_space p = Some sp"
    using procs_okD [OF no_runningD(2) [OF nr] p(1)] by (auto simp: proc_ok_def)
  then have "switch_to_next k = Switched (run_nth i k)"
    using pick(2) p by (simp add: switch_to_next_def activate_and_prepare_def upd_proc_def run_nth_def)
  then show ?thesis using switched pick(1) run_nth_cpu_inv [OF nr i] by blast
qed

text \<open>The queue \<open>schedule_inner\<close> chooses from: the ready queue, and the caller behind it if it may run on.\<close>

definition choice_queue :: "kcore \<Rightarrow> pid list" where
  "choice_queue k = k_ready k @
     (case bget (k_table k) (k_current k) of
        Some p \<Rightarrow> if k_current k \<noteq> 0 \<and> (p_state p = Ready \<or> p_state p = Running) then [k_current k] else []
      | None \<Rightarrow> [])"

lemma key_of_upd:
  assumes "\<And>p. sched_key (f p) = sched_key p"
  shows "key_of (bupdate pid f t) = key_of t"
  using assms by (auto simp: key_of_def fun_eq_iff split: option.splits)

lemma key_of_requeue: "key_of (k_table (requeue_prev prev k)) = key_of (k_table k)"
  by (auto simp: fun_eq_iff key_of_def requeue_prev_def wake_proc_get split: option.splits)

lemma key_of_reap:
  assumes "cpu_inv k" and "pid \<in> set (choice_queue k)"
  shows "key_of (k_table (reap_pending_threads k)) pid = key_of (k_table k) pid"
proof -
  have "\<exists>p. bget (k_table k) pid = Some p \<and> (p_state p = Ready \<or> p_state p = Running)"
    using assms ready_invD(3) [OF cpu_invD(1) [OF assms(1)], of pid]
    by (auto simp: choice_queue_def is_ready_def split: option.splits if_splits)
  then show ?thesis
    using reap_live_same [OF cpu_invD(3) [OF assms(1)]] by (auto simp: key_of_def)
qed

lemma first_best_cong:
  assumes "\<And>pid. pid \<in> set q \<Longrightarrow> key pid = key' pid"
  shows "first_best key q i = first_best key' q i"
proof -
  have "key (q ! j) = key' (q ! j)" if "j < length q" for j using assms that by simp
  then show ?thesis by (auto simp: first_best_def)
qed

lemma no_running_current_zero:
  assumes "cpu_inv k" and "k_current k = 0" and "bget (k_table k) 0 = None"
  shows "no_running k"
proof -
  have "p_state p \<noteq> Running" if "bget (k_table k) pid = Some p" for pid p
    using cpu_invD(4) [OF assms(1) that] that assms(2,3) by auto
  then show ?thesis using cpu_invD(1,3) [OF assms(1)] by (simp add: no_running_def)
qed

lemma schedule_inner_cases:
  assumes inv: "cpu_inv k" and cur: "k_current k = 0 \<longleftrightarrow> bget (k_table k) (k_current k) = None"
  obtains (idle) k' where "schedule_inner k = Idle k'" "choice_queue k = []" "no_running k'"
      "k_current k' = k_current k"
  | (switched) i k' where "schedule_inner k = Switched k'" "cpu_inv k'"
      "first_best (key_of (k_table k)) (choice_queue k) i" "k_current k' = choice_queue k ! i"
      "k_ready k' = take i (choice_queue k) @ drop (Suc i) (choice_queue k)"
      "\<exists>p. bget (k_table k') (k_current k') = Some p \<and> p_state p = Running
         \<and> p_quantum p = preempt_quantum_ticks"
      "\<And>pid. pid \<in> set (choice_queue k) \<Longrightarrow> key_of (k_table k') pid = key_of (k_table k) pid"
proof -
  let ?r = "reap_pending_threads k"
  have rinv: "cpu_inv ?r" using inv by (rule reap_cpu_inv)
  define m where "m = (case bget (k_table k) (k_current k) of None \<Rightarrow> ?r | Some prev \<Rightarrow> requeue_prev prev ?r)"
  have eq: "schedule_inner k = switch_to_next m \<and> no_running m \<and> k_ready m = choice_queue k
      \<and> k_current m = k_current k \<and> key_of (k_table m) = key_of (k_table ?r)"
  proof (cases "bget (k_table k) (k_current k)")
    case None
    then have "k_current k = 0" using cur by simp
    then show ?thesis
      using None no_running_current_zero [OF rinv] reap_get_current [of k]
      by (simp add: schedule_inner_def Let_def m_def choice_queue_def)
  next
    case (Some prev)
    then have nz: "k_current k \<noteq> 0" using cur by auto
    have "k_ready (requeue_prev prev ?r) = choice_queue k"
      using Some nz by (simp add: choice_queue_def requeue_prev_def wake_proc_def enqueue_ready_def)
    moreover have "k_current (requeue_prev prev ?r) = k_current k"
      by (simp add: requeue_prev_def wake_proc_def enqueue_ready_def)
    ultimately show ?thesis
      using Some nz requeue_prev_no_running [OF rinv] reap_get_current [of k]
      by (simp add: schedule_inner_def Let_def m_def key_of_requeue)
  qed
  then have nr: "no_running m" by blast
  have key: "key_of (k_table m) pid = key_of (k_table k) pid" if "pid \<in> set (choice_queue k)" for pid
    using key_of_reap [OF inv that] eq by simp
  show ?thesis
  proof (cases rule: switch_to_next_cases [OF nr])
    case 1
    show ?thesis by (rule idle [of m]) (use 1 eq nr in simp_all)
  next
    case (2 i)
    have q: "k_ready m = choice_queue k" and sw: "schedule_inner k = switch_to_next m" using eq by auto
    have fb: "first_best (key_of (k_table k)) (choice_queue k) i"
      using 2(2) q first_best_cong [of "choice_queue k" "key_of (k_table m)" "key_of (k_table k)" i] key
      by simp
    obtain p where "bget (k_table m) (k_ready m ! i) = Some p"
      using ready_invD(3) [OF no_runningD(1) [OF nr], of "k_ready m ! i"] 2(2)
      by (auto simp: first_best_def is_ready_def)
    then show ?thesis
      using 2(1,3) fb q sw key by - (rule switched [of "run_nth i m" i], simp_all add: key_of_upd)
  qed
qed

section \<open>Wait channels\<close>

interpretation ksleep: wake_condition asleep_on
  by unfold_locales (auto simp: asleep_on_def split: proc_state.splits)

interpretation ksleep_timer: wake_condition sleep_expired
  by unfold_locales (auto simp: sleep_expired_def split: proc_state.splits)

interpretation timed_wait: wake_condition wait_expired
  by unfold_locales (auto simp: wait_expired_def split: proc_state.splits)

lemma set_sleep_seqs:
  assumes "bwf t"
  shows "seq \<in> set (sleep_seqs chan t) \<longleftrightarrow>
    (\<exists>pid p d. bget t pid = Some p \<and> p_state p = Blocked (KernelSleep chan d seq))"
proof -
  have "seq \<in> set (sleep_seqs chan t) \<longleftrightarrow>
      (\<exists>pid p d. (pid, p) \<in> set t \<and> p_state p = Blocked (KernelSleep chan d seq))"
    by (auto simp: sleep_seqs_def List.map_filter_def split: proc_state.splits block_reason.splits if_splits
        intro!: rev_image_eqI) blast
  then show ?thesis by (simp add: bwf_in_set_iff [OF assms])
qed

section \<open>Turn taking\<close>

text \<open>A run of \<open>n\<close> switches with no other event in between (every thread yields at once).\<close>

fun sched_n :: "nat \<Rightarrow> kcore \<Rightarrow> kcore option" where
  "sched_n 0 k = Some k"
| "sched_n (Suc n) k = (case schedule_inner k of Switched k' \<Rightarrow> sched_n n k' | _ \<Rightarrow> None)"

definition current_running :: "kcore \<Rightarrow> bool" where
  "current_running k \<longleftrightarrow> k_current k \<noteq> 0
     \<and> (\<exists>p. bget (k_table k) (k_current k) = Some p \<and> p_state p = Running)"

lemma choice_queue_running: "current_running k \<Longrightarrow> choice_queue k = k_ready k @ [k_current k]"
  by (auto simp: current_running_def choice_queue_def)

lemma first_best_le:
  assumes "first_best key q i" and "j < length q" and "\<And>x. x \<in> set q \<Longrightarrow> key (q ! j) \<le> key x"
  shows "i \<le> j"
proof (rule ccontr)
  assume "\<not> i \<le> j"
  then have "key (q ! i) < key (q ! j)" using assms(1) by (auto simp: first_best_def)
  moreover have "q ! i \<in> set q" using assms(1) by (simp add: first_best_def)
  ultimately show False using assms(3) by fastforce
qed

lemma turn_comes:
  assumes "cpu_inv k" and "current_running k" and "0 \<notin> set (k_ready k)"
    and "i < length (k_ready k)"
    and "\<And>q. q \<in> set (choice_queue k) \<Longrightarrow> key_of (k_table k) (k_ready k ! i) \<le> key_of (k_table k) q"
  shows "\<exists>n \<le> Suc i. \<exists>k'. 0 < n \<and> sched_n n k = Some k' \<and> k_current k' = k_ready k ! i"
  using assms
proof (induction i arbitrary: k rule: less_induct)
  case (less i)
  let ?q = "choice_queue k" and ?pid = "k_ready k ! i"
  have q: "?q = k_ready k @ [k_current k]" using choice_queue_running [OF less.prems(2)] .
  have iq: "i < length ?q" and nth: "?q ! i = ?pid" using less.prems(4) by (simp_all add: q nth_append)
  have cur: "k_current k = 0 \<longleftrightarrow> bget (k_table k) (k_current k) = None"
    using less.prems(2) by (auto simp: current_running_def)
  show ?case
  proof (cases rule: schedule_inner_cases [OF less.prems(1) cur])
    case (1 k')
    then show ?thesis using q by simp
  next
    case (2 j k')
    have ji: "j \<le> i" using first_best_le [OF 2(3) iq] nth less.prems(5) by simp
    show ?thesis
    proof (cases "j = i")
      case True
      then have "sched_n 1 k = Some k' \<and> k_current k' = ?pid" using 2(1,4) nth by simp
      then show ?thesis by (intro exI [of _ 1]) simp
    next
      case False
      then have lt: "i - 1 < i" and jl: "j < length (k_ready k)" using ji less.prems(4) by auto
      have rq: "k_ready k' = take j (k_ready k) @ drop (Suc j) (k_ready k) @ [k_current k]"
        using 2(5) jl by (simp add: q)
      have nth': "k_ready k' ! (i - 1) = ?pid"
      proof -
        have "\<not> i - 1 < j" "i - 1 - j < length (k_ready k) - Suc j" "Suc j + (i - 1 - j) = i" "min (length (k_ready k)) j = j"
          using False ji less.prems(4) jl by auto
        then show ?thesis by (simp add: rq nth_append)
      qed
      have "k_ready k ! j \<noteq> 0" using less.prems(3) nth_mem [OF jl] by metis
      then have run: "current_running k'"
        using 2(4,6) jl by (auto simp: current_running_def q nth_append)
      have set_eq: "set (choice_queue k') = set ?q"
      proof -
        have "k_ready k = take j (k_ready k) @ k_ready k ! j # drop (Suc j) (k_ready k)"
          using jl by (rule id_take_nth_drop)
        then have "set (k_ready k) = set (take j (k_ready k) @ k_ready k ! j # drop (Suc j) (k_ready k))"
          by simp
        then show ?thesis using choice_queue_running [OF run] 2(4) jl by (auto simp: q rq nth_append)
      qed
      have "0 \<notin> set (k_ready k')"
        using less.prems(2,3) by (auto simp: rq current_running_def dest: in_set_takeD in_set_dropD)
      moreover have "i - 1 < length (k_ready k')" using less.prems(4) jl False ji by (simp add: rq)
      moreover have "key_of (k_table k') (k_ready k' ! (i - 1)) \<le> key_of (k_table k') x"
        if "x \<in> set (choice_queue k')" for x
        using that less.prems(4,5) 2(7) set_eq nth' by (simp add: q)
      ultimately obtain n k'' where n: "n \<le> Suc (i - 1)" "sched_n n k' = Some k''" "k_current k'' = ?pid"
        using less.IH [OF lt 2(2) run] nth' by metis
      then have "sched_n (Suc n) k = Some k''" using 2(1) by simp
      then show ?thesis using n lt by (intro exI [of _ "Suc n"]) auto
    qed
  qed
qed

section \<open>Waking the longest sleeper\<close>

lemma wakeup_one_get:
  assumes "bwf (k_table k)"
  shows "bget (k_table (wakeup_one chan k)) pid =
    map_option (\<lambda>p. if \<exists>d s. p_state p = Blocked (KernelSleep chan d s)
                        \<and> (\<forall>s' \<in> set (sleep_seqs chan (k_table k)). s \<le> s')
                    then set_state Ready p else p) (bget (k_table k) pid)"
proof (cases "bget (k_table k) pid")
  case None
  then show ?thesis by (simp add: wakeup_one_def kwake_def wake_where_get split: list.splits)
next
  case (Some p)
  let ?S = "set (sleep_seqs chan (k_table k))"
  show ?thesis
  proof (cases "sleep_seqs chan (k_table k)")
    case Nil
    then have "\<not> (\<exists>d s. p_state p = Blocked (KernelSleep chan d s))"
      using set_sleep_seqs [OF assms, of _ chan] Some by (metis empty_iff empty_set)
    then show ?thesis using Nil Some by (auto simp: wakeup_one_def)
  next
    case (Cons x xs)
    have min: "s = Min ?S \<longleftrightarrow> (\<forall>s' \<in> ?S. s \<le> s')" if "s \<in> ?S" for s
      using that by (metis List.finite_set Min_eqI Min_le)
    have "asleep_on (\<lambda>c seq. c = chan \<and> seq = Min ?S) (p_state p) \<longleftrightarrow>
        (\<exists>d s. p_state p = Blocked (KernelSleep chan d s) \<and> (\<forall>s' \<in> ?S. s \<le> s'))"
    proof
      assume "asleep_on (\<lambda>c seq. c = chan \<and> seq = Min ?S) (p_state p)"
      then show "\<exists>d s. p_state p = Blocked (KernelSleep chan d s) \<and> (\<forall>s' \<in> ?S. s \<le> s')"
        by (auto simp: asleep_on_def split: proc_state.splits block_reason.splits)
    next
      assume "\<exists>d s. p_state p = Blocked (KernelSleep chan d s) \<and> (\<forall>s' \<in> ?S. s \<le> s')"
      then obtain d s where s: "p_state p = Blocked (KernelSleep chan d s)" "\<forall>s' \<in> ?S. s \<le> s'" by blast
      then have "s \<in> ?S" using set_sleep_seqs [OF assms] Some by blast
      then show "asleep_on (\<lambda>c seq. c = chan \<and> seq = Min ?S) (p_state p)"
        using s min by (simp add: asleep_on_def)
    qed
    then show ?thesis using Cons Some by (simp add: wakeup_one_def kwake_def wake_where_get)
  qed
qed

section \<open>A small system\<close>

text \<open>
  Three user processes for the examples: pid 2 running, pids 3 and 4 ready (4 with the better nice
  value), and pid 5 asleep on channel 7.
\<close>

definition ex_proc :: "pid \<Rightarrow> proc_state \<Rightarrow> int \<Rightarrow> process" where
  "ex_proc pid st nice =
     \<lparr> p_tgid = pid, p_parent = Some 1, p_state = st, p_space = Some pid,
       p_shared = \<lparr> tg_cred = cred_root,
                    tg_sigactions = replicate 65 \<lparr> sa_handler = 0, sa_flags = 0, sa_restorer = 0, sa_mask = 0 \<rparr> \<rparr>,
       p_pending = 0, p_blocked = 0, p_signal_stack = [], p_on_altstack = False, p_estcpu = 0,
       p_pgid = pid, p_timer_deadline = None, p_timer_interval = 0, p_nice = nice, p_sched_policy = 0,
       p_sched_priority = 0, p_stop_notify = False, p_cont_notify = False, p_sigsuspend_mask = None,
       p_sem_undo = [],
       p_siginfo = replicate 35 \<lparr> si_code = 0, si_pid = 0, si_uid = 0, si_value = 0 \<rparr>,
       p_rt_queue = replicate 30 [], p_cpu_ticks = 0, p_sys_ticks = 0, p_quantum = 4, p_cascade = None \<rparr>"

definition ex_core :: "(pid, process) bmap \<Rightarrow> pid list \<Rightarrow> pid \<Rightarrow> kcore" where
  "ex_core t ready cur =
     \<lparr> k_table = t, k_ready = ready, k_current = cur, k_ticks = 1000, k_epoch = 0, k_reaps = [],
       k_see_other_uids = True, k_sleep_seq = 9 \<rparr>"

definition ex_k :: kcore where
  "ex_k = ex_core [(2, ex_proc 2 Running 0), (3, ex_proc 3 Ready 5), (4, ex_proc 4 Ready 0),
                   (5, ex_proc 5 (Blocked (KernelSleep 7 u64_max 3)) 0)] [3, 4] 2"

lemma ex_proc_sel [simp]:
  "p_state (ex_proc pid st n) = st" "p_space (ex_proc pid st n) = Some pid"
  "p_tgid (ex_proc pid st n) = pid" "p_nice (ex_proc pid st n) = n" "p_estcpu (ex_proc pid st n) = 0"
  "p_sched_policy (ex_proc pid st n) = 0" "p_sched_priority (ex_proc pid st n) = 0"
  "p_pending (ex_proc pid st n) = 0" "p_blocked (ex_proc pid st n) = 0"
  "p_sem_undo (ex_proc pid st n) = []"
  "p_shared (ex_proc pid st n) = \<lparr> tg_cred = cred_root,
     tg_sigactions = replicate 65 \<lparr> sa_handler = 0, sa_flags = 0, sa_restorer = 0, sa_mask = 0 \<rparr> \<rparr>"
  by (simp_all add: ex_proc_def)

lemma ex_core_sel [simp]:
  "k_table (ex_core t r c) = t" "k_ready (ex_core t r c) = r" "k_current (ex_core t r c) = c"
  "k_reaps (ex_core t r c) = []" "k_ticks (ex_core t r c) = 1000" "k_sleep_seq (ex_core t r c) = 9"
  by (simp_all add: ex_core_def)

lemma ex_k_ready_inv: "ready_inv ex_k"
  by (auto simp: ex_k_def ready_inv_def is_ready_def bwf_def)

lemma ex_k_cpu_inv: "cpu_inv ex_k"
  using ex_k_ready_inv
  by (auto simp: cpu_inv_def procs_ok_def proc_ok_def is_ready_def pending_reap_def ex_k_def split: if_splits)

lemma ex_k_current: "k_current ex_k = 0 \<longleftrightarrow> bget (k_table ex_k) (k_current ex_k) = None"
  by (simp add: ex_k_def)

lemma ex_key: "sched_key (ex_proc pid st n) = (if pid = 0 then 100 else min (120 + unat (word_of_int (n + 20) :: u32)) 223)"
  by (simp add: sched_key_def is_kernel_thread_def kernel_tgid_def usrpri_def sched_consts Let_def)

section \<open>Properties\<close>

text \<open>
  C38. A call of \<open>schedule_inner\<close> from a consistent state never panics. It idles only when nothing is
  ready and the caller itself cannot go on. Otherwise it switches to the thread with the best key of
  the ready queue with the caller behind it, the first to have become ready among equals, removes
  exactly that thread from the queue, gives it a fresh quantum, and leaves a consistent state in
  which only that thread is running.
\<close>

theorem schedule_inner_picks_best:
  assumes "cpu_inv k" and "k_current k = 0 \<longleftrightarrow> bget (k_table k) (k_current k) = None"
  shows "case schedule_inner k of
      SchedPanic \<Rightarrow> False
    | Idle k' \<Rightarrow> choice_queue k = [] \<and> k_current k' = k_current k
    | Switched k' \<Rightarrow> cpu_inv k' \<and>
        (\<exists>i. first_best (key_of (k_table k)) (choice_queue k) i
           \<and> k_current k' = choice_queue k ! i
           \<and> k_ready k' = take i (choice_queue k) @ drop (Suc i) (choice_queue k))
      \<and> (\<exists>p. bget (k_table k') (k_current k') = Some p \<and> p_state p = Running
           \<and> p_quantum p = preempt_quantum_ticks)"
  using assms by (rule schedule_inner_cases) auto

theorem schedule_inner_picks_best_witness:
  "cpu_inv ex_k \<and> (\<exists>k'. schedule_inner ex_k = Switched k' \<and> cpu_inv k' \<and> k_current k' = 4 \<and> k_ready k' = [3, 2])"
proof -
  have q: "choice_queue ex_k = [3, 4, 2]" by (simp add: choice_queue_def ex_k_def)
  have "first_best (key_of (k_table ex_k)) [3, 4, 2] i \<longleftrightarrow> i = 1" for i
    by (auto simp: first_best_def ex_k_def key_of_def ex_key numeral_3_eq_3 less_Suc_eq_0_disj
        nth_Cons split: nat.splits)
  then show ?thesis
    using schedule_inner_picks_best [OF ex_k_cpu_inv ex_k_current] ex_k_cpu_inv q
    by (auto split: sched_result.splits)
qed

text \<open>
  The bands of scheduling keys: a real-time thread's key is in 1..99 and falls with its priority, a
  kernel thread's is 100, and a time-sharing thread's is in 120..223. So every real-time thread
  precedes every kernel thread, which precedes every time-sharing one.
\<close>

theorem sched_key_bands:
  "if is_kernel_thread p then sched_key p = 100
   else if p_sched_policy p \<in> {1, 2} \<and> 0 < p_sched_priority p
     then 1 \<le> sched_key p \<and> sched_key p \<le> 99 \<and> int (sched_key p) = 100 - min 99 (p_sched_priority p)
   else 120 \<le> sched_key p \<and> sched_key p \<le> 223"
  using usrpri_bounds [of p]
  by (auto simp: sched_key_def sched_consts min_def max_def)

text \<open>
  C39. Equal threads take turns: if every thread yields as soon as it runs, then a ready thread whose
  key no other thread beats runs after at most as many switches as its place in the ready queue.
\<close>

theorem best_ready_thread_runs:
  assumes "cpu_inv k" and "current_running k" and "0 \<notin> set (k_ready k)" and "i < length (k_ready k)"
    and "\<forall>q \<in> set (choice_queue k). key_of (k_table k) (k_ready k ! i) \<le> key_of (k_table k) q"
  shows "\<exists>n k'. 0 < n \<and> n \<le> Suc i \<and> sched_n n k = Some k' \<and> k_current k' = k_ready k ! i"
  using turn_comes [OF assms(1-4)] assms(5) by blast

theorem best_ready_thread_runs_witness:
  "\<exists>n k'. 0 < n \<and> n \<le> Suc 1 \<and> sched_n n ex_k = Some k' \<and> k_current k' = 4"
  using best_ready_thread_runs [OF ex_k_cpu_inv, of 1]
  by (simp add: current_running_def choice_queue_def ex_k_def key_of_def ex_key)

text \<open>
  C40. \<open>wakeup_one\<close> makes ready exactly the threads asleep on the channel whose sleep began first
  (sleep numbers are given out once, so that is one thread), and nothing else in the table changes;
  the ready queue stays exact.
\<close>

theorem wakeup_one_wakes_longest_sleeper:
  assumes "ready_inv k"
  shows "ready_inv (wakeup_one chan k) \<and>
    (\<forall>pid. bget (k_table (wakeup_one chan k)) pid =
       map_option (\<lambda>p. if \<exists>d s. p_state p = Blocked (KernelSleep chan d s)
            \<and> (\<forall>q p' d' s'. bget (k_table k) q = Some p' \<longrightarrow>
                  p_state p' = Blocked (KernelSleep chan d' s') \<longrightarrow> s \<le> s')
          then set_state Ready p else p) (bget (k_table k) pid))"
proof
  show "ready_inv (wakeup_one chan k)"
    using assms ksleep.wake_ready_inv by (auto simp: wakeup_one_def kwake_def split: list.splits)
  have "(\<forall>s' \<in> set (sleep_seqs chan (k_table k)). s \<le> s') \<longleftrightarrow>
      (\<forall>q p' d' s'. bget (k_table k) q = Some p' \<longrightarrow>
         p_state p' = Blocked (KernelSleep chan d' s') \<longrightarrow> s \<le> s')" for s
    using set_sleep_seqs [OF ready_invD(1) [OF assms]] by blast
  then show "\<forall>pid. bget (k_table (wakeup_one chan k)) pid =
       map_option (\<lambda>p. if \<exists>d s. p_state p = Blocked (KernelSleep chan d s)
            \<and> (\<forall>q p' d' s'. bget (k_table k) q = Some p' \<longrightarrow>
                  p_state p' = Blocked (KernelSleep chan d' s') \<longrightarrow> s \<le> s')
          then set_state Ready p else p) (bget (k_table k) pid)"
    using wakeup_one_get [OF ready_invD(1) [OF assms]] by simp
qed

theorem wakeup_one_wakes_longest_sleeper_witness:
  "ready_inv (wakeup_one 7 ex_k) \<and>
   (\<exists>p. bget (k_table (wakeup_one 7 ex_k)) 5 = Some p \<and> p_state p = Ready)"
  using wakeup_one_wakes_longest_sleeper [OF ex_k_ready_inv, of 7]
  by (auto simp: ex_k_def split: if_splits)

end
