(* ===== verification/User_Memory.thy ===== *)
theory User_Memory
  imports Ordered_Map
begin

text \<open>
  User memory and transfers to and from it: \<open>sys/memory/usercopy.rs\<close> and
  \<open>sys/kern/subr_uio.rs\<close>.

  An address space is a byte for each address and which addresses the user may read and write.
  The copy loop \<open>usercopy_raw\<close> moves bytes in ascending order and stops at the first address
  that faults, so a failed \<open>copyout\<close> has written a prefix. Addresses are natural numbers; an
  address computed by \<open>wrapping_add\<close> is taken modulo $2^{64}$.

  A \<open>Uio\<close> is abstracted by the list of addresses it has still to fill or drain
  (\<open>uio_addrs\<close>); \<open>move_raw\<close>, \<open>skip\<close> and \<open>rewind\<close> are shown to move along that
  list.
\<close>

section \<open>Copying\<close>

record umem =
  m_bytes :: "nat \<Rightarrow> u8"
  m_readable :: "nat \<Rightarrow> bool"
  m_writable :: "nat \<Rightarrow> bool"

definition vm_minuser :: nat where "vm_minuser = 0x1000"
definition vm_maxuser :: nat where "vm_maxuser = 0x800000000000"

definition wrap64 :: "nat \<Rightarrow> nat" where
  "wrap64 n = n mod 2 ^ 64"

definition check_range :: "nat \<Rightarrow> nat \<Rightarrow> bool" where
  "check_range addr len \<longleftrightarrow> len = 0 \<or>
     (case checked_add_u64 addr len of
        None \<Rightarrow> False
      | Some fin \<Rightarrow> vm_minuser \<le> addr \<and> fin \<le> vm_maxuser)"

text \<open>\<open>usercopy_raw\<close> towards user memory: stops at the first address that cannot be written.\<close>

fun poke :: "umem \<Rightarrow> nat \<Rightarrow> u8 list \<Rightarrow> bool \<times> umem" where
  "poke m a [] = (True, m)"
| "poke m a (b # bs) =
     (if m_writable m a then poke (m\<lparr>m_bytes := (m_bytes m)(a := b)\<rparr>) (Suc a) bs else (False, m))"

text \<open>\<open>usercopy_raw\<close> from user memory: what arrived before the first unreadable address.\<close>

definition peek :: "umem \<Rightarrow> nat \<Rightarrow> nat \<Rightarrow> u8 list" where
  "peek m a n = map (m_bytes m) (takeWhile (m_readable m) [a..<a + n])"

definition copyin :: "umem \<Rightarrow> nat \<Rightarrow> nat \<Rightarrow> u8 list kres" where
  "copyin m src n =
     (if \<not> check_range src n then Err EFAULT
      else let bs = peek m src n in if length bs = n then Ok bs else Err EFAULT)"

definition copyout :: "umem \<Rightarrow> u8 list \<Rightarrow> nat \<Rightarrow> unit kres \<times> umem" where
  "copyout m bs dst =
     (if \<not> check_range dst (length bs) then (Err EFAULT, m)
      else case poke m dst bs of (True, m') \<Rightarrow> (Ok (), m') | (False, m') \<Rightarrow> (Err EFAULT, m'))"

definition copyin_vec :: "umem \<Rightarrow> nat \<Rightarrow> nat \<Rightarrow> nat \<Rightarrow> errno \<Rightarrow> u8 list kres" where
  "copyin_vec m src n mx too_long = (if mx < n then Err too_long else copyin m src n)"

definition copyin_u16 :: "umem \<Rightarrow> nat \<Rightarrow> nat kres" where
  "copyin_u16 m src = bind_kres (copyin m src 2) (\<lambda>bs. Ok (le_val bs))"

definition copyin_u64 :: "umem \<Rightarrow> nat \<Rightarrow> u64 kres" where
  "copyin_u64 m src = bind_kres (copyin m src 8) (\<lambda>bs. Ok (word_of_nat (le_val bs)))"

definition copyin_i64_pair :: "umem \<Rightarrow> nat \<Rightarrow> (int \<times> int) kres" where
  "copyin_i64_pair m src =
     bind_kres (copyin m src 16) (\<lambda>bs. Ok (le_sval (take 8 bs), le_sval (drop 8 bs)))"

definition copyin_i64 :: "umem \<Rightarrow> nat \<Rightarrow> int kres" where
  "copyin_i64 m src = bind_kres (copyin m src 8) (\<lambda>bs. Ok (le_sval bs))"

text \<open>\<open>UserPtr::add\<close>.\<close>

definition user_add :: "u64 \<Rightarrow> u64 \<Rightarrow> nat" where
  "user_add p n = unat (p + n)"

section \<open>Transfers\<close>

datatype uio_rw = UioRead | UioWrite
datatype uio_seg = UserSeg | KernelSeg

record uio =
  u_iov :: "(nat \<times> nat) list"
  u_idx :: nat
  u_seg_off :: nat
  u_resid :: nat
  u_offset :: nat
  u_rw :: uio_rw
  u_seg :: uio_seg

definition isize_max :: nat where "isize_max = 2 ^ 63 - 1"

fun uio_total :: "(nat \<times> nat) list \<Rightarrow> nat \<Rightarrow> nat kres" where
  "uio_total [] resid = Ok resid"
| "uio_total ((base, len) # iov) resid =
     (case checked_add_u64 resid len of
        None \<Rightarrow> Err EINVAL
      | Some r \<Rightarrow> if r \<le> isize_max then uio_total iov r else Err EINVAL)"

definition uio_new :: "(nat \<times> nat) list \<Rightarrow> uio_rw \<Rightarrow> uio_seg \<Rightarrow> nat \<Rightarrow> uio kres" where
  "uio_new iov rw seg offset =
     bind_kres (uio_total iov 0) (\<lambda>resid.
       Ok \<lparr> u_iov = iov, u_idx = 0, u_seg_off = 0, u_resid = resid, u_offset = offset,
            u_rw = rw, u_seg = seg \<rparr>)"

definition limit_resid :: "nat \<Rightarrow> uio \<Rightarrow> uio" where
  "limit_resid mx u = u\<lparr>u_resid := min (u_resid u) mx\<rparr>"

definition splice :: "nat \<Rightarrow> u8 list \<Rightarrow> u8 list \<Rightarrow> u8 list" where
  "splice i bs k = take i k @ bs @ drop (i + length bs) k"

text \<open>One piece of a transfer: whether it failed, the memory and the kernel buffer after it.\<close>

fun move_piece :: "uio_rw \<Rightarrow> uio_seg \<Rightarrow> nat \<Rightarrow> nat \<Rightarrow> nat \<Rightarrow> umem \<Rightarrow> u8 list \<Rightarrow> errno option \<times> umem \<times> u8 list"
where
  "move_piece UioRead UserSeg addr n moved m k =
     (case copyout m (take n (drop moved k)) addr of
        (Ok _, m') \<Rightarrow> (None, m', k)
      | (_, m') \<Rightarrow> (Some EFAULT, m', k))"
| "move_piece UioWrite UserSeg addr n moved m k =
     (case copyin m addr n of
        Ok bs \<Rightarrow> (None, m, splice moved bs k)
      | _ \<Rightarrow> (Some EFAULT, m, if check_range addr n then splice moved (peek m addr n) k else k))"
| "move_piece UioRead KernelSeg addr n moved m k =
     (None, m\<lparr>m_bytes := (\<lambda>a. if addr \<le> a \<and> a < addr + n then k ! (moved + (a - addr)) else m_bytes m a)\<rparr>, k)"
| "move_piece UioWrite KernelSeg addr n moved m k =
     (None, m, splice moved (map (m_bytes m) [addr..<addr + n]) k)"

definition advance_seg :: "uio \<Rightarrow> uio" where
  "advance_seg u = u\<lparr>u_idx := Suc (u_idx u), u_seg_off := 0\<rparr>"

definition advance :: "nat \<Rightarrow> uio \<Rightarrow> uio" where
  "advance n u =
     u\<lparr>u_seg_off := u_seg_off u + n, u_resid := u_resid u - n, u_offset := wrap64 (u_offset u + n)\<rparr>"

lemma length_splice: "i + length bs \<le> length k \<Longrightarrow> length (splice i bs k) = length k"
  by (simp add: splice_def)

lemma length_peek: "length (peek m a n) \<le> n"
  using length_takeWhile_le [of "m_readable m" "[a..<a + n]"] by (simp add: peek_def)

lemma copyin_Ok_length: "copyin m a n = Ok bs \<Longrightarrow> length bs = n"
  by (auto simp: copyin_def Let_def split: if_splits)

lemma move_piece_length:
  assumes "move_piece rw seg addr n d m k = (e, m', k')" and "d + n \<le> length k"
  shows "length k' = length k"
  using assms length_peek [of m addr n]
  by (cases "(rw, seg, addr, n, d, m, k)" rule: move_piece.cases)
    (auto simp: length_splice copyin_Ok_length split: prod.splits kres.splits if_splits)

function move_loop :: "uio \<Rightarrow> umem \<Rightarrow> u8 list \<Rightarrow> nat \<Rightarrow> nat kres \<times> uio \<times> umem \<times> u8 list" where
  "move_loop u m k moved =
     (if moved < length k \<and> 0 < u_resid u then
        if length (u_iov u) \<le> u_idx u then (Panic, u, m, k)
        else let (base, len) = u_iov u ! u_idx u in
          if len < u_seg_off u then (Panic, u, m, k)
          else let avail = len - u_seg_off u in
            if avail = 0 then move_loop (advance_seg u) m k moved
            else let n = min avail (length k - moved);
                     addr = wrap64 (base + u_seg_off u) in
              case move_piece (u_rw u) (u_seg u) addr n moved m k of
                (Some e, m', k') \<Rightarrow> (Err e, u, m', k')
              | (None, m', k') \<Rightarrow>
                  if u_resid u < n then (Panic, u, m', k')
                  else move_loop (advance n u) m' k' (moved + n)
      else (Ok moved, u, m, k))"
  by pat_completeness auto

termination
proof (relation "measure (\<lambda>(u, m, k, d). (length (u_iov u) - u_idx u) + (length k - d))", goal_cases)
  case 1
  show ?case by simp
next
  case (2 u m k d x base len avail)
  then show ?case by (simp add: advance_seg_def) arith
next
  case (3 u m k d x base len avail n addr e r m' k')
  have "move_piece (u_rw u) (u_seg u) addr n d m k = (e, m', k')" using 3 by simp
  moreover have "d + n \<le> length k" using 3 by auto
  ultimately have "length k' = length k" by (rule move_piece_length)
  moreover have "0 < n" "d < length k" using 3 by auto
  ultimately have "length k' - (d + n) < length k - d" by simp
  then show ?case by (simp add: advance_def)
qed

declare move_loop.simps [simp del]

definition move_raw :: "uio \<Rightarrow> umem \<Rightarrow> u8 list \<Rightarrow> nat kres \<times> uio \<times> umem \<times> u8 list" where
  "move_raw u m k = move_loop u m k 0"

definition uiomove_out :: "uio \<Rightarrow> umem \<Rightarrow> u8 list \<Rightarrow> nat kres \<times> uio \<times> umem \<times> u8 list" where
  "uiomove_out u m data = (if u_rw u = UioRead then move_raw u m data else (Panic, u, m, data))"

definition uiomove_in :: "uio \<Rightarrow> umem \<Rightarrow> u8 list \<Rightarrow> nat kres \<times> uio \<times> umem \<times> u8 list" where
  "uiomove_in u m buf = (if u_rw u = UioWrite then move_raw u m buf else (Panic, u, m, buf))"

function uio_skip :: "uio \<Rightarrow> nat \<Rightarrow> uio kres" where
  "uio_skip u n =
     (if 0 < n \<and> 0 < u_resid u then
        if length (u_iov u) \<le> u_idx u then Panic
        else let (base, len) = u_iov u ! u_idx u in
          if len < u_seg_off u then Panic
          else let avail = len - u_seg_off u in
            if avail = 0 then uio_skip (advance_seg u) n
            else let k = min avail n in
              if u_resid u < k then Panic else uio_skip (advance k u) (n - k)
      else Ok u)"
  by pat_completeness auto

termination
  by (relation "measure (\<lambda>(u, n). (length (u_iov u) - u_idx u) + n)")
    (auto simp: advance_seg_def advance_def)

declare uio_skip.simps [simp del]

definition retreat_seg :: "uio \<Rightarrow> uio" where
  "retreat_seg u = u\<lparr>u_idx := u_idx u - 1, u_seg_off := snd (u_iov u ! (u_idx u - 1))\<rparr>"

definition retreat :: "nat \<Rightarrow> uio \<Rightarrow> uio" where
  "retreat k u =
     u\<lparr>u_seg_off := u_seg_off u - k, u_resid := u_resid u + k,
       u_offset := wrap64 (u_offset u + (2 ^ 64 - k mod 2 ^ 64))\<rparr>"

function uio_rewind :: "uio \<Rightarrow> nat \<Rightarrow> uio" where
  "uio_rewind u n =
     (if 0 < n then
        if u_seg_off u = 0 then
          if u_idx u = 0 then u else uio_rewind (retreat_seg u) n
        else let k = min (u_seg_off u) n in uio_rewind (retreat k u) (n - k)
      else u)"
  by pat_completeness auto

termination
  by (relation "measure (\<lambda>(u, n). u_idx u + n)") (auto simp: retreat_seg_def retreat_def)

declare uio_rewind.simps [simp del]

section \<open>Where a transfer stands\<close>

definition seg_addrs :: "nat \<times> nat \<Rightarrow> nat list" where
  "seg_addrs s = map (\<lambda>i. wrap64 (fst s + i)) [0..<snd s]"

definition all_addrs :: "uio \<Rightarrow> nat list" where
  "all_addrs u = concat (map seg_addrs (u_iov u))"

definition uio_pos :: "uio \<Rightarrow> nat" where
  "uio_pos u = length (concat (map seg_addrs (take (u_idx u) (u_iov u)))) + u_seg_off u"

definition uio_addrs :: "uio \<Rightarrow> nat list" where
  "uio_addrs u = drop (uio_pos u) (all_addrs u)"

definition cursor_ok :: "uio \<Rightarrow> bool" where
  "cursor_ok u \<longleftrightarrow> (if u_idx u < length (u_iov u) then u_seg_off u \<le> snd (u_iov u ! u_idx u)
     else u_idx u = length (u_iov u) \<and> u_seg_off u = 0) \<and> u_offset u < 2 ^ 64"

definition uio_ok :: "uio \<Rightarrow> bool" where
  "uio_ok u \<longleftrightarrow> cursor_ok u \<and> u_resid u \<le> length (uio_addrs u)"

lemma length_seg_addrs [simp]: "length (seg_addrs s) = snd s"
  by (simp add: seg_addrs_def)

lemma concat_seg_split:
  assumes "i < length iov"
  shows "concat (map seg_addrs iov) =
    concat (map seg_addrs (take i iov)) @ seg_addrs (iov ! i) @ concat (map seg_addrs (drop (Suc i) iov))"
proof -
  have "iov = take i iov @ iov ! i # drop (Suc i) iov" using assms by (rule id_take_nth_drop)
  then have "map seg_addrs iov
      = map seg_addrs (take i iov) @ seg_addrs (iov ! i) # map seg_addrs (drop (Suc i) iov)"
    by (metis list.simps(9) map_append)
  then show ?thesis by simp
qed

lemma pos_Suc:
  assumes "i < length iov"
  shows "length (concat (map seg_addrs (take (Suc i) iov)))
    = length (concat (map seg_addrs (take i iov))) + snd (iov ! i)"
  using assms by (simp add: take_Suc_conv_app_nth)

lemma advance_seg_pos:
  assumes "u_idx u < length (u_iov u)" and "u_seg_off u = snd (u_iov u ! u_idx u)" and "cursor_ok u"
  shows "uio_pos (advance_seg u) = uio_pos u" and "cursor_ok (advance_seg u)"
  using assms pos_Suc [of "u_idx u" "u_iov u"]
  by (auto simp: uio_pos_def advance_seg_def cursor_ok_def)

lemma advance_seg_sel [simp]:
  "u_iov (advance_seg u) = u_iov u" "u_resid (advance_seg u) = u_resid u"
  "u_offset (advance_seg u) = u_offset u" "u_rw (advance_seg u) = u_rw u" "u_seg (advance_seg u) = u_seg u"
  by (simp_all add: advance_seg_def)

lemma advance_sel [simp]:
  "u_iov (advance n u) = u_iov u" "u_resid (advance n u) = u_resid u - n" "u_idx (advance n u) = u_idx u"
  "u_offset (advance n u) = wrap64 (u_offset u + n)" "u_rw (advance n u) = u_rw u" "u_seg (advance n u) = u_seg u"
  "uio_pos (advance n u) = uio_pos u + n"
  by (simp_all add: advance_def uio_pos_def)

lemma all_addrs_cong [simp]: "all_addrs (advance_seg u) = all_addrs u" "all_addrs (advance n u) = all_addrs u"
  by (simp_all add: all_addrs_def)

lemma advance_seg_addrs:
  assumes "u_idx u < length (u_iov u)" and "u_seg_off u = snd (u_iov u ! u_idx u)" and "cursor_ok u"
  shows "uio_addrs (advance_seg u) = uio_addrs u"
  using advance_seg_pos [OF assms] by (simp add: uio_addrs_def)

lemma advance_addrs [simp]: "uio_addrs (advance n u) = drop n (uio_addrs u)"
  by (simp add: uio_addrs_def add.commute)

lemma advance_cursor_ok:
  assumes "u_idx u < length (u_iov u)" and "u_seg_off u + n \<le> snd (u_iov u ! u_idx u)" and "cursor_ok u"
  shows "cursor_ok (advance n u)"
  using assms by (simp add: cursor_ok_def advance_def wrap64_def)

text \<open>The addresses of one piece, and what \<open>check_range\<close> says of them.\<close>

lemma piece_addrs:
  assumes "u_idx u < length (u_iov u)" and "u_seg_off u + n \<le> snd (u_iov u ! u_idx u)"
  shows "take n (uio_addrs u) = map (\<lambda>i. wrap64 (fst (u_iov u ! u_idx u) + u_seg_off u + i)) [0..<n]"
proof -
  let ?s = "u_iov u ! u_idx u"
  have "uio_addrs u = drop (u_seg_off u) (seg_addrs ?s) @ concat (map seg_addrs (drop (Suc (u_idx u)) (u_iov u)))"
    using assms concat_seg_split [OF assms(1)] by (simp add: uio_addrs_def all_addrs_def uio_pos_def)
  then have "take n (uio_addrs u) = take n (drop (u_seg_off u) (seg_addrs ?s))" using assms(2) by simp
  also have "\<dots> = map (\<lambda>i. wrap64 (fst ?s + i)) [u_seg_off u..<u_seg_off u + n]"
    using assms(2) by (simp add: seg_addrs_def drop_map take_map)
  also have "\<dots> = map (\<lambda>i. wrap64 (fst ?s + u_seg_off u + i)) [0..<n]"
    by (rule nth_equalityI) (simp_all add: add.assoc)
  finally show ?thesis .
qed

lemma length_uio_addrs_piece:
  assumes "u_idx u < length (u_iov u)" and "u_seg_off u + n \<le> snd (u_iov u ! u_idx u)"
  shows "n \<le> length (uio_addrs u)"
proof -
  have "length (take n (uio_addrs u)) = n" using piece_addrs [OF assms] by simp
  then show ?thesis by simp
qed

definition user_addr :: "nat \<Rightarrow> bool" where
  "user_addr a \<longleftrightarrow> vm_minuser \<le> a \<and> a < vm_maxuser"

lemma wrap64_add_small:
  assumes "wrap64 a + i < 2 ^ 64"
  shows "wrap64 (a + i) = wrap64 a + i"
proof -
  have "wrap64 (a + i) = (wrap64 a + i) mod 2 ^ 64" by (simp add: wrap64_def mod_simps)
  then show ?thesis using assms by simp
qed

lemma check_range_addrs:
  assumes "check_range (wrap64 a) n"
  shows "map (\<lambda>i. wrap64 (a + i)) [0..<n] = [wrap64 a..<wrap64 a + n]"
    and "\<forall>x \<in> set [wrap64 a..<wrap64 a + n]. user_addr x"
proof -
  have "wrap64 a + i < 2 ^ 64" if "i < n" for i
    using assms that by (auto simp: check_range_def checked_add_u64_def u64_max_def vm_maxuser_def split: if_splits)
  then show "map (\<lambda>i. wrap64 (a + i)) [0..<n] = [wrap64 a..<wrap64 a + n]"
    by (intro nth_equalityI) (simp_all add: wrap64_add_small)
  show "\<forall>x \<in> set [wrap64 a..<wrap64 a + n]. user_addr x"
    using assms by (auto simp: check_range_def checked_add_u64_def user_addr_def split: if_splits)
qed

lemma check_range_bad:
  assumes "\<not> check_range (wrap64 a) n"
  shows "\<exists>x \<in> set (map (\<lambda>i. wrap64 (a + i)) [0..<n]). \<not> user_addr x"
proof -
  have n: "0 < n" using assms by (simp add: check_range_def)
  show ?thesis
  proof (cases "user_addr (wrap64 a)")
    case False
    then show ?thesis using n by (auto intro!: bexI [of _ 0])
  next
    case True
    then have lt: "wrap64 a < vm_maxuser" and "vm_minuser \<le> wrap64 a" by (auto simp: user_addr_def)
    then have "vm_maxuser < wrap64 a + n"
      using assms by (auto simp: check_range_def checked_add_u64_def u64_max_def vm_maxuser_def split: if_splits)
    then have i: "vm_maxuser - wrap64 a < n" and sum: "wrap64 a + (vm_maxuser - wrap64 a) = vm_maxuser"
      using lt by auto
    have "wrap64 (a + (vm_maxuser - wrap64 a)) = vm_maxuser"
      using wrap64_add_small [of a "vm_maxuser - wrap64 a"] sum by (simp add: vm_maxuser_def)
    then have "\<not> user_addr (wrap64 (a + (vm_maxuser - wrap64 a)))" by (simp add: user_addr_def)
    then show ?thesis using i by auto
  qed
qed

section \<open>What a copy does\<close>

definition write_at :: "umem \<Rightarrow> nat \<times> u8 \<Rightarrow> umem" where
  "write_at m ab = m\<lparr>m_bytes := (m_bytes m)(fst ab := snd ab)\<rparr>"

definition scatter :: "umem \<Rightarrow> nat list \<Rightarrow> u8 list \<Rightarrow> umem" where
  "scatter m as bs = foldl write_at m (zip as bs)"

lemma write_at_perms [simp]:
  "m_readable (write_at m ab) = m_readable m" "m_writable (write_at m ab) = m_writable m"
  by (simp_all add: write_at_def)

lemma scatter_perms [simp]:
  "m_readable (scatter m as bs) = m_readable m" "m_writable (scatter m as bs) = m_writable m"
proof -
  have "m_readable (foldl write_at m l) = m_readable m \<and> m_writable (foldl write_at m l) = m_writable m" for l
    by (induction l arbitrary: m) simp_all
  then show "m_readable (scatter m as bs) = m_readable m" "m_writable (scatter m as bs) = m_writable m"
    by (simp_all add: scatter_def)
qed

lemma scatter_simps [simp]:
  "scatter m [] bs = m" "scatter m as [] = m"
  "scatter m (a # as) (b # bs) = scatter (write_at m (a, b)) as bs"
  by (simp_all add: scatter_def)

lemma scatter_append:
  "length as = length bs \<Longrightarrow> scatter m (as @ as') (bs @ bs') = scatter (scatter m as bs) as' bs'"
  by (simp add: scatter_def)

text \<open>Bytes scattered to distinct addresses are read back.\<close>

lemma scatter_other: "a \<notin> set as \<Longrightarrow> m_bytes (scatter m as bs) a = m_bytes m a"
proof (induction as arbitrary: m bs)
  case (Cons x as)
  then show ?case by (cases bs) (auto simp: write_at_def)
qed simp

lemma scatter_read:
  "distinct as \<Longrightarrow> length bs = length as \<Longrightarrow> map (m_bytes (scatter m as bs)) as = bs"
proof (induction as arbitrary: m bs)
  case (Cons x as)
  then obtain b bs' where bs: "bs = b # bs'" by (cases bs) auto
  have "m_bytes (scatter (write_at m (x, b)) as bs') x = b"
    using Cons.prems by (simp add: scatter_other write_at_def)
  then show ?case using Cons bs by simp
qed simp

definition can_read :: "umem \<Rightarrow> nat \<Rightarrow> bool" where
  "can_read m a \<longleftrightarrow> user_addr a \<and> m_readable m a"

definition can_write :: "umem \<Rightarrow> nat \<Rightarrow> bool" where
  "can_write m a \<longleftrightarrow> user_addr a \<and> m_writable m a"

lemma can_write_scatter [simp]: "can_write (scatter m as bs) = can_write m"
  by (simp add: can_write_def fun_eq_iff)

lemma peek_full: "length (peek m a n) = n \<longleftrightarrow> (\<forall>x \<in> set [a..<a + n]. m_readable m x)"
proof -
  have "length (takeWhile (m_readable m) [a..<a + n]) = length [a..<a + n]
      \<longleftrightarrow> (\<forall>x \<in> set [a..<a + n]. m_readable m x)"
    by (metis takeWhile_eq_all_conv takeWhile_eq_take take_all_iff dual_order.refl)
  then show ?thesis by (simp add: peek_def)
qed

lemma copyin_eq:
  "copyin m (wrap64 a) n =
     (let as = map (\<lambda>i. wrap64 (a + i)) [0..<n]
      in if \<forall>x \<in> set as. can_read m x then Ok (map (m_bytes m) as) else Err EFAULT)"
proof (cases "check_range (wrap64 a) n")
  case True
  note r = check_range_addrs [OF True]
  have "peek m (wrap64 a) n = map (m_bytes m) [wrap64 a..<wrap64 a + n]"
    if "\<forall>x \<in> set [wrap64 a..<wrap64 a + n]. m_readable m x"
    using that unfolding peek_def by (simp only: takeWhile_eq_all_conv [THEN iffD2])
  then show ?thesis
    using True r peek_full [of m "wrap64 a" n] by (auto simp: copyin_def Let_def can_read_def)
next
  case False
  then show ?thesis
    using check_range_bad [OF False] unfolding copyin_def Let_def can_read_def by (metis (full_types))
qed

text \<open>A buffer of the caller's that holds given bytes.\<close>

definition user_holds :: "umem \<Rightarrow> nat \<Rightarrow> u8 list \<Rightarrow> bool" where
  "user_holds m a bs \<longleftrightarrow> vm_minuser \<le> a \<and> a + length bs \<le> vm_maxuser
     \<and> (\<forall>i < length bs. m_readable m (a + i) \<and> m_bytes m (a + i) = bs ! i)"

lemma copyin_holds:
  assumes "user_holds m a bs"
  shows "copyin m a (length bs) = Ok bs"
proof -
  have "\<forall>x \<in> set [a..<a + length bs]. m_readable m x"
    using assms unfolding user_holds_def by (metis atLeastLessThan_upt atLeastLessThan_iff le_Suc_ex nat_add_left_cancel_less)
  then have "peek m a (length bs) = map (m_bytes m) [a..<a + length bs]"
    unfolding peek_def by (simp only: takeWhile_eq_all_conv [THEN iffD2])
  also have "\<dots> = bs" using assms by (intro nth_equalityI) (simp_all add: user_holds_def)
  finally show ?thesis
    using assms by (simp add: copyin_def check_range_def checked_add_u64_def user_holds_def vm_minuser_def
        vm_maxuser_def u64_max_def)
qed

lemma poke_ok:
  "\<forall>x \<in> set [a..<a + length bs]. m_writable m x \<Longrightarrow> poke m a bs = (True, scatter m [a..<a + length bs] bs)"
proof (induction m a bs rule: poke.induct)
  case (2 m a b bs)
  have "[a..<a + length (b # bs)] = a # [Suc a..<Suc a + length bs]" by (simp add: upt_rec)
  then show ?case using 2 by (simp add: write_at_def)
qed simp

lemma poke_fault:
  "\<exists>x \<in> set [a..<a + length bs]. \<not> m_writable m x \<Longrightarrow>
     \<exists>j. fst (poke m a bs) = False \<and> snd (poke m a bs) = scatter m (take j [a..<a + length bs]) (take j bs)"
proof (induction m a bs rule: poke.induct)
  case (2 m a b bs)
  have upt: "[a..<a + length (b # bs)] = a # [Suc a..<Suc a + length bs]" by (simp add: upt_rec)
  show ?case
  proof (cases "m_writable m a")
    case False
    then show ?thesis by (intro exI [of _ 0]) simp
  next
    case True
    then have "\<exists>x \<in> set [Suc a..<Suc a + length bs]. \<not> m_writable (m\<lparr>m_bytes := (m_bytes m)(a := b)\<rparr>) x"
      using 2(2) unfolding upt by auto
    from 2(1) [OF True this] obtain j where
      "fst (poke m a (b # bs)) = False"
      "snd (poke m a (b # bs)) = scatter (write_at m (a, b)) (take j [Suc a..<Suc a + length bs]) (take j bs)"
      using True by (auto simp: write_at_def)
    then show ?thesis unfolding upt by (intro exI [of _ "Suc j"]) simp
  qed
qed simp

lemma copyout_ok:
  assumes "\<forall>x \<in> set (map (\<lambda>i. wrap64 (a + i)) [0..<length bs]). can_write m x"
  shows "copyout m bs (wrap64 a) = (Ok (), scatter m (map (\<lambda>i. wrap64 (a + i)) [0..<length bs]) bs)"
proof (cases "check_range (wrap64 a) (length bs)")
  case True
  then show ?thesis
    using assms check_range_addrs [OF True] poke_ok [of "wrap64 a" bs m] by (auto simp: copyout_def can_write_def)
next
  case False
  then show ?thesis using check_range_bad [OF False] assms unfolding can_write_def by blast
qed

lemma copyout_fault:
  assumes "\<exists>x \<in> set (map (\<lambda>i. wrap64 (a + i)) [0..<length bs]). \<not> can_write m x"
  shows "\<exists>j. copyout m bs (wrap64 a) =
    (Err EFAULT, scatter m (take j (map (\<lambda>i. wrap64 (a + i)) [0..<length bs])) (take j bs))"
proof (cases "check_range (wrap64 a) (length bs)")
  case True
  have "\<exists>x \<in> set [wrap64 a..<wrap64 a + length bs]. \<not> m_writable m x"
    using assms check_range_addrs [OF True] unfolding can_write_def by metis
  then obtain j where "fst (poke m (wrap64 a) bs) = False"
      "snd (poke m (wrap64 a) bs) = scatter m (take j [wrap64 a..<wrap64 a + length bs]) (take j bs)"
    using poke_fault by blast
  then show ?thesis
    using True check_range_addrs(1) [OF True] by (intro exI [of _ j]) (auto simp: copyout_def split: prod.splits)
next
  case False
  then show ?thesis by (intro exI [of _ 0]) (simp add: copyout_def)
qed

section \<open>What a transfer does\<close>

definition moved_on :: "uio \<Rightarrow> nat \<Rightarrow> uio \<Rightarrow> bool" where
  "moved_on u n u' \<longleftrightarrow> cursor_ok u' \<and> u_iov u' = u_iov u \<and> u_rw u' = u_rw u \<and> u_seg u' = u_seg u
     \<and> uio_pos u' = uio_pos u + n \<and> u_resid u' = u_resid u - n \<and> u_offset u' = wrap64 (u_offset u + n)"

lemma wrap64_small [simp]: "n < 2 ^ 64 \<Longrightarrow> wrap64 n = n"
  by (simp add: wrap64_def)

lemma wrap64_wrap64 [simp]: "wrap64 (wrap64 a + b) = wrap64 (a + b)"
  by (simp add: wrap64_def mod_simps)

lemma moved_on_0: "cursor_ok u \<Longrightarrow> moved_on u 0 u"
  by (simp add: moved_on_def cursor_ok_def)

lemma moved_on_seg:
  assumes "u_idx u < length (u_iov u)" and "u_seg_off u = snd (u_iov u ! u_idx u)" and "cursor_ok u"
  shows "moved_on (advance_seg u) n u' = moved_on u n u'"
  using advance_seg_pos [OF assms] by (simp add: moved_on_def)

lemma moved_on_advance:
  assumes "moved_on (advance p u) n u'"
  shows "moved_on u (p + n) u'"
  using assms by (simp add: moved_on_def add.assoc)

lemma moved_on_addrs: "moved_on u n u' \<Longrightarrow> uio_addrs u' = drop n (uio_addrs u)"
  by (simp add: moved_on_def uio_addrs_def all_addrs_def add.commute)

lemma cursor_not_at_end:
  assumes "cursor_ok u" and "uio_addrs u \<noteq> []"
  shows "u_idx u < length (u_iov u)"
proof (rule ccontr)
  assume "\<not> u_idx u < length (u_iov u)"
  then have "u_idx u = length (u_iov u)" using assms(1) by (simp add: cursor_ok_def)
  then have "uio_addrs u = []" by (simp add: uio_addrs_def uio_pos_def all_addrs_def)
  then show False using assms(2) by simp
qed

lemma splice_take: "moved \<le> length k \<Longrightarrow> take (moved + length bs) (splice moved bs k) = take moved k @ bs"
  by (simp add: splice_def)

lemma splice_drop:
  "moved \<le> length k \<Longrightarrow> length bs \<le> n \<Longrightarrow> drop (moved + n) (splice moved bs k) = drop (moved + n) k"
  by (simp add: splice_def) (simp add: add.commute)

text \<open>
  One turn of the loop with something to do: the transfer's next piece, of length \<open>p\<close>.
\<close>

lemma move_turn:
  assumes ok: "cursor_ok u" and todo: "moved < length k" "0 < u_resid u" "u_resid u \<le> length (uio_addrs u)"
    and fits: "length k - moved \<le> u_resid u \<or> u_resid u = length (uio_addrs u)"
  obtains (seg) "u_idx u < length (u_iov u)" "u_seg_off u = snd (u_iov u ! u_idx u)"
      "move_loop u m k moved = move_loop (advance_seg u) m k moved"
  | (piece) p where "0 < p" "p \<le> length k - moved" "p \<le> u_resid u" "u_idx u < length (u_iov u)"
      "u_seg_off u + p \<le> snd (u_iov u ! u_idx u)" "p = min (snd (u_iov u ! u_idx u) - u_seg_off u) (length k - moved)"
      "move_loop u m k moved =
        (case move_piece (u_rw u) (u_seg u) (wrap64 (fst (u_iov u ! u_idx u) + u_seg_off u)) p moved m k of
           (Some e, m', k') \<Rightarrow> (Err e, u, m', k')
         | (None, m', k') \<Rightarrow> move_loop (advance p u) m' k' (moved + p))"
proof -
  have "uio_addrs u \<noteq> []" using todo by auto
  then have i: "u_idx u < length (u_iov u)" using cursor_not_at_end [OF ok] by simp
  obtain base len where s: "u_iov u ! u_idx u = (base, len)" by fastforce
  have off: "u_seg_off u \<le> len" using ok i s by (simp add: cursor_ok_def)
  show thesis
  proof (cases "len = u_seg_off u")
    case True
    then show thesis
      using seg [OF i] i s todo by (simp add: move_loop.simps [of u m k moved])
  next
    case False
    define p where "p = min (len - u_seg_off u) (length k - moved)"
    have p: "0 < p" "p \<le> length k - moved" "u_seg_off u + p \<le> len" using False off todo by (auto simp: p_def)
    moreover have "p \<le> length (uio_addrs u)" using length_uio_addrs_piece [OF i, of p] p s by simp
    ultimately have r: "p \<le> u_resid u" using fits by auto
    have "move_loop u m k moved =
        (case move_piece (u_rw u) (u_seg u) (wrap64 (base + u_seg_off u)) p moved m k of
           (Some e, m', k') \<Rightarrow> (Err e, u, m', k')
         | (None, m', k') \<Rightarrow> if u_resid u < p then (Panic, u, m', k') else move_loop (advance p u) m' k' (moved + p))"
      using todo i s off False unfolding p_def by (simp add: move_loop.simps [of u m k moved] Let_def)
    then have "move_loop u m k moved =
        (case move_piece (u_rw u) (u_seg u) (wrap64 (fst (u_iov u ! u_idx u) + u_seg_off u)) p moved m k of
           (Some e, m', k') \<Rightarrow> (Err e, u, m', k')
         | (None, m', k') \<Rightarrow> move_loop (advance p u) m' k' (moved + p))"
      using r s by (simp split: prod.splits option.splits)
    then show thesis using piece [OF p(1,2) r i] p(3) s by (simp add: p_def)
  qed
qed

lemma move_loop_idle: "length k \<le> moved \<or> u_resid u = 0 \<Longrightarrow> move_loop u m k moved = (Ok moved, u, m, k)"
  by (auto simp: move_loop.simps [of u m k moved])

text \<open>The measure of the loop decreases on both kinds of turn.\<close>

lemma turn_measures:
  "u_idx u < length (u_iov u) \<Longrightarrow>
     length (u_iov (advance_seg u)) - u_idx (advance_seg u) < length (u_iov u) - u_idx u"
  by (simp add: advance_seg_def)

lemma split_piece:
  assumes "p \<le> n" and "n \<le> length xs"
  shows "take n xs = take p xs @ take (n - p) (drop p xs)"
  using assms by (metis append_take_drop_id le_add_diff_inverse take_add)

text \<open>
  A transfer stopped by a fault: \<open>j\<close> bytes count as moved, all of them readable; the piece that failed
  is the next \<open>p\<close> bytes, what is left of a segment or of the room in the buffer, one of which cannot be
  read; \<open>q\<close> bytes have arrived, up to the first that cannot be read or not past the last whole piece.
\<close>

definition stopped_at :: "umem \<Rightarrow> uio \<Rightarrow> nat \<Rightarrow> nat \<Rightarrow> nat \<Rightarrow> nat \<Rightarrow> uio \<Rightarrow> bool" where
  "stopped_at m u room j p q u' \<longleftrightarrow>
     moved_on u j u' \<and> u_idx u' < length (u_iov u) \<and> p = min (snd (u_iov u ! u_idx u') - u_seg_off u') (room - j) \<and>
     j + p \<le> u_resid u \<and> j \<le> q \<and> q < j + p \<and> list_all (can_read m) (take q (uio_addrs u)) \<and>
     \<not> list_all (can_read m) (take p (drop j (uio_addrs u))) \<and> (q = j \<or> \<not> can_read m (uio_addrs u ! q))"

lemma stopped_seg:
  assumes "u_idx u < length (u_iov u)" and "u_seg_off u = snd (u_iov u ! u_idx u)" and "cursor_ok u"
  shows "stopped_at m (advance_seg u) room j p q u' = stopped_at m u room j p q u'"
  using moved_on_seg [OF assms] advance_seg_addrs [OF assms] by (simp add: stopped_at_def)

lemma stopped_advance:
  assumes "stopped_at m (advance p0 u) (room - p0) j p q u'" and "list_all (can_read m) (take p0 (uio_addrs u))"
    and "p0 \<le> u_resid u" "p0 \<le> length (uio_addrs u)"
  shows "stopped_at m u room (p0 + j) p (p0 + q) u'"
proof -
  have h: "moved_on (advance p0 u) j u'" "u_idx u' < length (u_iov u)"
      "p = min (snd (u_iov u ! u_idx u') - u_seg_off u') (room - p0 - j)"
    and le: "j + p \<le> u_resid u - p0" "j \<le> q" "q < j + p"
    and rd: "list_all (can_read m) (take q (drop p0 (uio_addrs u)))"
      "\<not> list_all (can_read m) (take p (drop j (drop p0 (uio_addrs u))))" "q = j \<or> \<not> can_read m (drop p0 (uio_addrs u) ! q)"
    using assms(1) unfolding stopped_at_def advance_sel advance_addrs by blast+
  have "(p0 + j) + p \<le> u_resid u" "p0 + j \<le> p0 + q" "p0 + q < (p0 + j) + p" using le assms(3) by linarith+
  moreover have "list_all (can_read m) (take (p0 + q) (uio_addrs u))" using rd(1) assms(2) by (simp add: take_add)
  moreover have "\<not> list_all (can_read m) (take p (drop (p0 + j) (uio_addrs u)))" using rd(2) by (simp add: add.commute)
  moreover have "p0 + q = p0 + j \<or> \<not> can_read m (uio_addrs u ! (p0 + q))" using rd(3) assms(4) by simp
  moreover have "room - p0 - j = room - (p0 + j)" by simp
  ultimately show ?thesis unfolding stopped_at_def using h(2,3) moved_on_advance [OF h(1)] by (metis (no_types))
qed

lemma piece_fault:
  assumes "\<not> list_all (can_read m) as" and "as = map (\<lambda>i. wrap64 (a + i)) [0..<p]"
  shows "\<exists>q<p. list_all (can_read m) (take q as) \<and> (q = 0 \<or> \<not> can_read m (as ! q)) \<and>
    move_piece UioWrite UserSeg (wrap64 a) p moved m k =
      (Some EFAULT, m, take moved k @ map (m_bytes m) (take q as) @ drop (moved + q) k)"
proof -
  have f: "copyin m (wrap64 a) p = Err EFAULT" using assms unfolding copyin_eq Let_def list_all_iff by simp
  have p: "0 < p" "length as = p" using assms by (cases p; simp)+
  show ?thesis
  proof (cases "check_range (wrap64 a) p")
    case False
    then show ?thesis using f p(1) by (intro exI [of _ 0]) simp
  next
    case True
    note r = check_range_addrs [OF True, folded assms(2)]
    define q where "q = length (takeWhile (m_readable m) as)"
    have t: "takeWhile (m_readable m) as = take q as" unfolding q_def by (rule takeWhile_eq_take)
    have can: "can_read m x = m_readable m x" if "x \<in> set as" for x using r that by (simp add: can_read_def)
    have "q \<noteq> p"
    proof
      assume "q = p"
      then have "take q as = as" using p(2) by simp
      then have "\<forall>x \<in> set as. m_readable m x" using t by (metis set_takeWhileD)
      then show False using assms(1) can by (auto simp: list_all_iff)
    qed
    then have q: "q < p" using length_takeWhile_le [of "m_readable m" as] p(2) q_def by linarith
    have "\<forall>x \<in> set (take q as). m_readable m x" unfolding t [symmetric] by (auto dest: set_takeWhileD)
    moreover have "\<not> m_readable m (as ! q)" unfolding q_def by (rule nth_length_takeWhile) (use q p(2) q_def in simp)
    ultimately have "list_all (can_read m) (take q as)" "\<not> can_read m (as ! q)"
      using can q p(2) by (auto simp: list_all_iff dest: in_set_takeD)
    moreover have "peek m (wrap64 a) p = map (m_bytes m) (take q as)" using r(1) t by (simp add: peek_def)
    ultimately show ?thesis using f True q p(2) by (intro exI [of _ q]) (simp add: splice_def)
  qed
qed

lemma move_loop_in:
  fixes u k moved
  assumes "cursor_ok u" and "u_rw u = UioWrite" and "u_seg u = UserSeg" and "moved \<le> length k"
    and "u_resid u \<le> length (uio_addrs u)"
    and "length k - moved \<le> u_resid u \<or> u_resid u = length (uio_addrs u)"
    and "n = min (length k - moved) (u_resid u)"
  shows "if \<forall>x \<in> set (take n (uio_addrs u)). can_read m x
    then \<exists>u'. moved_on u n u' \<and> move_loop u m k moved =
        (Ok (moved + n), u', m, take moved k @ map (m_bytes m) (take n (uio_addrs u)) @ drop (moved + n) k)
    else \<exists>u' j p q. stopped_at m u (length k - moved) j p q u' \<and> move_loop u m k moved =
        (Err EFAULT, u', m, take moved k @ map (m_bytes m) (take q (uio_addrs u)) @ drop (moved + q) k)"
  using assms
proof (induction "(length (u_iov u) - u_idx u) + (length k - moved)" arbitrary: u k moved n rule: less_induct)
  case less
  show ?case
  proof (cases "moved < length k \<and> 0 < u_resid u")
    case False
    then have "n = 0" using less.prems by auto
    then show ?thesis
      using False move_loop_idle [of k moved u m] moved_on_0 [OF less.prems(1)] less.prems(4) by (auto simp: not_less)
  next
    case True
    then have todo: "moved < length k" "0 < u_resid u" by auto
    show ?thesis
    proof (cases rule: move_turn [OF less.prems(1) todo less.prems(5,6), where m = m])
      case 1
      note a = advance_seg_pos [OF 1(1,2) less.prems(1)] advance_seg_addrs [OF 1(1,2) less.prems(1)]
      have "(length (u_iov (advance_seg u)) - u_idx (advance_seg u)) + (length k - moved)
          < (length (u_iov u) - u_idx u) + (length k - moved)"
        using turn_measures [OF 1(1)] by simp
      from less.hyps [OF this a(2)] show ?thesis
        using less.prems 1(3) a(3) moved_on_seg [OF 1(1,2) less.prems(1)] stopped_seg [OF 1(1,2) less.prems(1)]
        by (auto split: if_splits)
    next
      case (2 p)
      let ?a = "fst (u_iov u ! u_idx u) + u_seg_off u"
      let ?as = "map (\<lambda>i. wrap64 (?a + i)) [0..<p]"
      have as: "take p (uio_addrs u) = ?as" using piece_addrs [OF 2(4,5)] by simp
      have pn: "p \<le> n" and nl: "n \<le> length (uio_addrs u)" using 2(2,3) less.prems(5,7) by auto
      have split: "take n (uio_addrs u) = ?as @ take (n - p) (uio_addrs (advance p u))"
        using split_piece [OF pn nl] as by simp
      show ?thesis
      proof (cases "\<forall>x \<in> set ?as. can_read m x")
        case False
        then have nr: "\<not> list_all (can_read m) ?as" by (simp add: list_all_iff)
        from piece_fault [OF this refl] obtain q where q: "q < p" "list_all (can_read m) (take q ?as)" "q = 0 \<or> \<not> can_read m (?as ! q)"
            "move_piece UioWrite UserSeg (wrap64 ?a) p moved m k =
              (Some EFAULT, m, take moved k @ map (m_bytes m) (take q ?as) @ drop (moved + q) k)" by blast
        have tq: "take q (uio_addrs u) = take q ?as" using as q(1) by (metis less_imp_le min.absorb1 take_take)
        have "uio_addrs u ! q = ?as ! q" using as q(1) by (metis nth_take)
        then have "stopped_at m u (length k - moved) 0 p q u"
          unfolding stopped_at_def tq drop_0 as diff_zero add_0 using q 2(3,4,6) nr moved_on_0 [OF less.prems(1)] by (metis le0)
        moreover have "move_loop u m k moved = (Err EFAULT, u, m, take moved k @ map (m_bytes m) (take q (uio_addrs u)) @ drop (moved + q) k)"
          unfolding 2(7) less.prems(2,3) q(4) tq by simp
        moreover have nf: "\<not> (\<forall>x \<in> set (take n (uio_addrs u)). can_read m x)" using False by (auto simp: split)
        ultimately show ?thesis unfolding if_not_P [OF nf] by blast
      next
        case ok: True
        let ?bs = "map (m_bytes m) ?as"
        let ?k = "splice moved ?bs k"
        have "copyin m (wrap64 ?a) p = Ok ?bs" using ok unfolding copyin_eq Let_def by simp
        then have eq: "move_loop u m k moved = move_loop (advance p u) m ?k (moved + p)"
          using 2(7) less.prems(2,3) by simp
        have lk: "length ?k = length k" using 2(2) less.prems(4) by (simp add: length_splice)
        have "length ?k - (moved + p) < length k - moved" using lk 2(1,2) todo(1) by simp
        then have smaller: "(length (u_iov (advance p u)) - u_idx (advance p u)) + (length ?k - (moved + p))
            < (length (u_iov u) - u_idx u) + (length k - moved)" by simp
        have np: "n - p = min (length ?k - (moved + p)) (u_resid (advance p u))"
          using lk less.prems(7) by simp
        have IH: "if \<forall>x \<in> set (take (n - p) (uio_addrs (advance p u))). can_read m x
          then \<exists>u'. moved_on (advance p u) (n - p) u' \<and> move_loop (advance p u) m ?k (moved + p) =
              (Ok (moved + p + (n - p)), u', m, take (moved + p) ?k
                 @ map (m_bytes m) (take (n - p) (uio_addrs (advance p u))) @ drop (moved + p + (n - p)) ?k)
          else \<exists>u' j p' q. stopped_at m (advance p u) (length ?k - (moved + p)) j p' q u' \<and> move_loop (advance p u) m ?k (moved + p) =
              (Err EFAULT, u', m, take (moved + p) ?k @ map (m_bytes m) (take q (uio_addrs (advance p u))) @ drop (moved + p + q) ?k)"
          by (rule less.hyps [OF smaller advance_cursor_ok [OF 2(4,5) less.prems(1)] _ _ _ _ _ np])
            (use less.prems 2(2,3) lk in auto)
        have k1: "take (moved + p) ?k = take moved k @ ?bs"
          using splice_take [OF less.prems(4), of ?bs] by simp
        have k2: "drop (moved + x) ?k = drop (moved + x) k" if "p \<le> x" for x
          using splice_drop [OF less.prems(4), of ?bs x] that by simp
        show ?thesis
        proof (cases "\<forall>x \<in> set (take (n - p) (uio_addrs (advance p u))). can_read m x")
          case True
          then show ?thesis using IH eq ok pn k1 k2 moved_on_advance [of p u "n - p"] by (auto simp: split)
        next
          case False
          then obtain u' j p' q where st: "stopped_at m (advance p u) (length k - moved - p) j p' q u'" "move_loop (advance p u) m ?k (moved + p) =
              (Err EFAULT, u', m, take (moved + p) ?k @ map (m_bytes m) (take q (uio_addrs (advance p u))) @ drop (moved + p + q) ?k)"
            using IH [unfolded if_not_P [OF False] lk diff_diff_left [symmetric]] by blast
          have stopped: "stopped_at m u (length k - moved) (p + j) p' (p + q) u'"
            by (rule stopped_advance [OF st(1)]) (use ok as 2(3) pn nl in \<open>simp_all add: list_all_iff\<close>)
          have "take (p + q) (uio_addrs u) = ?as @ take q (uio_addrs (advance p u))" using as by (simp add: take_add)
          moreover have nf: "\<not> (\<forall>x \<in> set (take n (uio_addrs u)). can_read m x)" using False by (auto simp: split)
          moreover have "moved + p + q = moved + (p + q)" by simp
          ultimately have "move_loop u m k moved = (Err EFAULT, u', m, take moved k @ map (m_bytes m) (take (p + q) (uio_addrs u)) @ drop (moved + (p + q)) k)"
            unfolding eq st(2) using k1 k2 [of "p + q"] by (simp add: add.assoc)
          then show ?thesis unfolding if_not_P [OF nf] using stopped by blast
        qed
      qed
    qed
  qed
qed

lemma move_loop_out:
  fixes u m moved
  assumes "cursor_ok u" and "u_rw u = UioRead" and "u_seg u = UserSeg" and "moved \<le> length k"
    and "u_resid u \<le> length (uio_addrs u)"
    and "length k - moved \<le> u_resid u \<or> u_resid u = length (uio_addrs u)"
    and "n = min (length k - moved) (u_resid u)"
  shows "if \<forall>x \<in> set (take n (uio_addrs u)). can_write m x
    then \<exists>u'. moved_on u n u' \<and> move_loop u m k moved =
        (Ok (moved + n), u', scatter m (take n (uio_addrs u)) (take n (drop moved k)), k)
    else \<exists>u' m'. move_loop u m k moved = (Err EFAULT, u', m', k)"
  using assms
proof (induction "(length (u_iov u) - u_idx u) + (length k - moved)" arbitrary: u m moved n rule: less_induct)
  case less
  show ?case
  proof (cases "moved < length k \<and> 0 < u_resid u")
    case False
    then have "n = 0" using less.prems by auto
    then show ?thesis
      using False move_loop_idle [of k moved u m] moved_on_0 [OF less.prems(1)] less.prems(4) by (auto simp: not_less)
  next
    case True
    then have todo: "moved < length k" "0 < u_resid u" by auto
    show ?thesis
    proof (cases rule: move_turn [OF less.prems(1) todo less.prems(5,6), where m = m])
      case 1
      note a = advance_seg_pos [OF 1(1,2) less.prems(1)] advance_seg_addrs [OF 1(1,2) less.prems(1)]
      have "(length (u_iov (advance_seg u)) - u_idx (advance_seg u)) + (length k - moved)
          < (length (u_iov u) - u_idx u) + (length k - moved)"
        using turn_measures [OF 1(1)] by simp
      from less.hyps [where m = m, OF this a(2)] show ?thesis
        using less.prems 1(3) a(3) moved_on_seg [OF 1(1,2) less.prems(1)] by (auto split: if_splits)
    next
      case (2 p)
      let ?a = "fst (u_iov u ! u_idx u) + u_seg_off u"
      let ?as = "map (\<lambda>i. wrap64 (?a + i)) [0..<p]"
      let ?d = "take p (drop moved k)"
      have len: "length ?d = p" using 2(2) by simp
      have as: "take p (uio_addrs u) = ?as" using piece_addrs [OF 2(4,5)] by simp
      have pn: "p \<le> n" and nl: "n \<le> length (uio_addrs u)" using 2(2,3) less.prems(5,7) by auto
      have split: "take n (uio_addrs u) = ?as @ take (n - p) (uio_addrs (advance p u))"
        using split_piece [OF pn nl] as by simp
      show ?thesis
      proof (cases "\<forall>x \<in> set ?as. can_write m x")
        case False
        then obtain j where "copyout m ?d (wrap64 ?a) = (Err EFAULT, scatter m (take j ?as) (take j ?d))"
          using copyout_fault [of ?a ?d m] len by auto
        then show ?thesis using 2(7) less.prems(2,3) False by (auto simp: split)
      next
        case ok: True
        let ?m = "scatter m ?as ?d"
        have "copyout m ?d (wrap64 ?a) = (Ok (), ?m)" using copyout_ok [of ?a ?d m] ok len by simp
        then have eq: "move_loop u m k moved = move_loop (advance p u) ?m k (moved + p)"
          using 2(7) less.prems(2,3) by simp
        have "length k - (moved + p) < length k - moved" using 2(1,2) todo(1) by simp
        then have smaller: "(length (u_iov (advance p u)) - u_idx (advance p u)) + (length k - (moved + p))
            < (length (u_iov u) - u_idx u) + (length k - moved)" by simp
        have np: "n - p = min (length k - (moved + p)) (u_resid (advance p u))"
          using less.prems(7) by simp
        have IH: "if \<forall>x \<in> set (take (n - p) (uio_addrs (advance p u))). can_write ?m x
          then \<exists>u'. moved_on (advance p u) (n - p) u' \<and> move_loop (advance p u) ?m k (moved + p) =
              (Ok (moved + p + (n - p)), u',
               scatter ?m (take (n - p) (uio_addrs (advance p u))) (take (n - p) (drop (moved + p) k)), k)
          else \<exists>u' m'. move_loop (advance p u) ?m k (moved + p) = (Err EFAULT, u', m', k)"
          by (rule less.hyps [OF smaller advance_cursor_ok [OF 2(4,5) less.prems(1)] _ _ _ _ _ np])
            (use less.prems 2(2,3) in auto)
        have "take n (drop moved k) = ?d @ take (n - p) (drop (moved + p) k)"
          using split_piece [of p n "drop moved k"] pn less.prems(7) by (simp add: add.commute)
        then have sc: "scatter m (take n (uio_addrs u)) (take n (drop moved k))
            = scatter ?m (take (n - p) (uio_addrs (advance p u))) (take (n - p) (drop (moved + p) k))"
          using len by (simp add: split scatter_append)
        show ?thesis
          unfolding sc using IH eq ok pn moved_on_advance [of p u "n - p"] by (auto simp: split split: if_splits)
      qed
    qed
  qed
qed

lemma retreat_seg_pos:
  assumes "cursor_ok u" and "u_seg_off u = 0" and "0 < u_idx u"
  shows "uio_pos (retreat_seg u) = uio_pos u" and "cursor_ok (retreat_seg u)"
proof -
  obtain i where i: "u_idx u = Suc i" using assms(3) by (cases "u_idx u") auto
  then have "i < length (u_iov u)" using assms(1) by (auto simp: cursor_ok_def split: if_splits)
  then show "uio_pos (retreat_seg u) = uio_pos u" and "cursor_ok (retreat_seg u)"
    using pos_Suc [of i "u_iov u"] i assms by (auto simp: uio_pos_def retreat_seg_def cursor_ok_def)
qed

lemma wrap64_retreat: "k \<le> k' \<Longrightarrow> wrap64 (wrap64 (x + k') + (2 ^ 64 - k mod 2 ^ 64)) = wrap64 (x + (k' - k))"
proof -
  assume le: "k \<le> k'"
  have "k mod 2 ^ 64 + (2 ^ 64 - k mod 2 ^ 64) = (2 ^ 64 :: nat)"
    by (simp add: less_imp_le)
  then have "(k + (2 ^ 64 - k mod 2 ^ 64)) mod 2 ^ 64 = (0 :: nat)"
    by (metis mod_add_left_eq mod_self)
  then have "(x + (k' - k) + (k + (2 ^ 64 - k mod 2 ^ 64))) mod 2 ^ 64 = (x + (k' - k)) mod (2 ^ 64 :: nat)"
    by (metis add.right_neutral mod_add_right_eq)
  moreover have "x + (k' - k) + (k + (2 ^ 64 - k mod 2 ^ 64)) = x + k' + (2 ^ 64 - k mod (2 ^ 64 :: nat))"
    using le by simp
  ultimately show ?thesis unfolding wrap64_def by (metis mod_add_left_eq)
qed

lemma rewind_spec:
  assumes "cursor_ok u" and "n \<le> uio_pos u" and "n \<le> c" and "u_offset u = wrap64 (x + c)"
  shows "cursor_ok (uio_rewind u n) \<and> u_iov (uio_rewind u n) = u_iov u
    \<and> uio_pos (uio_rewind u n) = uio_pos u - n \<and> u_resid (uio_rewind u n) = u_resid u + n
    \<and> u_offset (uio_rewind u n) = wrap64 (x + (c - n))
    \<and> u_rw (uio_rewind u n) = u_rw u \<and> u_seg (uio_rewind u n) = u_seg u"
  using assms
proof (induction u n arbitrary: c rule: uio_rewind.induct)
  case (1 u n)
  show ?case
  proof (cases "0 < n")
    case False
    then show ?thesis using 1(3-) by (simp add: uio_rewind.simps [of u 0])
  next
    case n: True
    show ?thesis
    proof (cases "u_seg_off u = 0")
      case True
      have i: "0 < u_idx u"
        using n 1(4) True by (cases "u_idx u") (auto simp: uio_pos_def)
      note r = retreat_seg_pos [OF 1(3) True i]
      have "u_offset (retreat_seg u) = u_offset u" "u_iov (retreat_seg u) = u_iov u"
        "u_resid (retreat_seg u) = u_resid u" "u_rw (retreat_seg u) = u_rw u" "u_seg (retreat_seg u) = u_seg u"
        by (simp_all add: retreat_seg_def)
      then show ?thesis
        using 1(1) [OF n True _ r(2), of c] i r(1) 1(4-6) n True
        by (simp add: uio_rewind.simps [of u n])
    next
      case False
      define k where "k = min (u_seg_off u) n"
      have k: "0 < k" "k \<le> n" "k \<le> u_seg_off u" using n False by (auto simp: k_def)
      have pos: "uio_pos (retreat k u) = uio_pos u - k"
        using k by (simp add: uio_pos_def retreat_def)
      have cur: "cursor_ok (retreat k u)"
        using 1(3) k by (auto simp: cursor_ok_def retreat_def wrap64_def split: if_splits)
      have off: "u_offset (retreat k u) = wrap64 (x + (c - k))"
        using wrap64_retreat [of k c x] 1(5,6) k by (simp add: retreat_def)
      have sel: "u_iov (retreat k u) = u_iov u" "u_resid (retreat k u) = u_resid u + k"
        "u_rw (retreat k u) = u_rw u" "u_seg (retreat k u) = u_seg u"
        by (simp_all add: retreat_def)
      have eq: "uio_rewind u n = uio_rewind (retreat k u) (n - k)"
        using n False by (simp add: uio_rewind.simps [of u n] Let_def k_def)
      show ?thesis
        using 1(2) [OF n False k_def cur _ _ off] pos sel eq 1(4,5) k by simp
    qed
  qed
qed

lemma uio_total_eq:
  "r \<le> isize_max \<Longrightarrow> uio_total iov r =
     (if r + sum_list (map snd iov) \<le> isize_max then Ok (r + sum_list (map snd iov)) else Err EINVAL)"
proof (induction iov r rule: uio_total.induct)
  case (2 base len iov r)
  then show ?case
    by (cases "r + len \<le> isize_max") (auto simp: checked_add_u64_def u64_max_def isize_max_def)
qed simp

lemma length_all_addrs: "length (concat (map seg_addrs iov)) = sum_list (map snd iov)"
  by (induction iov) auto

lemma uio_new_eq:
  assumes "offset < 2 ^ 64"
  shows "if sum_list (map snd iov) \<le> isize_max
    then \<exists>u. uio_new iov rw seg offset = Ok u \<and> uio_ok u \<and> uio_addrs u = concat (map seg_addrs iov)
           \<and> u_resid u = length (uio_addrs u) \<and> u_rw u = rw \<and> u_seg u = seg \<and> u_offset u = offset
    else uio_new iov rw seg offset = Err EINVAL"
  using assms uio_total_eq [of 0 iov]
  by (auto simp: uio_new_def uio_ok_def cursor_ok_def uio_addrs_def uio_pos_def all_addrs_def length_all_addrs)

lemma uiomove_in_spec:
  assumes "uio_ok u" and "u_rw u = UioWrite" and "u_seg u = UserSeg"
    and "length buf \<le> u_resid u \<or> u_resid u = length (uio_addrs u)"
  shows "let n = min (length buf) (u_resid u); as = take n (uio_addrs u) in
    if \<forall>a \<in> set as. can_read m a
    then \<exists>u'. uiomove_in u m buf = (Ok n, u', m, map (m_bytes m) as @ drop n buf)
           \<and> uio_ok u' \<and> uio_addrs u' = drop n (uio_addrs u) \<and> u_resid u' = u_resid u - n
           \<and> u_offset u' = wrap64 (u_offset u + n)
    else \<exists>u' j p q. uiomove_in u m buf = (Err EFAULT, u', m, map (m_bytes m) (take q as) @ drop q buf)
           \<and> uio_ok u' \<and> uio_addrs u' = drop j (uio_addrs u) \<and> u_resid u' = u_resid u - j
           \<and> u_offset u' = wrap64 (u_offset u + j)
           \<and> u_idx u' < length (u_iov u) \<and> p = min (snd (u_iov u ! u_idx u') - u_seg_off u') (length buf - j)
           \<and> j + p \<le> n \<and> j \<le> q \<and> q < j + p
           \<and> list_all (can_read m) (take q as) \<and> \<not> list_all (can_read m) (take p (drop j as))
           \<and> (q = j \<or> \<not> can_read m (as ! q))"
proof -
  define n where "n = min (length buf) (u_resid u)"
  have ok: "cursor_ok u" "u_resid u \<le> length (uio_addrs u)" using assms(1) by (auto simp: uio_ok_def)
  have n: "n = min (length buf - 0) (u_resid u)" by (simp add: n_def)
  have fits: "length buf - 0 \<le> u_resid u \<or> u_resid u = length (uio_addrs u)" using assms(4) by simp
  have post: "uio_ok u' \<and> uio_addrs u' = drop x (uio_addrs u) \<and> u_resid u' = u_resid u - x
      \<and> u_offset u' = wrap64 (u_offset u + x)" if "moved_on u x u'" for u' x
    using that moved_on_addrs [OF that] ok(2) by (auto simp: moved_on_def uio_ok_def)
  note ml = move_loop_in [OF ok(1) assms(2,3) le0 ok(2) fits n, where m = m]
  have mv: "uiomove_in u m buf = move_loop u m buf 0" using assms(2) by (simp add: uiomove_in_def move_raw_def)
  show ?thesis
  proof (cases "\<forall>a \<in> set (take n (uio_addrs u)). can_read m a")
    case True
    then show ?thesis using ml post unfolding Let_def n_def [symmetric] mv by auto
  next
    case False
    then obtain u' j p q where st: "stopped_at m u (length buf) j p q u'"
        "move_loop u m buf 0 = (Err EFAULT, u', m, map (m_bytes m) (take q (uio_addrs u)) @ drop q buf)"
      using ml [unfolded if_not_P [OF False]] by auto
    have "p \<le> length buf - j" "j + p \<le> u_resid u" "j \<le> q" "q < j + p"
      using st(1) unfolding stopped_at_def by (metis min.cobounded2)+
    then have le: "j + p \<le> n" "q \<le> n" by (auto simp: n_def)
    then have tk: "take q (take n (uio_addrs u)) = take q (uio_addrs u)"
      "take p (drop j (take n (uio_addrs u))) = take p (drop j (uio_addrs u))" by (simp_all add: drop_take min_def)
    have "q < n" using st(1) le(1) by (simp add: stopped_at_def)
    then have nth: "take n (uio_addrs u) ! q = uio_addrs u ! q" by simp
    show ?thesis unfolding Let_def n_def [symmetric] if_not_P [OF False] mv
      using st le(1) post [of j u'] unfolding stopped_at_def
      by (intro exI [of _ u'] exI [of _ j] exI [of _ p] exI [of _ q], unfold tk nth) blast
  qed
qed

section \<open>Properties\<close>

text \<open>A transfer whose count is all its segments have left stays one as it moves on.\<close>

definition uio_whole :: "uio \<Rightarrow> bool" where
  "uio_whole u \<longleftrightarrow> cursor_ok u \<and> u_resid u = length (uio_addrs u)"

lemma uio_whole_ok: "uio_whole u \<Longrightarrow> uio_ok u"
  by (simp add: uio_whole_def uio_ok_def)

lemma moved_on_whole:
  assumes "moved_on u n u'" and "uio_whole u"
  shows "uio_whole u'" and "uio_addrs u' = drop n (uio_addrs u)" and "u_resid u' = u_resid u - n"
    and "u_rw u' = u_rw u" and "u_seg u' = u_seg u"
  using assms moved_on_addrs [OF assms(1)] by (auto simp: moved_on_def uio_whole_def)

lemma uiomove_in_whole:
  assumes "uio_whole u" and "u_rw u = UioWrite" and "u_seg u = UserSeg"
  shows "let n = min (length buf) (u_resid u); as = take n (uio_addrs u) in
    if \<forall>a \<in> set as. can_read m a
    then \<exists>u'. uiomove_in u m buf = (Ok n, u', m, map (m_bytes m) as @ drop n buf) \<and> moved_on u n u'
    else \<exists>u' buf'. uiomove_in u m buf = (Err EFAULT, u', m, buf')"
proof -
  have ok: "cursor_ok u" "u_resid u \<le> length (uio_addrs u)" "length buf - 0 \<le> u_resid u \<or> u_resid u = length (uio_addrs u)"
    using assms(1) by (auto simp: uio_whole_def)
  show ?thesis
    using move_loop_in [OF ok(1) assms(2,3) le0 ok(2,3) refl, where m = m] assms(2)
    by (auto simp: uiomove_in_def move_raw_def Let_def split: if_splits)
qed

lemma uiomove_out_whole:
  assumes "uio_whole u" and "u_rw u = UioRead" and "u_seg u = UserSeg"
  shows "let n = min (length data) (u_resid u); as = take n (uio_addrs u) in
    if \<forall>a \<in> set as. can_write m a
    then \<exists>u'. uiomove_out u m data = (Ok n, u', scatter m as (take n data), data) \<and> moved_on u n u'
    else \<exists>u' m'. uiomove_out u m data = (Err EFAULT, u', m', data)"
proof -
  have ok: "cursor_ok u" "u_resid u \<le> length (uio_addrs u)" "length data - 0 \<le> u_resid u \<or> u_resid u = length (uio_addrs u)"
    using assms(1) by (auto simp: uio_whole_def)
  show ?thesis
    using move_loop_out [OF ok(1) assms(2,3) le0 ok(2,3) refl, where m = m] assms(2)
    by (auto simp: uiomove_out_def move_raw_def Let_def split: if_splits)
qed


text \<open>
  C33. \<open>uiomove_out\<close> scatters: the bytes of the kernel buffer go, in order, to the next addresses
  of the segments; when those are distinct, reading them back gives the buffer's prefix, and no other
  address changes. It fails with \<open>EFAULT\<close> exactly when one of the addresses is outside the user
  range or not writable.
\<close>

theorem uiomove_out_scatters:
  assumes "uio_ok u" and "u_rw u = UioRead" and "u_seg u = UserSeg"
    and "length data \<le> u_resid u \<or> u_resid u = length (uio_addrs u)"
    and "distinct (uio_addrs u)"
  shows "let n = min (length data) (u_resid u); as = take n (uio_addrs u) in
    if \<forall>a \<in> set as. can_write m a
    then \<exists>u' m'. uiomove_out u m data = (Ok n, u', m', data)
           \<and> map (m_bytes m') as = take n data \<and> (\<forall>a. a \<notin> set as \<longrightarrow> m_bytes m' a = m_bytes m a)
           \<and> uio_ok u' \<and> uio_addrs u' = drop n (uio_addrs u) \<and> u_resid u' = u_resid u - n
    else \<exists>u' m'. uiomove_out u m data = (Err EFAULT, u', m', data)"
proof -
  define n where "n = min (length data) (u_resid u)"
  have ok: "cursor_ok u" "u_resid u \<le> length (uio_addrs u)" using assms(1) by (auto simp: uio_ok_def)
  have n: "n = min (length data - 0) (u_resid u)" by (simp add: n_def)
  have fits: "length data - 0 \<le> u_resid u \<or> u_resid u = length (uio_addrs u)" using assms(4) by simp
  have post: "uio_ok u' \<and> uio_addrs u' = drop n (uio_addrs u) \<and> u_resid u' = u_resid u - n"
    if "moved_on u n u'" for u'
    using that moved_on_addrs [OF that] ok(2) by (auto simp: moved_on_def uio_ok_def)
  have len: "length (take n data) = length (take n (uio_addrs u))" using ok(2) by (simp add: n_def)
  have "map (m_bytes (scatter m (take n (uio_addrs u)) (take n data))) (take n (uio_addrs u)) = take n data"
    by (rule scatter_read [OF distinct_take [OF assms(5)] len])
  then show ?thesis
    using move_loop_out [OF ok(1) assms(2,3) le0 ok(2) fits n, where m = m] post assms(2)
      scatter_other [of _ "take n (uio_addrs u)" m "take n data"]
    by (auto simp: uiomove_out_def move_raw_def Let_def n_def [symmetric] split: if_splits)
qed

text \<open>
  \<open>rewind\<close> undoes part of a transfer: after \<open>n\<close> bytes moved, giving back \<open>r\<close> of
  them leaves the transfer exactly where moving only \<open>n - r\<close> would have: the same addresses left,
  the same remaining count and file offset.
\<close>

theorem rewind_gives_back:
  assumes "uio_ok u" and "u_rw u = UioWrite" and "u_seg u = UserSeg"
    and "u_resid u = length (uio_addrs u)"
    and "uiomove_in u m buf = (Ok n, u', m', buf')" and "r \<le> n"
  shows "uio_addrs (uio_rewind u' r) = drop (n - r) (uio_addrs u)
    \<and> u_resid (uio_rewind u' r) = u_resid u - (n - r)
    \<and> u_offset (uio_rewind u' r) = wrap64 (u_offset u + (n - r))"
proof -
  have ok: "cursor_ok u" "u_resid u \<le> length (uio_addrs u)" using assms(1) by (auto simp: uio_ok_def)
  let ?n = "min (length buf - 0) (u_resid u)"
  have m: "moved_on u n u'" and n: "n \<le> u_resid u"
    using move_loop_in [OF ok(1) assms(2,3) le0 ok(2) disjI2 [OF assms(4)] refl [of ?n], where m = m] assms(2,5)
    by (auto simp: uiomove_in_def move_raw_def split: if_splits)
  then have u': "cursor_ok u'" "uio_pos u' = uio_pos u + n" "u_iov u' = u_iov u"
      "u_resid u' = u_resid u - n" "u_offset u' = wrap64 (u_offset u + n)"
    by (simp_all add: moved_on_def)
  have "r \<le> uio_pos u'" using u'(2) assms(6) by simp
  note rw = rewind_spec [OF u'(1) this assms(6) u'(5)]
  then have "uio_addrs (uio_rewind u' r) = drop (n - r) (uio_addrs u)"
    using u' assms(6) by (simp add: uio_addrs_def all_addrs_def add.commute)
  then show ?thesis using rw u' n assms(6) by simp
qed

text \<open>
  C37. A transfer shortened by \<open>limit_resid\<close> does not bound the copy: moving into a buffer longer
  than the shortened count, from one segment that holds the whole buffer, takes the full piece and then
  subtracts it from the smaller count, which underflows. A caller has to size its buffer by the
  remaining count itself.
\<close>

theorem limited_uiomove_underflows:
  assumes "cursor_ok u" and "u_rw u = UioWrite" and "u_seg u = UserSeg" and "u_idx u < length (u_iov u)"
    and "0 < mx" and "mx < length buf" and "length buf \<le> u_resid u"
    and "u_seg_off u + length buf \<le> snd (u_iov u ! u_idx u)"
    and "\<forall>a \<in> set (take (length buf) (uio_addrs u)). can_read m a"
  shows "fst (uiomove_in (limit_resid mx u) m buf) = Panic"
proof -
  obtain base len where s: "u_iov u ! u_idx u = (base, len)" by fastforce
  let ?a = "base + u_seg_off u"
  have "take (length buf) (uio_addrs u) = map (\<lambda>i. wrap64 (?a + i)) [0..<length buf]"
    using piece_addrs [OF assms(4,8)] s by simp
  then have "copyin m (wrap64 ?a) (length buf)
      = Ok (map (m_bytes m) (map (\<lambda>i. wrap64 (?a + i)) [0..<length buf]))"
    unfolding copyin_eq Let_def using assms(9) by simp
  moreover have "min (len - u_seg_off u) (length buf) = length buf" "\<not> len < u_seg_off u" "u_seg_off u < len"
    using assms(6,8) s by auto
  moreover have "limit_resid mx u = u\<lparr>u_resid := mx\<rparr>" using assms(6,7) by (simp add: limit_resid_def)
  ultimately show ?thesis
    using assms s less_trans [OF assms(5,6)]
    by (simp add: uiomove_in_def move_raw_def move_loop.simps [of "u\<lparr>u_resid := mx\<rparr>"] Let_def)
qed

section \<open>A small address space\<close>

text \<open>Addresses \<open>0x2000..0x200f\<close> are readable and writable, byte \<open>a\<close> holding \<open>a mod 256\<close>.\<close>

definition ex_mem :: umem where
  "ex_mem = \<lparr> m_bytes = (\<lambda>a. word_of_nat a), m_readable = (\<lambda>a. 0x2000 \<le> a \<and> a < 0x2010),
              m_writable = (\<lambda>a. 0x2000 \<le> a \<and> a < 0x2010) \<rparr>"

definition ex_uio :: "uio_rw \<Rightarrow> uio" where
  "ex_uio rw = \<lparr> u_iov = [(0x2000, 2), (0x2008, 3)], u_idx = 0, u_seg_off = 0, u_resid = 5,
                 u_offset = 100, u_rw = rw, u_seg = UserSeg \<rparr>"

lemma ex_uio_addrs [simp]: "uio_addrs (ex_uio rw) = [0x2000, 0x2001, 0x2008, 0x2009, 0x200a]"
  by (simp add: uio_addrs_def uio_pos_def all_addrs_def ex_uio_def seg_addrs_def upt_rec wrap64_def)

lemma ex_uio_sel [simp]:
  "u_rw (ex_uio rw) = rw" "u_seg (ex_uio rw) = UserSeg" "u_resid (ex_uio rw) = 5" "u_offset (ex_uio rw) = 100"
  by (simp_all add: ex_uio_def)

lemma ex_uio_ok: "uio_ok (ex_uio rw)"
  by (simp add: uio_ok_def cursor_ok_def) (simp add: ex_uio_def)

lemma ex_mem_can [simp]:
  "can_read ex_mem a = (0x2000 \<le> a \<and> a < 0x2010)" "can_write ex_mem a = (0x2000 \<le> a \<and> a < 0x2010)"
  "m_bytes ex_mem a = word_of_nat a"
  by (auto simp: can_read_def can_write_def user_addr_def vm_minuser_def vm_maxuser_def ex_mem_def)

text \<open>A transfer whose second segment cannot be read.\<close>

definition bad_uio :: uio where
  "bad_uio = \<lparr> u_iov = [(0x2000, 2), (0x200f, 3)], u_idx = 0, u_seg_off = 0, u_resid = 5,
               u_offset = 100, u_rw = UioWrite, u_seg = UserSeg \<rparr>"

lemma bad_uio_addrs [simp]: "uio_addrs bad_uio = [0x2000, 0x2001, 0x200f, 0x2010, 0x2011]"
  by (simp add: uio_addrs_def uio_pos_def all_addrs_def bad_uio_def seg_addrs_def upt_rec wrap64_def)



theorem uiomove_out_scatters_witness:
  "\<exists>u' m'. uiomove_out (ex_uio UioRead) ex_mem [7, 8, 9] = (Ok 3, u', m', [7, 8, 9])
      \<and> m_bytes m' 0x2008 = 9 \<and> m_bytes m' 0x2009 = m_bytes ex_mem 0x2009"
  using uiomove_out_scatters [OF ex_uio_ok, of UioRead "[7, 8, 9]" ex_mem]
  by (auto simp: Let_def)

lemma ex_uio_moves: "\<exists>u'. uiomove_in (ex_uio UioWrite) ex_mem [0, 0, 0] = (Ok 3, u', ex_mem, [0, 1, 8])"
  using uiomove_in_spec [OF ex_uio_ok, of UioWrite "[0, 0, 0]" ex_mem] by (auto simp: Let_def)

theorem rewind_gives_back_witness:
  "\<exists>u'. uiomove_in (ex_uio UioWrite) ex_mem [0, 0, 0] = (Ok 3, u', ex_mem, [0, 1, 8])
      \<and> uio_addrs (uio_rewind u' 2) = [0x2001, 0x2008, 0x2009, 0x200a] \<and> u_resid (uio_rewind u' 2) = 4"
proof -
  obtain u' where u': "uiomove_in (ex_uio UioWrite) ex_mem [0, 0, 0] = (Ok 3, u', ex_mem, [0, 1, 8])"
    using ex_uio_moves by blast
  have "uio_addrs (uio_rewind u' 2) = drop (3 - 2) (uio_addrs (ex_uio UioWrite))
      \<and> u_resid (uio_rewind u' 2) = u_resid (ex_uio UioWrite) - (3 - 2)"
    using rewind_gives_back [OF ex_uio_ok ex_uio_sel(1,2) _ u', of 2] by simp
  then show ?thesis using u' by (intro exI [of _ u']) simp
qed

theorem limited_uiomove_underflows_witness:
  "fst (uiomove_in (limit_resid 1 (ex_uio UioWrite)) ex_mem [0, 0]) = Panic"
proof -
  have "cursor_ok (ex_uio UioWrite)" using ex_uio_ok by (simp add: uio_ok_def)
  then show ?thesis
    using limited_uiomove_underflows [of "ex_uio UioWrite" 1 "[0, 0]" ex_mem]
    by (simp add: numeral_2_eq_2) (simp add: ex_uio_def)
qed

end
