(* ===== verification/Wakeup.thy ===== *)
theory Wakeup
  imports Scheduler
begin

text \<open>
  The discipline every blocking primitive of the kernel follows, as one contract. A blocking call
  checks its condition and, if it cannot go on, records why it waits in its process's state and gives
  up the CPU; whoever changes what it waits for makes it ready again, and the call checks its condition
  from the start. A wake-up is lost when a process stays blocked although its condition holds.

  A system for this contract is a step relation together with which process waits with which
  request (\<open>waiting\<close>) and whether a request cannot be granted (\<open>stuck\<close>). The one law
  is local to a step: after it, each waiting request either waited before and is no closer to being
  granted, or is stuck. The conclusion is global: in every reachable state, whatever waits is stuck.
\<close>

locale wakeup_discipline =
  fixes step :: "'s \<Rightarrow> 's \<Rightarrow> bool"
    and waiting :: "'s \<Rightarrow> pid \<Rightarrow> 'w \<Rightarrow> bool"
    and stuck :: "'s \<Rightarrow> 'w \<Rightarrow> bool"
    and invar :: "'s \<Rightarrow> bool"
  assumes invar_step: "step s s' \<Longrightarrow> invar s \<Longrightarrow> invar s'"
    and step_wakes: "step s s' \<Longrightarrow> invar s \<Longrightarrow> waiting s' p w \<Longrightarrow>
      stuck s' w \<or> waiting s p w \<and> (stuck s w \<longrightarrow> stuck s' w)"
begin

definition all_stuck :: "'s \<Rightarrow> bool" where
  "all_stuck s \<longleftrightarrow> (\<forall>p w. waiting s p w \<longrightarrow> stuck s w)"

lemma step_all_stuck:
  assumes "step s s'" and "invar s" and "all_stuck s"
  shows "all_stuck s'"
  using step_wakes [OF assms(1,2)] assms(3) unfolding all_stuck_def by blast

lemma reachable_all_stuck:
  assumes "step\<^sup>*\<^sup>* s s'" and "invar s" and "all_stuck s"
  shows "invar s' \<and> all_stuck s'"
  using assms(1)
proof induction
  case base
  then show ?case using assms by simp
next
  case (step s' s'')
  then show ?case using invar_step step_all_stuck by blast
qed

lemma no_lost_wakeup:
  assumes "step\<^sup>*\<^sup>* s s'" and "invar s" and "\<And>p w. \<not> waiting s p w" and "waiting s' p w"
  shows "stuck s' w"
  using reachable_all_stuck [OF assms(1,2)] assms(3,4) unfolding all_stuck_def by blast

end

text \<open>
  What the rest of the kernel may do to the process table between two operations of a component:
  schedule, wake, stop, signal, expire deadlines, create and reap processes; but only the component's
  own calls put a process to sleep for one of its reasons (\<open>R\<close>).
\<close>

definition elsewhere :: "(block_reason \<Rightarrow> bool) \<Rightarrow> kcore \<Rightarrow> kcore \<Rightarrow> bool" where
  "elsewhere R k k' \<longleftrightarrow> (\<forall>pid p' r. bget (k_table k') pid = Some p' \<longrightarrow> p_state p' = Blocked r \<longrightarrow> R r \<longrightarrow>
     (\<exists>p. bget (k_table k) pid = Some p \<and> p_state p = Blocked r))"

lemma elsewhere_refl: "elsewhere R k k"
  by (auto simp: elsewhere_def)

lemma elsewhere_trans: "elsewhere R a b \<Longrightarrow> elsewhere R b c \<Longrightarrow> elsewhere R a c"
  unfolding elsewhere_def by blast

text \<open>The scheduler, the wake-up loops and the timer are such activity.\<close>

lemma elsewhere_wake_where: "elsewhere R k (wake_where P k)"
  by (auto simp: elsewhere_def wake_where_get split: if_splits)

lemma elsewhere_wake_proc: "elsewhere R k (wake_proc pid k)"
  by (auto simp: elsewhere_def wake_proc_get split: if_splits)

definition blocked_as :: "kcore \<Rightarrow> pid \<Rightarrow> block_reason \<Rightarrow> bool" where
  "blocked_as k pid r \<longleftrightarrow> (\<exists>p. bget (k_table k) pid = Some p \<and> p_state p = Blocked r)"

lemma blocked_as_elsewhere: "elsewhere R k k' \<Longrightarrow> R r \<Longrightarrow> blocked_as k' pid r \<Longrightarrow> blocked_as k pid r"
  unfolding elsewhere_def blocked_as_def by blast

lemma blocked_as_wake_where:
  "\<not> P Ready \<Longrightarrow> blocked_as (wake_where P k) pid r \<longleftrightarrow> blocked_as k pid r \<and> \<not> P (Blocked r)"
  by (cases "bget (k_table k) pid") (auto simp: blocked_as_def wake_where_get)

lemma blocked_as_block_current:
  "blocked_as (block_current r0 k) pid r \<longleftrightarrow>
     (if pid = k_current k then r = r0 \<and> bget (k_table k) pid \<noteq> None else blocked_as k pid r)"
  by (auto simp: blocked_as_def block_current_def)

lemma blocked_as_upd_same:
  "(\<And>p. p_state (f p) = p_state p) \<Longrightarrow> blocked_as (upd_proc q f k) pid r \<longleftrightarrow> blocked_as k pid r"
  by (auto simp: blocked_as_def)

end
