(* ===== verification/Sysv_Ipc.thy ===== *)
theory Sysv_Ipc
  imports Wakeup User_Memory
begin

text \<open>
  What the three System V IPC subsystems share (\<open>sys/fs/sysv_ipc.rs\<close>): the permission check over
  an object's owner, group and mode, the stricter check of \<open>IPC_SET\<close> and \<open>IPC_RMID\<close>, the
  \<open>ipc_perm\<close> wire structure, the record of a \<open>kern.ipc\<close> table, and the key namespace: a
  table of objects by id and a table of ids by key.
\<close>

section \<open>Permissions\<close>

definition ipc_rmid :: u64 where "ipc_rmid = 0"
definition ipc_set :: u64 where "ipc_set = 1"
definition ipc_stat :: u64 where "ipc_stat = 2"
definition ipc_64 :: u64 where "ipc_64 = 0x100"
definition ipc_private :: int where "ipc_private = 0"
definition ipc_creat :: u64 where "ipc_creat = 0x200"
definition ipc_excl :: u64 where "ipc_excl = 0x400"
definition ipc_nowait :: u64 where "ipc_nowait = 0x800"

definition check_access :: "nat \<Rightarrow> nat \<Rightarrow> u32 \<Rightarrow> nat \<Rightarrow> nat \<Rightarrow> bool \<Rightarrow> bool" where
  "check_access obj_uid obj_gid obj_mode uid gid want_write \<longleftrightarrow>
     (if uid = 0 then True
      else let b = (if want_write then 2 else 4);
               shift = (if uid = obj_uid then 6 else if gid = obj_gid then 3 else 0)
           in drop_bit shift obj_mode AND b \<noteq> 0)"

definition is_owner_or_creator :: "nat \<Rightarrow> nat \<Rightarrow> nat \<Rightarrow> bool" where
  "is_owner_or_creator obj_uid obj_cuid uid \<longleftrightarrow> uid = 0 \<or> uid = obj_uid \<or> uid = obj_cuid"

definition current_uid :: "kcore \<Rightarrow> nat" where
  "current_uid k = euid (current_cred k)"

definition current_gid :: "kcore \<Rightarrow> nat" where
  "current_gid k = egid (current_cred k)"

section \<open>Wire structures\<close>

record raw_ipc_perm =
  rp_key :: int
  rp_uid :: nat
  rp_gid :: nat
  rp_cuid :: nat
  rp_cgid :: nat
  rp_mode :: u32

definition enc_ipc_perm :: "raw_ipc_perm \<Rightarrow> u8 list" where
  "enc_ipc_perm r = le_sbytes 4 (rp_key r) @ le_bytes 4 (rp_uid r) @ le_bytes 4 (rp_gid r)
     @ le_bytes 4 (rp_cuid r) @ le_bytes 4 (rp_cgid r) @ le_bytes 4 (unat (rp_mode r))
     @ le_bytes 4 0 @ le_bytes 4 0 @ le_bytes 8 0 @ le_bytes 8 0"

definition field :: "nat \<Rightarrow> nat \<Rightarrow> u8 list \<Rightarrow> u8 list" where
  "field off len bs = take len (drop off bs)"

definition dec_ipc_perm :: "u8 list \<Rightarrow> raw_ipc_perm" where
  "dec_ipc_perm bs =
     \<lparr> rp_key = le_sval (field 0 4 bs), rp_uid = le_val (field 4 4 bs), rp_gid = le_val (field 8 4 bs),
       rp_cuid = le_val (field 12 4 bs), rp_cgid = le_val (field 16 4 bs),
       rp_mode = word_of_nat (le_val (field 20 4 bs)) \<rparr>"

definition push_record :: "int \<Rightarrow> u8 list \<Rightarrow> u8 list" where
  "push_record i ds = le_sbytes 4 i @ replicate 4 0 @ ds"

section \<open>Lemmas\<close>

lemma length_enc_ipc_perm [simp]: "length (enc_ipc_perm r) = 48"
  by (simp add: enc_ipc_perm_def)

lemma dec_enc_ipc_perm:
  assumes "in_i32 (rp_key r)" and "rp_uid r < 2 ^ 32" and "rp_gid r < 2 ^ 32" and "rp_cuid r < 2 ^ 32"
    and "rp_cgid r < 2 ^ 32"
  shows "dec_ipc_perm (enc_ipc_perm r @ rest) = r"
proof -
  have "le_sval (le_sbytes 4 (rp_key r)) = rp_key r"
    using assms(1) by (intro le_sval_le_sbytes) (auto simp: in_i32_def i32_min_def i32_max_def)
  moreover have "unat (rp_mode r) < 256 ^ 4" using unsigned_less [of "rp_mode r"] by simp
  ultimately show ?thesis
    using assms by (simp add: dec_ipc_perm_def enc_ipc_perm_def field_def)
qed

lemma dec_ipc_perm_bounds:
  "rp_uid (dec_ipc_perm bs) < 2 ^ 32" "rp_gid (dec_ipc_perm bs) < 2 ^ 32"
proof -
  have "le_val (field off 4 bs) < 2 ^ 32" for off
  proof -
    have "le_val (field off 4 bs) < 256 ^ length (field off 4 bs)" by (rule le_val_bound)
    also have "\<dots> \<le> 256 ^ 4" by (rule power_increasing) (simp_all add: field_def)
    finally show ?thesis by simp
  qed
  then show "rp_uid (dec_ipc_perm bs) < 2 ^ 32" "rp_gid (dec_ipc_perm bs) < 2 ^ 32"
    by (simp_all add: dec_ipc_perm_def)
qed

section \<open>The key namespace\<close>

text \<open>
  \<open>ns_inv getkey objs keys next\<close>: every key of the key table names a live object that carries
  that key, every live object with a key is the one its key names, and every id in use was given out
  before \<open>next\<close>.
\<close>

definition ns_inv :: "('v \<Rightarrow> int) \<Rightarrow> (int, 'v) bmap \<Rightarrow> (int, int) bmap \<Rightarrow> int \<Rightarrow> bool" where
  "ns_inv getkey objs keys next \<longleftrightarrow> bwf objs \<and> bwf keys
     \<and> (\<forall>k i. bget keys k = Some i \<longrightarrow> k \<noteq> ipc_private \<and> (\<exists>v. bget objs i = Some v \<and> getkey v = k))
     \<and> (\<forall>i v. bget objs i = Some v \<longrightarrow> getkey v \<noteq> ipc_private \<longrightarrow> bget keys (getkey v) = Some i)
     \<and> (\<forall>i v. bget objs i = Some v \<longrightarrow> 0 < i \<and> i < next) \<and> 0 < next"

lemma ns_invI:
  assumes "bwf objs" and "bwf keys" and "0 < next"
    and "\<And>k i. bget keys k = Some i \<Longrightarrow> k \<noteq> ipc_private \<and> (\<exists>v. bget objs i = Some v \<and> getkey v = k)"
    and "\<And>i v. bget objs i = Some v \<Longrightarrow> getkey v \<noteq> ipc_private \<Longrightarrow> bget keys (getkey v) = Some i"
    and "\<And>i v. bget objs i = Some v \<Longrightarrow> 0 < i \<and> i < next"
  shows "ns_inv getkey objs keys next"
  unfolding ns_inv_def using assms by blast

lemma ns_invD:
  assumes "ns_inv getkey objs keys next"
  shows "bwf objs" and "bwf keys" and "0 < next"
    and "bget keys k = Some i \<Longrightarrow> k \<noteq> ipc_private"
    and "bget keys k = Some i \<Longrightarrow> \<exists>v. bget objs i = Some v \<and> getkey v = k"
    and "bget objs i = Some v \<Longrightarrow> getkey v \<noteq> ipc_private \<Longrightarrow> bget keys (getkey v) = Some i"
    and "bget objs i = Some v \<Longrightarrow> 0 < i" and "bget objs i = Some v \<Longrightarrow> i < next"
  using assms unfolding ns_inv_def by blast+

locale ipc_namespace =
  fixes getkey :: "'v \<Rightarrow> int" and setkeep :: "('v \<Rightarrow> 'v) \<Rightarrow> bool"
  assumes keep_key: "setkeep f \<Longrightarrow> getkey (f v) = getkey v"
begin

lemma key_resolves:
  assumes "ns_inv getkey objs keys next" and "bget keys k = Some i"
  shows "\<exists>v. bget objs i = Some v \<and> getkey v = k"
  using ns_invD(5) [OF assms] .

lemma fresh_id:
  assumes "ns_inv getkey objs keys next"
  shows "bget objs next = None"
  using ns_invD(8) [OF assms, of "next"] by (cases "bget objs next") auto

lemma insert_private:
  assumes "ns_inv getkey objs keys next" and "getkey v = ipc_private"
  shows "ns_inv getkey (binsert next v objs) keys (next + 1)"
proof (rule ns_invI)
  note inv = ns_invD [OF assms(1)] and fresh = fresh_id [OF assms(1)]
  show "bwf (binsert next v objs)" "bwf keys" "0 < next + 1" using inv(1-3) by simp_all
  show "k \<noteq> ipc_private \<and> (\<exists>w. bget (binsert next v objs) i = Some w \<and> getkey w = k)"
    if "bget keys k = Some i" for k i
    using inv(4,5) [OF that] fresh by auto
  show "bget keys (getkey w) = Some i" if "bget (binsert next v objs) i = Some w" "getkey w \<noteq> ipc_private" for i w
    using that inv(6) [of i w] assms(2) by (auto split: if_splits)
  show "0 < i \<and> i < next + 1" if "bget (binsert next v objs) i = Some w" for i w
    using that inv(3) inv(7,8) [of i w] by (auto split: if_splits)
qed

lemma insert_keyed:
  assumes "ns_inv getkey objs keys next" and "getkey v = k" and "k \<noteq> ipc_private" and "bget keys k = None"
  shows "ns_inv getkey (binsert next v objs) (binsert k next keys) (next + 1)"
proof (rule ns_invI)
  note inv = ns_invD [OF assms(1)] and fresh = fresh_id [OF assms(1)]
  show "bwf (binsert next v objs)" "bwf (binsert k next keys)" "0 < next + 1" using inv(1-3) by simp_all
  show "k' \<noteq> ipc_private \<and> (\<exists>w. bget (binsert next v objs) i = Some w \<and> getkey w = k')"
    if "bget (binsert k next keys) k' = Some i" for k' i
    using that inv(4,5) [of k' i] fresh assms(2,3) by (auto split: if_splits)
  show "bget (binsert k next keys) (getkey w) = Some i"
    if "bget (binsert next v objs) i = Some w" "getkey w \<noteq> ipc_private" for i w
    using that inv(6) [of i w] assms(2,4) by (auto split: if_splits)
  show "0 < i \<and> i < next + 1" if "bget (binsert next v objs) i = Some w" for i w
    using that inv(3) inv(7,8) [of i w] by (auto split: if_splits)
qed

lemma remove_private:
  assumes "ns_inv getkey objs keys next" and "bget objs i = Some v" and "getkey v = ipc_private"
  shows "ns_inv getkey (bremove i objs) keys next"
proof (rule ns_invI)
  note inv = ns_invD [OF assms(1)]
  show "bwf (bremove i objs)" "bwf keys" "0 < next" using inv(1-3) by simp_all
  show "k \<noteq> ipc_private \<and> (\<exists>w. bget (bremove i objs) j = Some w \<and> getkey w = k)"
    if "bget keys k = Some j" for k j
    using inv(4,5) [OF that] assms(2,3) by auto
  show "bget keys (getkey w) = Some j" if "bget (bremove i objs) j = Some w" "getkey w \<noteq> ipc_private" for j w
    using that inv(6) [of j w] by (auto split: if_splits)
  show "0 < j \<and> j < next" if "bget (bremove i objs) j = Some w" for j w
    using that inv(7,8) [of j w] by (auto split: if_splits)
qed

lemma remove_keyed:
  assumes "ns_inv getkey objs keys next" and "bget objs i = Some v" and "getkey v \<noteq> ipc_private"
  shows "ns_inv getkey (bremove i objs) (bremove (getkey v) keys) next"
proof (rule ns_invI)
  note inv = ns_invD [OF assms(1)]
  have kv: "bget keys (getkey v) = Some i" using inv(6) [OF assms(2,3)] .
  show "bwf (bremove i objs)" "bwf (bremove (getkey v) keys)" "0 < next" using inv(1-3) by simp_all
  show "k \<noteq> ipc_private \<and> (\<exists>w. bget (bremove i objs) j = Some w \<and> getkey w = k)"
    if "bget (bremove (getkey v) keys) k = Some j" for k j
    using that inv(4,5) [of k j] assms(2) by (auto split: if_splits)
  show "bget (bremove (getkey v) keys) (getkey w) = Some j"
    if "bget (bremove i objs) j = Some w" "getkey w \<noteq> ipc_private" for j w
    using that inv(6) [of j w] kv by (auto split: if_splits)
  show "0 < j \<and> j < next" if "bget (bremove i objs) j = Some w" for j w
    using that inv(7,8) [of j w] by (auto split: if_splits)
qed

lemma update_keeps:
  assumes "ns_inv getkey objs keys next" and "setkeep f"
  shows "ns_inv getkey (bupdate i f objs) keys next"
proof (rule ns_invI)
  note inv = ns_invD [OF assms(1)] and kk = keep_key [OF assms(2)]
  show "bwf (bupdate i f objs)" "bwf keys" "0 < next" using inv(1-3) by simp_all
  show "k \<noteq> ipc_private \<and> (\<exists>w. bget (bupdate i f objs) j = Some w \<and> getkey w = k)"
    if "bget keys k = Some j" for k j
    using inv(4,5) [OF that] kk by auto
  show "bget keys (getkey w) = Some j" if "bget (bupdate i f objs) j = Some w" "getkey w \<noteq> ipc_private" for j w
    using that inv(6) [of j] kk by (auto split: if_splits)
  show "0 < j \<and> j < next" if "bget (bupdate i f objs) j = Some w" for j w
    using that inv(7,8) [of j] by (auto split: if_splits)
qed

end

section \<open>The caller of the examples and its memory\<close>

lemma ex_k_sel:
  "k_current ex_k = 2" "bget (k_table ex_k) 2 = Some (ex_proc 2 Running 0)" "k_ticks ex_k = 1000"
  "k_epoch ex_k = 0" "current_uid ex_k = 0" "current_gid ex_k = 0"
  by (simp_all add: ex_k_def ex_core_def current_uid_def current_gid_def current_cred_def cred_root_def)

lemma ex_k_blocked: "blocked_as ex_k pid r \<longleftrightarrow> pid = 5 \<and> r = KernelSleep 7 u64_max 3"
  by (auto simp: blocked_as_def ex_k_def)

lemma check_access_root [simp]: "check_access u g m 0 gid w"
  by (simp add: check_access_def)

text \<open>A readable and writable address space that holds given bytes.\<close>

definition ex_umem :: "nat \<Rightarrow> u8 list \<Rightarrow> umem" where
  "ex_umem a bs = \<lparr> m_bytes = (\<lambda>x. if a \<le> x \<and> x < a + length bs then bs ! (x - a) else 0),
     m_readable = (\<lambda>_. True), m_writable = (\<lambda>_. True) \<rparr>"

lemma ex_umem_holds: "vm_minuser \<le> a \<Longrightarrow> a + length bs \<le> vm_maxuser \<Longrightarrow> user_holds (ex_umem a bs) a bs"
  by (simp add: user_holds_def ex_umem_def)

lemma ex_umem_copyout:
  assumes "m_writable mem = (\<lambda>_. True)" and "vm_minuser \<le> a" and "a + length bs \<le> vm_maxuser"
  shows "fst (copyout mem bs a) = Ok () \<and> m_writable (snd (copyout mem bs a)) = (\<lambda>_. True)"
  using poke_ok [of a bs mem] assms
  by (simp add: copyout_def check_range_def checked_add_u64_def vm_minuser_def vm_maxuser_def u64_max_def)

end
