(* ===== verification/Sysv_Sem.thy ===== *)
theory Sysv_Sem
  imports Sysv_Ipc
begin

text \<open>
  System V semaphores (\<open>sys/fs/sysv_sem.rs\<close>): \<open>semget\<close>, \<open>semop\<close>/\<open>semtimedop\<close>,
  \<open>semctl\<close> and the undo of a process's adjustments at its exit.

  \<open>do_semop_impl\<close> is a loop around a sleep; \<open>semop_pass\<close> is one turn of it. It ends in
  \<open>Return r\<close>, or in \<open>Sleep\<close> with the caller's state set to the reason it waits; when the
  caller runs again it starts the next turn. Integer additions on \<open>i32\<close> values that overflow
  are panics (\<open>add_i32\<close> is \<open>None\<close>), as in a build with overflow checks.
\<close>

section \<open>State\<close>

definition semvmx :: int where "semvmx = 32767"
definition max_sems_per_set :: nat where "max_sems_per_set = 4096"
definition max_sysv_sem_sets :: nat where "max_sysv_sem_sets = 32"
definition max_semops_per_call :: nat where "max_semops_per_call = 32"
definition sem_undo_flag :: u16 where "sem_undo_flag = 0x200"
definition sem_nowait_flag :: u16 where "sem_nowait_flag = 0x800"

record semaphore =
  sm_val :: int
  sm_pid :: pid

record sem_set =
  ss_key :: int
  ss_uid :: nat
  ss_gid :: nat
  ss_cuid :: nat
  ss_cgid :: nat
  ss_mode :: u32
  ss_otime :: int
  ss_ctime :: int
  ss_semas :: "semaphore list"

record sem_state =
  sem_next :: int
  sem_sets :: "(int, sem_set) bmap"
  sem_keys :: "(int, int) bmap"

record sembuf =
  sb_num :: nat
  sb_op :: int
  sb_flg :: u16

record raw_semid_ds =
  rs_perm :: raw_ipc_perm
  rs_otime :: int
  rs_ctime :: int
  rs_nsems :: nat

definition semid_ds :: "sem_set \<Rightarrow> raw_semid_ds" where
  "semid_ds s =
     \<lparr> rs_perm = \<lparr> rp_key = ss_key s, rp_uid = ss_uid s, rp_gid = ss_gid s, rp_cuid = ss_cuid s,
                   rp_cgid = ss_cgid s, rp_mode = ss_mode s \<rparr>,
       rs_otime = ss_otime s, rs_ctime = ss_ctime s, rs_nsems = length (ss_semas s) mod 2 ^ 16 \<rparr>"

definition enc_semid_ds :: "raw_semid_ds \<Rightarrow> u8 list" where
  "enc_semid_ds r = enc_ipc_perm (rs_perm r) @ le_sbytes 8 (rs_otime r) @ le_bytes 8 0
     @ le_sbytes 8 (rs_ctime r) @ le_bytes 8 0 @ le_bytes 2 (rs_nsems r) @ replicate 6 0
     @ le_bytes 8 0 @ le_bytes 8 0"

definition dec_semid_ds :: "u8 list \<Rightarrow> raw_semid_ds" where
  "dec_semid_ds bs =
     \<lparr> rs_perm = dec_ipc_perm bs, rs_otime = le_sval (field 48 8 bs), rs_ctime = le_sval (field 64 8 bs),
       rs_nsems = le_val (field 80 2 bs) \<rparr>"

definition sem_sysctl_table :: "kcore \<Rightarrow> sem_state \<Rightarrow> u8 list" where
  "sem_sysctl_table k st =
     concat (map (\<lambda>(i, s). push_record i (enc_semid_ds (semid_ds s)))
       (filter (\<lambda>(_, s). may_see (k_see_other_uids k) (current_cred k) [ss_uid s, ss_cuid s]) (sem_sets st)))"

definition sem_access :: "sem_set \<Rightarrow> nat \<Rightarrow> nat \<Rightarrow> bool \<Rightarrow> bool" where
  "sem_access s uid gid want_write = check_access (ss_uid s) (ss_gid s) (ss_mode s) uid gid want_write"

definition sem_owner :: "sem_set \<Rightarrow> nat \<Rightarrow> bool" where
  "sem_owner s uid = is_owner_or_creator (ss_uid s) (ss_cuid s) uid"

section \<open>Waking\<close>

definition waits_semop :: "nat \<Rightarrow> nat list \<Rightarrow> proc_state \<Rightarrow> bool" where
  "waits_semop semid touched st \<longleftrightarrow>
     (case st of Blocked (WaitingForSemOp i num _ _) \<Rightarrow> i = semid \<and> num \<in> set touched | _ \<Rightarrow> False)"

definition wake_blocked_semop :: "int \<Rightarrow> nat list \<Rightarrow> kcore \<Rightarrow> kcore" where
  "wake_blocked_semop semid touched = wake_where (waits_semop (unat (i32_as_u64 semid)) touched)"

definition waits_semset :: "nat \<Rightarrow> proc_state \<Rightarrow> bool" where
  "waits_semset semid st \<longleftrightarrow> (case st of Blocked (WaitingForSemOp i _ _ _) \<Rightarrow> i = semid | _ \<Rightarrow> False)"

definition wake_blocked_semop_all :: "int \<Rightarrow> kcore \<Rightarrow> kcore" where
  "wake_blocked_semop_all semid = wake_where (waits_semset (unat (i32_as_u64 semid)))"

section \<open>Undo\<close>

fun add_undo :: "int \<Rightarrow> nat \<Rightarrow> int \<Rightarrow> (int \<times> nat \<times> int) list \<Rightarrow> (int \<times> nat \<times> int) list option" where
  "add_undo semid num op [] = Some [(semid, num, - op)]"
| "add_undo semid num op ((i, n, adj) # us) =
     (if i = semid \<and> n = num then map_option (\<lambda>a. (i, n, a) # us) (add_i32 adj (- op))
      else map_option (Cons (i, n, adj)) (add_undo semid num op us))"

definition record_undo :: "pid \<Rightarrow> int \<Rightarrow> nat \<Rightarrow> int \<Rightarrow> kcore \<Rightarrow> kcore option" where
  "record_undo pid semid num op k =
     (case bget (k_table k) pid of
        None \<Rightarrow> Some k
      | Some me \<Rightarrow>
          map_option (\<lambda>us. upd_proc pid (\<lambda>p. p\<lparr>p_sem_undo := us\<rparr>) k) (add_undo semid num op (p_sem_undo me)))"

definition clamp_val :: "int \<Rightarrow> int" where
  "clamp_val v = max 0 (min semvmx v)"

definition touch :: "int \<Rightarrow> nat \<Rightarrow> (int, nat list) bmap \<Rightarrow> (int, nat list) bmap" where
  "touch semid num t = binsert semid ((case bget t semid of None \<Rightarrow> [] | Some l \<Rightarrow> l) @ [num]) t"

fun undo_loop :: "(int \<times> nat \<times> int) list \<Rightarrow> (int, sem_set) bmap \<Rightarrow> (int, nat list) bmap
    \<Rightarrow> ((int, sem_set) bmap \<times> (int, nat list) bmap) option" where
  "undo_loop [] sets t = Some (sets, t)"
| "undo_loop ((semid, num, adj) # us) sets t =
     (case bget sets semid of
        None \<Rightarrow> undo_loop us sets t
      | Some s \<Rightarrow>
          if length (ss_semas s) \<le> num then undo_loop us sets t
          else case add_i32 (sm_val (ss_semas s ! num)) adj of
            None \<Rightarrow> None
          | Some v \<Rightarrow>
              undo_loop us
                (binsert semid (s\<lparr>ss_semas := (ss_semas s)[num := (ss_semas s ! num)\<lparr>sm_val := clamp_val v\<rparr>]\<rparr>) sets)
                (touch semid num t))"

definition apply_undo_for_exit :: "pid \<Rightarrow> kcore \<Rightarrow> sem_state \<Rightarrow> (kcore \<times> sem_state) option" where
  "apply_undo_for_exit pid k st =
     (case bget (k_table k) pid of
        None \<Rightarrow> Some (k, st)
      | Some me \<Rightarrow>
          let k1 = upd_proc pid (\<lambda>p. p\<lparr>p_sem_undo := []\<rparr>) k in
          if p_sem_undo me = [] then Some (k1, st)
          else case undo_loop (p_sem_undo me) (sem_sets st) [] of
            None \<Rightarrow> None
          | Some (sets, t) \<Rightarrow>
              Some (foldl (\<lambda>k (semid, touched). wake_blocked_semop semid touched k) k1 t,
                    st\<lparr>sem_sets := sets\<rparr>))"

section \<open>semget\<close>

definition new_sem_set :: "kcore \<Rightarrow> int \<Rightarrow> u64 \<Rightarrow> u64 \<Rightarrow> sem_set" where
  "new_sem_set k key nsems flag =
     \<lparr> ss_key = key, ss_uid = current_uid k, ss_gid = current_gid k, ss_cuid = current_uid k,
       ss_cgid = current_gid k, ss_mode = ucast (flag AND 0x1FF), ss_otime = 0, ss_ctime = int (k_epoch k),
       ss_semas = replicate (unat nsems) \<lparr> sm_val = 0, sm_pid = 0 \<rparr> \<rparr>"

definition semget_create :: "kcore \<Rightarrow> sem_state \<Rightarrow> int \<Rightarrow> u64 \<Rightarrow> u64 \<Rightarrow> u64 kres \<times> sem_state" where
  "semget_create k st key nsems flag =
     (if as_i64 nsems \<le> 0 \<or> max_sems_per_set < unat nsems then (Err EINVAL, st)
      else if max_sysv_sem_sets \<le> length (sem_sets st) then (Err EAGAIN, st)
      else case add_i32 (sem_next st) 1 of
        None \<Rightarrow> (Panic, st)
      | Some next' \<Rightarrow>
          (Ok (i32_as_u64 (sem_next st)),
           st\<lparr>sem_next := next', sem_sets := binsert (sem_next st) (new_sem_set k key nsems flag) (sem_sets st),
              sem_keys := (if key \<noteq> ipc_private then binsert key (sem_next st) (sem_keys st) else sem_keys st)\<rparr>))"

definition do_semget :: "kcore \<Rightarrow> sem_state \<Rightarrow> u64 \<Rightarrow> u64 \<Rightarrow> u64 \<Rightarrow> u64 kres \<times> sem_state" where
  "do_semget k st key0 nsems flag =
     (let key = as_i32 key0; creat = flag AND ipc_creat \<noteq> 0; excl = flag AND ipc_excl \<noteq> 0
      in if key = ipc_private then semget_create k st key nsems flag
         else case bget (sem_keys st) key of
           Some semid \<Rightarrow>
             if creat \<and> excl then (Err EEXIST, st)
             else (case bget (sem_sets st) semid of
                 None \<Rightarrow> (Panic, st)
               | Some s \<Rightarrow>
                   if nsems \<noteq> 0 \<and> unat nsems \<noteq> length (ss_semas s) then (Err EINVAL, st)
                   else if \<not> sem_access s (current_uid k) (current_gid k) False then (Err EACCES, st)
                   else (Ok (i32_as_u64 semid), st))
         | None \<Rightarrow> if \<not> creat then (Err ENOENT, st) else semget_create k st key nsems flag)"

section \<open>semop\<close>

definition dec_sembuf :: "u8 list \<Rightarrow> sembuf" where
  "dec_sembuf bs = \<lparr> sb_num = le_val (field 0 2 bs), sb_op = le_sval (field 2 2 bs),
                     sb_flg = word_of_nat (le_val (field 4 2 bs)) \<rparr>"

fun read_sembufs_loop :: "umem \<Rightarrow> u64 \<Rightarrow> nat \<Rightarrow> nat \<Rightarrow> sembuf list kres" where
  "read_sembufs_loop m p i 0 = Ok []"
| "read_sembufs_loop m p i (Suc n) =
     bind_kres (copyin m (user_add p (word_of_nat (i * 6))) 6) (\<lambda>bs.
       bind_kres (read_sembufs_loop m p (Suc i) n) (\<lambda>ops. Ok (dec_sembuf bs # ops)))"

definition read_sembufs :: "umem \<Rightarrow> u64 \<Rightarrow> u64 \<Rightarrow> sembuf list kres" where
  "read_sembufs m sops_ptr nsops =
     (if nsops = 0 \<or> max_semops_per_call < unat nsops then Err EINVAL
      else read_sembufs_loop m sops_ptr 0 (unat nsops))"

text \<open>The simulation of the array against a scratch copy of the values.\<close>

datatype scan_result = ScanOk "int list" | ScanBlocks sembuf | ScanPanic

fun semop_scan :: "int list \<Rightarrow> sembuf list \<Rightarrow> scan_result" where
  "semop_scan scratch [] = ScanOk scratch"
| "semop_scan scratch (op # ops) =
     (let idx = sb_num op in
      if 0 < sb_op op then
        (case add_i32 (scratch ! idx) (sb_op op) of
           None \<Rightarrow> ScanPanic
         | Some v \<Rightarrow> semop_scan (scratch[idx := v]) ops)
      else if sb_op op < 0 then
        (case add_i32 (scratch ! idx) (sb_op op) of
           None \<Rightarrow> ScanPanic
         | Some v \<Rightarrow> if v < 0 then ScanBlocks op else semop_scan (scratch[idx := v]) ops)
      else if scratch ! idx \<noteq> 0 then ScanBlocks op
      else semop_scan scratch ops)"

fun commit_semas :: "pid \<Rightarrow> int list \<Rightarrow> sembuf list \<Rightarrow> semaphore list \<Rightarrow> semaphore list" where
  "commit_semas caller scratch [] semas = semas"
| "commit_semas caller scratch (op # ops) semas =
     commit_semas caller scratch ops
       (semas[sb_num op := \<lparr> sm_val = scratch ! sb_num op, sm_pid = caller \<rparr>])"

fun record_undos :: "pid \<Rightarrow> int \<Rightarrow> sembuf list \<Rightarrow> kcore \<Rightarrow> kcore option" where
  "record_undos caller semid [] k = Some k"
| "record_undos caller semid (op # ops) k =
     (if sb_flg op AND sem_undo_flag \<noteq> 0 \<and> sb_op op \<noteq> 0
      then case record_undo caller semid (sb_num op) (sb_op op) k of
             None \<Rightarrow> None
           | Some k' \<Rightarrow> record_undos caller semid ops k'
      else record_undos caller semid ops k)"

definition touched_nums :: "sembuf list \<Rightarrow> nat list" where
  "touched_nums ops = map sb_num (filter (\<lambda>op. sb_op op \<noteq> 0) ops)"

definition semop_pass :: "kcore \<Rightarrow> sem_state \<Rightarrow> int \<Rightarrow> sembuf list \<Rightarrow> nat \<Rightarrow> u64 pass \<times> kcore \<times> sem_state"
where
  "semop_pass k st semid ops deadline =
     (let uid = current_uid k; gid = current_gid k; caller = k_current k in
      case bget (sem_sets st) semid of
        None \<Rightarrow> (Return (Err EIDRM), k, st)
      | Some s \<Rightarrow>
          if \<not> sem_access s uid gid (list_ex (\<lambda>op. sb_op op \<noteq> 0) ops) then (Return (Err EACCES), k, st)
          else if list_ex (\<lambda>op. length (ss_semas s) \<le> sb_num op) ops then (Return (Err EFBIG), k, st)
          else case semop_scan (map sm_val (ss_semas s)) ops of
            ScanPanic \<Rightarrow> (Return Panic, k, st)
          | ScanBlocks op \<Rightarrow>
              if sb_flg op AND sem_nowait_flag \<noteq> 0 then (Return (Err EAGAIN), k, st)
              else if deadline \<le> k_ticks k then (Return (Err ETIMEDOUT), k, st)
              else if bget (k_table k) caller = None then (Return Panic, k, st)
              else (Sleep,
                    block_current (WaitingForSemOp (unat (i32_as_u64 semid)) (sb_num op) (sb_op op = 0) deadline) k,
                    st)
          | ScanOk scratch \<Rightarrow>
              let s' = s\<lparr>ss_semas := commit_semas caller scratch ops (ss_semas s), ss_otime := int (k_epoch k)\<rparr>;
                  st' = st\<lparr>sem_sets := binsert semid s' (sem_sets st)\<rparr>
              in case record_undos caller semid ops k of
                   None \<Rightarrow> (Return Panic, k, st')
                 | Some k' \<Rightarrow> (Return (Ok 0), wake_blocked_semop semid (touched_nums ops) k', st'))"

definition resolve_relative_deadline :: "kcore \<Rightarrow> umem \<Rightarrow> u64 \<Rightarrow> nat kres" where
  "resolve_relative_deadline k m ts_ptr =
     (if ts_ptr = 0 then Ok u64_max
      else bind_kres (copyin_i64_pair m (unat ts_ptr)) (\<lambda>(sec, nsec).
        if sec < 0 \<or> \<not> (0 \<le> nsec \<and> nsec < 1000000000) then Err EINVAL
        else let whole = nat sec * timer_hz;
                 sub = (nat nsec * timer_hz + 999999999) div 1000000000
             in if whole \<le> u64_max \<and> k_ticks k + whole + sub \<le> u64_max then Ok (k_ticks k + whole + sub) else Panic))"

definition do_semop :: "kcore \<Rightarrow> sem_state \<Rightarrow> umem \<Rightarrow> u64 \<Rightarrow> u64 \<Rightarrow> u64 \<Rightarrow> u64 pass \<times> kcore \<times> sem_state" where
  "do_semop k st m i sops_ptr nsops =
     (case read_sembufs m sops_ptr nsops of
        Ok ops \<Rightarrow> semop_pass k st (as_i32 i) ops u64_max
      | Err e \<Rightarrow> (Return (Err e), k, st)
      | Panic \<Rightarrow> (Return Panic, k, st))"

definition do_semtimedop ::
  "kcore \<Rightarrow> sem_state \<Rightarrow> umem \<Rightarrow> u64 \<Rightarrow> u64 \<Rightarrow> u64 \<Rightarrow> u64 \<Rightarrow> u64 pass \<times> kcore \<times> sem_state" where
  "do_semtimedop k st m i sops_ptr nsops ts_ptr =
     (case bind_kres (read_sembufs m sops_ptr nsops) (\<lambda>ops.
             bind_kres (resolve_relative_deadline k m ts_ptr) (\<lambda>deadline. Ok (ops, deadline))) of
        Ok (ops, deadline) \<Rightarrow> semop_pass k st (as_i32 i) ops deadline
      | Err e \<Rightarrow> (Return (Err e), k, st)
      | Panic \<Rightarrow> (Return Panic, k, st))"

section \<open>semctl\<close>

text \<open>One definition per command, over the set the id names (\<open>EIDRM\<close> if it names none).\<close>

type_synonym sem_result = "u64 kres \<times> kcore \<times> sem_state \<times> umem"

definition semctl_stat :: "kcore \<Rightarrow> sem_state \<Rightarrow> umem \<Rightarrow> sem_set \<Rightarrow> u64 \<Rightarrow> sem_result" where
  "semctl_stat k st m s arg =
     (if \<not> sem_access s (current_uid k) (current_gid k) False then (Err EACCES, k, st, m)
      else case copyout m (enc_semid_ds (semid_ds s)) (unat arg) of
        (Ok _, m') \<Rightarrow> (Ok 0, k, st, m')
      | (Err e, m') \<Rightarrow> (Err e, k, st, m')
      | (Panic, m') \<Rightarrow> (Panic, k, st, m'))"

definition semctl_set :: "kcore \<Rightarrow> sem_state \<Rightarrow> umem \<Rightarrow> int \<Rightarrow> sem_set \<Rightarrow> u64 \<Rightarrow> sem_result" where
  "semctl_set k st m semid s arg =
     (if \<not> sem_owner s (current_uid k) then (Err EACCES, k, st, m)
      else case copyin m (unat arg) 104 of
        Ok bs \<Rightarrow>
          let perm = rs_perm (dec_semid_ds bs) in
          (Ok 0, k,
           st\<lparr>sem_sets := bupdate semid (\<lambda>s. s\<lparr>ss_uid := rp_uid perm, ss_gid := rp_gid perm,
                ss_mode := rp_mode perm AND 0x1FF, ss_ctime := int (k_epoch k)\<rparr>) (sem_sets st)\<rparr>, m)
      | Err e \<Rightarrow> (Err e, k, st, m)
      | Panic \<Rightarrow> (Panic, k, st, m))"

definition semctl_rmid :: "kcore \<Rightarrow> sem_state \<Rightarrow> umem \<Rightarrow> int \<Rightarrow> sem_set \<Rightarrow> sem_result" where
  "semctl_rmid k st m semid s =
     (if \<not> sem_owner s (current_uid k) then (Err EACCES, k, st, m)
      else (Ok 0, wake_blocked_semop_all semid k,
            st\<lparr>sem_sets := bremove semid (sem_sets st),
               sem_keys := (if ss_key s \<noteq> ipc_private then bremove (ss_key s) (sem_keys st) else sem_keys st)\<rparr>,
            m))"

definition semctl_getval :: "kcore \<Rightarrow> sem_state \<Rightarrow> umem \<Rightarrow> sem_set \<Rightarrow> u64 \<Rightarrow> sem_result" where
  "semctl_getval k st m s semnum =
     (if \<not> sem_access s (current_uid k) (current_gid k) False then (Err EACCES, k, st, m)
      else if length (ss_semas s) \<le> unat semnum then (Err EFBIG, k, st, m)
      else (Ok (i32_as_u64 (sm_val (ss_semas s ! unat semnum))), k, st, m))"

definition semctl_setval :: "kcore \<Rightarrow> sem_state \<Rightarrow> umem \<Rightarrow> int \<Rightarrow> sem_set \<Rightarrow> u64 \<Rightarrow> u64 \<Rightarrow> sem_result" where
  "semctl_setval k st m semid s semnum arg =
     (if \<not> sem_access s (current_uid k) (current_gid k) True then (Err EACCES, k, st, m)
      else if length (ss_semas s) \<le> unat semnum then (Err EFBIG, k, st, m)
      else let v = as_i32 arg in
        if \<not> (0 \<le> v \<and> v \<le> semvmx) then (Err ERANGE, k, st, m)
        else (Ok 0, wake_blocked_semop semid [unat (ucast semnum :: u16)] k,
              st\<lparr>sem_sets := bupdate semid (\<lambda>s. s\<lparr>ss_semas :=
                    (ss_semas s)[unat semnum := \<lparr> sm_val = v, sm_pid = k_current k \<rparr>],
                  ss_ctime := int (k_epoch k)\<rparr>) (sem_sets st)\<rparr>, m))"

definition semctl_getall :: "kcore \<Rightarrow> sem_state \<Rightarrow> umem \<Rightarrow> sem_set \<Rightarrow> u64 \<Rightarrow> sem_result" where
  "semctl_getall k st m s arg =
     (if \<not> sem_access s (current_uid k) (current_gid k) False then (Err EACCES, k, st, m)
      else case copyout m (concat (map (\<lambda>sem. le_bytes 2 (nat (sm_val sem mod 2 ^ 16))) (ss_semas s))) (unat arg) of
        (Ok _, m') \<Rightarrow> (Ok 0, k, st, m')
      | (Err e, m') \<Rightarrow> (Err e, k, st, m')
      | (Panic, m') \<Rightarrow> (Panic, k, st, m'))"

fun setall_vals :: "umem \<Rightarrow> u64 \<Rightarrow> nat \<Rightarrow> nat \<Rightarrow> int list kres" where
  "setall_vals m p i 0 = Ok []"
| "setall_vals m p i (Suc n) =
     bind_kres (copyin_u16 m (user_add p (word_of_nat (i * 2)))) (\<lambda>v.
       if \<not> (0 \<le> int v \<and> int v \<le> semvmx) then Err ERANGE
       else bind_kres (setall_vals m p (Suc i) n) (\<lambda>vs. Ok (int v # vs)))"

definition semctl_setall :: "kcore \<Rightarrow> sem_state \<Rightarrow> umem \<Rightarrow> int \<Rightarrow> sem_set \<Rightarrow> u64 \<Rightarrow> sem_result" where
  "semctl_setall k st m semid s arg =
     (if \<not> sem_access s (current_uid k) (current_gid k) True then (Err EACCES, k, st, m)
      else let n = length (ss_semas s) in
        case setall_vals m arg 0 n of
          Ok vs \<Rightarrow>
            (Ok 0, wake_blocked_semop semid [0..<n mod 2 ^ 16] k,
             st\<lparr>sem_sets := bupdate semid (\<lambda>s. s\<lparr>ss_semas := map (\<lambda>v. \<lparr> sm_val = v, sm_pid = k_current k \<rparr>) vs,
                  ss_ctime := int (k_epoch k)\<rparr>) (sem_sets st)\<rparr>, m)
        | Err e \<Rightarrow> (Err e, k, st, m)
        | Panic \<Rightarrow> (Panic, k, st, m))"

definition semctl_getpid :: "kcore \<Rightarrow> sem_state \<Rightarrow> umem \<Rightarrow> sem_set \<Rightarrow> u64 \<Rightarrow> sem_result" where
  "semctl_getpid k st m s semnum =
     (if length (ss_semas s) \<le> unat semnum then (Err EFBIG, k, st, m)
      else (Ok (word_of_nat (sm_pid (ss_semas s ! unat semnum))), k, st, m))"

definition count_semop_waiters :: "kcore \<Rightarrow> int \<Rightarrow> nat \<Rightarrow> bool \<Rightarrow> nat" where
  "count_semop_waiters k semid num want_zero =
     length (filter (\<lambda>(_, p). case p_state p of
         Blocked (WaitingForSemOp i n zero _) \<Rightarrow> i = unat (i32_as_u64 semid) \<and> n = num \<and> zero = want_zero
       | _ \<Rightarrow> False) (k_table k))"

definition semctl_getcnt :: "kcore \<Rightarrow> sem_state \<Rightarrow> umem \<Rightarrow> int \<Rightarrow> sem_set \<Rightarrow> u64 \<Rightarrow> bool \<Rightarrow> sem_result" where
  "semctl_getcnt k st m semid s semnum want_zero =
     (if length (ss_semas s) \<le> unat semnum then (Err EFBIG, k, st, m)
      else (Ok (word_of_nat (count_semop_waiters k semid (unat (ucast semnum :: u16)) want_zero)), k, st, m))"

definition do_semctl :: "kcore \<Rightarrow> sem_state \<Rightarrow> umem \<Rightarrow> u64 \<Rightarrow> u64 \<Rightarrow> u64 \<Rightarrow> u64 \<Rightarrow> sem_result" where
  "do_semctl k st m i semnum cmd arg =
     (let semid = as_i32 i; real_cmd = cmd AND NOT ipc_64;
          on_set = (\<lambda>f. case bget (sem_sets st) semid of None \<Rightarrow> (Err EIDRM, k, st, m) | Some s \<Rightarrow> f s) in
      if real_cmd = ipc_stat then on_set (\<lambda>s. semctl_stat k st m s arg)
      else if real_cmd = ipc_set then on_set (\<lambda>s. semctl_set k st m semid s arg)
      else if real_cmd = ipc_rmid then on_set (\<lambda>s. semctl_rmid k st m semid s)
      else if real_cmd = 12 then on_set (\<lambda>s. semctl_getval k st m s semnum)
      else if real_cmd = 16 then on_set (\<lambda>s. semctl_setval k st m semid s semnum arg)
      else if real_cmd = 13 then on_set (\<lambda>s. semctl_getall k st m s arg)
      else if real_cmd = 17 then on_set (\<lambda>s. semctl_setall k st m semid s arg)
      else if real_cmd = 11 then on_set (\<lambda>s. semctl_getpid k st m s semnum)
      else if real_cmd = 14 then on_set (\<lambda>s. semctl_getcnt k st m semid s semnum False)
      else if real_cmd = 15 then on_set (\<lambda>s. semctl_getcnt k st m semid s semnum True)
      else (Err EINVAL, k, st, m))"

section \<open>The scan, one semaphore at a time\<close>

text \<open>The operations of an array on one semaphore, and running them on its value alone.\<close>

definition proj :: "nat \<Rightarrow> sembuf list \<Rightarrow> int list" where
  "proj n ops = map sb_op (filter (\<lambda>op. sb_num op = n) ops)"

fun run1 :: "int \<Rightarrow> int list \<Rightarrow> int option" where
  "run1 v [] = Some v"
| "run1 v (x # xs) =
     (if 0 < x then run1 (v + x) xs
      else if x < 0 then (if v + x < 0 then None else run1 (v + x) xs)
      else if v \<noteq> 0 then None else run1 v xs)"

definition nums_ok :: "nat \<Rightarrow> sembuf list \<Rightarrow> bool" where
  "nums_ok n ops \<longleftrightarrow> (\<forall>op \<in> set ops. sb_num op < n)"

lemma proj_simps [simp]:
  "proj n [] = []"
  "proj n (op # ops) = (if sb_num op = n then sb_op op # proj n ops else proj n ops)"
  by (simp_all add: proj_def)

lemma nums_ok_Cons [simp]: "nums_ok n (op # ops) \<longleftrightarrow> sb_num op < n \<and> nums_ok n ops"
  by (auto simp: nums_ok_def)

lemma run1_sum: "run1 v xs = Some w \<Longrightarrow> w = v + sum_list xs"
  by (induction v xs rule: run1.induct) (auto split: if_splits)

lemma run1_nonneg: "run1 v xs = Some w \<Longrightarrow> 0 \<le> v \<Longrightarrow> 0 \<le> w"
  by (induction v xs rule: run1.induct) (auto split: if_splits)

lemma scan_ok_proj:
  assumes "semop_scan vals ops = ScanOk vs" and "nums_ok (length vals) ops"
  shows "length vs = length vals \<and> (\<forall>n < length vals. run1 (vals ! n) (proj n ops) = Some (vs ! n))"
  using assms
proof (induction vals ops rule: semop_scan.induct)
  case (2 vals op ops)
  then show ?case
    by (auto simp: Let_def add_i32_Some_iff nth_list_update split: if_splits option.splits)
qed auto

lemma scan_blocks_proj:
  assumes "semop_scan vals ops = ScanBlocks op" and "nums_ok (length vals) ops"
  shows "op \<in> set ops \<and> run1 (vals ! sb_num op) (proj (sb_num op) ops) = None"
  using assms
proof (induction vals ops rule: semop_scan.induct)
  case (2 vals op' ops)
  then show ?case
    by (auto simp: Let_def add_i32_Some_iff nth_list_update split: if_splits option.splits)
qed auto

lemma stuck_not_ok:
  assumes "run1 (vals ! n) (proj n ops) = None" and "n < length vals" and "nums_ok (length vals) ops"
  shows "semop_scan vals ops \<noteq> ScanOk vs"
  using scan_ok_proj [of vals ops vs] assms by auto

lemma commit_semas_spec:
  assumes "nums_ok (length semas) ops"
  shows "length (commit_semas caller scratch ops semas) = length semas \<and>
    (\<forall>i < length semas. commit_semas caller scratch ops semas ! i =
       (if i \<in> sb_num ` set ops then \<lparr> sm_val = scratch ! i, sm_pid = caller \<rparr> else semas ! i))"
  using assms
  by (induction caller scratch ops semas rule: commit_semas.induct) (auto simp: nth_list_update)

lemma proj_empty: "n \<notin> sb_num ` set ops \<Longrightarrow> proj n ops = []"
  by (induction ops) auto

text \<open>The committed values are the scanned ones, whether named or not.\<close>

lemma commit_vals:
  assumes "semop_scan (map sm_val semas) ops = ScanOk vs" and "nums_ok (length semas) ops"
  shows "map sm_val (commit_semas caller vs ops semas) = vs"
proof (rule nth_equalityI)
  have len: "length vs = length semas" using scan_ok_proj [OF assms(1)] assms(2) by simp
  note c = commit_semas_spec [OF assms(2), of caller vs]
  show "length (map sm_val (commit_semas caller vs ops semas)) = length vs" using c len by simp
  fix i assume "i < length (map sm_val (commit_semas caller vs ops semas))"
  then have i: "i < length semas" using c by simp
  have "vs ! i = sm_val (semas ! i)" if "i \<notin> sb_num ` set ops"
    using scan_ok_proj [OF assms(1)] assms(2) i proj_empty [OF that] by auto
  then show "map sm_val (commit_semas caller vs ops semas) ! i = vs ! i" using c i by auto
qed

lemma scan_in_range:
  assumes "semop_scan vals ops = ScanOk vs" and "\<forall>v \<in> set vals. 0 \<le> v \<and> v \<le> i32_max"
    and "nums_ok (length vals) ops"
  shows "\<forall>v \<in> set vs. 0 \<le> v \<and> v \<le> i32_max"
  using assms
proof (induction vals ops rule: semop_scan.induct)
  case (2 vals op ops)
  have upd: "\<forall>v \<in> set (vals[sb_num op := w]). 0 \<le> v \<and> v \<le> i32_max" if "0 \<le> w" "in_i32 w" for w
    using 2(5) that set_update_subset_insert [of vals "sb_num op" w] by (auto simp: in_i32_def)
  have old: "0 \<le> vals ! sb_num op" and nums: "nums_ok (length vals) ops" using 2(5,6) by simp_all
  consider (up) v where "0 < sb_op op" "add_i32 (vals ! sb_num op) (sb_op op) = Some v"
      "semop_scan (vals[sb_num op := v]) ops = ScanOk vs"
    | (down) v where "\<not> 0 < sb_op op" "sb_op op < 0" "add_i32 (vals ! sb_num op) (sb_op op) = Some v"
      "\<not> v < 0" "semop_scan (vals[sb_num op := v]) ops = ScanOk vs"
    | (zero) "\<not> 0 < sb_op op" "\<not> sb_op op < 0" "\<not> vals ! sb_num op \<noteq> 0" "semop_scan vals ops = ScanOk vs"
    using 2(4) by (auto simp: Let_def split: if_splits option.splits)
  then show ?case
  proof cases
    case up
    then have "0 \<le> v" "in_i32 v" using old by (auto simp: add_i32_Some_iff)
    then show ?thesis using 2(1) [OF refl up(1,2,3) upd] nums by (metis length_list_update)
  next
    case down
    then have "0 \<le> v" "in_i32 v" by (auto simp: add_i32_Some_iff)
    then show ?thesis using 2(2) [OF refl down(1-5) upd] nums by (metis length_list_update)
  next
    case zero
    then show ?thesis using 2(3) [OF refl zero(1-4)] 2(5) nums by simp
  qed
qed auto

section \<open>Invariant\<close>

definition set_ok :: "sem_set \<Rightarrow> bool" where
  "set_ok s \<longleftrightarrow> length (ss_semas s) \<le> max_sems_per_set
     \<and> (\<forall>v \<in> set (map sm_val (ss_semas s)). 0 \<le> v \<and> v \<le> i32_max)"

definition sem_inv :: "sem_state \<Rightarrow> bool" where
  "sem_inv st \<longleftrightarrow> ns_inv ss_key (sem_sets st) (sem_keys st) (sem_next st)
     \<and> (\<forall>i s. bget (sem_sets st) i = Some s \<longrightarrow> set_ok s)"

interpretation sem_ns: ipc_namespace ss_key "\<lambda>f. \<forall>s. ss_key (f s) = ss_key s"
  by unfold_locales simp

lemma sem_invD:
  assumes "sem_inv st"
  shows "ns_inv ss_key (sem_sets st) (sem_keys st) (sem_next st)"
    and "bget (sem_sets st) i = Some s \<Longrightarrow> set_ok s"
  using assms by (auto simp: sem_inv_def)

lemma sem_inv_update:
  assumes "sem_inv st" and "bget (sem_sets st) semid = Some s" and "set_ok (f s)"
    and "\<And>s. ss_key (f s) = ss_key s"
  shows "sem_inv (st\<lparr>sem_sets := bupdate semid f (sem_sets st)\<rparr>)"
  using assms sem_ns.update_keeps [OF sem_invD(1) [OF assms(1)], of f semid]
  by (auto simp: sem_inv_def split: if_splits)

lemma sem_inv_replace:
  assumes "sem_inv st" and "bget (sem_sets st) semid = Some s" and "set_ok s'" and "ss_key s' = ss_key s"
  shows "sem_inv (st\<lparr>sem_sets := binsert semid s' (sem_sets st)\<rparr>)"
proof -
  have "bwf (sem_sets st)" using ns_invD(1) [OF sem_invD(1) [OF assms(1)]] .
  moreover have "bget (binsert semid s' (sem_sets st)) i = bget (bupdate semid (\<lambda>_. s') (sem_sets st)) i" for i
    using assms(2) by simp
  ultimately have eq: "binsert semid s' (sem_sets st) = bupdate semid (\<lambda>_. s') (sem_sets st)"
    by (intro bmap_eqI) auto
  define f where "f x = (if x = s then s' else x)" for x
  have "bget (bupdate semid (\<lambda>_. s') (sem_sets st)) i = bget (bupdate semid f (sem_sets st)) i" for i
    using assms(2) by (simp add: f_def)
  with \<open>bwf (sem_sets st)\<close> have "bupdate semid (\<lambda>_. s') (sem_sets st) = bupdate semid f (sem_sets st)"
    by (intro bmap_eqI) auto
  moreover have "set_ok (f s)" "ss_key (f x) = ss_key x" for x using assms(3,4) by (auto simp: f_def)
  ultimately show ?thesis using sem_inv_update [OF assms(1,2), of f] eq by simp
qed

lemma record_undo_core:
  assumes "record_undo pid semid num op k = Some k'"
  shows "k_current k' = k_current k \<and> k_epoch k' = k_epoch k \<and> k_ticks k' = k_ticks k
    \<and> (\<forall>q r. blocked_as k' q r = blocked_as k q r)"
  using assms by (auto simp: record_undo_def blocked_as_upd_same split: option.splits)

lemma record_undos_core:
  assumes "record_undos pid semid ops k = Some k'"
  shows "k_current k' = k_current k \<and> k_epoch k' = k_epoch k \<and> k_ticks k' = k_ticks k
    \<and> (\<forall>q r. blocked_as k' q r = blocked_as k q r)"
  using assms
proof (induction pid semid ops k rule: record_undos.induct)
  case (2 pid semid op ops k)
  show ?case
  proof (cases "sb_flg op AND sem_undo_flag \<noteq> 0 \<and> sb_op op \<noteq> 0")
    case True
    then obtain k1 where k1: "record_undo pid semid (sb_num op) (sb_op op) k = Some k1"
        "record_undos pid semid ops k1 = Some k'"
      using 2(3) by (auto split: option.splits)
    then show ?thesis using 2(1) [OF True k1] record_undo_core [OF k1(1)] by simp
  next
    case False
    have "record_undos pid semid ops k = Some k'" using 2(3) False by (simp split: if_splits)
    then show ?thesis using 2(2) [OF False] by simp
  qed
qed simp

lemma semop_pass_cases:
  assumes "semop_pass k st semid ops dl = (r, k', st')"
  obtains (fail) e where "r = Return (Err e)" "k' = k" "st' = st"
  | (panic) "r = Return Panic" "k' = k"
  | (sleep) s op where "r = Sleep" "st' = st" "bget (sem_sets st) semid = Some s"
      "nums_ok (length (ss_semas s)) ops" "semop_scan (map sm_val (ss_semas s)) ops = ScanBlocks op"
      "k' = block_current (WaitingForSemOp (unat (i32_as_u64 semid)) (sb_num op) (sb_op op = 0) dl) k"
      "bget (k_table k) (k_current k) \<noteq> None"
  | (ok) s vs k1 where "r = Return (Ok 0)" "bget (sem_sets st) semid = Some s"
      "nums_ok (length (ss_semas s)) ops" "semop_scan (map sm_val (ss_semas s)) ops = ScanOk vs"
      "record_undos (k_current k) semid ops k = Some k1"
      "k' = wake_blocked_semop semid (touched_nums ops) k1"
      "st' = st\<lparr>sem_sets := binsert semid
         (s\<lparr>ss_semas := commit_semas (k_current k) vs ops (ss_semas s), ss_otime := int (k_epoch k)\<rparr>) (sem_sets st)\<rparr>"
proof -
  have nums: "\<not> list_ex (\<lambda>op. n \<le> sb_num op) ops \<longleftrightarrow> nums_ok n ops" for n
    by (auto simp: list_ex_iff nums_ok_def not_le)
  show thesis
    using assms unfolding semop_pass_def Let_def
    by (auto simp: nums split: option.splits if_splits scan_result.splits
        intro: fail panic sleep ok)
qed

lemma do_semget_cases:
  assumes "do_semget k st key nsems flag = (r, st')"
  obtains (same) "st' = st"
  | (made) "r = Ok (i32_as_u64 (sem_next st))" "unat nsems \<le> max_sems_per_set"
      "in_i32 (sem_next st + 1)" "as_i32 key = ipc_private \<or> bget (sem_keys st) (as_i32 key) = None"
      "length (sem_sets st) < max_sysv_sem_sets"
      "st' = st\<lparr>sem_next := sem_next st + 1,
          sem_sets := binsert (sem_next st) (new_sem_set k (as_i32 key) nsems flag) (sem_sets st),
          sem_keys := (if as_i32 key \<noteq> ipc_private then binsert (as_i32 key) (sem_next st) (sem_keys st)
                       else sem_keys st)\<rparr>"
proof -
  have creates: thesis if "semget_create k st (as_i32 key) nsems flag = (r, st')"
      "as_i32 key = ipc_private \<or> bget (sem_keys st) (as_i32 key) = None"
  proof (cases "st' = st")
    case False
    then show thesis
      using that(1) unfolding semget_create_def
      by (intro made that(2)) (auto simp: add_i32_Some_iff split: if_splits option.splits)
  qed (rule same)
  show thesis
  proof (cases "as_i32 key = ipc_private")
    case True
    then show thesis using assms creates unfolding do_semget_def Let_def by simp
  next
    case False
    show thesis
    proof (cases "bget (sem_keys st) (as_i32 key)")
      case None
      then show thesis
        using assms creates False same unfolding do_semget_def Let_def
        by (cases "flag AND ipc_creat = 0") auto
    next
      case (Some semid)
      then show thesis
        using assms False same unfolding do_semget_def Let_def by (auto split: if_splits option.splits)
    qed
  qed
qed

lemma new_sem_set_facts:
  "ss_key (new_sem_set k key nsems flag) = key"
  "ss_semas (new_sem_set k key nsems flag) = replicate (unat nsems) \<lparr> sm_val = 0, sm_pid = 0 \<rparr>"
  "unat nsems \<le> max_sems_per_set \<Longrightarrow> set_ok (new_sem_set k key nsems flag)"
  by (auto simp: new_sem_set_def set_ok_def i32_max_def)

lemma do_semget_inv:
  assumes "do_semget k st key nsems flag = (r, st')" and "sem_inv st"
  shows "sem_inv st'"
  using assms(1)
proof (cases rule: do_semget_cases)
  case same
  then show ?thesis using assms(2) by simp
next
  case made
  let ?s = "new_sem_set k (as_i32 key) nsems flag"
  note ns = sem_invD(1) [OF assms(2)]
  have "ns_inv ss_key (sem_sets st') (sem_keys st') (sem_next st')"
  proof (cases "as_i32 key = ipc_private")
    case True
    then show ?thesis using made sem_ns.insert_private [OF ns, of ?s] by (simp add: new_sem_set_facts)
  next
    case False
    then show ?thesis using made sem_ns.insert_keyed [OF ns, of ?s] by (simp add: new_sem_set_facts)
  qed
  moreover have "set_ok t" if "bget (sem_sets st') j = Some t" for j t
    using that made sem_invD(2) [OF assms(2)] new_sem_set_facts(3) [OF made(2)] by (auto split: if_splits)
  ultimately show ?thesis unfolding sem_inv_def by blast
qed

lemma set_ok_commit:
  assumes "set_ok s" and "nums_ok (length (ss_semas s)) ops"
    and "semop_scan (map sm_val (ss_semas s)) ops = ScanOk vs"
    and "ss_semas s' = commit_semas caller vs ops (ss_semas s)"
  shows "set_ok s'"
proof -
  have "\<forall>v \<in> set vs. 0 \<le> v \<and> v \<le> i32_max"
  proof (rule scan_in_range [OF assms(3)])
    show "\<forall>v \<in> set (map sm_val (ss_semas s)). 0 \<le> v \<and> v \<le> i32_max"
      using assms(1) unfolding set_ok_def by blast
    show "nums_ok (length (map sm_val (ss_semas s))) ops" using assms(2) by (simp only: length_map)
  qed
  then have "\<forall>v \<in> set (map sm_val (ss_semas s')). 0 \<le> v \<and> v \<le> i32_max"
    unfolding assms(4) commit_vals [OF assms(3,2)] .
  moreover have "length (ss_semas s') = length (ss_semas s)"
    unfolding assms(4) using commit_semas_spec [OF assms(2)] by blast
  ultimately show ?thesis using assms(1) unfolding set_ok_def by metis
qed

lemma semop_pass_inv:
  assumes "semop_pass k st semid ops dl = (r, k', st')" and "sem_inv st" and "r \<noteq> Return Panic"
  shows "sem_inv st'"
  using assms(1)
proof (cases rule: semop_pass_cases)
  case (ok s vs k1)
  have "set_ok (s\<lparr>ss_semas := commit_semas (k_current k) vs ops (ss_semas s), ss_otime := int (k_epoch k)\<rparr>)"
    by (rule set_ok_commit [OF sem_invD(2) [OF assms(2) ok(2)] ok(3,4), of _ "k_current k"]) simp
  then show ?thesis using sem_inv_replace [OF assms(2) ok(2)] unfolding ok(7) by simp
next
  case panic
  then show ?thesis using assms(3) by blast
next
  case fail
  then show ?thesis using assms(2) by blast
next
  case sleep
  then show ?thesis using assms(2) by blast
qed

lemma semctl_reads:
  "semctl_stat k st m s arg = (r, k', st', m') \<Longrightarrow> k' = k \<and> st' = st"
  "semctl_getval k st m s semnum = (r, k', st', m') \<Longrightarrow> k' = k \<and> st' = st"
  "semctl_getall k st m s arg = (r, k', st', m') \<Longrightarrow> k' = k \<and> st' = st"
  "semctl_getpid k st m s semnum = (r, k', st', m') \<Longrightarrow> k' = k \<and> st' = st"
  "semctl_getcnt k st m semid s semnum z = (r, k', st', m') \<Longrightarrow> k' = k \<and> st' = st"
  by (auto simp: semctl_stat_def semctl_getval_def semctl_getall_def semctl_getpid_def semctl_getcnt_def
      split: if_splits prod.splits kres.splits)

lemma setall_vals_ok:
  "setall_vals m p j n = Ok vs \<Longrightarrow> length vs = n \<and> (\<forall>v \<in> set vs. 0 \<le> v \<and> v \<le> semvmx)"
proof (induction m p j n arbitrary: vs rule: setall_vals.induct)
  case (2 m p j n)
  then show ?case by (auto simp: bind_kres_Ok_iff split: if_splits)
qed simp

text \<open>What \<open>semctl\<close> can do to the state: nothing, or one of four changes to the set it names.\<close>

lemma do_semctl_cases:
  assumes "do_semctl k st m i semnum cmd arg = (r, k', st', m')"
  obtains (same) "k' = k" "st' = st"
  | (perms) s f where "bget (sem_sets st) (as_i32 i) = Some s" "k' = k"
      "st' = st\<lparr>sem_sets := bupdate (as_i32 i) f (sem_sets st)\<rparr>"
      "\<And>s. ss_semas (f s) = ss_semas s" "\<And>s. ss_key (f s) = ss_key s"
  | (rmid) s where "bget (sem_sets st) (as_i32 i) = Some s" "k' = wake_blocked_semop_all (as_i32 i) k"
      "st' = st\<lparr>sem_sets := bremove (as_i32 i) (sem_sets st),
         sem_keys := (if ss_key s \<noteq> ipc_private then bremove (ss_key s) (sem_keys st) else sem_keys st)\<rparr>"
  | (setval) s v f where "bget (sem_sets st) (as_i32 i) = Some s" "unat semnum < length (ss_semas s)"
      "0 \<le> v" "v \<le> semvmx" "k' = wake_blocked_semop (as_i32 i) [unat (ucast semnum :: u16)] k"
      "st' = st\<lparr>sem_sets := bupdate (as_i32 i) f (sem_sets st)\<rparr>" "\<And>s. ss_key (f s) = ss_key s"
      "\<And>s. ss_semas (f s) = (ss_semas s)[unat semnum := \<lparr> sm_val = v, sm_pid = k_current k \<rparr>]"
  | (setall) s vs f where "bget (sem_sets st) (as_i32 i) = Some s" "length vs = length (ss_semas s)"
      "\<forall>v \<in> set vs. 0 \<le> v \<and> v \<le> semvmx"
      "k' = wake_blocked_semop (as_i32 i) [0..<length (ss_semas s) mod 2 ^ 16] k"
      "st' = st\<lparr>sem_sets := bupdate (as_i32 i) f (sem_sets st)\<rparr>" "\<And>s. ss_key (f s) = ss_key s"
      "\<And>s. ss_semas (f s) = map (\<lambda>v. \<lparr> sm_val = v, sm_pid = k_current k \<rparr>) vs"
proof -
  consider (unchanged) "k' = k \<and> st' = st" | (changed) "\<not> (k' = k \<and> st' = st)" by blast
  then show thesis
  proof cases
    case unchanged
    then show thesis using same by blast
  next
    case changed
    have "thesis" if "bget (sem_sets st) (as_i32 i) = Some s"
        "semctl_set k st m (as_i32 i) s arg = (r, k', st', m')" for s
      using that changed unfolding semctl_set_def Let_def
      by (auto split: if_splits kres.splits intro!: perms [OF that(1)])
    moreover have thesis if "bget (sem_sets st) (as_i32 i) = Some s"
        "semctl_rmid k st m (as_i32 i) s = (r, k', st', m')" for s
      using that changed unfolding semctl_rmid_def by (auto split: if_splits intro!: rmid [OF that(1)])
    moreover have thesis if "bget (sem_sets st) (as_i32 i) = Some s"
        "semctl_setval k st m (as_i32 i) s semnum arg = (r, k', st', m')" for s
      using that changed unfolding semctl_setval_def Let_def
      by (auto simp: not_le split: if_splits intro!: setval [OF that(1), of "as_i32 arg"])
    moreover have thesis if "bget (sem_sets st) (as_i32 i) = Some s"
        "semctl_setall k st m (as_i32 i) s arg = (r, k', st', m')" for s
      using that changed setall_vals_ok unfolding semctl_setall_def Let_def
      by (auto split: if_splits kres.splits intro!: setall [OF that(1)])
    ultimately show thesis
      using assms changed semctl_reads unfolding do_semctl_def Let_def
      by (auto split: if_splits option.splits)
  qed
qed

lemma do_semctl_inv:
  assumes "do_semctl k st m i semnum cmd arg = (r, k', st', m')" and "sem_inv st"
  shows "sem_inv st'"
  using assms(1)
proof (cases rule: do_semctl_cases)
  case same
  then show ?thesis using assms(2) by simp
next
  case (perms s f)
  have "set_ok (f s)" using sem_invD(2) [OF assms(2) perms(1)] perms(4) unfolding set_ok_def by simp
  then show ?thesis using sem_inv_update [OF assms(2) perms(1) _ perms(5)] perms(3) by simp
next
  case (rmid s)
  note ns = sem_invD(1) [OF assms(2)]
  have "ns_inv ss_key (sem_sets st') (sem_keys st') (sem_next st')"
    using sem_ns.remove_private [OF ns rmid(1)] sem_ns.remove_keyed [OF ns rmid(1)] rmid(3) by simp
  moreover have "set_ok t" if "bget (sem_sets st') j = Some t" for j t
    using that rmid(3) sem_invD(2) [OF assms(2)] by (auto split: if_splits)
  ultimately show ?thesis unfolding sem_inv_def by blast
next
  case (setval s v f)
  have "\<forall>x \<in> set (ss_semas (f s)). 0 \<le> sm_val x \<and> sm_val x \<le> i32_max"
    using sem_invD(2) [OF assms(2) setval(1)] setval(3,4,8)
      set_update_subset_insert [of "ss_semas s" "unat semnum" "\<lparr> sm_val = v, sm_pid = k_current k \<rparr>"]
    by (auto simp: set_ok_def semvmx_def i32_max_def)
  then have "set_ok (f s)"
    using sem_invD(2) [OF assms(2) setval(1)] setval(8) by (auto simp: set_ok_def)
  then show ?thesis using sem_inv_update [OF assms(2) setval(1) _ setval(7)] setval(6) by simp
next
  case (setall s vs f)
  have "set_ok (f s)"
    using sem_invD(2) [OF assms(2) setall(1)] setall(2,3,7)
    by (force simp: set_ok_def semvmx_def i32_max_def)
  then show ?thesis using sem_inv_update [OF assms(2) setall(1) _ setall(6)] setall(5) by simp
qed

section \<open>Every change of a value wakes its waiters\<close>

definition val_at :: "(int, sem_set) bmap \<Rightarrow> int \<Rightarrow> nat \<Rightarrow> int option" where
  "val_at sets semid n =
     (case bget sets semid of
        None \<Rightarrow> None
      | Some s \<Rightarrow> if n < length (ss_semas s) then Some (sm_val (ss_semas s ! n)) else None)"

abbreviation sem_reason :: "int \<Rightarrow> nat \<Rightarrow> bool \<Rightarrow> nat \<Rightarrow> block_reason" where
  "sem_reason semid n z dl \<equiv> WaitingForSemOp (unat (i32_as_u64 semid)) n z dl"

text \<open>A process that still sleeps on a semaphore after an operation slept there before it, and the
  operation left that semaphore alone.\<close>

definition wakes_changes :: "kcore \<Rightarrow> sem_state \<Rightarrow> kcore \<Rightarrow> sem_state \<Rightarrow> bool" where
  "wakes_changes k st k' st' \<longleftrightarrow>
     (\<forall>pid semid n z dl. blocked_as k' pid (sem_reason semid n z dl) \<longrightarrow>
        blocked_as k pid (sem_reason semid n z dl) \<and>
        (val_at (sem_sets st) semid n \<noteq> None \<longrightarrow>
           val_at (sem_sets st') semid n = val_at (sem_sets st) semid n))"

lemma wakes_changesI:
  assumes "\<And>pid semid n z dl. blocked_as k' pid (sem_reason semid n z dl) \<Longrightarrow>
      blocked_as k pid (sem_reason semid n z dl)"
    and "\<And>pid semid n z dl. blocked_as k' pid (sem_reason semid n z dl) \<Longrightarrow>
      val_at (sem_sets st) semid n \<noteq> None \<Longrightarrow> val_at (sem_sets st') semid n = val_at (sem_sets st) semid n"
  shows "wakes_changes k st k' st'"
  using assms unfolding wakes_changes_def by blast

lemma blocked_wake_semop:
  "blocked_as (wake_blocked_semop semid touched k) pid (sem_reason i n z dl) \<longleftrightarrow>
     blocked_as k pid (sem_reason i n z dl)
       \<and> \<not> (unat (i32_as_u64 i) = unat (i32_as_u64 semid) \<and> n \<in> set touched)"
  unfolding wake_blocked_semop_def by (subst blocked_as_wake_where) (simp_all add: waits_semop_def)

lemma blocked_wake_semset:
  "blocked_as (wake_blocked_semop_all semid k) pid (sem_reason i n z dl) \<longleftrightarrow>
     blocked_as k pid (sem_reason i n z dl) \<and> unat (i32_as_u64 i) \<noteq> unat (i32_as_u64 semid)"
  unfolding wake_blocked_semop_all_def by (subst blocked_as_wake_where) (simp_all add: waits_semset_def)

lemma val_at_binsert:
  "val_at (binsert i s sets) semid n =
     (if semid = i then if n < length (ss_semas s) then Some (sm_val (ss_semas s ! n)) else None
      else val_at sets semid n)"
  by (simp add: val_at_def)

lemma val_at_bupdate:
  "val_at (bupdate i f sets) semid n =
     (if semid = i then case bget sets i of None \<Rightarrow> None
        | Some s \<Rightarrow> if n < length (ss_semas (f s)) then Some (sm_val (ss_semas (f s) ! n)) else None
      else val_at sets semid n)"
  by (simp add: val_at_def split: option.splits)

lemma untouched_sum: "n \<notin> set (touched_nums ops) \<Longrightarrow> sum_list (proj n ops) = 0"
  by (induction ops) (auto simp: touched_nums_def split: if_splits)

lemma semop_pass_wakes:
  assumes "semop_pass k st semid ops dl = (r, k', st')" and "r \<noteq> Return Panic" and "r \<noteq> Sleep"
  shows "wakes_changes k st k' st'"
  using assms(1)
proof (cases rule: semop_pass_cases)
  case (fail e)
  then show ?thesis by (intro wakes_changesI) simp_all
next
  case (ok s vs k1)
  let ?s = "s\<lparr>ss_semas := commit_semas (k_current k) vs ops (ss_semas s), ss_otime := int (k_epoch k)\<rparr>"
  have k1: "blocked_as k1 p r \<longleftrightarrow> blocked_as k p r" for p r using record_undos_core [OF ok(5)] by blast
  have same: "val_at (sem_sets st') semid n = val_at (sem_sets st) semid n"
    if "n \<notin> set (touched_nums ops)" for n
  proof (cases "n < length (ss_semas s)")
    case True
    have run: "length vs = length (ss_semas s)" "run1 (sm_val (ss_semas s ! n)) (proj n ops) = Some (vs ! n)"
      using scan_ok_proj [OF ok(4)] ok(3) True by auto
    have "map sm_val (ss_semas ?s) ! n = vs ! n" using commit_vals [OF ok(4,3)] by simp
    then have "sm_val (ss_semas ?s ! n) = sm_val (ss_semas s ! n)"
      using run1_sum [OF run(2)] untouched_sum [OF that] commit_semas_spec [OF ok(3)] True by simp
    then show ?thesis
      using commit_semas_spec [OF ok(3)] True ok(2,7) by (simp add: val_at_binsert) (simp add: val_at_def)
  next
    case False
    then show ?thesis
      using commit_semas_spec [OF ok(3)] ok(2,7) by (simp add: val_at_binsert) (simp add: val_at_def)
  qed
  show ?thesis
  proof (rule wakes_changesI)
    fix pid i n z dl' assume b: "blocked_as k' pid (sem_reason i n z dl')"
    then show "blocked_as k pid (sem_reason i n z dl')" unfolding ok(6) blocked_wake_semop k1 by blast
    have "\<not> (i = semid \<and> n \<in> set (touched_nums ops))" using b unfolding ok(6) blocked_wake_semop by blast
    then show "val_at (sem_sets st') i n = val_at (sem_sets st) i n"
      using same [of n] ok(7) by (cases "i = semid") (auto simp: val_at_binsert)
  qed
qed (use assms in blast)+

lemma do_semctl_wakes:
  assumes "do_semctl k st m i semnum cmd arg = (r, k', st', m')" and "sem_inv st"
  shows "wakes_changes k st k' st'"
  using assms(1)
proof (cases rule: do_semctl_cases)
  case same
  then show ?thesis by (intro wakes_changesI) simp_all
next
  case (perms s f)
  then show ?thesis by (intro wakes_changesI) (auto simp: val_at_bupdate, simp_all add: val_at_def)
next
  case (rmid s)
  show ?thesis
  proof (rule wakes_changesI)
    fix pid j n z dl assume b: "blocked_as k' pid (sem_reason j n z dl)"
    then show "blocked_as k pid (sem_reason j n z dl)" unfolding rmid(2) blocked_wake_semset by blast
    have "j \<noteq> as_i32 i" using b unfolding rmid(2) blocked_wake_semset by blast
    then show "val_at (sem_sets st') j n = val_at (sem_sets st) j n" using rmid(3) by (simp add: val_at_def)
  qed
next
  case (setval s v f)
  have "length (ss_semas s) \<le> max_sems_per_set" using sem_invD(2) [OF assms(2) setval(1)] by (simp add: set_ok_def)
  then have "unat semnum mod 2 ^ 16 = unat semnum" using setval(2) by (simp add: max_sems_per_set_def)
  then have cast: "unat (ucast semnum :: u16) = unat semnum" by (simp add: unsigned_ucast_eq take_bit_eq_mod)
  show ?thesis
  proof (rule wakes_changesI)
    fix pid j n z dl assume b: "blocked_as k' pid (sem_reason j n z dl)"
    then show "blocked_as k pid (sem_reason j n z dl)" unfolding setval(5) blocked_wake_semop by blast
    have "\<not> (j = as_i32 i \<and> n = unat semnum)" using b unfolding setval(5) blocked_wake_semop cast by auto
    then show "val_at (sem_sets st') j n = val_at (sem_sets st) j n"
      using setval(1,6,8) by (auto simp: val_at_bupdate) (auto simp: val_at_def)
  qed
next
  case (setall s vs f)
  have len: "length (ss_semas s) mod 2 ^ 16 = length (ss_semas s)"
    using sem_invD(2) [OF assms(2) setall(1)] by (simp add: set_ok_def max_sems_per_set_def)
  show ?thesis
  proof (rule wakes_changesI)
    fix pid j n z dl assume b: "blocked_as k' pid (sem_reason j n z dl)"
    then show "blocked_as k pid (sem_reason j n z dl)" unfolding setall(4) blocked_wake_semop by blast
    have "\<not> (j = as_i32 i \<and> n < length (ss_semas s))" using b unfolding setall(4) blocked_wake_semop len by auto
    then show "val_at (sem_sets st') j n = val_at (sem_sets st) j n"
      using setall(1,2,5,7) by (auto simp: val_at_bupdate) (auto simp: val_at_def)
  qed
qed

lemma do_semget_wakes:
  assumes "do_semget k st key nsems flag = (r, st')" and "sem_inv st"
  shows "wakes_changes k st k st'"
  using assms(1)
proof (cases rule: do_semget_cases)
  case same
  then show ?thesis by (intro wakes_changesI) simp_all
next
  case made
  have "bget (sem_sets st) (sem_next st) = None"
    by (rule sem_ns.fresh_id [OF sem_invD(1) [OF assms(2)]])
  then show ?thesis
    using made(6) by (intro wakes_changesI) (auto simp: val_at_binsert, simp_all add: val_at_def)
qed

lemma undo_loop_spec:
  assumes "undo_loop us sets t = Some (sets', t')"
  shows "(\<forall>i l. bget t i = Some l \<longrightarrow> (\<exists>l'. bget t' i = Some l' \<and> set l \<subseteq> set l'))
    \<and> (\<forall>i n. val_at sets' i n = val_at sets i n \<or> (\<exists>l. bget t' i = Some l \<and> n \<in> set l))"
  using assms
proof (induction us sets t arbitrary: sets' t' rule: undo_loop.induct)
  case (2 semid num adj us sets t)
  show ?case
  proof (cases "\<exists>s. bget sets semid = Some s \<and> num < length (ss_semas s)")
    case False
    then have "undo_loop us sets t = Some (sets', t')" using 2(4) by (auto split: option.splits if_splits)
    then show ?thesis using 2(1,2) False by (cases "bget sets semid") auto
  next
    case True
    then obtain s v where s: "bget sets semid = Some s" "\<not> length (ss_semas s) \<le> num"
        "add_i32 (sm_val (ss_semas s ! num)) adj = Some v"
      using 2(4) by (auto split: option.splits)
    let ?s = "s\<lparr>ss_semas := (ss_semas s)[num := (ss_semas s ! num)\<lparr>sm_val := clamp_val v\<rparr>]\<rparr>"
    have loop: "undo_loop us (binsert semid ?s sets) (touch semid num t) = Some (sets', t')"
      using 2(4) s by simp
    note ih = 2(3) [OF s loop]
    have touched: "\<exists>l. bget (touch semid num t) semid = Some l \<and> num \<in> set l"
      and mono: "\<exists>l'. bget (touch semid num t) i = Some l' \<and> set l \<subseteq> set l'" if "bget t i = Some l" for i l
      using that by (auto simp: touch_def)
    have "\<exists>l. bget (touch semid num t) semid = Some l \<and> num \<in> set l" by (auto simp: touch_def)
    then have last: "\<exists>l. bget t' semid = Some l \<and> num \<in> set l" using ih by blast
    have "val_at (binsert semid ?s sets) i n = val_at sets i n" if "\<not> (i = semid \<and> n = num)" for i n
      using that s(1) by (auto simp: val_at_binsert val_at_def)
    then have "val_at sets' i n = val_at sets i n \<or> (\<exists>l. bget t' i = Some l \<and> n \<in> set l)" for i n
      using ih last by (cases "i = semid \<and> n = num") (blast, metis)
    moreover have "\<exists>l'. bget t' i = Some l' \<and> set l \<subseteq> set l'" if "bget t i = Some l" for i l
      using mono [OF that] ih by (meson subset_trans)
    ultimately show ?thesis by blast
  qed
qed auto

lemma undo_loop_inv:
  assumes "undo_loop us sets t = Some (sets', t')" and "sem_inv (st\<lparr>sem_sets := sets\<rparr>)"
  shows "sem_inv (st\<lparr>sem_sets := sets'\<rparr>)"
  using assms
proof (induction us sets t arbitrary: sets' t' rule: undo_loop.induct)
  case (2 semid num adj us sets t)
  show ?case
  proof (cases "\<exists>s. bget sets semid = Some s \<and> num < length (ss_semas s)")
    case False
    then have "undo_loop us sets t = Some (sets', t')" using 2(4) by (auto split: option.splits if_splits)
    then show ?thesis using 2(1,2,5) False by (cases "bget sets semid") auto
  next
    case True
    then obtain s v where s: "bget sets semid = Some s" "\<not> length (ss_semas s) \<le> num"
        "add_i32 (sm_val (ss_semas s ! num)) adj = Some v"
      using 2(4) by (auto split: option.splits)
    let ?x = "(ss_semas s ! num)\<lparr>sm_val := clamp_val v\<rparr>"
    let ?s = "s\<lparr>ss_semas := (ss_semas s)[num := ?x]\<rparr>"
    have loop: "undo_loop us (binsert semid ?s sets) (touch semid num t) = Some (sets', t')"
      using 2(4) s by simp
    have "set_ok s" using sem_invD(2) [OF 2(5), of semid] s(1) by simp
    moreover have "0 \<le> sm_val ?x \<and> sm_val ?x \<le> i32_max"
      by (simp add: clamp_val_def semvmx_def i32_max_def)
    ultimately have "set_ok ?s"
      using set_update_subset_insert [of "ss_semas s" num ?x] by (auto simp: set_ok_def)
    then have "sem_inv (st\<lparr>sem_sets := binsert semid ?s sets\<rparr>)"
      using sem_inv_replace [OF 2(5), of semid s ?s] s(1) by simp
    then show ?thesis using 2(3) [OF s loop] by blast
  qed
qed auto

lemma foldl_wake_blocked:
  assumes "blocked_as (foldl (\<lambda>k (i, l). wake_blocked_semop i l k) k t) pid (sem_reason semid n z dl)"
  shows "blocked_as k pid (sem_reason semid n z dl) \<and> (\<forall>l. (semid, l) \<in> set t \<longrightarrow> n \<notin> set l)"
  using assms
proof (induction t arbitrary: k)
  case (Cons x t)
  obtain i l where x: "x = (i, l)" by (cases x)
  have "blocked_as (wake_blocked_semop i l k) pid (sem_reason semid n z dl)
      \<and> (\<forall>l. (semid, l) \<in> set t \<longrightarrow> n \<notin> set l)"
    using Cons.IH [of "wake_blocked_semop i l k"] Cons.prems unfolding x by simp
  then show ?case unfolding blocked_wake_semop x by auto
qed simp

lemma apply_undo_cases:
  assumes "apply_undo_for_exit pid k st = Some (k', st')"
  obtains (none) "st' = st" "\<And>q r. blocked_as k' q r \<longleftrightarrow> blocked_as k q r"
  | (undone) me sets t where "bget (k_table k) pid = Some me"
      "undo_loop (p_sem_undo me) (sem_sets st) [] = Some (sets, t)" "st' = st\<lparr>sem_sets := sets\<rparr>"
      "k' = foldl (\<lambda>k (i, l). wake_blocked_semop i l k) (upd_proc pid (\<lambda>p. p\<lparr>p_sem_undo := []\<rparr>) k) t"
proof (cases "bget (k_table k) pid")
  case None
  then show thesis using assms none by (simp add: apply_undo_for_exit_def)
next
  case (Some me)
  show thesis
  proof (cases "p_sem_undo me = []")
    case True
    then show thesis using assms none Some
      by (auto simp: apply_undo_for_exit_def blocked_as_upd_same)
  next
    case False
    then show thesis using assms undone Some
      by (auto simp: apply_undo_for_exit_def Let_def split: option.splits)
  qed
qed

lemma apply_undo_inv:
  assumes "apply_undo_for_exit pid k st = Some (k', st')" and "sem_inv st"
  shows "sem_inv st'"
  using assms(1)
proof (cases rule: apply_undo_cases)
  case none
  then show ?thesis using assms(2) by simp
next
  case (undone me sets t)
  then show ?thesis using undo_loop_inv [OF undone(2), of st] assms(2) by simp
qed

lemma apply_undo_wakes:
  assumes "apply_undo_for_exit pid k st = Some (k', st')"
  shows "wakes_changes k st k' st'"
  using assms
proof (cases rule: apply_undo_cases)
  case none
  then show ?thesis by (intro wakes_changesI) simp_all
next
  case (undone me sets t)
  have wf: "bget t i = Some l \<Longrightarrow> (i, l) \<in> set t" for i l
    by (rule bget_in_set)
  show ?thesis
  proof (rule wakes_changesI)
    fix q semid n z dl assume "blocked_as k' q (sem_reason semid n z dl)"
    note b = foldl_wake_blocked [OF this [unfolded undone(4)]]
    then show "blocked_as k q (sem_reason semid n z dl)" by (simp add: blocked_as_upd_same)
    show "val_at (sem_sets st') semid n = val_at (sem_sets st) semid n"
      using undo_loop_spec [OF undone(2)] b wf undone(3) by fastforce
  qed
qed

section \<open>The semaphore calls as a transition system\<close>

text \<open>The calls interleave in any order, with each other and with the rest of the kernel; a call that
  sleeps leaves in \<open>y_calls\<close> the request it will try again.\<close>

record sem_sys =
  y_sem :: sem_state
  y_core :: kcore
  y_calls :: "pid \<Rightarrow> (int \<times> sembuf list \<times> nat) option"

definition is_sem_reason :: "block_reason \<Rightarrow> bool" where
  "is_sem_reason r \<longleftrightarrow> (case r of WaitingForSemOp _ _ _ _ \<Rightarrow> True | _ \<Rightarrow> False)"

inductive sem_step :: "sem_sys \<Rightarrow> sem_sys \<Rightarrow> bool" where
  semop: "sem_step y \<lparr> y_sem = st', y_core = k', y_calls = (y_calls y)(k_current (y_core y) :=
            if r = Sleep then Some (semid, ops, dl) else None) \<rparr>"
  if "semop_pass (y_core y) (y_sem y) semid ops dl = (r, k', st')" "r \<noteq> Return Panic"
| semctl: "sem_step y (y\<lparr>y_sem := st', y_core := k'\<rparr>)"
  if "do_semctl (y_core y) (y_sem y) m i semnum cmd arg = (r, k', st', m')"
| semget: "sem_step y (y\<lparr>y_sem := st'\<rparr>)"
  if "do_semget (y_core y) (y_sem y) key nsems flag = (r, st')"
| exit: "sem_step y (y\<lparr>y_sem := st', y_core := k'\<rparr>)"
  if "apply_undo_for_exit pid (y_core y) (y_sem y) = Some (k', st')"
| other: "sem_step y (y\<lparr>y_core := k'\<rparr>)"
  if "elsewhere is_sem_reason (y_core y) k'"

definition sem_waiting :: "sem_sys \<Rightarrow> pid \<Rightarrow> int \<times> sembuf list \<times> nat \<times> bool \<times> nat \<Rightarrow> bool" where
  "sem_waiting y pid = (\<lambda>(semid, ops, n, z, dl).
     y_calls y pid = Some (semid, ops, dl) \<and> blocked_as (y_core y) pid (sem_reason semid n z dl))"

definition sem_stuck :: "sem_sys \<Rightarrow> int \<times> sembuf list \<times> nat \<times> bool \<times> nat \<Rightarrow> bool" where
  "sem_stuck y = (\<lambda>(semid, ops, n, z, dl).
     \<exists>v. val_at (sem_sets (y_sem y)) semid n = Some v \<and> run1 v (proj n ops) = None)"

lemma stuck_not_granted:
  assumes "val_at (sem_sets st) semid n = Some v" and "run1 v (proj n ops) = None"
  shows "fst (semop_pass k st semid ops dl) \<noteq> Return (Ok x)"
proof
  assume a: "fst (semop_pass k st semid ops dl) = Return (Ok x)"
  obtain r k' st' where p: "semop_pass k st semid ops dl = (r, k', st')" by (cases "semop_pass k st semid ops dl")
  from p show False
  proof (cases rule: semop_pass_cases)
    case (ok s vs k1)
    have n: "n < length (ss_semas s)" "v = sm_val (ss_semas s ! n)"
      using assms(1) ok(2) by (auto simp: val_at_def split: if_splits)
    then show False using stuck_not_ok [of "map sm_val (ss_semas s)" n ops vs] assms(2) ok(3,4) by simp
  qed (use a p in auto)
qed

lemma wakes_changes_waiting:
  assumes "wakes_changes (y_core y) (y_sem y) k' st'" and "\<And>q. calls q \<noteq> None \<Longrightarrow> calls q = y_calls y q"
    and "sem_waiting \<lparr> y_sem = st', y_core = k', y_calls = calls \<rparr> p w"
  shows "sem_waiting y p w \<and> (sem_stuck y w \<longrightarrow> sem_stuck \<lparr> y_sem = st', y_core = k', y_calls = calls \<rparr> w)"
proof -
  obtain semid ops n z dl where w: "w = (semid, ops, n, z, dl)" by (cases w)
  have "calls p = Some (semid, ops, dl)" and b: "blocked_as k' p (sem_reason semid n z dl)"
    using assms(3) by (simp_all add: sem_waiting_def w)
  then have "y_calls y p = Some (semid, ops, dl)" using assms(2) [of p] by simp
  then show ?thesis
    using b assms(1) unfolding sem_waiting_def sem_stuck_def w wakes_changes_def by force
qed

lemma semop_sleep_waiting:
  assumes "semop_pass (y_core y) (y_sem y) semid ops dl = (Sleep, k', st')"
    and "y' = \<lparr> y_sem = st', y_core = k', y_calls = (y_calls y)(k_current (y_core y) := Some (semid, ops, dl)) \<rparr>"
    and "sem_waiting y' p w"
  shows "sem_stuck y' w \<or> sem_waiting y p w \<and> (sem_stuck y w \<longrightarrow> sem_stuck y' w)"
  using assms(1)
proof (cases rule: semop_pass_cases)
  case (sleep s op)
  obtain semid' ops' n z dl' where w: "w = (semid', ops', n, z, dl')" by (cases w)
  show ?thesis
  proof (cases "p = k_current (y_core y)")
    case False
    then show ?thesis
      using assms(2,3) sleep(2,6) by (simp add: sem_waiting_def sem_stuck_def w blocked_as_block_current)
  next
    case True
    have call: "(semid', ops', dl') = (semid, ops, dl)"
      using assms(3) True unfolding assms(2) sem_waiting_def w by simp
    moreover have "blocked_as k' p (sem_reason semid' n z dl')"
      using assms(3) unfolding assms(2) sem_waiting_def w by simp
    then have "sem_reason semid' n z dl' = sem_reason semid (sb_num op) (sb_op op = 0) dl"
      unfolding sleep(6) blocked_as_block_current True by (simp only: if_True)
    ultimately have w': "w = (semid, ops, sb_num op, sb_op op = 0, dl)" unfolding w by simp
    have op: "op \<in> set ops" "run1 (map sm_val (ss_semas s) ! sb_num op) (proj (sb_num op) ops) = None"
      using scan_blocks_proj [OF sleep(5)] sleep(4) by simp_all
    then have "sb_num op < length (ss_semas s)" using sleep(4) by (simp add: nums_ok_def)
    then have "sem_stuck y' w" using op sleep(2,3) assms(2) by (simp add: sem_stuck_def w' val_at_def)
    then show ?thesis ..
  qed
qed auto

lemma sem_step_inv:
  assumes "sem_step y y'" and "sem_inv (y_sem y)"
  shows "sem_inv (y_sem y')"
  using assms
proof cases
  case semop
  then show ?thesis using semop_pass_inv assms(2) by simp
next
  case semctl
  then show ?thesis using do_semctl_inv assms(2) by simp
next
  case semget
  then show ?thesis using do_semget_inv assms(2) by simp
next
  case exit
  then show ?thesis using apply_undo_inv assms(2) by simp
qed simp

lemma elsewhere_wakes: "elsewhere is_sem_reason k k' \<Longrightarrow> wakes_changes k st k' st"
  by (auto intro!: wakes_changesI elim: blocked_as_elsewhere simp: is_sem_reason_def)

lemma sem_step_wakes:
  assumes "sem_step y y'" and "sem_inv (y_sem y)" and "sem_waiting y' p w"
  shows "sem_stuck y' w \<or> sem_waiting y p w \<and> (sem_stuck y w \<longrightarrow> sem_stuck y' w)"
proof -
  have only: ?thesis if "wakes_changes (y_core y) (y_sem y) k' st'"
      "y' = \<lparr> y_sem = st', y_core = k', y_calls = calls \<rparr>" "\<And>q. calls q \<noteq> None \<Longrightarrow> calls q = y_calls y q"
    for k' st' calls
    using wakes_changes_waiting [OF that(1,3)] assms(3) that(2) by blast
  from assms(1) show ?thesis
  proof cases
    case (semop semid ops dl r k' st')
    show ?thesis
    proof (cases "r = Sleep")
      case True
      then show ?thesis using semop_sleep_waiting semop assms(3) by simp
    next
      case False
      show ?thesis
        by (rule only [OF semop_pass_wakes [OF semop(2,3) False] semop(1)]) (simp add: False split: if_splits)
    qed
  next
    case (semctl m i semnum cmd arg r k' st' m')
    then show ?thesis by (intro only [OF do_semctl_wakes [OF semctl(2) assms(2)], of "y_calls y"]) simp_all
  next
    case (semget key nsems flag r st')
    then show ?thesis by (intro only [OF do_semget_wakes [OF semget(2) assms(2)], of "y_calls y"]) simp_all
  next
    case (exit pid k' st')
    then show ?thesis by (intro only [OF apply_undo_wakes [OF exit(2)], of "y_calls y"]) simp_all
  next
    case (other k')
    then show ?thesis by (intro only [OF elsewhere_wakes [OF other(2)], of "y_calls y"]) simp_all
  qed
qed

interpretation sem_sleep: wakeup_discipline sem_step sem_waiting sem_stuck "\<lambda>y. sem_inv (y_sem y)"
  by unfold_locales (blast intro: sem_step_inv, blast dest: sem_step_wakes)

section \<open>The undo list\<close>

definition undo_keys :: "(int \<times> nat \<times> int) list \<Rightarrow> (int \<times> nat) list" where
  "undo_keys us = map (\<lambda>(i, n, a). (i, n)) us"

definition undo_map :: "(int \<times> nat \<times> int) list \<Rightarrow> int \<times> nat \<Rightarrow> int option" where
  "undo_map us = map_of (map (\<lambda>(i, n, a). ((i, n), a)) us)"

definition undo_val :: "(int \<times> nat \<times> int) list \<Rightarrow> int \<Rightarrow> nat \<Rightarrow> int" where
  "undo_val us i n = (case undo_map us (i, n) of None \<Rightarrow> 0 | Some a \<Rightarrow> a)"

lemma undo_simps [simp]:
  "undo_keys [] = []" "undo_keys ((i, n, a) # us) = (i, n) # undo_keys us"
  "undo_map [] x = None" "undo_map ((i, n, a) # us) x = (if x = (i, n) then Some a else undo_map us x)"
  "undo_val [] i n = 0"
  by (simp_all add: undo_keys_def undo_map_def undo_val_def)

lemma undo_map_None: "x \<notin> set (undo_keys us) \<Longrightarrow> undo_map us x = None"
  by (induction us) auto

lemma add_undo_spec:
  assumes "add_undo semid num op us = Some us'" and "distinct (undo_keys us)"
  shows "set (undo_keys us') = insert (semid, num) (set (undo_keys us)) \<and> distinct (undo_keys us')
    \<and> (\<forall>i n. undo_val us' i n = undo_val us i n - (if i = semid \<and> n = num then op else 0))"
  using assms
proof (induction semid num op us arbitrary: us' rule: add_undo.induct)
  case (1 semid num op)
  then show ?case by (auto simp: undo_val_def)
next
  case (2 semid num op i n adj us)
  show ?case
  proof (cases "i = semid \<and> n = num")
    case True
    then show ?thesis using 2(2,3) by (auto simp: add_i32_Some_iff undo_val_def)
  next
    case False
    then obtain us1 where us1: "add_undo semid num op us = Some us1" "us' = (i, n, adj) # us1"
      using 2(2) by auto
    then show ?thesis using 2(1) [OF False us1(1)] 2(3) False by (auto simp: undo_val_def)
  qed
qed

definition undone :: "sembuf list \<Rightarrow> sembuf list" where
  "undone ops = filter (\<lambda>op. sb_flg op AND sem_undo_flag \<noteq> 0) ops"

lemma record_undo_spec:
  assumes "record_undo c semid num op k = Some k1" and "bget (k_table k) c = Some me"
    and "distinct (undo_keys (p_sem_undo me))"
  shows "\<exists>me1. bget (k_table k1) c = Some me1 \<and> distinct (undo_keys (p_sem_undo me1))
    \<and> set (undo_keys (p_sem_undo me1)) = insert (semid, num) (set (undo_keys (p_sem_undo me)))
    \<and> (\<forall>i n. undo_val (p_sem_undo me1) i n =
           undo_val (p_sem_undo me) i n - (if i = semid \<and> n = num then op else 0))"
proof -
  obtain us where "add_undo semid num op (p_sem_undo me) = Some us"
      "k1 = upd_proc c (\<lambda>p. p\<lparr>p_sem_undo := us\<rparr>) k"
    using assms(1,2) by (auto simp: record_undo_def)
  then show ?thesis using add_undo_spec [OF _ assms(3)] assms(2) by simp
qed

lemma record_undos_spec:
  assumes "record_undos c semid ops k = Some k'" and "bget (k_table k) c = Some me"
    and "distinct (undo_keys (p_sem_undo me))"
  shows "\<exists>me'. bget (k_table k') c = Some me' \<and> distinct (undo_keys (p_sem_undo me'))
    \<and> set (undo_keys (p_sem_undo me')) \<subseteq> set (undo_keys (p_sem_undo me)) \<union> {semid} \<times> UNIV
    \<and> (\<forall>i n. undo_val (p_sem_undo me') i n =
           undo_val (p_sem_undo me) i n - (if i = semid then sum_list (proj n (undone ops)) else 0))"
  using assms
proof (induction c semid ops k arbitrary: me rule: record_undos.induct)
  case (1 c semid k)
  have "sum_list (proj n (undone [])) = 0" for n by (simp add: undone_def)
  then show ?case using 1 by (intro exI [of _ me]) simp
next
  case (2 c semid op ops k)
  show ?case
  proof (cases "sb_flg op AND sem_undo_flag \<noteq> 0 \<and> sb_op op \<noteq> 0")
    case False
    then have "record_undos c semid ops k = Some k'" using 2(3) by (simp split: if_splits)
    note ih = 2(2) [OF False this 2(4,5)]
    have "sum_list (proj n (undone (op # ops))) = sum_list (proj n (undone ops))" for n
      using False by (auto simp: undone_def)
    then show ?thesis using ih by (simp only:)
  next
    case True
    then obtain k1 where k1: "record_undo c semid (sb_num op) (sb_op op) k = Some k1"
        "record_undos c semid ops k1 = Some k'"
      using 2(3) by (auto split: option.splits)
    obtain me1 where me1: "bget (k_table k1) c = Some me1" "distinct (undo_keys (p_sem_undo me1))"
        "set (undo_keys (p_sem_undo me1)) = insert (semid, sb_num op) (set (undo_keys (p_sem_undo me)))"
        "\<forall>i n. undo_val (p_sem_undo me1) i n =
           undo_val (p_sem_undo me) i n - (if i = semid \<and> n = sb_num op then sb_op op else 0)"
      using record_undo_spec [OF k1(1) 2(4,5)] by blast
    obtain me' where me': "bget (k_table k') c = Some me'" "distinct (undo_keys (p_sem_undo me'))"
        "set (undo_keys (p_sem_undo me')) \<subseteq> set (undo_keys (p_sem_undo me1)) \<union> {semid} \<times> UNIV"
        "\<forall>i n. undo_val (p_sem_undo me') i n =
           undo_val (p_sem_undo me1) i n - (if i = semid then sum_list (proj n (undone ops)) else 0)"
      using 2(1) [OF True k1 me1(1,2)] by blast
    have "undo_val (p_sem_undo me') i n =
        undo_val (p_sem_undo me) i n - (if i = semid then sum_list (proj n (undone (op # ops))) else 0)" for i n
      using me1(4) me'(4) True by (simp add: undone_def)
    moreover have "set (undo_keys (p_sem_undo me')) \<subseteq> set (undo_keys (p_sem_undo me)) \<union> {semid} \<times> UNIV"
      using me'(3) unfolding me1(3) by auto
    ultimately show ?thesis using me'(1,2) by blast
  qed
qed

lemma undo_loop_vals:
  assumes "distinct (undo_keys us)"
    and "\<And>i n a v. undo_map us (i, n) = Some a \<Longrightarrow> val_at sets i n = Some v \<Longrightarrow> in_i32 (v + a)"
  shows "\<exists>sets' t'. undo_loop us sets t = Some (sets', t') \<and>
    (\<forall>i n. val_at sets' i n = (case undo_map us (i, n) of None \<Rightarrow> val_at sets i n
        | Some a \<Rightarrow> map_option (\<lambda>v. clamp_val (v + a)) (val_at sets i n)))"
  using assms
proof (induction us sets t rule: undo_loop.induct)
  case (1 sets t)
  then show ?case by simp
next
  case (2 semid num adj us sets t)
  have dist: "distinct (undo_keys us)" "undo_map us (semid, num) = None" using 2(4) undo_map_None by simp_all
  have rest: "in_i32 (v + a)" if "undo_map us (i, n) = Some a" "val_at sets i n = Some v" for i n a v
    by (rule 2(5) [OF _ that(2)]) (use that(1) dist(2) in auto)
  show ?case
  proof (cases "val_at sets semid num")
    case None
    have "undo_loop ((semid, num, adj) # us) sets t = undo_loop us sets t"
      using None by (auto simp: val_at_def split: option.splits if_splits)
    moreover have "\<exists>sets' t'. undo_loop us sets t = Some (sets', t') \<and>
        (\<forall>i n. val_at sets' i n = (case undo_map us (i, n) of None \<Rightarrow> val_at sets i n
          | Some a \<Rightarrow> map_option (\<lambda>v. clamp_val (v + a)) (val_at sets i n)))"
    proof (cases "bget sets semid")
      case n: None
      from 2(1) [OF this dist(1) rest] show ?thesis .
    next
      case (Some s)
      then have "length (ss_semas s) \<le> num" using None by (simp add: val_at_def split: if_splits)
      from 2(2) [OF Some this dist(1) rest] show ?thesis .
    qed
    ultimately show ?thesis using None dist(2) by (fastforce split: option.splits)
  next
    case (Some v)
    then obtain s where s: "bget sets semid = Some s" "\<not> length (ss_semas s) \<le> num" "v = sm_val (ss_semas s ! num)"
      by (auto simp: val_at_def split: option.splits if_splits)
    have add: "add_i32 (sm_val (ss_semas s ! num)) adj = Some (v + adj)"
      using 2(5) [of semid num adj v] Some s(3) by (simp add: add_i32_Some_iff)
    let ?s = "s\<lparr>ss_semas := (ss_semas s)[num := (ss_semas s ! num)\<lparr>sm_val := clamp_val (v + adj)\<rparr>]\<rparr>"
    have vals: "val_at (binsert semid ?s sets) i n =
        (if i = semid \<and> n = num then Some (clamp_val (v + adj)) else val_at sets i n)" for i n
      using s by (auto simp: val_at_binsert val_at_def)
    have rest': "in_i32 (w + a)" if "undo_map us (i, n) = Some a" "val_at (binsert semid ?s sets) i n = Some w" for i n a w
      using rest [OF that(1), of w] that dist(2) by (auto simp: vals split: if_splits)
    obtain sets' t' where l: "undo_loop us (binsert semid ?s sets) (touch semid num t) = Some (sets', t')"
        "\<forall>i n. val_at sets' i n = (case undo_map us (i, n) of None \<Rightarrow> val_at (binsert semid ?s sets) i n
          | Some a \<Rightarrow> map_option (\<lambda>v. clamp_val (v + a)) (val_at (binsert semid ?s sets) i n))"
      using 2(3) [OF s(1,2) add dist(1)] rest' by meson
    have "val_at sets' i n = (case undo_map ((semid, num, adj) # us) (i, n) of None \<Rightarrow> val_at sets i n
        | Some a \<Rightarrow> map_option (\<lambda>v. clamp_val (v + a)) (val_at sets i n))" for i n
      using l(2) Some dist(2) by (auto simp: vals split: option.splits)
    moreover have "undo_loop ((semid, num, adj) # us) sets t = Some (sets', t')" using s add l(1) by simp
    ultimately show ?thesis by blast
  qed
qed

lemma semop_undo_list:
  assumes "semop_pass k st semid ops dl = (Return (Ok 0), k', st')"
    and "bget (k_table k) (k_current k) = Some me" and "p_sem_undo me = []"
  shows "\<exists>me'. bget (k_table k') (k_current k) = Some me' \<and> distinct (undo_keys (p_sem_undo me'))
    \<and> set (undo_keys (p_sem_undo me')) \<subseteq> {semid} \<times> UNIV
    \<and> (\<forall>n. undo_val (p_sem_undo me') semid n = - sum_list (proj n (undone ops)))"
  using assms(1)
proof (cases rule: semop_pass_cases)
  case (ok s vs k1)
  obtain m1 where m1: "bget (k_table k1) (k_current k) = Some m1" "distinct (undo_keys (p_sem_undo m1))"
      "set (undo_keys (p_sem_undo m1)) \<subseteq> {semid} \<times> UNIV"
      "\<forall>n. undo_val (p_sem_undo m1) semid n = - sum_list (proj n (undone ops))"
    using record_undos_spec [OF ok(5) assms(2)] assms(3) by auto
  obtain m2 where "bget (k_table k') (k_current k) = Some m2" "p_sem_undo m2 = p_sem_undo m1"
    using m1(1) unfolding ok(6) wake_blocked_semop_def by (auto simp: wake_where_get)
  then show ?thesis using m1 by auto
qed (use assms in auto)

lemma semop_vals:
  assumes "semop_pass k st semid ops dl = (Return (Ok 0), k', st')"
  shows "val_at (sem_sets st') i n =
    (if i = semid then map_option (\<lambda>v. v + sum_list (proj n ops)) (val_at (sem_sets st) semid n)
     else val_at (sem_sets st) i n)"
  using assms
proof (cases rule: semop_pass_cases)
  case (ok s vs k1)
  let ?c = "commit_semas (k_current k) vs ops (ss_semas s)"
  have len: "length ?c = length (ss_semas s)" using commit_semas_spec [OF ok(3)] by blast
  have "sm_val (?c ! n) = sm_val (ss_semas s ! n) + sum_list (proj n ops)" if "n < length (ss_semas s)"
  proof -
    have "map sm_val ?c ! n = vs ! n" using commit_vals [OF ok(4,3)] by simp
    moreover have "run1 (sm_val (ss_semas s ! n)) (proj n ops) = Some (vs ! n)"
      using scan_ok_proj [OF ok(4)] ok(3) that by simp
    ultimately show ?thesis using run1_sum that len by simp
  qed
  then show ?thesis using ok(2) len unfolding ok(7) by (simp add: val_at_binsert) (simp add: val_at_def)
qed auto

section \<open>What an array of operations asks\<close>

text \<open>
  Operation \<open>j\<close> of an array, on the value its semaphore has after the operations before it: an increment
  needs the sum to fit 32 bits, a decrement needs it not to go below zero, a wait needs it to be zero.
\<close>

definition val_before :: "int list \<Rightarrow> sembuf list \<Rightarrow> nat \<Rightarrow> int" where
  "val_before vals ops j = vals ! sb_num (ops ! j) + sum_list (proj (sb_num (ops ! j)) (take j ops))"

definition op_granted :: "int list \<Rightarrow> sembuf list \<Rightarrow> nat \<Rightarrow> bool" where
  "op_granted vals ops j \<longleftrightarrow>
     (let v = val_before vals ops j; x = sb_op (ops ! j) in
      if 0 < x then v + x \<le> i32_max else if x < 0 then 0 \<le> v + x else v = 0)"

text \<open>The first operation that cannot be granted.\<close>

definition first_refused :: "int list \<Rightarrow> sembuf list \<Rightarrow> nat option" where
  "first_refused vals ops = find (\<lambda>j. \<not> op_granted vals ops j) [0..<length ops]"

definition ops_i16 :: "sembuf list \<Rightarrow> bool" where
  "ops_i16 ops \<longleftrightarrow> list_all (\<lambda>op. - 32768 \<le> sb_op op \<and> sb_op op \<le> 32767) ops"

lemma find_map: "find P (map f xs) = map_option f (find (P \<circ> f) xs)"
  by (induction xs) auto

lemma op_granted_Cons:
  assumes "sb_num op < length vals"
  shows "op_granted vals (op # ops) (Suc j) = op_granted (vals[sb_num op := vals ! sb_num op + sb_op op]) ops j"
  using assms by (auto simp: op_granted_def val_before_def Let_def nth_list_update)

lemma op_granted_0: "op_granted vals (op # ops) 0 \<longleftrightarrow>
    (let v = vals ! sb_num op in if 0 < sb_op op then v + sb_op op \<le> i32_max else if sb_op op < 0 then 0 \<le> v + sb_op op else v = 0)"
  by (simp add: op_granted_def val_before_def Let_def)

lemma first_refused_Cons:
  assumes "sb_num op < length vals"
  shows "first_refused vals (op # ops) =
    (if op_granted vals (op # ops) 0
     then map_option Suc (first_refused (vals[sb_num op := vals ! sb_num op + sb_op op]) ops) else Some 0)"
proof -
  have u: "[0..<length (op # ops)] = 0 # map Suc [0..<length ops]" by (simp add: upt_conv_Cons map_Suc_upt del: upt_Suc)
  show ?thesis unfolding first_refused_def u using op_granted_Cons [OF assms] by (simp add: find_map comp_def)
qed

lemma scan_first_refused:
  assumes "list_all (\<lambda>v. 0 \<le> v \<and> v \<le> i32_max) vals" and "nums_ok (length vals) ops" and "ops_i16 ops"
  shows "case first_refused vals ops of
      None \<Rightarrow> \<exists>vs. semop_scan vals ops = ScanOk vs
    | Some j \<Rightarrow> semop_scan vals ops = (if 0 < sb_op (ops ! j) then ScanPanic else ScanBlocks (ops ! j))"
  using assms
proof (induction ops arbitrary: vals)
  case Nil
  then show ?case by (simp add: first_refused_def)
next
  case (Cons op ops)
  let ?n = "sb_num op" and ?v = "vals ! sb_num op + sb_op op"
  have n: "?n < length vals" "nums_ok (length vals) ops" and x: "- 32768 \<le> sb_op op" "sb_op op \<le> 32767" "ops_i16 ops"
    using Cons.prems(2,3) by (auto simp: ops_i16_def)
  have v0: "0 \<le> vals ! ?n" "vals ! ?n \<le> i32_max" using Cons.prems(1) n(1) by (auto simp: list_all_length)
  show ?case
  proof (cases "op_granted vals (op # ops) 0")
    case True
    then have r: "0 \<le> ?v" "?v \<le> i32_max" using v0 by (auto simp: op_granted_0 Let_def split: if_splits)
    then have "list_all (\<lambda>v. 0 \<le> v \<and> v \<le> i32_max) (vals[?n := ?v])"
      using Cons.prems(1) n(1) by (auto simp: list_all_length nth_list_update)
    from Cons.IH [OF this _ x(3)] n(2) have IH: "case first_refused (vals[?n := ?v]) ops of
        None \<Rightarrow> \<exists>vs. semop_scan (vals[?n := ?v]) ops = ScanOk vs
      | Some j \<Rightarrow> semop_scan (vals[?n := ?v]) ops = (if 0 < sb_op (ops ! j) then ScanPanic else ScanBlocks (ops ! j))" by simp
    have "add_i32 (vals ! ?n) (sb_op op) = Some ?v" using r by (simp add: add_i32_Some_iff in_i32_def i32_min_def)
    moreover have "vals[?n := 0] = vals" if "vals ! ?n = 0" using list_update_id [of vals ?n] that by simp
    ultimately have "semop_scan vals (op # ops) = semop_scan (vals[?n := ?v]) ops"
      using True r by (auto simp: op_granted_0 Let_def split: if_splits)
    then show ?thesis using IH True by (auto simp: first_refused_Cons [OF n(1)] split: option.splits)
  next
    case False
    then have "semop_scan vals (op # ops) = (if 0 < sb_op op then ScanPanic else ScanBlocks op)"
      using v0 x by (auto simp: op_granted_0 Let_def add_i32_def in_i32_def i32_min_def i32_max_def split: if_splits)
    then show ?thesis using False by (simp add: first_refused_Cons [OF n(1)])
  qed
qed

section \<open>Properties\<close>

text \<open>
  C5. \<open>semop\<close> is atomic: either the whole array took effect, each semaphore it names having
  changed by the sum of the operations on it without going negative, with no other value and no other set
  touched; or no semaphore changed at all, whether it failed or went to sleep.
\<close>

theorem semop_all_or_nothing:
  assumes "sem_inv st" and "semop_pass k st semid ops dl = (r, k', st')" and "r \<noteq> Return Panic"
  shows "if r = Return (Ok 0)
    then \<forall>i n. val_at (sem_sets st') i n =
        (if i = semid then map_option (\<lambda>v. v + sum_list (proj n ops)) (val_at (sem_sets st) semid n)
         else val_at (sem_sets st) i n)
      \<and> (\<forall>v. val_at (sem_sets st') i n = Some v \<longrightarrow> 0 \<le> v \<and> v \<le> i32_max)
    else st' = st"
proof (cases "r = Return (Ok 0)")
  case True
  have "0 \<le> v \<and> v \<le> i32_max" if "val_at (sem_sets st') i n = Some v" for i n v
    using that sem_invD(2) [OF semop_pass_inv [OF assms(2,1,3)], of i]
    by (auto simp: val_at_def set_ok_def split: option.splits if_splits)
  then show ?thesis using semop_vals assms(2) True by simp
next
  case False
  from assms(2) have "st' = st" by (cases rule: semop_pass_cases) (use assms(3) False in simp_all)
  then show ?thesis using False by simp
qed

definition ex_sem :: "int \<Rightarrow> semaphore" where
  "ex_sem v = \<lparr> sm_val = v, sm_pid = 0 \<rparr>"

definition ex_sems :: sem_state where
  "ex_sems = \<lparr> sem_next = 2,
     sem_sets = [(1, \<lparr> ss_key = 5, ss_uid = 0, ss_gid = 0, ss_cuid = 0, ss_cgid = 0, ss_mode = 0x180,
       ss_otime = 0, ss_ctime = 0, ss_semas = [ex_sem 3, ex_sem 0] \<rparr>)],
     sem_keys = [(5, 1)] \<rparr>"

definition ex_ops :: "sembuf list" where
  "ex_ops = [\<lparr> sb_num = 0, sb_op = -2, sb_flg = 0x200 \<rparr>, \<lparr> sb_num = 1, sb_op = 4, sb_flg = 0x200 \<rparr>]"

definition ex_wait :: "sembuf list" where
  "ex_wait = [\<lparr> sb_num = 1, sb_op = -1, sb_flg = 0 \<rparr>]"

lemma ex_sems_inv: "sem_inv ex_sems"
  by (auto simp: sem_inv_def ns_inv_def ex_sems_def ex_sem_def set_ok_def bwf_def ipc_private_def
      max_sems_per_set_def i32_max_def split: if_splits)

lemma ex_sems_access: "sem_access s 0 g w"
  by (simp add: sem_access_def)

lemmas ex_sem_eval = semop_pass_def ex_sems_access ex_k_sel ex_sems_def ex_ops_def ex_wait_def ex_sem_def
  add_i32_def in_i32_def i32_min_def i32_max_def record_undo_def sem_undo_flag_def sem_nowait_flag_def u64_max_def

lemma ex_semop_ok: "fst (semop_pass ex_k ex_sems 1 ex_ops u64_max) = Return (Ok 0)"
  by (simp add: ex_sem_eval)

theorem semop_all_or_nothing_witness:
  "sem_inv ex_sems \<and> (\<exists>k' st'. semop_pass ex_k ex_sems 1 ex_ops u64_max = (Return (Ok 0), k', st')
     \<and> val_at (sem_sets st') 1 0 = Some 1 \<and> val_at (sem_sets st') 1 1 = Some 4)"
proof -
  obtain k' st' where p: "semop_pass ex_k ex_sems 1 ex_ops u64_max = (Return (Ok 0), k', st')"
    using ex_semop_ok by (cases "semop_pass ex_k ex_sems 1 ex_ops u64_max") auto
  have "val_at (sem_sets st') 1 0 = Some 1" "val_at (sem_sets st') 1 1 = Some 4"
    using semop_all_or_nothing [OF ex_sems_inv p]
    by (simp_all add: ex_sems_def ex_sem_def ex_ops_def val_at_def)
  then show ?thesis using ex_sems_inv p by blast
qed

text \<open>
  C2. No lost wake-ups: however \<open>semget\<close>, \<open>semop\<close>, \<open>semctl\<close>, the undo of
  exiting processes and the rest of the kernel interleave, a process that is blocked in \<open>semop\<close>
  would not be granted its operations if it ran again.
\<close>

theorem semop_no_lost_wakeup:
  assumes "sem_step\<^sup>*\<^sup>* y y'" and "sem_inv (y_sem y)" and "\<forall>pid. y_calls y pid = None"
    and "y_calls y' pid = Some (semid, ops, dl)" and "blocked_as (y_core y') pid (sem_reason semid n z dl)"
  shows "fst (semop_pass k (y_sem y') semid ops dl) \<noteq> Return (Ok x)"
proof -
  have "sem_stuck y' (semid, ops, n, z, dl)"
    by (rule sem_sleep.no_lost_wakeup [OF assms(1,2)]) (use assms(3-5) in \<open>auto simp: sem_waiting_def\<close>)
  then show ?thesis unfolding sem_stuck_def using stuck_not_granted by auto
qed

theorem semop_no_lost_wakeup_witness:
  "\<exists>y'. sem_step\<^sup>*\<^sup>* \<lparr> y_sem = ex_sems, y_core = ex_k, y_calls = \<lambda>_. None \<rparr> y' \<and>
     blocked_as (y_core y') 2 (sem_reason 1 1 False u64_max) \<and>
     fst (semop_pass ex_k (y_sem y') 1 ex_wait u64_max) \<noteq> Return (Ok 0)"
proof -
  let ?y = "\<lparr> y_sem = ex_sems, y_core = ex_k, y_calls = \<lambda>_. None \<rparr>"
  let ?k = "block_current (sem_reason 1 1 False u64_max) ex_k"
  let ?y' = "\<lparr> y_sem = ex_sems, y_core = ?k, y_calls = (\<lambda>_. None)(2 := Some (1, ex_wait, u64_max)) \<rparr>"
  have "semop_pass ex_k ex_sems 1 ex_wait u64_max = (Sleep, ?k, ex_sems)"
    by (simp add: ex_sem_eval)
  then have step: "sem_step\<^sup>*\<^sup>* ?y ?y'"
    using sem_step.semop [of ?y 1 ex_wait u64_max Sleep ?k ex_sems] by (simp add: ex_k_sel r_into_rtranclp)
  have blocked: "blocked_as ?k 2 (sem_reason 1 1 False u64_max)"
    unfolding blocked_as_block_current by (simp add: ex_k_sel)
  have "fst (semop_pass ex_k (y_sem ?y') 1 ex_wait u64_max) \<noteq> Return (Ok 0)"
    by (rule semop_no_lost_wakeup [OF step, of 2 1 ex_wait u64_max 1 False])
      (use ex_sems_inv blocked in \<open>simp_all\<close>)
  with step blocked show ?thesis by (intro exI [of _ ?y']) simp
qed

text \<open>
  C16. \<open>SEM_UNDO\<close>: when a process with no earlier adjustments performs an array of operations
  that all ask for it and then exits, the exit succeeds and every semaphore of every set has the value it
  had before, provided the values were in the range \<open>SEMVMX\<close> allows.
\<close>

theorem sem_undo_restores:
  assumes "semop_pass k st semid ops dl = (Return (Ok 0), k', st')"
    and "bget (k_table k) (k_current k) = Some me" and "p_sem_undo me = []"
    and "\<forall>op \<in> set ops. sb_flg op AND sem_undo_flag \<noteq> 0"
    and "\<forall>n v. val_at (sem_sets st) semid n = Some v \<longrightarrow> 0 \<le> v \<and> v \<le> semvmx"
  shows "\<exists>k'' st''. apply_undo_for_exit (k_current k) k' st' = Some (k'', st'')
    \<and> (\<forall>i n. val_at (sem_sets st'') i n = val_at (sem_sets st) i n)"
proof -
  obtain me' where me': "bget (k_table k') (k_current k) = Some me'" "distinct (undo_keys (p_sem_undo me'))"
      "set (undo_keys (p_sem_undo me')) \<subseteq> {semid} \<times> UNIV"
      "\<forall>n. undo_val (p_sem_undo me') semid n = - sum_list (proj n (undone ops))"
    using semop_undo_list [OF assms(1-3)] by blast
  let ?us = "p_sem_undo me'"
  have "undone ops = ops" using assms(4) by (simp add: undone_def filter_id_conv)
  then have adj: "undo_val ?us semid n = - sum_list (proj n ops)" for n using me'(4) by simp
  have entry: "i = semid \<and> a = - sum_list (proj n ops)" if "undo_map ?us (i, n) = Some a" for i n a
  proof -
    have "(i, n) \<in> set (undo_keys ?us)" using that undo_map_None [of "(i, n)" ?us] by force
    then have "i = semid" using me'(3) by auto
    then show ?thesis using adj [of n] that by (simp add: undo_val_def)
  qed
  have range: "in_i32 (v + a)" if "undo_map ?us (i, n) = Some a" "val_at (sem_sets st') i n = Some v" for i n a v
  proof -
    have "\<exists>w. val_at (sem_sets st) semid n = Some w \<and> v + a = w"
      using that(2) entry [OF that(1)] by (auto simp: semop_vals [OF assms(1)])
    then have "0 \<le> v + a \<and> v + a \<le> semvmx" using assms(5) by blast
    then show ?thesis by (simp add: in_i32_def i32_min_def i32_max_def semvmx_def)
  qed
  obtain sets t where l: "undo_loop ?us (sem_sets st') [] = Some (sets, t)"
      "\<forall>i n. val_at sets i n = (case undo_map ?us (i, n) of None \<Rightarrow> val_at (sem_sets st') i n
        | Some a \<Rightarrow> map_option (\<lambda>v. clamp_val (v + a)) (val_at (sem_sets st') i n))"
    using undo_loop_vals [OF me'(2)] range by meson
  have vals: "val_at sets i n = val_at (sem_sets st) i n" for i n
  proof (cases "undo_map ?us (i, n)")
    case None
    then have "i = semid \<Longrightarrow> sum_list (proj n ops) = 0" using adj [of n] by (simp add: undo_val_def)
    then show ?thesis
      using l(2) None by (cases "val_at (sem_sets st) i n") (auto simp: semop_vals [OF assms(1)])
  next
    case (Some a)
    then show ?thesis
      using l(2) entry [OF Some] assms(5)
      by (cases "val_at (sem_sets st) semid n") (auto simp: semop_vals [OF assms(1)] clamp_val_def)
  qed
  show ?thesis
  proof (cases "?us = []")
    case True
    then have "val_at (sem_sets st') i n = val_at (sem_sets st) i n" for i n
      using vals l by simp
    then show ?thesis using me'(1) True by (auto simp: apply_undo_for_exit_def)
  next
    case False
    then show ?thesis using me'(1) l(1) vals by (auto simp: apply_undo_for_exit_def Let_def)
  qed
qed

theorem sem_undo_restores_witness:
  "\<exists>k' st' k'' st''. semop_pass ex_k ex_sems 1 ex_ops u64_max = (Return (Ok 0), k', st')
     \<and> apply_undo_for_exit 2 k' st' = Some (k'', st'') \<and> val_at (sem_sets st'') 1 0 = Some 3"
proof -
  obtain k' st' where p: "semop_pass ex_k ex_sems 1 ex_ops u64_max = (Return (Ok 0), k', st')"
    using ex_semop_ok by (cases "semop_pass ex_k ex_sems 1 ex_ops u64_max") auto
  have "val_at (sem_sets ex_sems) 1 n = Some v \<Longrightarrow> 0 \<le> v \<and> v \<le> semvmx" for n v
    by (auto simp: val_at_def ex_sems_def ex_sem_def semvmx_def less_Suc_eq split: if_splits)
  then obtain k'' st'' where "apply_undo_for_exit 2 k' st' = Some (k'', st'')"
      "\<forall>i n. val_at (sem_sets st'') i n = val_at (sem_sets ex_sems) i n"
    using sem_undo_restores [OF p] by (auto simp: ex_k_sel ex_ops_def sem_undo_flag_def)
  then show ?thesis using p by (simp add: val_at_def ex_sems_def ex_sem_def)
qed

text \<open>
  A key names its set: after a successful \<open>semget\<close> with a key, looking the key up again
  from the same process with no flags returns the same id, if the caller may read the set; the lookup leaves
  the state alone.
\<close>

theorem semget_lookup_same:
  assumes "sem_inv st" and "do_semget k st key nsems flag = (Ok i, st')" and "as_i32 key \<noteq> ipc_private"
    and "\<forall>semid s. bget (sem_keys st') (as_i32 key) = Some semid \<longrightarrow> bget (sem_sets st') semid = Some s \<longrightarrow>
           sem_access s (current_uid k) (current_gid k) False"
  shows "do_semget k st' key 0 0 = (Ok i, st')"
proof -
  obtain semid where semid: "bget (sem_keys st') (as_i32 key) = Some semid" "i = i32_as_u64 semid"
    using assms(2,3) unfolding do_semget_def semget_create_def Let_def
    by (auto split: option.splits if_splits)
  obtain s where "bget (sem_sets st') semid = Some s"
    using sem_ns.key_resolves [OF sem_invD(1) [OF do_semget_inv [OF assms(2,1)]] semid(1)] by blast
  then show ?thesis using semid assms(3,4) by (simp add: do_semget_def)
qed

theorem semget_lookup_same_witness:
  "\<exists>st'. do_semget ex_k ex_sems 9 3 0x380 = (Ok 2, st') \<and> do_semget ex_k st' 9 0 0 = (Ok 2, st')"
proof -
  let ?r = "do_semget ex_k ex_sems 9 3 0x380"
  have nine: "as_i32 9 = 9" by (simp add: as_i32_def)
  have two: "i32_as_u64 2 = 2" by (simp add: i32_as_u64_def)
  have "?r = (Ok 2, snd ?r)"
    by (simp add: do_semget_def semget_create_def nine two ex_sems_def ipc_private_def ipc_creat_def ipc_excl_def
        as_i64_def max_sems_per_set_def max_sysv_sem_sets_def add_i32_def in_i32_def i32_min_def i32_max_def)
  from semget_lookup_same [OF ex_sems_inv this] this show ?thesis
    by (auto simp: nine ipc_private_def ex_k_sel ex_sems_access)
qed

text \<open>
  C36. What \<open>semop\<close> decides, every outcome, for an array of 16-bit operations whose undo entries stay
  within 32 bits: a set that is gone gives \<open>EIDRM\<close>,
  one the caller may not use \<open>EACCES\<close>, a semaphore number past the set \<open>EFBIG\<close>. Otherwise the first operation that cannot be
  granted on the values the earlier ones leave decides: an increment past 32 bits panics, anything else gives
  \<open>EAGAIN\<close>, \<open>ETIMEDOUT\<close> or sleep. With no such operation the array is granted and every value changes by the sum of its
  operations. \<open>SEMVMX\<close> plays no part: increments are granted far past it.
\<close>

theorem semop_decides:
  assumes "sem_inv st" and "ops_i16 ops" and "bget (k_table k) (k_current k) \<noteq> None"
    and "record_undos (k_current k) semid ops k \<noteq> None"
  shows "case bget (sem_sets st) semid of
      None \<Rightarrow> semop_pass k st semid ops dl = (Return (Err EIDRM), k, st)
    | Some s \<Rightarrow>
        if \<not> sem_access s (current_uid k) (current_gid k) (list_ex (\<lambda>op. sb_op op \<noteq> 0) ops)
        then semop_pass k st semid ops dl = (Return (Err EACCES), k, st)
        else if list_ex (\<lambda>op. length (ss_semas s) \<le> sb_num op) ops
        then semop_pass k st semid ops dl = (Return (Err EFBIG), k, st)
        else case first_refused (map sm_val (ss_semas s)) ops of
          None \<Rightarrow> \<exists>k' st'. semop_pass k st semid ops dl = (Return (Ok 0), k', st')
            \<and> (\<forall>n. val_at (sem_sets st') semid n =
                 (if n < length (ss_semas s) then Some (sm_val (ss_semas s ! n) + sum_list (proj n ops)) else None))
        | Some j \<Rightarrow>
            if 0 < sb_op (ops ! j) then semop_pass k st semid ops dl = (Return Panic, k, st)
            else if sb_flg (ops ! j) AND sem_nowait_flag \<noteq> 0 then semop_pass k st semid ops dl = (Return (Err EAGAIN), k, st)
            else if dl \<le> k_ticks k then semop_pass k st semid ops dl = (Return (Err ETIMEDOUT), k, st)
            else \<exists>k'. semop_pass k st semid ops dl = (Sleep, k', st)
              \<and> blocked_as k' (k_current k)
                  (WaitingForSemOp (unat (i32_as_u64 semid)) (sb_num (ops ! j)) (sb_op (ops ! j) = 0) dl)"
proof (cases "bget (sem_sets st) semid")
  case None
  then show ?thesis by (simp add: semop_pass_def)
next
  case (Some s)
  let ?vals = "map sm_val (ss_semas s)"
  have vals: "list_all (\<lambda>v. 0 \<le> v \<and> v \<le> i32_max) ?vals"
    using sem_invD(2) [OF assms(1) Some] by (auto simp: set_ok_def list_all_iff)
  show ?thesis
  proof (cases "sem_access s (current_uid k) (current_gid k) (list_ex (\<lambda>op. sb_op op \<noteq> 0) ops)
      \<and> \<not> list_ex (\<lambda>op. length (ss_semas s) \<le> sb_num op) ops")
    case False
    then show ?thesis using Some by (auto simp: semop_pass_def)
  next
    case True
    then have "nums_ok (length ?vals) ops" by (auto simp: nums_ok_def list_ex_iff not_le)
    note sc = scan_first_refused [OF vals this assms(2)]
    show ?thesis
    proof (cases "first_refused ?vals ops")
      case None
      then obtain vs where "semop_scan ?vals ops = ScanOk vs" using sc by auto
      then obtain k' st' where r: "semop_pass k st semid ops dl = (Return (Ok 0), k', st')"
        using Some True assms(4) by (auto simp: semop_pass_def Let_def)
      then show ?thesis using semop_vals [OF r, of semid] Some True None by (auto simp: val_at_def)
    next
      case refused: (Some j)
      then have "semop_scan ?vals ops = (if 0 < sb_op (ops ! j) then ScanPanic else ScanBlocks (ops ! j))" using sc by simp
      then show ?thesis using Some True refused assms(3) by (auto simp: semop_pass_def Let_def blocked_as_block_current)
    qed
  qed
qed

text \<open>A set at \<open>SEMVMX\<close>, and an array that goes on from there.\<close>

definition full_sems :: sem_state where
  "full_sems = \<lparr> sem_next = 2,
     sem_sets = [(1, \<lparr> ss_key = 5, ss_uid = 0, ss_gid = 0, ss_cuid = 0, ss_cgid = 0, ss_mode = 0x180,
       ss_otime = 0, ss_ctime = 0, ss_semas = [ex_sem semvmx, ex_sem 2] \<rparr>)],
     sem_keys = [(5, 1)] \<rparr>"

definition past_ops :: "sembuf list" where
  "past_ops = [\<lparr> sb_num = 0, sb_op = 7, sb_flg = 0 \<rparr>, \<lparr> sb_num = 1, sb_op = -2, sb_flg = 0 \<rparr>, \<lparr> sb_num = 0, sb_op = 1, sb_flg = 0 \<rparr>]"

lemma full_sems_inv: "sem_inv full_sems"
  by (auto simp: sem_inv_def ns_inv_def full_sems_def ex_sem_def set_ok_def bwf_def ipc_private_def semvmx_def
      max_sems_per_set_def i32_max_def split: if_splits)

theorem semop_decides_witness:
  "\<exists>k' st'. semop_pass ex_k full_sems 1 past_ops u64_max = (Return (Ok 0), k', st')
    \<and> val_at (sem_sets st') 1 0 = Some (semvmx + 8) \<and> val_at (sem_sets st') 1 1 = Some 0"
proof -
  have ops: "ops_i16 past_ops" "record_undos (k_current ex_k) 1 past_ops ex_k \<noteq> None"
    by (simp_all add: ops_i16_def past_ops_def)
  have none: "first_refused (map sm_val [ex_sem semvmx, ex_sem 2]) past_ops = None" by code_simp
  show ?thesis
    using semop_decides [OF full_sems_inv ops(1) _ ops(2), of u64_max] none
    by (auto simp: full_sems_def ex_k_sel ex_sems_access past_ops_def ex_sem_def)
qed

end
