(* ===== verification/Sysv_Msg.thy ===== *)
theory Sysv_Msg
  imports Sysv_Ipc
begin

text \<open>
  System V message queues (\<open>sys/fs/sysv_msg.rs\<close>): \<open>msgget\<close>, \<open>msgsnd\<close>, \<open>msgrcv\<close>
  with its type selection, and \<open>msgctl\<close>.

  \<open>msgsnd_pass\<close> and \<open>msgrcv_pass\<close> are one turn of the loops of \<open>do_msgsnd\<close> and
  \<open>do_msgrcv\<close>. The properties are the selection rule of \<open>msgrcv\<close>, delivery of what was
  sent, and the wake-up discipline: receivers are never left asleep on a queue that has a message for them;
  senders are not either, except that raising a queue's limit with \<open>IPC_SET\<close> wakes nobody.
\<close>

section \<open>State\<close>

definition msg_noerror :: u64 where "msg_noerror = 0x1000"
definition msg_except :: u64 where "msg_except = 0x2000"
definition sysv_msg_default_qbytes :: nat where "sysv_msg_default_qbytes = 16384"
definition sysv_msgmax :: nat where "sysv_msgmax = 8192"
definition max_sysv_msg_queues :: nat where "max_sysv_msg_queues = 32"

record sysv_message =
  mm_type :: int
  mm_data :: "u8 list"

record msg_queue =
  q_key :: int
  q_uid :: nat
  q_gid :: nat
  q_cuid :: nat
  q_cgid :: nat
  q_mode :: u32
  q_qbytes :: nat
  q_stime :: int
  q_rtime :: int
  q_ctime :: int
  q_lspid :: pid
  q_lrpid :: pid
  q_messages :: "sysv_message list"

record msg_state =
  msg_next :: int
  msg_queues :: "(int, msg_queue) bmap"
  msg_keys :: "(int, int) bmap"

definition cbytes :: "msg_queue \<Rightarrow> nat" where
  "cbytes q = sum_list (map (\<lambda>m. length (mm_data m)) (q_messages q))"

record raw_msqid_ds =
  rm_perm :: raw_ipc_perm
  rm_stime :: int
  rm_rtime :: int
  rm_ctime :: int
  rm_cbytes :: nat
  rm_qnum :: nat
  rm_qbytes :: nat
  rm_lspid :: int
  rm_lrpid :: int

definition msqid_ds :: "msg_queue \<Rightarrow> raw_msqid_ds" where
  "msqid_ds q =
     \<lparr> rm_perm = \<lparr> rp_key = q_key q, rp_uid = q_uid q, rp_gid = q_gid q, rp_cuid = q_cuid q,
                   rp_cgid = q_cgid q, rp_mode = q_mode q \<rparr>,
       rm_stime = q_stime q, rm_rtime = q_rtime q, rm_ctime = q_ctime q, rm_cbytes = cbytes q,
       rm_qnum = length (q_messages q), rm_qbytes = q_qbytes q,
       rm_lspid = as_i32 (word_of_nat (q_lspid q)), rm_lrpid = as_i32 (word_of_nat (q_lrpid q)) \<rparr>"

definition enc_msqid_ds :: "raw_msqid_ds \<Rightarrow> u8 list" where
  "enc_msqid_ds r = enc_ipc_perm (rm_perm r) @ le_sbytes 8 (rm_stime r) @ le_sbytes 8 (rm_rtime r)
     @ le_sbytes 8 (rm_ctime r) @ le_bytes 8 (rm_cbytes r) @ le_bytes 8 (rm_qnum r) @ le_bytes 8 (rm_qbytes r)
     @ le_sbytes 4 (rm_lspid r) @ le_sbytes 4 (rm_lrpid r) @ le_bytes 8 0 @ le_bytes 8 0"

definition dec_msqid_ds :: "u8 list \<Rightarrow> raw_msqid_ds" where
  "dec_msqid_ds bs =
     \<lparr> rm_perm = dec_ipc_perm bs, rm_stime = le_sval (field 48 8 bs), rm_rtime = le_sval (field 56 8 bs),
       rm_ctime = le_sval (field 64 8 bs), rm_cbytes = le_val (field 72 8 bs), rm_qnum = le_val (field 80 8 bs),
       rm_qbytes = le_val (field 88 8 bs), rm_lspid = le_sval (field 96 4 bs), rm_lrpid = le_sval (field 100 4 bs) \<rparr>"

definition msg_rwait :: u32 where "msg_rwait = 0x400"
definition msg_wait :: u32 where "msg_wait = 0x800"

definition msg_waiters :: "kcore \<Rightarrow> int list \<times> int list" where
  "msg_waiters k =
     (concat (map (\<lambda>(_, p). case p_state p of
          Blocked (WaitingForSysvMsgRecv i) \<Rightarrow> [as_i32 (word_of_nat i)] | _ \<Rightarrow> []) (k_table k)),
      concat (map (\<lambda>(_, p). case p_state p of
          Blocked (WaitingForSysvMsgSend i) \<Rightarrow> [as_i32 (word_of_nat i)] | _ \<Rightarrow> []) (k_table k)))"

definition msg_sysctl_table :: "kcore \<Rightarrow> msg_state \<Rightarrow> u8 list" where
  "msg_sysctl_table k st =
     (let (receiving, sending) = msg_waiters k in
      concat (map (\<lambda>(i, q).
          let ds = msqid_ds q;
              mode = rp_mode (rm_perm ds);
              mode = (if i \<in> set receiving then mode OR msg_rwait else mode);
              mode = (if i \<in> set sending then mode OR msg_wait else mode)
          in push_record i (enc_msqid_ds (ds\<lparr>rm_perm := (rm_perm ds)\<lparr>rp_mode := mode\<rparr>\<rparr>)))
        (filter (\<lambda>(_, q). may_see (k_see_other_uids k) (current_cred k) [q_uid q, q_cuid q]) (msg_queues st))))"

definition msg_access :: "msg_queue \<Rightarrow> nat \<Rightarrow> nat \<Rightarrow> bool \<Rightarrow> bool" where
  "msg_access q uid gid want_write = check_access (q_uid q) (q_gid q) (q_mode q) uid gid want_write"

definition msg_owner :: "msg_queue \<Rightarrow> nat \<Rightarrow> bool" where
  "msg_owner q uid = is_owner_or_creator (q_uid q) (q_cuid q) uid"

section \<open>Waking\<close>

definition waits_msg_send :: "nat \<Rightarrow> proc_state \<Rightarrow> bool" where
  "waits_msg_send msqid st \<longleftrightarrow> (case st of Blocked (WaitingForSysvMsgSend i) \<Rightarrow> i = msqid | _ \<Rightarrow> False)"

definition waits_msg_recv :: "nat \<Rightarrow> proc_state \<Rightarrow> bool" where
  "waits_msg_recv msqid st \<longleftrightarrow> (case st of Blocked (WaitingForSysvMsgRecv i) \<Rightarrow> i = msqid | _ \<Rightarrow> False)"

definition wake_msg_senders :: "int \<Rightarrow> kcore \<Rightarrow> kcore" where
  "wake_msg_senders msqid = wake_where (waits_msg_send (unat (i32_as_u64 msqid)))"

definition wake_msg_receivers :: "int \<Rightarrow> kcore \<Rightarrow> kcore" where
  "wake_msg_receivers msqid = wake_where (waits_msg_recv (unat (i32_as_u64 msqid)))"

section \<open>msgget\<close>

definition new_msg_queue :: "kcore \<Rightarrow> int \<Rightarrow> u64 \<Rightarrow> msg_queue" where
  "new_msg_queue k key flag =
     \<lparr> q_key = key, q_uid = current_uid k, q_gid = current_gid k, q_cuid = current_uid k,
       q_cgid = current_gid k, q_mode = ucast (flag AND 0x1FF), q_qbytes = sysv_msg_default_qbytes,
       q_stime = 0, q_rtime = 0, q_ctime = int (k_epoch k), q_lspid = 0, q_lrpid = 0, q_messages = [] \<rparr>"

definition msgget_create :: "kcore \<Rightarrow> msg_state \<Rightarrow> int \<Rightarrow> u64 \<Rightarrow> u64 kres \<times> msg_state" where
  "msgget_create k st key flag =
     (if max_sysv_msg_queues \<le> length (msg_queues st) then (Err EAGAIN, st)
      else case add_i32 (msg_next st) 1 of
        None \<Rightarrow> (Panic, st)
      | Some next' \<Rightarrow>
          (Ok (i32_as_u64 (msg_next st)),
           st\<lparr>msg_next := next', msg_queues := binsert (msg_next st) (new_msg_queue k key flag) (msg_queues st),
              msg_keys := (if key \<noteq> ipc_private then binsert key (msg_next st) (msg_keys st) else msg_keys st)\<rparr>))"

definition do_msgget :: "kcore \<Rightarrow> msg_state \<Rightarrow> u64 \<Rightarrow> u64 \<Rightarrow> u64 kres \<times> msg_state" where
  "do_msgget k st key0 flag =
     (let key = as_i32 key0; creat = flag AND ipc_creat \<noteq> 0; excl = flag AND ipc_excl \<noteq> 0
      in if key = ipc_private then msgget_create k st key flag
         else case bget (msg_keys st) key of
           Some msqid \<Rightarrow>
             if creat \<and> excl then (Err EEXIST, st)
             else (case bget (msg_queues st) msqid of
                 None \<Rightarrow> (Panic, st)
               | Some q \<Rightarrow>
                   if \<not> msg_access q (current_uid k) (current_gid k) False then (Err EACCES, st)
                   else (Ok (i32_as_u64 msqid), st))
         | None \<Rightarrow> if \<not> creat then (Err ENOENT, st) else msgget_create k st key flag)"

section \<open>msgsnd and msgrcv\<close>

definition msgsnd_pass ::
  "kcore \<Rightarrow> msg_state \<Rightarrow> int \<Rightarrow> int \<Rightarrow> u8 list \<Rightarrow> u64 \<Rightarrow> u64 pass \<times> kcore \<times> msg_state" where
  "msgsnd_pass k st msqid mtype data flag =
     (let caller = k_current k; len = length data in
      case bget (msg_queues st) msqid of
        None \<Rightarrow> (Return (Err EIDRM), k, st)
      | Some q \<Rightarrow>
          if \<not> msg_access q (current_uid k) (current_gid k) True then (Return (Err EACCES), k, st)
          else if q_qbytes q < len then (Return (Err EINVAL), k, st)
          else if cbytes q + len \<le> q_qbytes q
          then (Return (Ok 0), wake_msg_receivers msqid k,
                st\<lparr>msg_queues := bupdate msqid (\<lambda>q. q\<lparr>q_messages := q_messages q @ [\<lparr> mm_type = mtype, mm_data = data \<rparr>],
                   q_lspid := caller, q_stime := int (k_epoch k)\<rparr>) (msg_queues st)\<rparr>)
          else if flag AND ipc_nowait \<noteq> 0 then (Return (Err EAGAIN), k, st)
          else if bget (k_table k) caller = None then (Return Panic, k, st)
          else (Sleep, block_current (WaitingForSysvMsgSend (unat (i32_as_u64 msqid))) k, st))"

definition do_msgsnd ::
  "kcore \<Rightarrow> msg_state \<Rightarrow> umem \<Rightarrow> u64 \<Rightarrow> u64 \<Rightarrow> u64 \<Rightarrow> u64 \<Rightarrow> u64 pass \<times> kcore \<times> msg_state" where
  "do_msgsnd k st mem q m len flag =
     (case bind_kres (copyin_i64 mem (unat m)) (\<lambda>mtype.
             if mtype < 1 then Err EINVAL
             else if sysv_msgmax < unat len then Err EINVAL
             else bind_kres (copyin mem (user_add m 8) (unat len)) (\<lambda>data. Ok (mtype, data))) of
        Ok (mtype, data) \<Rightarrow> msgsnd_pass k st (as_i32 q) mtype data flag
      | Err e \<Rightarrow> (Return (Err e), k, st)
      | Panic \<Rightarrow> (Return Panic, k, st))"

text \<open>\<open>Iterator::position\<close> and \<open>Iterator::min\<close>.\<close>

fun position :: "('a \<Rightarrow> bool) \<Rightarrow> 'a list \<Rightarrow> nat option" where
  "position P [] = None"
| "position P (x # xs) = (if P x then Some 0 else map_option Suc (position P xs))"

definition min_opt :: "int list \<Rightarrow> int option" where
  "min_opt xs = (if xs = [] then None else Some (Min (set xs)))"

definition i64_min :: int where "i64_min = - (2 ^ 63)"

definition find_matching_index :: "sysv_message list \<Rightarrow> int \<Rightarrow> bool \<Rightarrow> nat option kres" where
  "find_matching_index messages msgtyp except =
     (if msgtyp = 0 then Ok (if messages = [] then None else Some 0)
      else if 0 < msgtyp
      then Ok (if except then position (\<lambda>m. mm_type m \<noteq> msgtyp) messages
               else position (\<lambda>m. mm_type m = msgtyp) messages)
      else if msgtyp = i64_min then Panic
      else let limit = - msgtyp in
        case min_opt (map mm_type (filter (\<lambda>m. mm_type m \<le> limit) messages)) of
          None \<Rightarrow> Ok None
        | Some min_type \<Rightarrow> Ok (position (\<lambda>m. mm_type m = min_type) messages))"

definition remove_at :: "nat \<Rightarrow> 'a list \<Rightarrow> 'a list" where
  "remove_at i xs = take i xs @ drop (Suc i) xs"

definition copyout_message :: "umem \<Rightarrow> u64 \<Rightarrow> sysv_message \<Rightarrow> nat \<Rightarrow> unit kres \<times> umem" where
  "copyout_message mem m msg copy_len =
     (case copyout mem (le_sbytes 8 (mm_type msg)) (unat m) of
        (Ok _, mem1) \<Rightarrow> copyout mem1 (take copy_len (mm_data msg)) (user_add m 8)
      | (e, mem1) \<Rightarrow> (e, mem1))"

definition msgrcv_pass ::
  "kcore \<Rightarrow> msg_state \<Rightarrow> umem \<Rightarrow> int \<Rightarrow> u64 \<Rightarrow> u64 \<Rightarrow> nat \<Rightarrow> int \<Rightarrow> u64 pass \<times> kcore \<times> msg_state \<times> umem" where
  "msgrcv_pass k st mem msqid flag m len msgtyp =
     (let caller = k_current k in
      case bget (msg_queues st) msqid of
        None \<Rightarrow> (Return (Err EIDRM), k, st, mem)
      | Some q \<Rightarrow>
          if \<not> msg_access q (current_uid k) (current_gid k) False then (Return (Err EACCES), k, st, mem)
          else case find_matching_index (q_messages q) msgtyp (flag AND msg_except \<noteq> 0) of
            Ok (Some idx) \<Rightarrow>
              let msg = q_messages q ! idx in
              if len < length (mm_data msg) \<and> flag AND msg_noerror = 0 then (Return (Err E2BIG), k, st, mem)
              else let st' = st\<lparr>msg_queues := bupdate msqid (\<lambda>q. q\<lparr>q_messages := remove_at idx (q_messages q),
                               q_lrpid := caller, q_rtime := int (k_epoch k)\<rparr>) (msg_queues st)\<rparr>;
                       copy_len = min (length (mm_data msg)) len;
                       (copied, mem') = copyout_message mem m msg copy_len
                   in (Return (bind_kres copied (\<lambda>_. Ok (word_of_nat copy_len))), wake_msg_senders msqid k, st', mem')
          | Ok None \<Rightarrow>
              if flag AND ipc_nowait \<noteq> 0 then (Return (Err ENOMSG), k, st, mem)
              else if bget (k_table k) caller = None then (Return Panic, k, st, mem)
              else (Sleep, block_current (WaitingForSysvMsgRecv (unat (i32_as_u64 msqid))) k, st, mem)
          | Err e \<Rightarrow> (Return (Err e), k, st, mem)
          | Panic \<Rightarrow> (Return Panic, k, st, mem))"

definition do_msgrcv ::
  "kcore \<Rightarrow> msg_state \<Rightarrow> umem \<Rightarrow> u64 \<Rightarrow> u64 \<Rightarrow> u64 \<Rightarrow> u64 \<Rightarrow> u64 pass \<times> kcore \<times> msg_state \<times> umem" where
  "do_msgrcv k st mem q_and_flag m len msgtyp =
     msgrcv_pass k st mem (as_i32 (q_and_flag AND 0xFFFFFFFF)) (drop_bit 32 q_and_flag) m (unat len) (as_i64 msgtyp)"

section \<open>msgctl\<close>

definition apply_ipc_set :: "kcore \<Rightarrow> raw_msqid_ds \<Rightarrow> msg_queue \<Rightarrow> msg_queue" where
  "apply_ipc_set k raw q =
     q\<lparr>q_uid := rp_uid (rm_perm raw), q_gid := rp_gid (rm_perm raw), q_mode := rp_mode (rm_perm raw) AND 0x1FF,
       q_qbytes := rm_qbytes raw, q_ctime := int (k_epoch k)\<rparr>"

definition do_msgctl ::
  "kcore \<Rightarrow> msg_state \<Rightarrow> umem \<Rightarrow> u64 \<Rightarrow> u64 \<Rightarrow> u64 \<Rightarrow> u64 kres \<times> kcore \<times> msg_state \<times> umem" where
  "do_msgctl k st mem i cmd buf =
     (let msqid = as_i32 i; real_cmd = cmd AND NOT ipc_64 in
      if real_cmd = ipc_stat then
        (case bget (msg_queues st) msqid of
           None \<Rightarrow> (Err EIDRM, k, st, mem)
         | Some q \<Rightarrow>
             if \<not> msg_access q (current_uid k) (current_gid k) False then (Err EACCES, k, st, mem)
             else case copyout mem (enc_msqid_ds (msqid_ds q)) (unat buf) of
                 (r, mem') \<Rightarrow> (bind_kres r (\<lambda>_. Ok 0), k, st, mem'))
      else if real_cmd = ipc_set then
        (case bget (msg_queues st) msqid of
           None \<Rightarrow> (Err EIDRM, k, st, mem)
         | Some q \<Rightarrow>
             if \<not> msg_owner q (current_uid k) then (Err EACCES, k, st, mem)
             else case copyin mem (unat buf) 120 of
                 Ok bs \<Rightarrow>
                   (Ok 0, k, st\<lparr>msg_queues := bupdate msqid (apply_ipc_set k (dec_msqid_ds bs)) (msg_queues st)\<rparr>, mem)
               | Err e \<Rightarrow> (Err e, k, st, mem)
               | Panic \<Rightarrow> (Panic, k, st, mem))
      else if real_cmd = ipc_rmid then
        (case bget (msg_queues st) msqid of
           None \<Rightarrow> (Err EIDRM, k, st, mem)
         | Some q \<Rightarrow>
             if \<not> msg_owner q (current_uid k) then (Err EACCES, k, st, mem)
             else (Ok 0, wake_msg_receivers msqid (wake_msg_senders msqid k),
                   st\<lparr>msg_queues := bremove msqid (msg_queues st),
                      msg_keys := (if q_key q \<noteq> ipc_private then bremove (q_key q) (msg_keys st) else msg_keys st)\<rparr>,
                   mem))
      else (Err EINVAL, k, st, mem))"

section \<open>Selection\<close>

lemma position_Some:
  "position P xs = Some i \<longleftrightarrow> i < length xs \<and> P (xs ! i) \<and> (\<forall>j < i. \<not> P (xs ! j))"
proof (induction xs arbitrary: i)
  case (Cons x xs)
  then show ?case by (cases i) (auto simp: less_Suc_eq_0_disj)
qed simp

lemma position_None: "position P xs = None \<longleftrightarrow> (\<forall>x \<in> set xs. \<not> P x)"
  by (induction xs) auto

text \<open>Which messages a type argument admits.\<close>

definition eligible :: "int \<Rightarrow> bool \<Rightarrow> sysv_message \<Rightarrow> bool" where
  "eligible msgtyp except m \<longleftrightarrow>
     (if msgtyp = 0 then True
      else if 0 < msgtyp then (mm_type m = msgtyp) \<noteq> except
      else mm_type m \<le> - msgtyp)"

lemma find_matching_index_None:
  assumes "msgtyp \<noteq> i64_min"
  shows "find_matching_index ms msgtyp except = Ok None \<longleftrightarrow> (\<forall>m \<in> set ms. \<not> eligible msgtyp except m)"
proof (cases "msgtyp < 0")
  case False
  then show ?thesis by (auto simp: find_matching_index_def eligible_def position_None)
next
  case True
  let ?types = "map mm_type (filter (\<lambda>m. mm_type m \<le> - msgtyp) ms)"
  have none: "?types = [] \<longleftrightarrow> (\<forall>m \<in> set ms. \<not> eligible msgtyp except m)"
    using True by (auto simp: eligible_def filter_empty_conv)
  have res: "find_matching_index ms msgtyp except =
      (if ?types = [] then Ok None else Ok (position (\<lambda>m. mm_type m = Min (set ?types)) ms))"
    using True assms by (simp add: find_matching_index_def Let_def min_opt_def)
  have "position (\<lambda>m. mm_type m = Min (set ?types)) ms \<noteq> None" if "?types \<noteq> []"
  proof -
    have "Min (set ?types) \<in> set ?types" using that by (intro Min_in) (simp_all del: set_map)
    then show ?thesis by (auto simp: position_None)
  qed
  then show ?thesis unfolding none [symmetric] res by (cases "?types = []") (simp_all del: map_is_Nil_conv)
qed

lemma find_matching_index_Some:
  assumes "find_matching_index ms msgtyp except = Ok (Some i)"
  shows "i < length ms \<and> eligible msgtyp except (ms ! i)
    \<and> (\<forall>j < length ms. eligible msgtyp except (ms ! j) \<longrightarrow>
         (if msgtyp < 0 then mm_type (ms ! i) < mm_type (ms ! j) \<or> (mm_type (ms ! i) = mm_type (ms ! j) \<and> i \<le> j)
          else i \<le> j))"
proof (cases "msgtyp < 0")
  case False
  then show ?thesis
    using assms by (auto simp: find_matching_index_def eligible_def position_Some not_less split: if_splits)
next
  case True
  let ?types = "set (map mm_type (filter (\<lambda>m. mm_type m \<le> - msgtyp) ms))"
  have ne: "?types \<noteq> {}" and pos: "position (\<lambda>m. mm_type m = Min ?types) ms = Some i"
    using assms True
    by (auto simp: find_matching_index_def min_opt_def Let_def filter_empty_conv split: if_splits)
  have i: "i < length ms" "mm_type (ms ! i) = Min ?types" "\<forall>j < i. mm_type (ms ! j) \<noteq> Min ?types"
    using pos by (simp_all add: position_Some)
  have "Min ?types \<in> ?types" using ne by (intro Min_in) simp_all
  then have elig: "eligible msgtyp except (ms ! i)" using i(2) True by (auto simp: eligible_def)
  have "mm_type (ms ! i) \<le> mm_type (ms ! j)" if "j < length ms" "eligible msgtyp except (ms ! j)" for j
    unfolding i(2) using that True by (intro Min_le) (auto simp: eligible_def)
  then show ?thesis using i elig True by (metis not_less order_le_less)
qed

lemma find_matching_index_not_Err: "find_matching_index ms msgtyp except \<noteq> Err e"
  by (simp add: find_matching_index_def Let_def split: option.splits)

section \<open>Invariant\<close>

definition msg_inv :: "msg_state \<Rightarrow> bool" where
  "msg_inv st \<longleftrightarrow> ns_inv q_key (msg_queues st) (msg_keys st) (msg_next st)"

interpretation msg_ns: ipc_namespace q_key "\<lambda>f. \<forall>q. q_key (f q) = q_key q"
  by unfold_locales simp

lemma msgsnd_pass_cases:
  assumes "msgsnd_pass k st msqid mtype data flag = (r, k', st')"
  obtains (fail) "k' = k" "st' = st" "r \<noteq> Sleep" "r \<noteq> Return (Ok 0)"
  | (sleep) q where "r = Sleep" "st' = st" "bget (msg_queues st) msqid = Some q"
      "q_qbytes q < cbytes q + length data" "bget (k_table k) (k_current k) \<noteq> None"
      "k' = block_current (WaitingForSysvMsgSend (unat (i32_as_u64 msqid))) k"
  | (ok) q where "r = Return (Ok 0)" "bget (msg_queues st) msqid = Some q"
      "msg_access q (current_uid k) (current_gid k) True"
      "cbytes q + length data \<le> q_qbytes q" "k' = wake_msg_receivers msqid k"
      "st' = st\<lparr>msg_queues := bupdate msqid (\<lambda>q. q\<lparr>q_messages := q_messages q @ [\<lparr> mm_type = mtype, mm_data = data \<rparr>],
                   q_lspid := k_current k, q_stime := int (k_epoch k)\<rparr>) (msg_queues st)\<rparr>"
proof (cases "bget (msg_queues st) msqid")
  case None
  then show thesis using assms by (intro fail) (auto simp: msgsnd_pass_def)
next
  case (Some q)
  show thesis
  proof (cases "msg_access q (current_uid k) (current_gid k) True \<and> length data \<le> q_qbytes q")
    case False
    then show thesis using assms Some by (intro fail) (auto simp: msgsnd_pass_def Let_def split: if_splits)
  next
    case acc: True
    show thesis
    proof (cases "cbytes q + length data \<le> q_qbytes q")
      case True
      then show thesis using assms Some acc by (intro ok [OF _ Some]) (auto simp: msgsnd_pass_def Let_def)
    next
      case full: False
      show thesis
      proof (cases "flag AND ipc_nowait \<noteq> 0 \<or> bget (k_table k) (k_current k) = None")
        case True
        then show thesis
          using assms Some acc full by (intro fail) (auto simp: msgsnd_pass_def Let_def split: if_splits)
      next
        case False
        then show thesis
          using assms Some acc full by (intro sleep [OF _ _ Some]) (auto simp: msgsnd_pass_def Let_def)
      qed
    qed
  qed
qed

lemma msgrcv_pass_cases:
  assumes "msgrcv_pass k st mem msqid flag m len msgtyp = (r, k', st', mem')"
  obtains (fail) "k' = k" "st' = st" "mem' = mem" "r \<noteq> Sleep" "\<And>n. r \<noteq> Return (Ok n)"
  | (sleep) q where "r = Sleep" "st' = st" "mem' = mem" "bget (msg_queues st) msqid = Some q"
      "find_matching_index (q_messages q) msgtyp (flag AND msg_except \<noteq> 0) = Ok None"
      "bget (k_table k) (k_current k) \<noteq> None"
      "k' = block_current (WaitingForSysvMsgRecv (unat (i32_as_u64 msqid))) k"
  | (taken) q idx copied where "bget (msg_queues st) msqid = Some q"
      "find_matching_index (q_messages q) msgtyp (flag AND msg_except \<noteq> 0) = Ok (Some idx)"
      "length (mm_data (q_messages q ! idx)) \<le> len \<or> flag AND msg_noerror \<noteq> 0"
      "copyout_message mem m (q_messages q ! idx) (min (length (mm_data (q_messages q ! idx))) len) = (copied, mem')"
      "r = Return (bind_kres copied (\<lambda>_. Ok (word_of_nat (min (length (mm_data (q_messages q ! idx))) len))))"
      "k' = wake_msg_senders msqid k"
      "st' = st\<lparr>msg_queues := bupdate msqid (\<lambda>q. q\<lparr>q_messages := remove_at idx (q_messages q),
               q_lrpid := k_current k, q_rtime := int (k_epoch k)\<rparr>) (msg_queues st)\<rparr>"
proof -
  have same: "k' = k \<and> st' = st \<and> mem' = mem \<and> r \<noteq> Sleep \<and> (\<forall>n. r \<noteq> Return (Ok n)) \<Longrightarrow> thesis"
    using fail by blast
  show thesis
  proof (cases "bget (msg_queues st) msqid")
    case None
    then show thesis using assms by (intro same) (auto simp: msgrcv_pass_def)
  next
    case (Some q)
    let ?f = "find_matching_index (q_messages q) msgtyp (flag AND msg_except \<noteq> 0)"
    show thesis
    proof (cases "msg_access q (current_uid k) (current_gid k) False")
      case False
      then show thesis using assms Some by (intro same) (auto simp: msgrcv_pass_def)
    next
      case acc: True
      consider (panic) "?f = Panic" | (none) "?f = Ok None" | (hit) idx where "?f = Ok (Some idx)"
        using find_matching_index_not_Err by (metis kres.exhaust option.exhaust)
      then show thesis
      proof cases
        case panic
        then show thesis using assms Some acc by (intro same) (auto simp: msgrcv_pass_def)
      next
        case none
        then show thesis
          using assms Some acc unfolding msgrcv_pass_def Let_def
          by (auto split: if_splits intro: same sleep [OF _ _ _ Some none])
      next
        case (hit idx)
        let ?n = "length (mm_data (q_messages q ! idx))"
        show thesis
        proof (cases "len < ?n \<and> flag AND msg_noerror = 0")
          case True
          then show thesis using assms Some acc hit by (intro same) (auto simp: msgrcv_pass_def Let_def)
        next
          case False
          obtain copied mem1 where c: "copyout_message mem m (q_messages q ! idx) (min ?n len) = (copied, mem1)"
            by (cases "copyout_message mem m (q_messages q ! idx) (min ?n len)")
          have "?n \<le> len \<or> flag AND msg_noerror \<noteq> 0" using False by auto
          then show thesis
            using assms Some acc hit False c by (intro taken [OF Some hit]) (auto simp: msgrcv_pass_def Let_def)
        qed
      qed
    qed
  qed
qed

lemma do_msgget_cases:
  assumes "do_msgget k st key flag = (r, st')"
  obtains (same) "st' = st"
  | (made) "r = Ok (i32_as_u64 (msg_next st))"
      "as_i32 key = ipc_private \<or> bget (msg_keys st) (as_i32 key) = None"
      "st' = st\<lparr>msg_next := msg_next st + 1,
          msg_queues := binsert (msg_next st) (new_msg_queue k (as_i32 key) flag) (msg_queues st),
          msg_keys := (if as_i32 key \<noteq> ipc_private then binsert (as_i32 key) (msg_next st) (msg_keys st)
                       else msg_keys st)\<rparr>"
proof -
  have creates: thesis if "msgget_create k st (as_i32 key) flag = (r, st')"
      "as_i32 key = ipc_private \<or> bget (msg_keys st) (as_i32 key) = None"
  proof (cases "st' = st")
    case False
    then show thesis
      using that(1) unfolding msgget_create_def
      by (intro made that(2)) (auto simp: add_i32_Some_iff split: if_splits option.splits)
  qed (rule same)
  show thesis
  proof (cases "as_i32 key = ipc_private")
    case True
    then show thesis using assms creates unfolding do_msgget_def Let_def by simp
  next
    case False
    show thesis
    proof (cases "bget (msg_keys st) (as_i32 key)")
      case None
      then show thesis
        using assms creates False same unfolding do_msgget_def Let_def
        by (cases "flag AND ipc_creat = 0") auto
    next
      case (Some msqid)
      then show thesis
        using assms False same unfolding do_msgget_def Let_def by (auto split: if_splits option.splits)
    qed
  qed
qed

lemma do_msgctl_cases:
  assumes "do_msgctl k st mem i cmd buf = (r, k', st', mem')"
  obtains (same) "k' = k" "st' = st"
  | (set) q raw where "bget (msg_queues st) (as_i32 i) = Some q" "k' = k"
      "st' = st\<lparr>msg_queues := bupdate (as_i32 i) (apply_ipc_set k raw) (msg_queues st)\<rparr>"
  | (rmid) q where "bget (msg_queues st) (as_i32 i) = Some q"
      "k' = wake_msg_receivers (as_i32 i) (wake_msg_senders (as_i32 i) k)"
      "st' = st\<lparr>msg_queues := bremove (as_i32 i) (msg_queues st),
         msg_keys := (if q_key q \<noteq> ipc_private then bremove (q_key q) (msg_keys st) else msg_keys st)\<rparr>"
proof (cases "k' = k \<and> st' = st")
  case True
  then show thesis using same by blast
next
  case False
  then obtain q where q: "bget (msg_queues st) (as_i32 i) = Some q"
    using assms by (auto simp: do_msgctl_def Let_def split: if_splits option.splits)
  show thesis
  proof (cases "cmd AND NOT ipc_64 = ipc_set")
    case True
    then obtain bs where "copyin mem (unat buf) 120 = Ok bs"
      using assms False q by (auto simp: do_msgctl_def Let_def ipc_set_def ipc_stat_def split: if_splits kres.splits)
    then show thesis
      using assms False q True
      by (intro set [OF q]) (auto simp: do_msgctl_def Let_def ipc_set_def ipc_stat_def split: if_splits)
  next
    case noset: False
    then show thesis
      using assms False q
      by (intro rmid [OF q]) (auto simp: do_msgctl_def Let_def split: if_splits prod.splits)
  qed
qed

lemma msg_inv_update:
  assumes "msg_inv st" and "\<And>q. q_key (f q) = q_key q"
  shows "msg_inv (st\<lparr>msg_queues := bupdate i f (msg_queues st)\<rparr>)"
  using msg_ns.update_keeps [OF assms(1) [unfolded msg_inv_def], of f i] assms(2) by (simp add: msg_inv_def)

lemma msgsnd_pass_inv:
  assumes "msgsnd_pass k st msqid mtype data flag = (r, k', st')" and "msg_inv st"
  shows "msg_inv st'"
  using assms(1)
proof (cases rule: msgsnd_pass_cases)
  case (ok q)
  then show ?thesis using msg_inv_update [OF assms(2)] by simp
qed (use assms(2) in simp_all)

lemma msgrcv_pass_inv:
  assumes "msgrcv_pass k st mem msqid flag m len msgtyp = (r, k', st', mem')" and "msg_inv st"
  shows "msg_inv st'"
  using assms(1)
proof (cases rule: msgrcv_pass_cases)
  case (taken q idx copied)
  then show ?thesis using msg_inv_update [OF assms(2)] by simp
qed (use assms(2) in simp_all)

lemma do_msgctl_inv:
  assumes "do_msgctl k st mem i cmd buf = (r, k', st', mem')" and "msg_inv st"
  shows "msg_inv st'"
  using assms(1)
proof (cases rule: do_msgctl_cases)
  case (set q raw)
  then show ?thesis using msg_inv_update [OF assms(2)] by (simp add: apply_ipc_set_def)
next
  case (rmid q)
  then show ?thesis
    using msg_ns.remove_private [OF _ rmid(1)] msg_ns.remove_keyed [OF _ rmid(1)] assms(2)
    by (simp add: msg_inv_def)
qed (use assms(2) in simp_all)

lemma do_msgget_inv:
  assumes "do_msgget k st key flag = (r, st')" and "msg_inv st"
  shows "msg_inv st'"
  using assms(1)
proof (cases rule: do_msgget_cases)
  case made
  let ?q = "new_msg_queue k (as_i32 key) flag"
  have key: "q_key ?q = as_i32 key" by (simp add: new_msg_queue_def)
  note ns = assms(2) [unfolded msg_inv_def]
  show ?thesis
  proof (cases "as_i32 key = ipc_private")
    case True
    then show ?thesis using made msg_ns.insert_private [OF ns, of ?q] key by (simp add: msg_inv_def)
  next
    case False
    then show ?thesis using made msg_ns.insert_keyed [OF ns, of ?q] key by (simp add: msg_inv_def)
  qed
qed (use assms(2) in simp)

section \<open>Waiters and what they wait for\<close>

abbreviation recv_reason :: "int \<Rightarrow> block_reason" where
  "recv_reason msqid \<equiv> WaitingForSysvMsgRecv (unat (i32_as_u64 msqid))"

abbreviation send_reason :: "int \<Rightarrow> block_reason" where
  "send_reason msqid \<equiv> WaitingForSysvMsgSend (unat (i32_as_u64 msqid))"

text \<open>Whoever still waits to receive waited before, and its queue has no new message; whoever still waits
  to send waited before, and its queue has no fewer bytes.\<close>

definition recv_quiet :: "kcore \<Rightarrow> msg_state \<Rightarrow> kcore \<Rightarrow> msg_state \<Rightarrow> bool" where
  "recv_quiet k st k' st' \<longleftrightarrow> (\<forall>pid i. blocked_as k' pid (recv_reason i) \<longrightarrow> blocked_as k pid (recv_reason i)
     \<and> (\<forall>q. bget (msg_queues st) i = Some q \<longrightarrow>
          (\<exists>q'. bget (msg_queues st') i = Some q' \<and> set (q_messages q') \<subseteq> set (q_messages q))))"

definition send_quiet :: "kcore \<Rightarrow> msg_state \<Rightarrow> kcore \<Rightarrow> msg_state \<Rightarrow> bool" where
  "send_quiet k st k' st' \<longleftrightarrow> (\<forall>pid i. blocked_as k' pid (send_reason i) \<longrightarrow> blocked_as k pid (send_reason i)
     \<and> (\<forall>q. bget (msg_queues st) i = Some q \<longrightarrow>
          (\<exists>q'. bget (msg_queues st') i = Some q' \<and> cbytes q \<le> cbytes q')))"

lemma blocked_wake_msg:
  "blocked_as (wake_msg_receivers msqid k) pid (recv_reason i) \<longleftrightarrow>
     blocked_as k pid (recv_reason i) \<and> unat (i32_as_u64 i) \<noteq> unat (i32_as_u64 msqid)"
  "blocked_as (wake_msg_receivers msqid k) pid (send_reason i) \<longleftrightarrow> blocked_as k pid (send_reason i)"
  "blocked_as (wake_msg_senders msqid k) pid (send_reason i) \<longleftrightarrow>
     blocked_as k pid (send_reason i) \<and> unat (i32_as_u64 i) \<noteq> unat (i32_as_u64 msqid)"
  "blocked_as (wake_msg_senders msqid k) pid (recv_reason i) \<longleftrightarrow> blocked_as k pid (recv_reason i)"
  unfolding wake_msg_receivers_def wake_msg_senders_def
  by (subst blocked_as_wake_where; simp add: waits_msg_recv_def waits_msg_send_def)+

lemma quietI:
  assumes "\<And>pid i. blocked_as k' pid (recv_reason i) \<Longrightarrow> blocked_as k pid (recv_reason i)"
    and "\<And>pid i q. blocked_as k' pid (recv_reason i) \<Longrightarrow> bget (msg_queues st) i = Some q \<Longrightarrow>
      \<exists>q'. bget (msg_queues st') i = Some q' \<and> set (q_messages q') \<subseteq> set (q_messages q)"
    and "\<And>pid i. blocked_as k' pid (send_reason i) \<Longrightarrow> blocked_as k pid (send_reason i)"
    and "\<And>pid i q. blocked_as k' pid (send_reason i) \<Longrightarrow> bget (msg_queues st) i = Some q \<Longrightarrow>
      \<exists>q'. bget (msg_queues st') i = Some q' \<and> cbytes q \<le> cbytes q'"
  shows "recv_quiet k st k' st' \<and> send_quiet k st k' st'"
  unfolding recv_quiet_def send_quiet_def using assms by blast

lemma quiet_refl: "recv_quiet k st k st \<and> send_quiet k st k st"
  by (rule quietI) auto

lemma msgsnd_pass_quiet:
  assumes "msgsnd_pass k st msqid mtype data flag = (r, k', st')" and "r \<noteq> Sleep"
  shows "recv_quiet k st k' st' \<and> send_quiet k st k' st'"
  using assms(1)
proof (cases rule: msgsnd_pass_cases)
  case (ok q)
  then show ?thesis by (intro quietI) (auto simp: blocked_wake_msg cbytes_def)
qed (use assms(2) quiet_refl in simp_all)

lemma set_remove_at: "set (remove_at i xs) \<subseteq> set xs"
  by (auto simp: remove_at_def dest: in_set_takeD in_set_dropD)

lemma msgrcv_pass_quiet:
  assumes "msgrcv_pass k st mem msqid flag m len msgtyp = (r, k', st', mem')" and "r \<noteq> Sleep"
  shows "recv_quiet k st k' st' \<and> send_quiet k st k' st'"
  using assms(1)
proof (cases rule: msgrcv_pass_cases)
  case (taken q idx copied)
  then show ?thesis using set_remove_at by (intro quietI) (fastforce simp: blocked_wake_msg)+
qed (use assms(2) quiet_refl in simp_all)

lemma do_msgctl_quiet:
  assumes "do_msgctl k st mem i cmd buf = (r, k', st', mem')"
  shows "recv_quiet k st k' st' \<and> send_quiet k st k' st'"
  using assms
proof (cases rule: do_msgctl_cases)
  case (set q raw)
  then show ?thesis by (intro quietI) (auto simp: cbytes_def apply_ipc_set_def)
next
  case (rmid q)
  then show ?thesis by (intro quietI) (auto simp: blocked_wake_msg)
qed (use quiet_refl in simp_all)

lemma do_msgget_quiet:
  assumes "do_msgget k st key flag = (r, st')" and "msg_inv st"
  shows "recv_quiet k st k st' \<and> send_quiet k st k st'"
  using assms(1)
proof (cases rule: do_msgget_cases)
  case made
  have "bget (msg_queues st) (msg_next st) = None"
    by (rule msg_ns.fresh_id [OF assms(2) [unfolded msg_inv_def]])
  then show ?thesis using made by (intro quietI) auto
qed (use quiet_refl in simp_all)

section \<open>The calls as a transition system\<close>

record msg_sys =
  x_msg :: msg_state
  x_core :: kcore
  x_sends :: "pid \<Rightarrow> (int \<times> int \<times> u8 list) option"
  x_recvs :: "pid \<Rightarrow> (int \<times> u64 \<times> int) option"

definition is_msg_reason :: "block_reason \<Rightarrow> bool" where
  "is_msg_reason r \<longleftrightarrow>
     (case r of WaitingForSysvMsgSend _ \<Rightarrow> True | WaitingForSysvMsgRecv _ \<Rightarrow> True | _ \<Rightarrow> False)"

inductive msg_step :: "msg_sys \<Rightarrow> msg_sys \<Rightarrow> bool" where
  msgsnd: "msg_step x \<lparr> x_msg = st', x_core = k',
      x_sends = (x_sends x)(k_current (x_core x) := if r = Sleep then Some (msqid, mtype, data) else None),
      x_recvs = (x_recvs x)(k_current (x_core x) := None) \<rparr>"
  if "msgsnd_pass (x_core x) (x_msg x) msqid mtype data flag = (r, k', st')"
| msgrcv: "msg_step x \<lparr> x_msg = st', x_core = k',
      x_sends = (x_sends x)(k_current (x_core x) := None),
      x_recvs = (x_recvs x)(k_current (x_core x) := if r = Sleep then Some (msqid, flag, msgtyp) else None) \<rparr>"
  if "msgrcv_pass (x_core x) (x_msg x) mem msqid flag m len msgtyp = (r, k', st', mem')"
| msgctl: "msg_step x (x\<lparr>x_msg := st', x_core := k'\<rparr>)"
  if "do_msgctl (x_core x) (x_msg x) mem i cmd buf = (r, k', st', mem')"
| msgget: "msg_step x (x\<lparr>x_msg := st'\<rparr>)"
  if "do_msgget (x_core x) (x_msg x) key flag = (r, st')"
| other: "msg_step x (x\<lparr>x_core := k'\<rparr>)"
  if "elsewhere is_msg_reason (x_core x) k'"

text \<open>The steps under which no queue's limit is raised.\<close>

definition limits_kept :: "msg_state \<Rightarrow> msg_state \<Rightarrow> bool" where
  "limits_kept st st' \<longleftrightarrow> (\<forall>i q q'. bget (msg_queues st) i = Some q \<longrightarrow> bget (msg_queues st') i = Some q' \<longrightarrow>
     q_qbytes q' \<le> q_qbytes q)"

definition msg_step_kept :: "msg_sys \<Rightarrow> msg_sys \<Rightarrow> bool" where
  "msg_step_kept x x' \<longleftrightarrow> msg_step x x' \<and> limits_kept (x_msg x) (x_msg x')"

definition recv_waiting :: "msg_sys \<Rightarrow> pid \<Rightarrow> int \<times> u64 \<times> int \<Rightarrow> bool" where
  "recv_waiting x pid w \<longleftrightarrow> x_recvs x pid = Some w \<and> blocked_as (x_core x) pid (recv_reason (fst w))"

definition recv_stuck :: "msg_sys \<Rightarrow> int \<times> u64 \<times> int \<Rightarrow> bool" where
  "recv_stuck x = (\<lambda>(msqid, flag, msgtyp). \<exists>q. bget (msg_queues (x_msg x)) msqid = Some q \<and> msgtyp \<noteq> i64_min
     \<and> (\<forall>m \<in> set (q_messages q). \<not> eligible msgtyp (flag AND msg_except \<noteq> 0) m))"

definition send_waiting :: "msg_sys \<Rightarrow> pid \<Rightarrow> int \<times> int \<times> u8 list \<Rightarrow> bool" where
  "send_waiting x pid w \<longleftrightarrow> x_sends x pid = Some w \<and> blocked_as (x_core x) pid (send_reason (fst w))"

definition send_stuck :: "msg_sys \<Rightarrow> int \<times> int \<times> u8 list \<Rightarrow> bool" where
  "send_stuck x = (\<lambda>(msqid, mtype, data). \<exists>q. bget (msg_queues (x_msg x)) msqid = Some q
     \<and> q_qbytes q < cbytes q + length data)"

lemma msg_step_inv: "msg_step x x' \<Longrightarrow> msg_inv (x_msg x) \<Longrightarrow> msg_inv (x_msg x')"
  by (erule msg_step.cases) (auto intro: msgsnd_pass_inv msgrcv_pass_inv do_msgctl_inv do_msgget_inv)

lemma elsewhere_quiet:
  "elsewhere is_msg_reason k k' \<Longrightarrow> recv_quiet k st k' st \<and> send_quiet k st k' st"
  by (intro quietI) (auto elim: blocked_as_elsewhere simp: is_msg_reason_def)

lemma sleep_quiet:
  assumes "k' = block_current r k"
  shows "is_msg_reason r \<Longrightarrow> pid \<noteq> k_current k \<Longrightarrow> blocked_as k' pid r' \<longleftrightarrow> blocked_as k pid r'"
    and "r' \<noteq> r \<Longrightarrow> blocked_as k' pid r' \<Longrightarrow> blocked_as k pid r'"
  using assms by (auto simp: blocked_as_block_current split: if_splits)

lemma recv_quiet_waiting:
  assumes "recv_quiet (x_core x) (x_msg x) (x_core x') (x_msg x')"
    and "x_recvs x' pid \<noteq> None \<Longrightarrow> x_recvs x' pid = x_recvs x pid" and "recv_waiting x' pid w"
  shows "recv_waiting x pid w \<and> (recv_stuck x w \<longrightarrow> recv_stuck x' w)"
proof -
  obtain msqid flag msgtyp where w: "w = (msqid, flag, msgtyp)" by (cases w)
  have "recv_waiting x pid w" using assms unfolding recv_waiting_def recv_quiet_def by force
  moreover have "recv_stuck x' w" if "recv_stuck x w"
    using that assms(1,3) unfolding recv_stuck_def recv_quiet_def recv_waiting_def w by force
  ultimately show ?thesis by blast
qed

lemma send_quiet_waiting:
  assumes "send_quiet (x_core x) (x_msg x) (x_core x') (x_msg x')" and "limits_kept (x_msg x) (x_msg x')"
    and "x_sends x' pid \<noteq> None \<Longrightarrow> x_sends x' pid = x_sends x pid" and "send_waiting x' pid w"
  shows "send_waiting x pid w \<and> (send_stuck x w \<longrightarrow> send_stuck x' w)"
proof -
  obtain msqid mtype data where w: "w = (msqid, mtype, data)" by (cases w)
  have waits: "send_waiting x pid w" using assms unfolding send_waiting_def send_quiet_def by force
  have "send_stuck x' w" if st: "send_stuck x w"
  proof -
    obtain q where q: "bget (msg_queues (x_msg x)) msqid = Some q" "q_qbytes q < cbytes q + length data"
      using st unfolding send_stuck_def w by auto
    obtain q' where q': "bget (msg_queues (x_msg x')) msqid = Some q'" "cbytes q \<le> cbytes q'"
      using assms(1,4) q(1) unfolding send_quiet_def send_waiting_def w by force
    have "q_qbytes q' \<le> q_qbytes q" using assms(2) q(1) q'(1) unfolding limits_kept_def by blast
    then show ?thesis using q q' unfolding send_stuck_def w by auto
  qed
  with waits show ?thesis by blast
qed

text \<open>A call that goes to sleep: everybody else is as before, and what it waits for is not there.\<close>

lemma msgsnd_sleep:
  assumes "msgsnd_pass k st msqid mtype data flag = (Sleep, k', st')"
  shows "st' = st \<and> k' = block_current (send_reason msqid) k
    \<and> (\<exists>q. bget (msg_queues st) msqid = Some q \<and> q_qbytes q < cbytes q + length data)"
  using assms by (cases rule: msgsnd_pass_cases) auto

lemma msgrcv_sleep:
  assumes "msgrcv_pass k st mem msqid flag m len msgtyp = (Sleep, k', st', mem')"
  shows "st' = st \<and> k' = block_current (recv_reason msqid) k
    \<and> (\<exists>q. bget (msg_queues st) msqid = Some q \<and> msgtyp \<noteq> i64_min
         \<and> (\<forall>m \<in> set (q_messages q). \<not> eligible msgtyp (flag AND msg_except \<noteq> 0) m))"
  using assms
proof (cases rule: msgrcv_pass_cases)
  case (sleep q)
  have "msgtyp \<noteq> i64_min" using sleep(5) by (auto simp: find_matching_index_def i64_min_def)
  then show ?thesis using sleep find_matching_index_None by blast
qed (auto simp: bind_kres_Ok_iff)

lemma msg_step_shape:
  assumes "msg_step x x'" and "msg_inv (x_msg x)"
  obtains (quiet) "recv_quiet (x_core x) (x_msg x) (x_core x') (x_msg x')"
      "send_quiet (x_core x) (x_msg x) (x_core x') (x_msg x')"
      "\<And>p. x_recvs x' p \<noteq> None \<Longrightarrow> x_recvs x' p = x_recvs x p"
      "\<And>p. x_sends x' p \<noteq> None \<Longrightarrow> x_sends x' p = x_sends x p"
  | (sends) w where "x_msg x' = x_msg x" "x_core x' = block_current (send_reason (fst w)) (x_core x)"
      "x_sends x' = (x_sends x)(k_current (x_core x) := Some w)"
      "x_recvs x' = (x_recvs x)(k_current (x_core x) := None)" "send_stuck x' w"
  | (recvs) w where "x_msg x' = x_msg x" "x_core x' = block_current (recv_reason (fst w)) (x_core x)"
      "x_recvs x' = (x_recvs x)(k_current (x_core x) := Some w)"
      "x_sends x' = (x_sends x)(k_current (x_core x) := None)" "recv_stuck x' w"
  using assms(1)
proof cases
  case (msgsnd msqid mtype data flag r k' st')
  show thesis
  proof (cases "r = Sleep")
    case True
    note slept = msgsnd_sleep [OF msgsnd(2) [unfolded True]]
    show thesis
      by (rule sends [of "(msqid, mtype, data)"]) (use True msgsnd(1) slept in \<open>auto simp: send_stuck_def\<close>)
  next
    case False
    then show thesis
      using msgsnd msgsnd_pass_quiet [OF msgsnd(2)] by (intro quiet) (auto split: if_splits)
  qed
next
  case (msgrcv mem msqid flag m len msgtyp r k' st' mem')
  show thesis
  proof (cases "r = Sleep")
    case True
    note slept = msgrcv_sleep [OF msgrcv(2) [unfolded True]]
    show thesis
      by (rule recvs [of "(msqid, flag, msgtyp)"]) (use True msgrcv(1) slept in \<open>auto simp: recv_stuck_def\<close>)
  next
    case False
    then show thesis
      using msgrcv msgrcv_pass_quiet [OF msgrcv(2)] by (intro quiet) (auto split: if_splits)
  qed
next
  case (msgctl mem i cmd buf r k' st' mem')
  then show thesis using do_msgctl_quiet by (intro quiet) auto
next
  case (msgget key flag r st')
  then show thesis using do_msgget_quiet [OF _ assms(2)] by (intro quiet) auto
next
  case (other k')
  then show thesis using elsewhere_quiet by (intro quiet) auto
qed

lemma msg_step_recv:
  assumes "msg_step x x'" and "msg_inv (x_msg x)" and "recv_waiting x' p w"
  shows "recv_stuck x' w \<or> recv_waiting x p w \<and> (recv_stuck x w \<longrightarrow> recv_stuck x' w)"
  using assms(1,2)
proof (cases rule: msg_step_shape)
  case quiet
  then show ?thesis using recv_quiet_waiting [OF quiet(1) _ assms(3)] by blast
next
  case (sends w')
  have "p \<noteq> k_current (x_core x)" using assms(3) sends(4) by (auto simp: recv_waiting_def)
  then show ?thesis
    using assms(3) sends(1,2,4) by (simp add: recv_waiting_def recv_stuck_def blocked_as_block_current)
next
  case (recvs w')
  show ?thesis
  proof (cases "p = k_current (x_core x)")
    case True
    then have "w = w'" using assms(3) recvs(3) by (simp add: recv_waiting_def)
    then show ?thesis using recvs(5) by blast
  next
    case False
    then show ?thesis
      using assms(3) recvs(1-3) by (simp add: recv_waiting_def recv_stuck_def blocked_as_block_current)
  qed
qed

lemma msg_step_send:
  assumes "msg_step_kept x x'" and "msg_inv (x_msg x)" and "send_waiting x' p w"
  shows "send_stuck x' w \<or> send_waiting x p w \<and> (send_stuck x w \<longrightarrow> send_stuck x' w)"
proof -
  have step: "msg_step x x'" and kept: "limits_kept (x_msg x) (x_msg x')"
    using assms(1) by (simp_all add: msg_step_kept_def)
  from step assms(2) show ?thesis
  proof (cases rule: msg_step_shape)
    case quiet
    then show ?thesis using send_quiet_waiting [OF quiet(2) kept _ assms(3)] by blast
  next
    case (recvs w')
    have "p \<noteq> k_current (x_core x)" using assms(3) recvs(4) by (auto simp: send_waiting_def)
    then show ?thesis
      using assms(3) recvs(1,2,4) by (simp add: send_waiting_def send_stuck_def blocked_as_block_current)
  next
    case (sends w')
    show ?thesis
    proof (cases "p = k_current (x_core x)")
      case True
      then have "w = w'" using assms(3) sends(3) by (simp add: send_waiting_def)
      then show ?thesis using sends(5) by blast
    next
      case False
      then show ?thesis
        using assms(3) sends(1-3) by (simp add: send_waiting_def send_stuck_def blocked_as_block_current)
    qed
  qed
qed

lemma msg_step_kept_step: "msg_step_kept x x' \<Longrightarrow> msg_step x x'"
  by (simp add: msg_step_kept_def)

interpretation msg_recv: wakeup_discipline msg_step recv_waiting recv_stuck "\<lambda>x. msg_inv (x_msg x)"
  by unfold_locales (blast intro: msg_step_inv, blast dest: msg_step_recv)

interpretation msg_send: wakeup_discipline msg_step_kept send_waiting send_stuck "\<lambda>x. msg_inv (x_msg x)"
  by unfold_locales (blast intro: msg_step_inv dest: msg_step_kept_step, blast dest: msg_step_send)

section \<open>What is delivered\<close>

definition by_type :: "int \<Rightarrow> sysv_message list \<Rightarrow> sysv_message list" where
  "by_type t ms = filter (\<lambda>m. mm_type m = t) ms"

lemma remove_first_of_type:
  assumes "i < length ms" and "\<forall>j < i. mm_type (ms ! j) \<noteq> mm_type (ms ! i)"
  shows "by_type t ms = (if t = mm_type (ms ! i) then [ms ! i] else []) @ by_type t (remove_at i ms)"
proof -
  have none: "by_type (mm_type (ms ! i)) (take i ms) = []"
    using assms by (auto simp: by_type_def filter_empty_conv in_set_conv_nth)
  have "by_type t ms = by_type t (take i ms @ ms ! i # drop (Suc i) ms)"
    using id_take_nth_drop [OF assms(1)] by simp
  also have "\<dots> = (if t = mm_type (ms ! i) then [ms ! i] else []) @ by_type t (remove_at i ms)"
    using none by (auto simp: by_type_def remove_at_def)
  finally show ?thesis .
qed

lemma taken_is_oldest:
  assumes "find_matching_index ms msgtyp except = Ok (Some i)"
  shows "\<forall>j < i. mm_type (ms ! j) \<noteq> mm_type (ms ! i)"
proof (intro allI impI)
  fix j assume j: "j < i"
  note f = find_matching_index_Some [OF assms]
  show "mm_type (ms ! j) \<noteq> mm_type (ms ! i)"
  proof
    assume same: "mm_type (ms ! j) = mm_type (ms ! i)"
    then have "eligible msgtyp except (ms ! j)" using f by (simp add: eligible_def)
    moreover have "j < length ms" using f j by simp
    ultimately have "if msgtyp < 0 then mm_type (ms ! i) < mm_type (ms ! j)
        \<or> (mm_type (ms ! i) = mm_type (ms ! j) \<and> i \<le> j) else i \<le> j" using f by blast
    then show False using j same by (simp split: if_splits)
  qed
qed

lemma copyout_Ok:
  assumes "copyout m bs (wrap64 a) = (Ok (), m')"
  shows "m' = scatter m (map (\<lambda>i. wrap64 (a + i)) [0..<length bs]) bs"
  using assms copyout_ok [of a bs m] copyout_fault [of a bs m] by fastforce

lemma upt_8: "[0..<8 + n] = [0..<8] @ map (\<lambda>i. 8 + i) [0..<n]"
proof -
  have "[0..<8 + n] = [0..<8] @ [8..<8 + n]" by (rule upt_add_eq_append) simp
  moreover have "[8..<8 + n] = map (\<lambda>i. i + 8) [0..<n]" by (simp add: map_add_upt add.commute)
  ultimately show ?thesis by (simp only: add.commute)
qed

lemma copyout_message_Ok:
  assumes "copyout_message mem m msg n = (Ok (), mem')" and "n \<le> length (mm_data msg)"
  shows "mem' = scatter mem (map (\<lambda>i. wrap64 (unat m + i)) [0..<8 + n]) (le_sbytes 8 (mm_type msg) @ take n (mm_data msg))"
proof -
  have m: "unat m = wrap64 (unat m)" using unsigned_less [of m, where ?'a = nat] by (simp add: wrap64_def)
  have m8: "user_add m 8 = wrap64 (unat m + 8)" by (simp add: user_add_def wrap64_def unat_word_ariths)
  obtain mem1 where c: "copyout mem (le_sbytes 8 (mm_type msg)) (wrap64 (unat m)) = (Ok (), mem1)"
      "copyout mem1 (take n (mm_data msg)) (wrap64 (unat m + 8)) = (Ok (), mem')"
    using assms(1) m m8 by (auto simp: copyout_message_def split: prod.splits kres.splits)
  show ?thesis
    unfolding upt_8 using copyout_Ok [OF c(1)] copyout_Ok [OF c(2)] assms(2)
    by (simp add: scatter_append add.assoc [symmetric] comp_def)
qed

text \<open>A copy to the caller succeeds exactly when every address of it can be written.\<close>

lemma copyout_outcome:
  "fst (copyout m bs (wrap64 a)) = (if list_all (can_write m) (map (\<lambda>i. wrap64 (a + i)) [0..<length bs]) then Ok () else Err EFAULT)"
proof (cases "list_all (can_write m) (map (\<lambda>i. wrap64 (a + i)) [0..<length bs])")
  case True
  then show ?thesis using copyout_ok [of a bs m] unfolding list_all_iff by simp
next
  case False
  then have "\<exists>x \<in> set (map (\<lambda>i. wrap64 (a + i)) [0..<length bs]). \<not> can_write m x" unfolding list_all_iff by blast
  from copyout_fault [OF this] False show ?thesis by auto
qed

definition message_addrs :: "u64 \<Rightarrow> nat \<Rightarrow> nat list" where
  "message_addrs m n = map (\<lambda>i. wrap64 (unat m + i)) [0..<8 + n]"

lemma copyout_message_result:
  assumes "n \<le> length (mm_data msg)"
  shows "fst (copyout_message mem m msg n) = (if list_all (can_write mem) (message_addrs m n) then Ok () else Err EFAULT)"
proof -
  have m: "unat m = wrap64 (unat m)" using unsigned_less [of m, where ?'a = nat] by (simp add: wrap64_def)
  have m8: "user_add m 8 = wrap64 (unat m + 8)" by (simp add: user_add_def wrap64_def unat_word_ariths)
  have as: "message_addrs m n = map (\<lambda>i. wrap64 (unat m + i)) [0..<8] @ map (\<lambda>i. wrap64 (unat m + 8 + i)) [0..<n]"
    unfolding message_addrs_def upt_8 by (simp add: comp_def add.assoc)
  obtain r mem1 where c: "copyout mem (le_sbytes 8 (mm_type msg)) (wrap64 (unat m)) = (r, mem1)" by fastforce
  note r = copyout_outcome [of mem "le_sbytes 8 (mm_type msg)" "unat m", unfolded c]
  show ?thesis
  proof (cases r)
    case (Ok x)
    then have w: "can_write mem1 = can_write mem" using copyout_Ok [of mem "le_sbytes 8 (mm_type msg)" "unat m" mem1] c by simp
    show ?thesis using r Ok c copyout_outcome [of mem1 "take n (mm_data msg)" "unat m + 8"] assms m m8
      by (auto simp: copyout_message_def as w split: if_splits)
  qed (use r c m in \<open>auto simp: copyout_message_def as split: if_splits\<close>)
qed

text \<open>The message a type argument selects: admissible, and before every other admissible one.\<close>

definition selected :: "int \<Rightarrow> bool \<Rightarrow> sysv_message list \<Rightarrow> nat \<Rightarrow> bool" where
  "selected msgtyp except ms i \<longleftrightarrow> i < length ms \<and> eligible msgtyp except (ms ! i) \<and>
     (\<forall>j < length ms. eligible msgtyp except (ms ! j) \<longrightarrow>
        (if msgtyp < 0 then mm_type (ms ! i) < mm_type (ms ! j) \<or> (mm_type (ms ! i) = mm_type (ms ! j) \<and> i \<le> j) else i \<le> j))"

lemma find_matching_index_selected:
  assumes "msgtyp \<noteq> i64_min" and "list_ex (eligible msgtyp except) ms"
  shows "\<exists>i. find_matching_index ms msgtyp except = Ok (Some i) \<and> selected msgtyp except ms i"
proof -
  have "find_matching_index ms msgtyp except \<noteq> Panic" using assms(1) by (auto simp: find_matching_index_def Let_def split: option.splits)
  moreover have "find_matching_index ms msgtyp except \<noteq> Ok None" using find_matching_index_None [OF assms(1)] assms(2) by (auto simp: list_ex_iff)
  ultimately obtain i where "find_matching_index ms msgtyp except = Ok (Some i)"
    using find_matching_index_not_Err by (metis kres.exhaust option.exhaust)
  then show ?thesis using find_matching_index_Some unfolding selected_def by blast
qed

section \<open>Properties\<close>

text \<open>
  C23. The selection rule of \<open>msgrcv\<close>: the message chosen is one the type argument admits and no
  admissible message comes before it (for a negative argument: none has a smaller type, and none of the same
  type is older); nothing is chosen only if no queued message is admissible.
\<close>

theorem msgrcv_selection:
  assumes "msgtyp \<noteq> i64_min"
  shows "case find_matching_index ms msgtyp except of
      Ok (Some i) \<Rightarrow> i < length ms \<and> eligible msgtyp except (ms ! i)
        \<and> (\<forall>j < length ms. eligible msgtyp except (ms ! j) \<longrightarrow>
             (if msgtyp < 0 then mm_type (ms ! i) < mm_type (ms ! j) \<or> (mm_type (ms ! i) = mm_type (ms ! j) \<and> i \<le> j)
              else i \<le> j))
    | Ok None \<Rightarrow> \<forall>m \<in> set ms. \<not> eligible msgtyp except m
    | _ \<Rightarrow> False"
proof (cases "find_matching_index ms msgtyp except")
  case (Ok r)
  show ?thesis
  proof (cases r)
    case None
    have "\<forall>m \<in> set ms. \<not> eligible msgtyp except m"
      using Ok None find_matching_index_None [OF assms, of ms except] by blast
    then show ?thesis unfolding Ok None by (simp only: option.case kres.case)
  next
    case (Some i)
    show ?thesis
      unfolding Ok Some option.case kres.case by (rule find_matching_index_Some [OF Ok [unfolded Some]])
  qed
next
  case (Err e)
  then show ?thesis using find_matching_index_not_Err by blast
next
  case Panic
  then show ?thesis using assms by (auto simp: find_matching_index_def Let_def split: if_splits option.splits)
qed

definition ex_msg :: "int \<Rightarrow> nat \<Rightarrow> sysv_message" where
  "ex_msg t n = \<lparr> mm_type = t, mm_data = replicate n 7 \<rparr>"

theorem msgrcv_selection_witness:
  "find_matching_index [ex_msg 5 1, ex_msg 3 2, ex_msg 3 4] (- 4) False = Ok (Some 1)
   \<and> eligible (- 4) False (ex_msg 3 2) \<and> \<not> eligible (- 4) False (ex_msg 5 1)"
proof -
  let ?ms = "[ex_msg 5 1, ex_msg 3 2, ex_msg 3 4]"
  have found: "find_matching_index ?ms (- 4) False = Ok (Some 1)"
    by (simp add: find_matching_index_def ex_msg_def min_opt_def i64_min_def)
  have "- 4 \<noteq> i64_min" by (simp add: i64_min_def)
  from msgrcv_selection [OF this, of ?ms False]
  have "eligible (- 4) False (?ms ! 1)" unfolding found by simp
  moreover have "\<not> eligible (- 4) False (ex_msg 5 1)" by (simp add: eligible_def ex_msg_def)
  ultimately show ?thesis using found by simp
qed

text \<open>
  C7. A successful \<open>msgrcv\<close> delivers: the type and as much of the text as the length argument asks
  for are in the caller's buffer, nothing else in its memory changed, and, seen as one first-in-first-out
  queue per message type, the queue lost the head of one of them and kept every other message in order.
\<close>

theorem msgrcv_delivers:
  assumes "msgrcv_pass k st mem msqid flag m len msgtyp = (Return (Ok n), k', st', mem')"
  shows "\<exists>q q' msg c. bget (msg_queues st) msqid = Some q \<and> bget (msg_queues st') msqid = Some q'
    \<and> c = min (length (mm_data msg)) len \<and> n = word_of_nat c
    \<and> mem' = scatter mem (map (\<lambda>i. wrap64 (unat m + i)) [0..<8 + c]) (le_sbytes 8 (mm_type msg) @ take c (mm_data msg))
    \<and> eligible msgtyp (flag AND msg_except \<noteq> 0) msg
    \<and> (\<forall>t. by_type t (q_messages q) = (if t = mm_type msg then [msg] else []) @ by_type t (q_messages q'))"
  using assms
proof (cases rule: msgrcv_pass_cases)
  case (taken q idx copied)
  let ?msg = "q_messages q ! idx"
  let ?c = "min (length (mm_data ?msg)) len"
  have c: "copied = Ok ()" "n = word_of_nat ?c" using taken(5) by (cases copied; simp)+
  have mem: "mem' = scatter mem (map (\<lambda>i. wrap64 (unat m + i)) [0..<8 + ?c]) (le_sbytes 8 (mm_type ?msg) @ take ?c (mm_data ?msg))"
    using copyout_message_Ok taken(4) c(1) by simp
  note f = find_matching_index_Some [OF taken(2)]
  have fifo: "by_type t (q_messages q) =
      (if t = mm_type ?msg then [?msg] else []) @ by_type t (remove_at idx (q_messages q))" for t
    by (rule remove_first_of_type) (use f taken_is_oldest [OF taken(2)] in blast)+
  obtain q' where "bget (msg_queues st') msqid = Some q'" "q_messages q' = remove_at idx (q_messages q)"
    using taken(1,7) by simp
  then show ?thesis using taken(1) c mem f fifo by metis
qed auto

definition ex_queue :: "sysv_message list \<Rightarrow> msg_queue" where
  "ex_queue ms =
     \<lparr> q_key = 5, q_uid = 0, q_gid = 0, q_cuid = 0, q_cgid = 0, q_mode = 0x180, q_qbytes = 10,
       q_stime = 0, q_rtime = 0, q_ctime = 0, q_lspid = 0, q_lrpid = 0, q_messages = ms \<rparr>"

definition ex_msgs :: "sysv_message list \<Rightarrow> msg_state" where
  "ex_msgs ms = \<lparr> msg_next = 2, msg_queues = [(1, ex_queue ms)], msg_keys = [(5, 1)] \<rparr>"

lemma ex_msgs_inv: "msg_inv (ex_msgs ms)"
  by (auto simp: msg_inv_def ns_inv_def ex_msgs_def ex_queue_def bwf_def ipc_private_def split: if_splits)

lemma ex_copyout_message:
  assumes "m_writable mem = (\<lambda>_. True)" and "vm_minuser \<le> unat m" and "unat m + 8 + n \<le> vm_maxuser"
    and "n \<le> length (mm_data msg)"
  shows "fst (copyout_message mem m msg n) = Ok ()"
proof -
  have "unat m + 8 < 2 ^ 64" using assms(3) by (simp add: vm_maxuser_def)
  then have m8: "user_add m 8 = unat m + 8" by (simp add: user_add_def unat_word_ariths)
  let ?c = "copyout mem (le_sbytes 8 (mm_type msg)) (unat m)"
  have c: "fst ?c = Ok ()" "m_writable (snd ?c) = (\<lambda>_. True)"
    using ex_umem_copyout [OF assms(1,2), of "le_sbytes 8 (mm_type msg)"] assms(3) by simp_all
  have "fst (copyout (snd ?c) (take n (mm_data msg)) (user_add m 8)) = Ok ()"
    using ex_umem_copyout [OF c(2), of "unat m + 8" "take n (mm_data msg)"] assms(2-4) m8 by simp
  then show ?thesis using c(1) by (cases ?c) (simp add: copyout_message_def)
qed

theorem msgrcv_delivers_witness:
  "\<exists>k' st' mem'. msgrcv_pass ex_k (ex_msgs [ex_msg 5 1, ex_msg 3 2]) (ex_umem 0x2000 []) 1 0 0x2000 8 3
       = (Return (Ok 2), k', st', mem')
     \<and> (\<exists>q'. bget (msg_queues st') 1 = Some q' \<and> by_type 3 (q_messages q') = [] \<and> by_type 5 (q_messages q') = [ex_msg 5 1])"
proof -
  let ?r = "msgrcv_pass ex_k (ex_msgs [ex_msg 5 1, ex_msg 3 2]) (ex_umem 0x2000 []) 1 0 0x2000 8 3"
  let ?c = "copyout_message (ex_umem 0x2000 []) 0x2000 (ex_msg 3 2) 2"
  have "fst ?c = Ok ()"
    by (rule ex_copyout_message) (simp_all add: ex_umem_def vm_minuser_def vm_maxuser_def ex_msg_def)
  then have "fst ?r = Return (Ok 2)"
    by (cases ?c) (simp add: msgrcv_pass_def ex_msgs_def ex_queue_def msg_access_def ex_k_sel find_matching_index_def
        ex_msg_def)
  then obtain k' st' mem' where r: "?r = (Return (Ok 2), k', st', mem')" by (cases ?r) auto
  from msgrcv_delivers [OF r] obtain q' msg where q': "bget (msg_queues st') 1 = Some q'" "eligible 3 False msg"
      "\<forall>t. by_type t [ex_msg 5 1, ex_msg 3 2] = (if t = mm_type msg then [msg] else []) @ by_type t (q_messages q')"
    by (auto simp: ex_msgs_def ex_queue_def)
  have "mm_type msg = 3" using q'(2) by (simp add: eligible_def)
  then have "by_type 3 (q_messages q') = [] \<and> by_type 5 (q_messages q') = [ex_msg 5 1]"
    using q'(3) [THEN spec, of 3] q'(3) [THEN spec, of 5] by (simp add: by_type_def ex_msg_def)
  then show ?thesis using r q'(1) by blast
qed

lemma recv_stuck_not_granted:
  assumes "recv_stuck x (msqid, flag, msgtyp)"
  shows "fst (msgrcv_pass k (x_msg x) mem msqid flag m len msgtyp) \<noteq> Return (Ok n)"
proof
  assume a: "fst (msgrcv_pass k (x_msg x) mem msqid flag m len msgtyp) = Return (Ok n)"
  obtain q where q: "bget (msg_queues (x_msg x)) msqid = Some q"
      "find_matching_index (q_messages q) msgtyp (flag AND msg_except \<noteq> 0) = Ok None"
    using assms find_matching_index_None unfolding recv_stuck_def by auto
  then show False using a by (auto simp: msgrcv_pass_def Let_def split: if_splits)
qed

text \<open>
  C9. No receiver is forgotten: whatever the order of the calls, a process blocked in \<open>msgrcv\<close> waits
  on a queue that holds no message for it; run again, its call would not succeed.
\<close>

theorem msgrcv_no_lost_wakeup:
  assumes "msg_step\<^sup>*\<^sup>* x x'" and "msg_inv (x_msg x)" and "\<forall>pid. x_recvs x pid = None"
    and "x_recvs x' pid = Some (msqid, flag, msgtyp)" and "blocked_as (x_core x') pid (recv_reason msqid)"
  shows "fst (msgrcv_pass k (x_msg x') mem msqid flag m len msgtyp) \<noteq> Return (Ok n)"
  by (rule recv_stuck_not_granted, rule msg_recv.no_lost_wakeup [OF assms(1,2)])
    (use assms(3-5) in \<open>auto simp: recv_waiting_def\<close>)

theorem msgrcv_no_lost_wakeup_witness:
  "\<exists>x'. msg_step\<^sup>*\<^sup>* \<lparr> x_msg = ex_msgs [ex_msg 5 1], x_core = ex_k, x_sends = \<lambda>_. None, x_recvs = \<lambda>_. None \<rparr> x' \<and>
     blocked_as (x_core x') 2 (recv_reason 1) \<and>
     fst (msgrcv_pass ex_k (x_msg x') (ex_umem 0x2000 []) 1 0 0x2000 8 3) \<noteq> Return (Ok 1)"
proof -
  let ?x = "\<lparr> x_msg = ex_msgs [ex_msg 5 1], x_core = ex_k, x_sends = \<lambda>_. None, x_recvs = \<lambda>_. None \<rparr>"
  let ?k = "block_current (recv_reason 1) ex_k"
  let ?x' = "\<lparr> x_msg = ex_msgs [ex_msg 5 1], x_core = ?k, x_sends = (\<lambda>_. None)(2 := None),
     x_recvs = (\<lambda>_. None)(2 := Some (1, 0, 3)) \<rparr>"
  have "msgrcv_pass ex_k (ex_msgs [ex_msg 5 1]) (ex_umem 0x2000 []) 1 0 0x2000 8 3
      = (Sleep, ?k, ex_msgs [ex_msg 5 1], ex_umem 0x2000 [])"
    by (simp add: msgrcv_pass_def ex_msgs_def ex_queue_def msg_access_def ex_k_sel find_matching_index_def ex_msg_def)
  then have step: "msg_step\<^sup>*\<^sup>* ?x ?x'"
    using msg_step.msgrcv [of ?x _ 1 0 "0x2000" 8 3 Sleep ?k] by (simp add: ex_k_sel r_into_rtranclp)
  have blocked: "blocked_as ?k 2 (recv_reason 1)"
    unfolding blocked_as_block_current by (simp add: ex_k_sel)
  have "fst (msgrcv_pass ex_k (x_msg ?x') (ex_umem 0x2000 []) 1 0 0x2000 8 3) \<noteq> Return (Ok 1)"
    by (rule msgrcv_no_lost_wakeup [OF step, of 2]) (use ex_msgs_inv blocked in \<open>simp_all\<close>)
  with step blocked show ?thesis by (intro exI [of _ ?x']) simp
qed

lemma send_stuck_not_granted:
  assumes "send_stuck x (msqid, mtype, data)"
  shows "fst (msgsnd_pass k (x_msg x) msqid mtype data flag) \<noteq> Return (Ok n)"
  using assms unfolding send_stuck_def msgsnd_pass_def Let_def by (auto split: if_splits)

text \<open>
  C25. No sender is forgotten as long as no queue's byte limit is raised: a process blocked in
  \<open>msgsnd\<close> waits on a queue that has no room for its message.
\<close>

theorem msgsnd_no_lost_wakeup:
  assumes "msg_step_kept\<^sup>*\<^sup>* x x'" and "msg_inv (x_msg x)" and "\<forall>pid. x_sends x pid = None"
    and "x_sends x' pid = Some (msqid, mtype, data)" and "blocked_as (x_core x') pid (send_reason msqid)"
  shows "fst (msgsnd_pass k (x_msg x') msqid mtype data flag) \<noteq> Return (Ok n)"
  by (rule send_stuck_not_granted, rule msg_send.no_lost_wakeup [OF assms(1,2)])
    (use assms(3-5) in \<open>auto simp: send_waiting_def\<close>)

text \<open>The process that waits in the two examples that follow: a queue of ten bytes that holds eight.\<close>

lemma ex_send_sleeps:
  "msgsnd_pass ex_k (ex_msgs [ex_msg 5 8]) 1 5 [1, 2, 3] 0
     = (Sleep, block_current (send_reason 1) ex_k, ex_msgs [ex_msg 5 8])"
  by (simp add: msgsnd_pass_def ex_msgs_def ex_queue_def msg_access_def ex_k_sel ex_msg_def cbytes_def)

theorem msgsnd_no_lost_wakeup_witness:
  "\<exists>x'. msg_step_kept\<^sup>*\<^sup>* \<lparr> x_msg = ex_msgs [ex_msg 5 8], x_core = ex_k, x_sends = \<lambda>_. None, x_recvs = \<lambda>_. None \<rparr> x' \<and>
     blocked_as (x_core x') 2 (send_reason 1) \<and>
     fst (msgsnd_pass ex_k (x_msg x') 1 5 [1, 2, 3] 0) \<noteq> Return (Ok 0)"
proof -
  let ?x = "\<lparr> x_msg = ex_msgs [ex_msg 5 8], x_core = ex_k, x_sends = \<lambda>_. None, x_recvs = \<lambda>_. None \<rparr>"
  let ?k = "block_current (send_reason 1) ex_k"
  let ?x' = "\<lparr> x_msg = ex_msgs [ex_msg 5 8], x_core = ?k, x_sends = (\<lambda>_. None)(2 := Some (1, 5, [1, 2, 3])),
     x_recvs = (\<lambda>_. None)(2 := None) \<rparr>"
  have "msg_step ?x ?x'"
    using ex_send_sleeps msg_step.msgsnd [of ?x 1 5 "[1, 2, 3]" 0 Sleep ?k] by (simp add: ex_k_sel)
  then have step: "msg_step_kept\<^sup>*\<^sup>* ?x ?x'"
    by (intro r_into_rtranclp) (auto simp: msg_step_kept_def limits_kept_def)
  have blocked: "blocked_as ?k 2 (send_reason 1)"
    unfolding blocked_as_block_current by (simp add: ex_k_sel)
  have "fst (msgsnd_pass ex_k (x_msg ?x') 1 5 [1, 2, 3] 0) \<noteq> Return (Ok 0)"
    by (rule msgsnd_no_lost_wakeup [OF step, of 2]) (use ex_msgs_inv blocked in \<open>simp_all\<close>)
  with step blocked show ?thesis by (intro exI [of _ ?x']) simp
qed

text \<open>
  C34. Raising a queue's limit with \<open>msgctl(IPC_SET)\<close> wakes nobody: a sender that slept for want of
  room stays asleep although its message would now be accepted.
\<close>

theorem ipc_set_strands_sender:
  assumes "msgsnd_pass k st msqid mtype data flag = (Sleep, k1, st)"
    and "do_msgctl k2 st mem i ipc_set buf = (Ok 0, k3, st3, mem3)" and "as_i32 i = msqid"
    and "blocked_as k2 pid (send_reason msqid)"
    and "\<forall>bs q. copyin mem (unat buf) 120 = Ok bs \<longrightarrow> bget (msg_queues st) msqid = Some q \<longrightarrow>
           cbytes q + length data \<le> rm_qbytes (dec_msqid_ds bs)"
    and "current_uid k4 = 0"
  shows "blocked_as k3 pid (send_reason msqid)
    \<and> fst (msgsnd_pass k4 st3 msqid mtype data flag) = Return (Ok 0)"
proof -
  obtain q where q: "bget (msg_queues st) msqid = Some q"
    using msgsnd_sleep [OF assms(1)] by blast
  have "ipc_set AND NOT ipc_64 = ipc_set" by (simp add: ipc_set_def ipc_64_def)
  then obtain bs where bs: "copyin mem (unat buf) 120 = Ok bs" "k3 = k2"
      "st3 = st\<lparr>msg_queues := bupdate msqid (apply_ipc_set k2 (dec_msqid_ds bs)) (msg_queues st)\<rparr>"
    using assms(2,3) q by (auto simp: do_msgctl_def ipc_set_def ipc_stat_def split: if_splits kres.splits)
  have "cbytes q + length data \<le> rm_qbytes (dec_msqid_ds bs)" using assms(5) bs(1) q by blast
  then show ?thesis
    using bs(2,3) assms(4,6) q
    by (simp add: msgsnd_pass_def msg_access_def apply_ipc_set_def cbytes_def)
qed

definition ex_raised :: "u8 list" where
  "ex_raised = enc_msqid_ds ((msqid_ds (ex_queue [ex_msg 5 8]))\<lparr>rm_qbytes := 100\<rparr>)"

lemma length_ex_raised: "length ex_raised = 120"
  by (simp add: ex_raised_def enc_msqid_ds_def)

lemma ex_raised_qbytes: "rm_qbytes (dec_msqid_ds ex_raised) = 100"
  by (simp add: ex_raised_def enc_msqid_ds_def dec_msqid_ds_def field_def)

theorem ipc_set_strands_sender_witness:
  "\<exists>k3 st3 mem3. do_msgctl (block_current (send_reason 1) ex_k) (ex_msgs [ex_msg 5 8]) (ex_umem 0x2000 ex_raised) 1 ipc_set 0x2000
       = (Ok 0, k3, st3, mem3)
     \<and> blocked_as k3 2 (send_reason 1) \<and> fst (msgsnd_pass ex_k st3 1 5 [1, 2, 3] 0) = Return (Ok 0)"
proof -
  let ?k = "block_current (send_reason 1) ex_k"
  let ?r = "do_msgctl ?k (ex_msgs [ex_msg 5 8]) (ex_umem 0x2000 ex_raised) 1 ipc_set 0x2000"
  have copied: "copyin (ex_umem 0x2000 ex_raised) 0x2000 120 = Ok ex_raised"
    using copyin_holds [OF ex_umem_holds [of "0x2000" ex_raised]] length_ex_raised
    by (simp add: vm_minuser_def vm_maxuser_def)
  have one: "as_i32 1 = 1" by (simp add: as_i32_def)
  have uid: "current_uid ?k = 0"
    by (simp add: current_uid_def current_cred_def block_current_def ex_k_def cred_root_def)
  have "fst ?r = Ok 0"
    using copied uid
    by (simp add: do_msgctl_def one ipc_set_def ipc_stat_def ipc_64_def ex_msgs_def msg_owner_def
        is_owner_or_creator_def)
  then obtain k3 st3 mem3 where r: "?r = (Ok 0, k3, st3, mem3)" by (cases ?r) auto
  have blocked: "blocked_as ?k 2 (send_reason 1)" unfolding blocked_as_block_current by (simp add: ex_k_sel)
  have "blocked_as k3 2 (send_reason 1) \<and> fst (msgsnd_pass ex_k st3 1 5 [1, 2, 3] 0) = Return (Ok 0)"
    by (rule ipc_set_strands_sender [OF ex_send_sleeps r one blocked])
      (use copied ex_raised_qbytes in \<open>simp_all add: ex_k_sel ex_msgs_def ex_queue_def cbytes_def ex_msg_def\<close>)
  with r show ?thesis by blast
qed

text \<open>
  C35. What \<open>msgrcv\<close> decides, every outcome: \<open>EIDRM\<close> for a queue that is gone, \<open>EACCES\<close> for one the caller may not read; a
  panic exactly for the most negative type, \<open>LONG_MIN\<close>, whatever the queue holds. Otherwise, with no admissible
  message, \<open>ENOMSG\<close> or sleep; else the selected message decides. Too long for the caller, who did not ask for it to be cut,
  it is \<open>E2BIG\<close> and stays; otherwise it leaves the queue, and the call returns the length copied, or
  \<open>EFAULT\<close> exactly when an address of the caller's buffer cannot be written. No sender is left asleep then.
\<close>

theorem msgrcv_decides:
  assumes "bget (k_table k) (k_current k) \<noteq> None"
  shows "case bget (msg_queues st) msqid of
      None \<Rightarrow> msgrcv_pass k st mem msqid flag m len msgtyp = (Return (Err EIDRM), k, st, mem)
    | Some q \<Rightarrow>
        if \<not> msg_access q (current_uid k) (current_gid k) False
        then msgrcv_pass k st mem msqid flag m len msgtyp = (Return (Err EACCES), k, st, mem)
        else if msgtyp = i64_min then msgrcv_pass k st mem msqid flag m len msgtyp = (Return Panic, k, st, mem)
        else if \<not> list_ex (eligible msgtyp (flag AND msg_except \<noteq> 0)) (q_messages q)
        then (if flag AND ipc_nowait \<noteq> 0
              then msgrcv_pass k st mem msqid flag m len msgtyp = (Return (Err ENOMSG), k, st, mem)
              else \<exists>k'. msgrcv_pass k st mem msqid flag m len msgtyp = (Sleep, k', st, mem)
                \<and> blocked_as k' (k_current k) (recv_reason msqid))
        else \<exists>i. selected msgtyp (flag AND msg_except \<noteq> 0) (q_messages q) i \<and>
          (let msg = q_messages q ! i; c = min (length (mm_data msg)) len in
           if len < length (mm_data msg) \<and> flag AND msg_noerror = 0
           then msgrcv_pass k st mem msqid flag m len msgtyp = (Return (Err E2BIG), k, st, mem)
           else \<exists>k' st' mem' q'. msgrcv_pass k st mem msqid flag m len msgtyp =
               (Return (if list_all (can_write mem) (message_addrs m c) then Ok (word_of_nat c) else Err EFAULT), k', st', mem')
             \<and> bget (msg_queues st') msqid = Some q' \<and> q_messages q' = remove_at i (q_messages q)
             \<and> (\<forall>pid. \<not> blocked_as k' pid (send_reason msqid)))"
proof (cases "bget (msg_queues st) msqid")
  case None
  then show ?thesis by (simp add: msgrcv_pass_def)
next
  case (Some q)
  let ?ex = "flag AND msg_except \<noteq> 0"
  show ?thesis
  proof (cases "msg_access q (current_uid k) (current_gid k) False \<and> msgtyp \<noteq> i64_min")
    case False
    then show ?thesis using Some by (auto simp: msgrcv_pass_def find_matching_index_def i64_min_def)
  next
    case ok: True
    show ?thesis
    proof (cases "list_ex (eligible msgtyp ?ex) (q_messages q)")
      case False
      then have "find_matching_index (q_messages q) msgtyp ?ex = Ok None"
        using find_matching_index_None ok by (auto simp: list_ex_iff)
      then show ?thesis using Some ok False assms by (auto simp: msgrcv_pass_def blocked_as_block_current)
    next
      case True
      then obtain i where i: "find_matching_index (q_messages q) msgtyp ?ex = Ok (Some i)" "selected msgtyp ?ex (q_messages q) i"
        using find_matching_index_selected ok by blast
      let ?msg = "q_messages q ! i" and ?c = "min (length (mm_data (q_messages q ! i))) len"
      obtain r mem' where r: "copyout_message mem m ?msg ?c = (r, mem')" by fastforce
      then have "r = (if list_all (can_write mem) (message_addrs m ?c) then Ok () else Err EFAULT)"
        using copyout_message_result [of ?c ?msg mem m] by simp
      then have rr: "bind_kres r (\<lambda>_. Ok (word_of_nat ?c)) =
          (if list_all (can_write mem) (message_addrs m ?c) then Ok (word_of_nat ?c) else Err EFAULT)" by simp
      have body: "let msg = ?msg; c = min (length (mm_data msg)) len in
           if len < length (mm_data msg) \<and> flag AND msg_noerror = 0
           then msgrcv_pass k st mem msqid flag m len msgtyp = (Return (Err E2BIG), k, st, mem)
           else \<exists>k' st' mem' q'. msgrcv_pass k st mem msqid flag m len msgtyp =
               (Return (if list_all (can_write mem) (message_addrs m c) then Ok (word_of_nat c) else Err EFAULT), k', st', mem')
             \<and> bget (msg_queues st') msqid = Some q' \<and> q_messages q' = remove_at i (q_messages q)
             \<and> (\<forall>pid. \<not> blocked_as k' pid (send_reason msqid))"
      proof (cases "len < length (mm_data ?msg) \<and> flag AND msg_noerror = 0")
        case True
        then show ?thesis using Some ok i(1) by (simp add: msgrcv_pass_def Let_def)
      next
        case False
        define st' where "st' = st\<lparr>msg_queues := bupdate msqid (\<lambda>q. q\<lparr>q_messages := remove_at i (q_messages q),
            q_lrpid := k_current k, q_rtime := int (k_epoch k)\<rparr>) (msg_queues st)\<rparr>"
        have "msgrcv_pass k st mem msqid flag m len msgtyp =
            (Return (bind_kres r (\<lambda>_. Ok (word_of_nat ?c))), wake_msg_senders msqid k, st', mem')"
          unfolding st'_def msgrcv_pass_def Let_def using Some ok i(1) r by (simp only: option.case kres.case if_not_P [OF False] prod.case) simp
        moreover have "\<exists>q'. bget (msg_queues st') msqid = Some q' \<and> q_messages q' = remove_at i (q_messages q)"
          unfolding st'_def using Some by (simp add: bget_bupdate)
        moreover have "\<not> blocked_as (wake_msg_senders msqid k) pid (send_reason msqid)" for pid by (simp add: blocked_wake_msg)
        ultimately show ?thesis unfolding Let_def rr if_not_P [OF False] by blast
      qed
      have n: "\<not> \<not> msg_access q (current_uid k) (current_gid k) False" "msgtyp \<noteq> i64_min" "\<not> \<not> list_ex (eligible msgtyp ?ex) (q_messages q)"
        using ok True by auto
      show ?thesis unfolding Some option.case if_not_P [OF n(1)] if_not_P [OF n(2)] if_not_P [OF n(3)]
        using i(2) body by blast
    qed
  qed
qed

theorem msgrcv_decides_witness:
  "msgrcv_pass ex_k (ex_msgs []) (ex_umem 0x2000 []) 1 0 0x2000 8 i64_min = (Return Panic, ex_k, ex_msgs [], ex_umem 0x2000 [])
   \<and> msgrcv_pass ex_k (ex_msgs [ex_msg 5 3]) (ex_umem 0x2000 []) 1 0 0x2000 2 5
       = (Return (Err E2BIG), ex_k, ex_msgs [ex_msg 5 3], ex_umem 0x2000 [])"
proof -
  have c: "bget (k_table ex_k) (k_current ex_k) \<noteq> None" by (simp add: ex_k_sel)
  have q: "bget (msg_queues (ex_msgs ms)) 1 = Some (ex_queue ms)" "msg_access (ex_queue ms) (current_uid ex_k) (current_gid ex_k) False"
    "q_messages (ex_queue ms) = ms" for ms
    by (simp_all add: ex_msgs_def ex_queue_def ex_k_sel msg_access_def)
  show ?thesis
    using msgrcv_decides [OF c, where st = "ex_msgs []" and msqid = 1 and mem = "ex_umem 0x2000 []" and flag = 0 and m = "0x2000"
        and len = 8 and msgtyp = i64_min]
      msgrcv_decides [OF c, where st = "ex_msgs [ex_msg 5 3]" and msqid = 1 and mem = "ex_umem 0x2000 []" and flag = 0 and m = "0x2000"
        and len = 2 and msgtyp = 5]
    by (auto simp: Let_def q i64_min_def ex_msg_def eligible_def selected_def)
qed

end
