(* ===== verification/Vm_Map.thy ===== *)
theory Vm_Map
  imports User_Memory
begin

text \<open>
  The map of an address space's mappings (\<open>sys/process/vm_map.rs\<close>): page-aligned, disjoint entries
  keyed by their start address, each with its protection, maximum protection, sharing and backing, and
  the operations of \<open>mmap\<close>, \<open>munmap\<close>, \<open>mprotect\<close>, the heap and the stack on them.

  Addresses and lengths are natural numbers below $2^{64}$; \<open>v_size\<close> is an integer, so that an
  underflow of the counter would show as a negative value. An operation returns \<^const>\<open>None\<close> where the
  code panics (an \<open>unwrap\<close> of nothing) or does not return; that it never does from a well-formed map is
  part of what is proved.

  The specification is the function \<open>vm_at\<close> from addresses to what is mapped there; each operation is
  shown to change that function on its range and nowhere else. \<open>find_space\<close> is shown to return the
  lowest free range, and its cursor, which skips the full part of the map, not to change its answer.
\<close>

section \<open>State\<close>

definition page :: nat where "page = 4096"

datatype vm_kind =
    VAnon
  | VFile nat nat nat
  | VPhys
  | VShm int
  | VStack
  | VHeap
  | VText nat nat
  | VKernel

record vm_entry =
  e_end :: nat
  e_prot :: u8
  e_max_prot :: u8
  e_shared :: bool
  e_kind :: vm_kind

fun shift_kind :: "nat \<Rightarrow> vm_kind \<Rightarrow> vm_kind" where
  "shift_kind pages (VFile content pg eof_page) = VFile content (pg + pages) eof_page"
| "shift_kind pages (VText content pg) = VText content (pg + pages)"
| "shift_kind pages k = k"

definition entry_tail :: "vm_entry \<Rightarrow> nat \<Rightarrow> nat \<Rightarrow> nat \<times> vm_entry" where
  "entry_tail e start at = (at, e\<lparr>e_kind := shift_kind ((at - start) div page) (e_kind e)\<rparr>)"

datatype map_error = Overlap | Unmapped | Exceeds | Invalid | KernelRange

datatype 'a map_res = MOk 'a | MErr map_error

type_synonym vm_entries = "(nat, vm_entry) bmap"

record vm_map =
  v_entries :: vm_entries
  v_size :: int
  v_cursor :: "nat \<times> nat"

definition vm_map_new :: vm_map where
  "vm_map_new = \<lparr> v_entries = [], v_size = 0, v_cursor = (0, 0) \<rparr>"

definition bad_range :: "nat \<Rightarrow> nat \<Rightarrow> bool" where
  "bad_range start fin \<longleftrightarrow> start mod page \<noteq> 0 \<or> fin mod page \<noteq> 0 \<or> fin \<le> start"

definition counted :: "vm_entry \<Rightarrow> nat \<Rightarrow> int" where
  "counted e start = (if e_kind e = VKernel \<or> e_kind e = VStack then 0 else int (e_end e) - int start)"

section \<open>Queries\<close>

definition vm_lookup :: "vm_entries \<Rightarrow> nat \<Rightarrow> (nat \<times> vm_entry) option" where
  "vm_lookup m addr =
     (case blast_le addr m of
        None \<Rightarrow> None
      | Some (start, e) \<Rightarrow> if addr < e_end e then Some (start, e) else None)"

definition vm_overlaps :: "vm_entries \<Rightarrow> nat \<Rightarrow> nat \<Rightarrow> bool" where
  "vm_overlaps m start fin \<longleftrightarrow>
     (case blast_lt start m of Some (_, e) \<Rightarrow> start < e_end e | None \<Rightarrow> False) \<or> brange start fin m \<noteq> []"

lemma vm_lookup_less: "vm_lookup m at = Some (s, e) \<Longrightarrow> at < e_end e"
  by (simp add: vm_lookup_def split: option.splits prod.splits if_splits)

function vm_covered :: "vm_entries \<Rightarrow> nat \<Rightarrow> nat \<Rightarrow> bool" where
  "vm_covered m at fin =
     (if at < fin then case vm_lookup m at of Some (_, e) \<Rightarrow> vm_covered m (e_end e) fin | None \<Rightarrow> False
      else True)"
  by auto
termination by (relation "measure (\<lambda>(m, at, fin). fin - at)") (auto dest: vm_lookup_less)

definition touches_kernel :: "vm_entries \<Rightarrow> nat \<Rightarrow> nat \<Rightarrow> bool" where
  "touches_kernel m start fin \<longleftrightarrow>
     (case vm_lookup m start of Some (_, e) \<Rightarrow> e_kind e = VKernel | None \<Rightarrow> False)
       \<or> list_ex (\<lambda>(_, e). e_kind e = VKernel) (brange start fin m)"

section \<open>Updates\<close>

text \<open>The cursor walks over entries that start where it is.\<close>

partial_function (option) cursor_walk :: "vm_entries \<Rightarrow> nat \<Rightarrow> nat option" where
  "cursor_walk m at = (case bget m at of None \<Rightarrow> Some at | Some e \<Rightarrow> cursor_walk m (e_end e))"

definition vm_insert :: "nat \<Rightarrow> vm_entry \<Rightarrow> vm_map \<Rightarrow> vm_map map_res option" where
  "vm_insert start entry m =
     (if bad_range start (e_end entry) then Some (MErr Invalid)
      else if vm_overlaps (v_entries m) start (e_end entry) then Some (MErr Overlap)
      else let ents = binsert start entry (v_entries m); (base, at) = v_cursor m
           in map_option (\<lambda>at'. MOk \<lparr> v_entries = ents, v_size = v_size m + counted entry start,
                                      v_cursor = (base, at') \<rparr>) (cursor_walk ents at))"

definition split_at :: "nat \<Rightarrow> vm_entries \<Rightarrow> vm_entries" where
  "split_at at m =
     (case vm_lookup m at of
        None \<Rightarrow> m
      | Some (start, e) \<Rightarrow>
          if start = at then m
          else let (tail_start, tl_e) = entry_tail e start at
               in binsert tail_start tl_e (bupdate start (\<lambda>e. e\<lparr>e_end := at\<rparr>) m))"

definition freed :: "nat \<Rightarrow> nat \<times> nat \<Rightarrow> nat \<times> nat" where
  "freed at c = (case c of (base, cur) \<Rightarrow> if at < cur then (base, max at base) else c)"

fun remove_keys :: "nat list \<Rightarrow> vm_entries \<Rightarrow> int \<Rightarrow> (nat \<times> vm_entry) list
    \<Rightarrow> (vm_entries \<times> int \<times> (nat \<times> vm_entry) list) option" where
  "remove_keys [] m sz out = Some (m, sz, out)"
| "remove_keys (k # ks) m sz out =
     (case bget m k of
        None \<Rightarrow> None
      | Some e \<Rightarrow> remove_keys ks (bremove k m) (sz - counted e k) (out @ [(k, e)]))"

definition vm_remove :: "nat \<Rightarrow> nat \<Rightarrow> vm_map \<Rightarrow> ((nat \<times> vm_entry) list \<times> vm_map) map_res option" where
  "vm_remove start fin m =
     (if bad_range start fin then Some (MErr Invalid)
      else if touches_kernel (v_entries m) start fin then Some (MErr KernelRange)
      else let ents = split_at fin (split_at start (v_entries m))
           in map_option (\<lambda>(ents', sz', out).
                MOk (out, \<lparr> v_entries = ents', v_size = sz', v_cursor = freed start (v_cursor m) \<rparr>))
                (remove_keys (bkeys (brange start fin ents)) ents (v_size m) []))"

text \<open>The loop over the entries of the range that looks for one whose maximum is exceeded.\<close>

function prot_allowed :: "vm_entries \<Rightarrow> nat \<Rightarrow> nat \<Rightarrow> u8 \<Rightarrow> bool option" where
  "prot_allowed m at fin prot =
     (if at < fin then
        case vm_lookup m at of
          None \<Rightarrow> None
        | Some (s, e) \<Rightarrow>
            if prot AND NOT (e_max_prot e) \<noteq> 0 then Some False
            else prot_allowed m (max (e_end e) (s + page)) fin prot
      else Some True)"
  by auto
termination by (relation "measure (\<lambda>(m, at, fin, prot). fin - at)") (auto dest: vm_lookup_less)

definition set_prot_range :: "nat \<Rightarrow> nat \<Rightarrow> u8 \<Rightarrow> vm_entries \<Rightarrow> vm_entries" where
  "set_prot_range start fin prot m =
     map (\<lambda>(s, e). (s, if start \<le> s \<and> s < fin then e\<lparr>e_prot := prot\<rparr> else e)) m"

definition vm_protect :: "nat \<Rightarrow> nat \<Rightarrow> u8 \<Rightarrow> vm_map \<Rightarrow> ((nat \<times> vm_entry) list \<times> vm_map) map_res option" where
  "vm_protect start fin prot m =
     (if bad_range start fin then Some (MErr Invalid)
      else if \<not> vm_covered (v_entries m) start fin then Some (MErr Unmapped)
      else if touches_kernel (v_entries m) start fin then Some (MErr KernelRange)
      else map_option (\<lambda>ok.
          if \<not> ok then MErr Exceeds
          else let ents = set_prot_range start fin prot (split_at fin (split_at start (v_entries m)))
               in MOk (brange start fin ents, m\<lparr>v_entries := ents\<rparr>))
        (prot_allowed (v_entries m) start fin prot))"

definition vm_set_end :: "nat \<Rightarrow> nat \<Rightarrow> vm_map \<Rightarrow> vm_map map_res" where
  "vm_set_end start new_end m =
     (case bget (v_entries m) start of
        None \<Rightarrow> MErr Unmapped
      | Some e \<Rightarrow>
          if new_end mod page \<noteq> 0 \<or> new_end < start then MErr Invalid
          else if e_end e < new_end \<and> vm_overlaps (v_entries m) (e_end e) new_end then MErr Overlap
          else let sz = v_size m - counted e start; cursor = freed new_end (v_cursor m) in
            if new_end = start
            then MOk \<lparr> v_entries = bremove start (v_entries m), v_size = sz, v_cursor = cursor \<rparr>
            else let e' = e\<lparr>e_end := new_end\<rparr> in
              MOk \<lparr> v_entries = bupdate start (\<lambda>e. e\<lparr>e_end := new_end\<rparr>) (v_entries m),
                    v_size = sz + counted e' start, v_cursor = cursor \<rparr>)"

definition vm_set_start :: "nat \<Rightarrow> nat \<Rightarrow> vm_map \<Rightarrow> vm_map map_res" where
  "vm_set_start start new_start m =
     (case bget (v_entries m) start of
        None \<Rightarrow> MErr Unmapped
      | Some e \<Rightarrow>
          if new_start mod page \<noteq> 0 \<or> e_end e \<le> new_start then MErr Invalid
          else if new_start < start \<and> vm_overlaps (v_entries m) new_start start then MErr Overlap
          else MOk \<lparr> v_entries = binsert new_start e (bremove start (v_entries m)),
                     v_size = v_size m - counted e start + counted e new_start,
                     v_cursor = freed start (v_cursor m) \<rparr>)"

declare vm_covered.simps [simp del] prot_allowed.simps [simp del]

section \<open>Finding space\<close>

definition last_fit :: "nat \<Rightarrow> nat \<Rightarrow> nat \<Rightarrow> nat option" where
  "last_fit len hi at =
     (case checked_add_u64 at len of None \<Rightarrow> None | Some x \<Rightarrow> if x \<le> hi then Some at else None)"

fun fit_loop :: "nat \<Rightarrow> nat \<Rightarrow> nat \<Rightarrow> (nat \<times> vm_entry) list \<Rightarrow> nat option" where
  "fit_loop len hi at [] = last_fit len hi at"
| "fit_loop len hi at ((s, e) # es) =
     (if hi \<le> s then last_fit len hi at
      else if s < at then None
      else if len \<le> s - at then Some at
      else fit_loop len hi (max at (e_end e)) es)"

definition page_up :: "nat \<Rightarrow> nat" where
  "page_up a = (a + (page - 1)) div page * page"

text \<open>\<open>next_multiple_of\<close> panics where the result does not fit.\<close>

definition first_fit :: "vm_entries \<Rightarrow> nat \<Rightarrow> nat \<Rightarrow> nat \<Rightarrow> nat \<Rightarrow> nat option kres" where
  "first_fit m len lo hi from =
     (let a0 = page_up (max from lo) in
      if u64_max < a0 then Panic
      else let at = (case vm_lookup m a0 of Some (_, e) \<Rightarrow> e_end e | None \<Rightarrow> a0)
           in Ok (fit_loop len hi at (filter (\<lambda>x. at \<le> fst x) m)))"

definition find_space :: "vm_map \<Rightarrow> nat \<Rightarrow> nat \<Rightarrow> nat \<Rightarrow> nat \<Rightarrow> nat \<Rightarrow> nat option kres" where
  "find_space m len hint base lo hi =
     (if len = 0 \<or> len mod page \<noteq> 0 then Ok None
      else let first = first_fit (v_entries m) len lo hi;
               hinted = (if hint \<noteq> 0 then first hint else Ok None)
           in bind_kres hinted (\<lambda>h.
                case h of
                  Some a \<Rightarrow> Ok (Some a)
                | None \<Rightarrow>
                    let from = (if fst (v_cursor m) = base then max (snd (v_cursor m)) base else base)
                    in bind_kres (first from) (\<lambda>r. case r of Some a \<Rightarrow> Ok (Some a) | None \<Rightarrow> first lo)))"

definition set_base :: "nat \<Rightarrow> vm_map \<Rightarrow> vm_map option" where
  "set_base base m =
     (let at = (case vm_lookup (v_entries m) base of Some (_, e) \<Rightarrow> e_end e | None \<Rightarrow> base)
      in map_option (\<lambda>at'. m\<lparr>v_cursor := (base, at')\<rparr>) (cursor_walk (v_entries m) at))"

section \<open>The callers that choose an address\<close>

definition mmap_region_base :: nat where "mmap_region_base = 0x200000000000"
definition mmap_region_ceiling :: nat where "mmap_region_ceiling = 0x300000000000"

definition check_as :: "vm_map \<Rightarrow> nat \<Rightarrow> nat \<Rightarrow> bool" where
  "check_as m extra as_limit \<longleftrightarrow> min (nat (v_size m) + extra) u64_max \<le> as_limit"

definition alloc_va :: "vm_map \<Rightarrow> nat \<Rightarrow> nat \<Rightarrow> nat \<Rightarrow> nat \<Rightarrow> nat kres" where
  "alloc_va m mmap_base len hint as_limit =
     (if \<not> check_as m len as_limit then Err ENOMEM
      else let hint' = (if mmap_region_base \<le> hint \<and> hint < mmap_region_ceiling then hint div page * page else 0)
           in bind_kres (find_space m len hint' mmap_base mmap_region_base mmap_region_ceiling)
                (\<lambda>r. case r of Some a \<Rightarrow> Ok a | None \<Rightarrow> Err ENOMEM))"

text \<open>\<open>reserve\<close>: choose the range and enter it in the map before any page is made.\<close>

definition vm_reserve ::
  "vm_map \<Rightarrow> nat \<Rightarrow> nat option \<Rightarrow> nat \<Rightarrow> nat \<Rightarrow> nat \<Rightarrow> (nat \<Rightarrow> vm_entry) \<Rightarrow> (nat kres \<times> vm_map)" where
  "vm_reserve m mmap_base fixed hint len as_limit entry =
     (case (case fixed of
              Some base \<Rightarrow> if check_as m len as_limit then Ok base else Err ENOMEM
            | None \<Rightarrow> alloc_va m mmap_base len hint as_limit) of
        Ok base \<Rightarrow>
          if u64_max < base + len then (Panic, m)
          else (case vm_insert base (entry (base + len)) m of
              Some (MOk m') \<Rightarrow> (Ok base, m')
            | Some (MErr _) \<Rightarrow> (Err ENOMEM, m)
            | None \<Rightarrow> (Panic, m))
      | Err e \<Rightarrow> (Err e, m)
      | Panic \<Rightarrow> (Panic, m))"

section \<open>What is mapped where\<close>

definition entries_ok :: "vm_entries \<Rightarrow> bool" where
  "entries_ok m \<longleftrightarrow> bwf m
     \<and> (\<forall>s e. bget m s = Some e \<longrightarrow> s mod page = 0 \<and> e_end e mod page = 0 \<and> s < e_end e \<and> e_end e \<le> u64_max)
     \<and> (\<forall>s e s' e'. bget m s = Some e \<longrightarrow> bget m s' = Some e' \<longrightarrow> s < s' \<longrightarrow> e_end e \<le> s')"

lemma entries_okI:
  assumes "bwf m"
    and "\<And>s e. bget m s = Some e \<Longrightarrow> s mod page = 0 \<and> e_end e mod page = 0 \<and> s < e_end e \<and> e_end e \<le> u64_max"
    and "\<And>s e s' e'. bget m s = Some e \<Longrightarrow> bget m s' = Some e' \<Longrightarrow> s < s' \<Longrightarrow> e_end e \<le> s'"
  shows "entries_ok m"
  using assms unfolding entries_ok_def by blast

lemma entries_okD:
  assumes "entries_ok m"
  shows "bwf m"
    and "bget m s = Some e \<Longrightarrow> s mod page = 0" and "bget m s = Some e \<Longrightarrow> e_end e mod page = 0"
    and "bget m s = Some e \<Longrightarrow> s < e_end e" and "bget m s = Some e \<Longrightarrow> e_end e \<le> u64_max"
    and "bget m s = Some e \<Longrightarrow> bget m s' = Some e' \<Longrightarrow> s < s' \<Longrightarrow> e_end e \<le> s'"
  using assms unfolding entries_ok_def by blast+

text \<open>The entry that contains an address.\<close>

definition holds_at :: "vm_entries \<Rightarrow> nat \<Rightarrow> nat \<Rightarrow> vm_entry \<Rightarrow> bool" where
  "holds_at m a s e \<longleftrightarrow> bget m s = Some e \<and> s \<le> a \<and> a < e_end e"

lemma holds_at_unique:
  assumes "entries_ok m" and "holds_at m a s e" and "holds_at m a s' e'"
  shows "s = s' \<and> e = e'"
proof -
  have "\<not> s < s'" using entries_okD(6) [OF assms(1), of s e s' e'] assms(2,3) by (auto simp: holds_at_def)
  moreover have "\<not> s' < s" using entries_okD(6) [OF assms(1), of s' e' s e] assms(2,3) by (auto simp: holds_at_def)
  ultimately show ?thesis using assms(2,3) by (simp add: holds_at_def)
qed

lemma vm_lookup_Some:
  assumes "entries_ok m"
  shows "vm_lookup m a = Some (s, e) \<longleftrightarrow> holds_at m a s e"
proof
  note wf = entries_okD(1) [OF assms]
  assume "vm_lookup m a = Some (s, e)"
  then have "blast_le a m = Some (s, e)" "a < e_end e"
    by (auto simp: vm_lookup_def split: option.splits if_splits)
  then show "holds_at m a s e" using blast_le_Some [OF wf] by (simp add: holds_at_def)
next
  note wf = entries_okD(1) [OF assms]
  assume h: "holds_at m a s e"
  then have s: "bget m s = Some e" "s \<le> a" "a < e_end e" by (simp_all add: holds_at_def)
  obtain s' e' where l: "blast_le a m = Some (s', e')"
    using blast_le_None [of a m s e] s by (cases "blast_le a m") auto
  have l': "bget m s' = Some e'" "s' \<le> a" "s \<le> s'" using blast_le_Some [OF wf l] s by auto
  have "\<not> s < s'" using entries_okD(6) [OF assms s(1) l'(1)] s l'(2) by linarith
  then have "s' = s" using l'(3) by linarith
  then have "s' = s" "e' = e" using l' s by auto
  then show "vm_lookup m a = Some (s, e)" using l s by (simp add: vm_lookup_def)
qed

lemma vm_lookup_None:
  assumes "entries_ok m"
  shows "vm_lookup m a = None \<longleftrightarrow> (\<forall>s e. \<not> holds_at m a s e)"
  using vm_lookup_Some [OF assms] by (metis not_None_eq surj_pair)

lemma vm_overlaps_iff:
  assumes "entries_ok m" and "start < fin"
  shows "vm_overlaps m start fin \<longleftrightarrow> (\<exists>s e. bget m s = Some e \<and> s < fin \<and> start < e_end e)"
proof
  note wf = entries_okD(1) [OF assms(1)]
  assume "vm_overlaps m start fin"
  then consider (below) s e where "blast_lt start m = Some (s, e)" "start < e_end e" | (within) "brange start fin m \<noteq> []"
    by (auto simp: vm_overlaps_def split: option.splits)
  then show "\<exists>s e. bget m s = Some e \<and> s < fin \<and> start < e_end e"
  proof cases
    case below
    then show ?thesis using blast_lt_Some [OF wf] assms(2) by (metis less_trans)
  next
    case within
    then obtain s e where "bget m s = Some e" "start \<le> s" "s < fin" by (auto simp: brange_empty_iff not_le)
    then show ?thesis using entries_okD(4) [OF assms(1), of s e] by (intro exI [of _ s] exI [of _ e]) simp
  qed
next
  note wf = entries_okD(1) [OF assms(1)]
  assume "\<exists>s e. bget m s = Some e \<and> s < fin \<and> start < e_end e"
  then obtain s e where s: "bget m s = Some e" "s < fin" "start < e_end e" by blast
  show "vm_overlaps m start fin"
  proof (cases "start \<le> s")
    case True
    then have "brange start fin m \<noteq> []" using s by (force simp: brange_empty_iff)
    then show ?thesis by (simp add: vm_overlaps_def)
  next
    case False
    then obtain s' e' where l: "blast_lt start m = Some (s', e')"
      using blast_lt_None [of start m s e] s by (cases "blast_lt start m") auto
    have l': "bget m s' = Some e'" "s' < start" "s \<le> s'" using blast_lt_Some [OF wf l] s False by auto
    have "\<not> s < s'" using entries_okD(6) [OF assms(1) s(1) l'(1)] s l'(2) by linarith
    then have "s' = s" using l'(3) by linarith
    then show ?thesis using l l' s by (simp add: vm_overlaps_def)
  qed
qed

text \<open>The abstract map: at each address, the protection, maximum, sharing and backing there. A file's or
  a segment's backing names the page of the file that holds the address.\<close>

type_synonym mapping_at = "u8 \<times> u8 \<times> bool \<times> vm_kind"

definition attrs :: "vm_entry \<Rightarrow> nat \<Rightarrow> nat \<Rightarrow> mapping_at" where
  "attrs e s a = (e_prot e, e_max_prot e, e_shared e, shift_kind ((a - s) div page) (e_kind e))"

lemma attrs_tuple [simp]: "\<exists>p mp sh k. attrs e s a = (p, mp, sh, k)"
  by (simp add: attrs_def)

definition vm_at :: "vm_entries \<Rightarrow> nat \<Rightarrow> mapping_at option" where
  "vm_at m a = map_option (\<lambda>(s, e). attrs e s a) (vm_lookup m a)"

lemma vm_at_holds: "entries_ok m \<Longrightarrow> holds_at m a s e \<Longrightarrow> vm_at m a = Some (attrs e s a)"
  by (simp add: vm_at_def vm_lookup_Some [THEN iffD2])

lemma vm_at_None: "entries_ok m \<Longrightarrow> vm_at m a = None \<longleftrightarrow> (\<forall>s e. \<not> holds_at m a s e)"
  by (simp add: vm_at_def vm_lookup_None)

lemma vm_at_not_None: "entries_ok m \<Longrightarrow> vm_at m a \<noteq> None \<longleftrightarrow> (\<exists>s e. holds_at m a s e)"
  by (simp add: vm_at_None)

text \<open>Two maps are equal at an address when the same entry holds it, or none does.\<close>

lemma vm_at_cong:
  assumes "entries_ok m" and "entries_ok m'" and "\<And>s e. holds_at m' a s e \<longleftrightarrow> holds_at m a s e"
  shows "vm_at m' a = vm_at m a"
proof (cases "\<exists>s e. holds_at m a s e")
  case True
  then obtain s e where "holds_at m a s e" by blast
  then show ?thesis using assms vm_at_holds by metis
next
  case False
  then show ?thesis using assms vm_at_None by metis
qed

lemma shift_shift [simp]: "shift_kind p (shift_kind q k) = shift_kind (q + p) k"
  by (cases k) simp_all

lemma shift_kind_0 [simp]: "shift_kind 0 k = k"
  by (cases k) simp_all

lemma shift_kind_special [simp]:
  "shift_kind p k = VKernel \<longleftrightarrow> k = VKernel" "shift_kind p k = VStack \<longleftrightarrow> k = VStack"
  by (cases k; simp)+

section \<open>Splitting\<close>

definition no_straddle :: "vm_entries \<Rightarrow> nat \<Rightarrow> bool" where
  "no_straddle m x \<longleftrightarrow> (\<forall>s e. bget m s = Some e \<longrightarrow> \<not> (s < x \<and> x < e_end e))"

abbreviation ent_total :: "vm_entries \<Rightarrow> int" where
  "ent_total m \<equiv> bsum (\<lambda>s e. counted e s) m"

definition cut_tail :: "vm_entry \<Rightarrow> nat \<Rightarrow> nat \<Rightarrow> vm_entry" where
  "cut_tail e s at = e\<lparr>e_kind := shift_kind ((at - s) div page) (e_kind e)\<rparr>"

lemma split_at_cases:
  assumes "entries_ok m"
  obtains (none) "split_at at m = m" "no_straddle m at"
  | (cut) s e where "bget m s = Some e" "s < at" "at < e_end e" "bget m at = None"
      "split_at at m = binsert at (cut_tail e s at) (bupdate s (\<lambda>e. e\<lparr>e_end := at\<rparr>) m)"
proof (cases "\<exists>s e. bget m s = Some e \<and> s < at \<and> at < e_end e")
  case True
  then obtain s e where s: "bget m s = Some e" "s < at" "at < e_end e" by blast
  then have "vm_lookup m at = Some (s, e)" using vm_lookup_Some [OF assms] by (simp add: holds_at_def)
  then have "split_at at m = binsert at (cut_tail e s at) (bupdate s (\<lambda>e. e\<lparr>e_end := at\<rparr>) m)"
    using s(2) by (simp add: split_at_def entry_tail_def cut_tail_def)
  moreover have "bget m at = None"
    using entries_okD(6) [OF assms s(1), of at] s by (cases "bget m at") auto
  ultimately show thesis using cut s by blast
next
  case False
  have "split_at at m = m"
  proof (cases "vm_lookup m at")
    case (Some p)
    obtain s e where p: "p = (s, e)" by (cases p)
    then have h: "bget m s = Some e" "s \<le> at" "at < e_end e"
      using Some vm_lookup_Some [OF assms, of at s e] by (simp_all add: holds_at_def)
    then have "s = at" using False by (metis order_le_less)
    then show ?thesis using Some p by (simp add: split_at_def)
  qed (simp add: split_at_def)
  then show thesis using none False by (auto simp: no_straddle_def)
qed

lemma cut_attrs:
  assumes "s mod page = 0" and "at mod page = 0" and "s \<le> at" and "at \<le> a"
  shows "attrs (cut_tail e s at) at a = attrs e s a"
proof -
  obtain j k where "s = page * j" "at = page * k" using assms(1,2) by (metis mod_0_imp_dvd dvdE)
  then have "(at - s) div page + (a - at) div page = (a - s) div page"
    using assms(3,4) by (simp add: page_def right_diff_distrib' [symmetric])
  then show ?thesis by (simp add: attrs_def cut_tail_def)
qed

lemma cut_sel [simp]:
  "e_end (cut_tail e s at) = e_end e" "e_max_prot (cut_tail e s at) = e_max_prot e"
  by (simp_all add: cut_tail_def)

definition is_cut :: "vm_entries \<Rightarrow> nat \<Rightarrow> vm_entry \<Rightarrow> nat \<Rightarrow> vm_entries \<Rightarrow> bool" where
  "is_cut m s e at m' \<longleftrightarrow> entries_ok m \<and> bget m s = Some e \<and> s < at \<and> at < e_end e \<and> bget m at = None
     \<and> at mod page = 0 \<and> m' = binsert at (cut_tail e s at) (bupdate s (\<lambda>e. e\<lparr>e_end := at\<rparr>) m)"

lemma is_cutD:
  assumes "is_cut m s e at m'"
  shows "entries_ok m" "bget m s = Some e" "s < at" "at < e_end e" "bget m at = None" "at mod page = 0"
    and "bget m' k = (if k = at then Some (cut_tail e s at) else if k = s then Some (e\<lparr>e_end := at\<rparr>) else bget m k)"
  using assms by (auto simp: is_cut_def)

lemma cut_others:
  assumes "is_cut m s e at m'" and "bget m k = Some f" and "k \<noteq> s"
  shows "e_end f \<le> s \<or> e_end e \<le> k"
  using entries_okD(6) [OF is_cutD(1) [OF assms(1)] is_cutD(2) [OF assms(1)] assms(2)]
    entries_okD(6) [OF is_cutD(1) [OF assms(1)] assms(2) is_cutD(2) [OF assms(1)]] assms(3) by linarith

lemma cut_ok:
  assumes "is_cut m s e at m'"
  shows "entries_ok m'"
proof (rule entries_okI)
  note c = is_cutD [OF assms]
  show "bwf m'" using entries_okD(1) [OF c(1)] assms by (auto simp: is_cut_def)
  fix k f assume "bget m' k = Some f"
  moreover have "at \<le> u64_max" using c(4) entries_okD(5) [OF c(1,2)] by simp
  ultimately show "k mod page = 0 \<and> e_end f mod page = 0 \<and> k < e_end f \<and> e_end f \<le> u64_max"
    using entries_okD(2-5) [OF c(1)] c(2-6) by (auto simp: c(7) split: if_splits)
next
  note c = is_cutD [OF assms]
  fix k f k' f' assume k: "bget m' k = Some f" "bget m' k' = Some f'" "k < k'"
  consider "k = at" | "k = s" "k' = at" | "k = s" "k' \<noteq> at" | "k \<noteq> s" "k \<noteq> at" "k' = at"
    | "k \<noteq> s" "k \<noteq> at" "k' = s" | "k \<noteq> s" "k \<noteq> at" "k' \<noteq> s" "k' \<noteq> at" by blast
  then show "e_end f \<le> k'"
  proof cases
    case 1
    then show ?thesis using k c(3) cut_others [OF assms, of k' f'] entries_okD(4) [OF c(1), of k' f']
      by (auto simp: c(7) split: if_splits)
  next
    case 3
    then show ?thesis using k c(3,4) cut_others [OF assms, of k' f'] entries_okD(4) [OF c(1), of k' f']
      by (auto simp: c(7) split: if_splits)
  next
    case 4
    then show ?thesis using k c(3,4) cut_others [OF assms, of k f] entries_okD(4) [OF c(1), of k f]
      by (auto simp: c(7) split: if_splits)
  next
    case 5
    then show ?thesis using k c(2) entries_okD(6) [OF c(1), of k f s e] by (auto simp: c(7))
  next
    case 6
    then show ?thesis using k entries_okD(6) [OF c(1), of k f k' f'] by (auto simp: c(7))
  qed (use k c(3) in \<open>auto simp: c(7)\<close>)
qed

lemma cut_holds:
  assumes "is_cut m s e at m'"
  shows "holds_at m' a k f \<longleftrightarrow>
    (if holds_at m a s e then (if a < at then k = s \<and> f = e\<lparr>e_end := at\<rparr> else k = at \<and> f = cut_tail e s at)
     else holds_at m a k f)"
proof -
  note c = is_cutD [OF assms]
  note u' = holds_at_unique [OF cut_ok [OF assms]]
  show ?thesis
  proof (cases "holds_at m a s e")
    case True
    have "holds_at m' a s (e\<lparr>e_end := at\<rparr>)" if "a < at"
      using True that c(3) by (simp add: holds_at_def c(7))
    moreover have "holds_at m' a at (cut_tail e s at)" if "\<not> a < at"
      using True that by (simp add: holds_at_def c(7))
    ultimately show ?thesis using True u' by (cases "a < at") auto
  next
    case False
    have "k \<noteq> s \<and> k \<noteq> at" if "holds_at m' a k f"
      using that False c(2,3,4) by (auto simp: holds_at_def c(7) split: if_splits)
    moreover have "k \<noteq> s \<and> k \<noteq> at" if "holds_at m a k f"
      using that False c(2,5) by (auto simp: holds_at_def)
    ultimately show ?thesis using False by (auto simp: holds_at_def c(7))
  qed
qed

lemma cut_vm_at:
  assumes "is_cut m s e at m'"
  shows "vm_at m' a = vm_at m a"
proof (cases "holds_at m a s e")
  case False
  then show ?thesis
    using vm_at_cong [OF is_cutD(1) [OF assms] cut_ok [OF assms]] cut_holds [OF assms] by simp
next
  case True
  note c = is_cutD [OF assms]
  have old: "vm_at m a = Some (attrs e s a)" by (rule vm_at_holds [OF c(1) True])
  show ?thesis
  proof (cases "a < at")
    case lt: True
    then have "holds_at m' a s (e\<lparr>e_end := at\<rparr>)" using True cut_holds [OF assms] by simp
    then show ?thesis using vm_at_holds [OF cut_ok [OF assms]] old by (simp add: attrs_def)
  next
    case False
    then have "holds_at m' a at (cut_tail e s at)" using True cut_holds [OF assms] by simp
    then have "vm_at m' a = Some (attrs (cut_tail e s at) at a)" by (rule vm_at_holds [OF cut_ok [OF assms]])
    then show ?thesis
      using old cut_attrs [OF entries_okD(2) [OF c(1,2)] c(6)] c(3) False by simp
  qed
qed

lemma cut_total:
  assumes "is_cut m s e at m'"
  shows "ent_total m' = ent_total m"
proof -
  note c = is_cutD [OF assms]
  note wf = entries_okD(1) [OF c(1)]
  have "ent_total m' = ent_total (bupdate s (\<lambda>e. e\<lparr>e_end := at\<rparr>) m) + counted (cut_tail e s at) at"
    using assms wf c(3,5) by (simp add: is_cut_def bsum_binsert)
  also have "ent_total (bupdate s (\<lambda>e. e\<lparr>e_end := at\<rparr>) m) = ent_total m - counted e s + counted (e\<lparr>e_end := at\<rparr>) s"
    unfolding bupdate_as_insert [OF wf c(2)] using bsum_binsert [OF wf] c(2) by simp
  finally show ?thesis using c(3,4) by (auto simp: counted_def cut_tail_def)
qed

lemma split_at_spec:
  assumes "entries_ok m" and "at mod page = 0"
  shows "entries_ok (split_at at m) \<and> (\<forall>a. vm_at (split_at at m) a = vm_at m a)
    \<and> no_straddle (split_at at m) at \<and> (\<forall>x. no_straddle m x \<longrightarrow> no_straddle (split_at at m) x)
    \<and> ent_total (split_at at m) = ent_total m"
  using assms(1)
proof (cases rule: split_at_cases [of _ at])
  case none
  then show ?thesis using assms(1) by simp
next
  case (cut s e)
  then have c: "is_cut m s e at (split_at at m)" using assms by (simp add: is_cut_def)
  note d = is_cutD [OF c]
  have here: "no_straddle (split_at at m) at"
    unfolding no_straddle_def
  proof (intro allI impI)
    fix k f assume k: "bget (split_at at m) k = Some f"
    show "\<not> (k < at \<and> at < e_end f)"
      using k d(3,4) cut_others [OF c, of k f] by (auto simp: d(7) split: if_splits)
  qed
  have there: "no_straddle (split_at at m) x" if "no_straddle m x" for x
    unfolding no_straddle_def
  proof (intro allI impI)
    fix k f assume k: "bget (split_at at m) k = Some f"
    show "\<not> (k < x \<and> x < e_end f)"
      using k that d(2-4) by (auto simp: d(7) no_straddle_def split: if_splits) fastforce+
  qed
  show ?thesis using cut_ok [OF c] cut_vm_at [OF c] cut_total [OF c] here there by simp
qed

section \<open>The invariant\<close>

definition cursor_full :: "vm_entries \<Rightarrow> nat \<times> nat \<Rightarrow> bool" where
  "cursor_full m c \<longleftrightarrow> (case c of (base, at) \<Rightarrow> base \<le> at \<and> (at = base \<or> at mod page = 0 \<and> at \<le> u64_max)
     \<and> (\<forall>a. base \<le> a \<longrightarrow> a < at \<longrightarrow> vm_at m a \<noteq> None))"

definition vm_inv :: "vm_map \<Rightarrow> bool" where
  "vm_inv m \<longleftrightarrow> entries_ok (v_entries m) \<and> v_size m = ent_total (v_entries m) \<and> cursor_full (v_entries m) (v_cursor m)"

lemma vm_invD:
  assumes "vm_inv m"
  shows "entries_ok (v_entries m)" "v_size m = ent_total (v_entries m)" "cursor_full (v_entries m) (v_cursor m)"
  using assms by (simp_all add: vm_inv_def)

lemma vm_inv_new: "vm_inv vm_map_new"
  by (simp add: vm_inv_def vm_map_new_def entries_ok_def cursor_full_def)

lemma size_nonneg: "vm_inv m \<Longrightarrow> 0 \<le> v_size m"
  using bsum_nonneg [of "v_entries m" "\<lambda>s e. counted e s"] entries_okD(1,4) [of "v_entries m"]
  by (simp add: vm_inv_def counted_def less_imp_le)

lemma cursor_walk_spec:
  assumes "entries_ok m"
  shows "\<exists>at'. cursor_walk m at = Some at' \<and> at \<le> at' \<and> (at' = at \<or> at' mod page = 0 \<and> at' \<le> u64_max)
    \<and> (\<forall>a. at \<le> a \<longrightarrow> a < at' \<longrightarrow> vm_at m a \<noteq> None)"
proof (induction "Suc u64_max - at" arbitrary: at rule: less_induct)
  case less
  show ?case
  proof (cases "bget m at")
    case None
    then have "cursor_walk m at = Some at" by (subst cursor_walk.simps) simp
    then show ?thesis by (intro exI [of _ at]) simp
  next
    case (Some e)
    note e = entries_okD(4,5,3) [OF assms Some]
    then have "Suc u64_max - e_end e < Suc u64_max - at" by simp
    from less [OF this] obtain at' where at': "cursor_walk m (e_end e) = Some at'" "e_end e \<le> at'"
        "at' = e_end e \<or> at' mod page = 0 \<and> at' \<le> u64_max" "\<forall>a. e_end e \<le> a \<longrightarrow> a < at' \<longrightarrow> vm_at m a \<noteq> None" by (elim exE conjE) (rule that)
    have "vm_at m a \<noteq> None" if "at \<le> a" "a < at'" for a
    proof (cases "a < e_end e")
      case True
      then have "holds_at m a at e" using that Some by (simp add: holds_at_def)
      then show ?thesis using vm_at_holds [OF assms] by simp
    next
      case False
      then show ?thesis using at'(4) that by simp
    qed
    moreover have "cursor_walk m at = Some at'" using Some at'(1) by (subst cursor_walk.simps) simp
    moreover have "at' mod page = 0 \<and> at' \<le> u64_max" using at'(3) e by auto
    moreover have "at \<le> at'" using at'(2) e(1) by simp
    ultimately show ?thesis by (intro exI [of _ at']) simp
  qed
qed

lemma freed_full:
  assumes "cursor_full m c" and "\<And>a. a < at \<Longrightarrow> vm_at m a \<noteq> None \<Longrightarrow> vm_at m' a \<noteq> None"
    and "\<And>a. vm_at m a \<noteq> None \<Longrightarrow> snd c \<le> at \<Longrightarrow> a < snd c \<Longrightarrow> vm_at m' a \<noteq> None"
    and "at mod page = 0" and "at \<le> u64_max"
  shows "cursor_full m' (freed at c)"
proof -
  obtain base cur where c: "c = (base, cur)" by (cases c)
  show ?thesis
  proof (cases "at < cur")
    case True
    have "vm_at m' a \<noteq> None" if "base \<le> a" "a < max at base" for a
    proof -
      have "a < at" using that by simp
      then show ?thesis using assms(1,2) True that(1) by (simp add: c cursor_full_def)
    qed
    then show ?thesis using True assms(4,5) by (simp add: c freed_def cursor_full_def max_def)
  next
    case False
    then show ?thesis using assms(1,3) by (simp add: c freed_def cursor_full_def)
  qed
qed

lemma vm_overlaps_at:
  assumes "entries_ok m" and "start < fin"
  shows "vm_overlaps m start fin \<longleftrightarrow> (\<exists>a. start \<le> a \<and> a < fin \<and> vm_at m a \<noteq> None)"
proof
  assume "vm_overlaps m start fin"
  then obtain s e where s: "bget m s = Some e" "s < fin" "start < e_end e"
    using vm_overlaps_iff [OF assms] by blast
  have "holds_at m (max s start) s e" using s entries_okD(4) [OF assms(1) s(1)] by (simp add: holds_at_def)
  then show "\<exists>a. start \<le> a \<and> a < fin \<and> vm_at m a \<noteq> None"
    using vm_at_holds [OF assms(1)] s(2) assms(2) by (intro exI [of _ "max s start"]) simp
next
  assume "\<exists>a. start \<le> a \<and> a < fin \<and> vm_at m a \<noteq> None"
  then obtain a s e where a: "start \<le> a" "a < fin" "holds_at m a s e" using vm_at_not_None [OF assms(1)] by blast
  then have "bget m s = Some e \<and> s < fin \<and> start < e_end e" by (auto simp: holds_at_def)
  then show "vm_overlaps m start fin" using vm_overlaps_iff [OF assms] by blast
qed

section \<open>Insertion\<close>

lemma insert_entries:
  assumes "entries_ok m" and "\<not> bad_range start (e_end e)" and "\<not> vm_overlaps m start (e_end e)" and "e_end e \<le> u64_max"
  shows "entries_ok (binsert start e m) \<and> bget m start = None
    \<and> (\<forall>a. vm_at (binsert start e m) a = (if start \<le> a \<and> a < e_end e then Some (attrs e start a) else vm_at m a))"
proof -
  have r: "start mod page = 0" "e_end e mod page = 0" "start < e_end e" using assms(2) by (auto simp: bad_range_def)
  have free: "fin \<le> start \<or> e_end e \<le> k" if "bget m k = Some f" "fin = e_end f" for k f fin
    using assms(3) vm_overlaps_iff [OF assms(1) r(3)] that by (metis not_le)
  have fresh: "bget m start = None"
    using free [of start] r(3) entries_okD(4) [OF assms(1), of start] by (cases "bget m start") force+
  have ok: "entries_ok (binsert start e m)"
  proof (rule entries_okI)
    show "bwf (binsert start e m)" using entries_okD(1) [OF assms(1)] by simp
  next
    fix k f assume "bget (binsert start e m) k = Some f"
    then show "k mod page = 0 \<and> e_end f mod page = 0 \<and> k < e_end f \<and> e_end f \<le> u64_max"
      using r assms(4) entries_okD(2-5) [OF assms(1)] by (auto split: if_splits)
  next
    fix k f k' f' assume k: "bget (binsert start e m) k = Some f" "bget (binsert start e m) k' = Some f'" "k < k'"
    show "e_end f \<le> k'"
      using k free [of k f] free [of k' f'] r(3) entries_okD(4) [OF assms(1), of k' f'] entries_okD(6) [OF assms(1), of k f k' f']
      by (cases "k = start"; cases "k' = start") auto
  qed
  have "vm_at (binsert start e m) a = (if start \<le> a \<and> a < e_end e then Some (attrs e start a) else vm_at m a)" for a
  proof (cases "start \<le> a \<and> a < e_end e")
    case True
    then have "holds_at (binsert start e m) a start e" by (simp add: holds_at_def)
    then show ?thesis using vm_at_holds [OF ok] True by simp
  next
    case False
    then have "holds_at (binsert start e m) a k f \<longleftrightarrow> holds_at m a k f" for k f
      using fresh by (auto simp: holds_at_def)
    then have "vm_at (binsert start e m) a = vm_at m a" by (rule vm_at_cong [OF assms(1) ok])
    then show ?thesis using False by auto
  qed
  with ok fresh show ?thesis by blast
qed

lemma vm_insert_spec:
  assumes "vm_inv m" and "e_end e \<le> u64_max"
  shows "if bad_range start (e_end e) then vm_insert start e m = Some (MErr Invalid)
    else if \<exists>a. start \<le> a \<and> a < e_end e \<and> vm_at (v_entries m) a \<noteq> None then vm_insert start e m = Some (MErr Overlap)
    else \<exists>m'. vm_insert start e m = Some (MOk m') \<and> vm_inv m' \<and> fst (v_cursor m') = fst (v_cursor m)
      \<and> (\<forall>a. vm_at (v_entries m') a =
            (if start \<le> a \<and> a < e_end e then Some (attrs e start a) else vm_at (v_entries m) a))"
proof (cases "bad_range start (e_end e)")
  case True
  then show ?thesis by (simp add: vm_insert_def)
next
  case good: False
  let ?m = "v_entries m"
  note ok = vm_invD(1) [OF assms(1)]
  have lt: "start < e_end e" using good by (simp add: bad_range_def)
  show ?thesis
  proof (cases "vm_overlaps ?m start (e_end e)")
    case True
    then show ?thesis using good vm_overlaps_at [OF ok lt] by (simp add: vm_insert_def)
  next
    case False
    let ?n = "binsert start e ?m"
    note n = insert_entries [OF ok good False assms(2)]
    obtain base at where c: "v_cursor m = (base, at)" by (cases "v_cursor m")
    obtain at' where at': "cursor_walk ?n at = Some at'" "at \<le> at'"
        "at' = at \<or> at' mod page = 0 \<and> at' \<le> u64_max" "\<forall>a. at \<le> a \<longrightarrow> a < at' \<longrightarrow> vm_at ?n a \<noteq> None"
      using cursor_walk_spec [OF conjunct1 [OF n], of at] by (elim exE conjE) (rule that)
    let ?m' = "\<lparr> v_entries = ?n, v_size = v_size m + counted e start, v_cursor = (base, at') \<rparr>"
    have res: "vm_insert start e m = Some (MOk ?m')" using good False c at'(1) by (simp add: vm_insert_def)
    have kept: "vm_at ?n a \<noteq> None" if "vm_at ?m a \<noteq> None" for a using n that by (metis option.distinct(1))
    have "\<forall>a. base \<le> a \<longrightarrow> a < at \<longrightarrow> vm_at ?m a \<noteq> None"
      using vm_invD(3) [OF assms(1)] unfolding c cursor_full_def by blast
    then have "vm_at ?n a \<noteq> None" if "base \<le> a" "a < at'" for a
      using that at'(4) kept by (meson not_le)
    moreover have "base \<le> at'" "at' = base \<or> at' mod page = 0 \<and> at' \<le> u64_max"
      using vm_invD(3) [OF assms(1)] at'(2,3) by (auto simp: c cursor_full_def)
    ultimately have "cursor_full ?n (base, at')" by (simp add: cursor_full_def)
    moreover have "ent_total ?n = v_size m + counted e start"
      using bsum_binsert [OF entries_okD(1) [OF ok]] n vm_invD(2) [OF assms(1)] by simp
    ultimately have "vm_inv ?m'" using n by (simp add: vm_inv_def)
    moreover have "\<not> (\<exists>a. start \<le> a \<and> a < e_end e \<and> vm_at ?m a \<noteq> None)" using False vm_overlaps_at [OF ok lt] by blast
    ultimately show ?thesis using good res n c by auto
  qed
qed

section \<open>Removal\<close>

definition kernel_at :: "vm_entries \<Rightarrow> nat \<Rightarrow> bool" where
  "kernel_at m a \<longleftrightarrow> (\<exists>p mp sh. vm_at m a = Some (p, mp, sh, VKernel))"

lemma kernel_at_holds:
  assumes "entries_ok m" and "holds_at m a s e"
  shows "kernel_at m a \<longleftrightarrow> e_kind e = VKernel"
  using vm_at_holds [OF assms] by (auto simp: kernel_at_def attrs_def)

lemma touches_kernel_iff:
  assumes "entries_ok m" and "start < fin"
  shows "touches_kernel m start fin \<longleftrightarrow> (\<exists>a. start \<le> a \<and> a < fin \<and> kernel_at m a)"
proof
  assume "touches_kernel m start fin"
  then consider (here) s e where "vm_lookup m start = Some (s, e)" "e_kind e = VKernel"
    | (later) s e where "(s, e) \<in> set (brange start fin m)" "e_kind e = VKernel"
    by (auto simp: touches_kernel_def list_ex_iff split: option.splits)
  then show "\<exists>a. start \<le> a \<and> a < fin \<and> kernel_at m a"
  proof cases
    case here
    then show ?thesis
      using vm_lookup_Some [OF assms(1)] kernel_at_holds [OF assms(1)] assms(2) by blast
  next
    case later
    then have s: "bget m s = Some e" "start \<le> s" "s < fin"
      using entries_okD(1) [OF assms(1)] by (auto simp: set_brange bwf_in_set_iff)
    then have "holds_at m s s e" using entries_okD(4) [OF assms(1)] by (simp add: holds_at_def)
    then show ?thesis using kernel_at_holds [OF assms(1)] later(2) s by blast
  qed
next
  assume "\<exists>a. start \<le> a \<and> a < fin \<and> kernel_at m a"
  then obtain a where a: "start \<le> a" "a < fin" "kernel_at m a" by blast
  then obtain s e where h: "holds_at m a s e" using vm_at_not_None [OF assms(1), of a] by (auto simp: kernel_at_def)
  then have k: "e_kind e = VKernel" using a kernel_at_holds [OF assms(1)] by blast
  show "touches_kernel m start fin"
  proof (cases "start \<le> s")
    case True
    then have "(s, e) \<in> set (brange start fin m)"
      using h a entries_okD(1) [OF assms(1)] by (simp add: set_brange holds_at_def bwf_in_set_iff)
    then show ?thesis using k by (auto simp: touches_kernel_def list_ex_iff)
  next
    case False
    then have "vm_lookup m start = Some (s, e)" using h a vm_lookup_Some [OF assms(1)] by (simp add: holds_at_def)
    then show ?thesis using k by (simp add: touches_kernel_def)
  qed
qed

lemma remove_keys_spec:
  assumes "bwf m" and "distinct ks" and "\<forall>k \<in> set ks. bget m k \<noteq> None"
  shows "\<exists>m'. remove_keys ks m sz out = Some (m', sz - (ent_total m - ent_total m'), out @ map (\<lambda>k. (k, the (bget m k))) ks)
    \<and> bwf m' \<and> (\<forall>k. bget m' k = (if k \<in> set ks then None else bget m k))"
  using assms
proof (induction ks arbitrary: m sz out)
  case (Cons k ks)
  then obtain e where e: "bget m k = Some e" by auto
  let ?m = "bremove k m"
  have "bwf ?m" "\<forall>x \<in> set ks. bget ?m x \<noteq> None" using Cons.prems by auto
  then obtain m' where m': "remove_keys ks ?m (sz - counted e k) (out @ [(k, e)])
        = Some (m', sz - counted e k - (ent_total ?m - ent_total m'), (out @ [(k, e)]) @ map (\<lambda>k. (k, the (bget ?m k))) ks)"
      "bwf m'" "\<forall>x. bget m' x = (if x \<in> set ks then None else bget ?m x)"
    using Cons.IH [of ?m] Cons.prems(2) by fastforce
  have t: "ent_total ?m = ent_total m - counted e k" using bsum_bremove [OF Cons.prems(1)] e by simp
  have "map (\<lambda>k. (k, the (bget ?m k))) ks = map (\<lambda>k. (k, the (bget m k))) ks"
    using Cons.prems(2) by auto
  then show ?case using m' e t by (intro exI [of _ m']) auto
qed simp

text \<open>After splitting at both ends, the entries that start in the range are the ones that lie in it.\<close>

definition split_range :: "nat \<Rightarrow> nat \<Rightarrow> vm_entries \<Rightarrow> vm_entries" where
  "split_range start fin m = split_at fin (split_at start m)"

lemma split_range_spec:
  assumes "entries_ok m" and "\<not> bad_range start fin"
  shows "entries_ok (split_range start fin m)" "\<And>a. vm_at (split_range start fin m) a = vm_at m a"
    "ent_total (split_range start fin m) = ent_total m"
    "\<And>a k f. holds_at (split_range start fin m) a k f \<Longrightarrow> (start \<le> k \<and> k < fin) = (start \<le> a \<and> a < fin)"
proof -
  let ?n = "split_range start fin m"
  have r: "start mod page = 0" "fin mod page = 0" "start < fin" using assms(2) by (auto simp: bad_range_def)
  note s1 = split_at_spec [OF assms(1) r(1)]
  then have s2: "entries_ok ?n" "\<And>a. vm_at ?n a = vm_at m a" "no_straddle ?n fin" "no_straddle ?n start"
      "ent_total ?n = ent_total m"
    using split_at_spec [of "split_at start m", OF _ r(2)] unfolding split_range_def by auto
  then show "entries_ok ?n" "\<And>a. vm_at ?n a = vm_at m a" "ent_total ?n = ent_total m" by blast+
  show "(start \<le> k \<and> k < fin) = (start \<le> a \<and> a < fin)" if "holds_at ?n a k f" for a k f
    using that s2(3,4) r(3) unfolding holds_at_def no_straddle_def by (meson le_less_trans less_le_trans not_le)
qed

lemma restrict_vm_at:
  assumes "entries_ok n" and "entries_ok n'" and "\<And>k. bget n' k = (if P k then bget n k else None)"
    and "\<And>k f. holds_at n a k f \<Longrightarrow> P k = Q"
  shows "vm_at n' a = (if Q then vm_at n a else None)"
proof -
  have h: "holds_at n' a k f \<longleftrightarrow> Q \<and> holds_at n a k f" for k f
    using assms(3) [of k] assms(4) [of k f] by (auto simp: holds_at_def split: if_splits)
  show ?thesis
  proof (cases Q)
    case True
    then show ?thesis using vm_at_cong [OF assms(1,2), of a] h by simp
  next
    case False
    then show ?thesis using vm_at_None [OF assms(2), of a] h by simp
  qed
qed

lemma vm_remove_spec:
  assumes "vm_inv m" and rng: "start \<le> u64_max"
  shows "if bad_range start fin then vm_remove start fin m = Some (MErr Invalid)
    else if \<exists>a. start \<le> a \<and> a < fin \<and> kernel_at (v_entries m) a then vm_remove start fin m = Some (MErr KernelRange)
    else \<exists>out m'. vm_remove start fin m = Some (MOk (out, m')) \<and> vm_inv m' \<and> entries_ok out
      \<and> (\<forall>a. vm_at (v_entries m') a = (if start \<le> a \<and> a < fin then None else vm_at (v_entries m) a))
      \<and> (\<forall>a. vm_at out a = (if start \<le> a \<and> a < fin then vm_at (v_entries m) a else None))"
proof (cases "bad_range start fin \<or> touches_kernel (v_entries m) start fin")
  case True
  then show ?thesis
    using touches_kernel_iff [OF vm_invD(1) [OF assms(1)], of start fin]
    by (auto simp: vm_remove_def bad_range_def)
next
  case False
  let ?m = "v_entries m" let ?n = "split_range start fin ?m" let ?r = "brange start fin ?n"
  note ok = vm_invD(1) [OF assms(1)]
  have lt: "start < fin" using False by (auto simp: bad_range_def)
  note n = split_range_spec [OF ok, of start fin]
  have n: "entries_ok ?n" "\<And>a. vm_at ?n a = vm_at ?m a" "ent_total ?n = ent_total ?m"
      "\<And>a k f. holds_at ?n a k f \<Longrightarrow> (start \<le> k \<and> k < fin) = (start \<le> a \<and> a < fin)"
    using n False by blast+
  note wf = entries_okD(1) [OF n(1)]
  have keys: "k \<in> set (bkeys ?r) \<longleftrightarrow> start \<le> k \<and> k < fin \<and> bget ?n k \<noteq> None" for k
    using bkeys_dom [of ?r] by (auto simp: dom_def bget_brange split: if_splits)
  obtain n' where n': "remove_keys (bkeys ?r) ?n (v_size m) [] = Some (n', v_size m - (ent_total ?n - ent_total n'),
        map (\<lambda>k. (k, the (bget ?n k))) (bkeys ?r))" "bwf n'"
      "\<forall>k. bget n' k = (if k \<in> set (bkeys ?r) then None else bget ?n k)"
    using remove_keys_spec [OF wf bm.keys_distinct [OF bwf_brange [OF wf]], of start fin "v_size m" "[]"] keys by auto
  have out: "map (\<lambda>k. (k, the (bget ?n k))) (bkeys ?r) = ?r"
    using wf by (auto simp: bkeys_def set_brange bwf_in_set_iff intro!: map_idI)
  have get: "bget n' k = (if \<not> (start \<le> k \<and> k < fin) then bget ?n k else None)" for k using n'(3) keys by auto
  have ok': "entries_ok n'"
    using n'(2) entries_okD(2-6) [OF n(1)] by (intro entries_okI) (auto simp: get split: if_splits)
  have okr: "entries_ok ?r"
    using wf entries_okD(2-6) [OF n(1)] by (intro entries_okI) (auto simp: bget_brange split: if_splits)
  have gone: "vm_at n' a = (if start \<le> a \<and> a < fin then None else vm_at ?m a)" for a
    using restrict_vm_at [OF n(1) ok' get, of a "\<not> (start \<le> a \<and> a < fin)"] n(2,4) by auto
  have taken: "vm_at ?r a = (if start \<le> a \<and> a < fin then vm_at ?m a else None)" for a
    using restrict_vm_at [OF n(1) okr bget_brange, of a "start \<le> a \<and> a < fin"] n(2,4) by auto
  let ?m' = "\<lparr> v_entries = n', v_size = v_size m - (ent_total ?n - ent_total n'), v_cursor = freed start (v_cursor m) \<rparr>"
  have "cursor_full n' (freed start (v_cursor m))"
    by (rule freed_full [OF vm_invD(3) [OF assms(1)]]) (use False rng in \<open>simp_all add: gone bad_range_def\<close>)
  then have "vm_inv ?m'" using ok' n(3) vm_invD(2) [OF assms(1)] by (simp add: vm_inv_def)
  moreover have "vm_remove start fin m = Some (MOk (?r, ?m'))"
    using False n'(1) out by (simp add: vm_remove_def split_range_def Let_def)
  moreover have "\<not> (\<exists>a. start \<le> a \<and> a < fin \<and> kernel_at ?m a)" using False touches_kernel_iff [OF ok lt] by blast
  ultimately show ?thesis using False okr gone taken by auto
qed

section \<open>Protection\<close>

lemma vm_covered_iff:
  assumes "entries_ok m"
  shows "vm_covered m at fin \<longleftrightarrow> (\<forall>a. at \<le> a \<longrightarrow> a < fin \<longrightarrow> vm_at m a \<noteq> None)"
  using assms
proof (induction m at fin rule: vm_covered.induct)
  case (1 m at fin)
  show ?case
  proof (cases "at < fin")
    case False
    then show ?thesis by (simp add: vm_covered.simps)
  next
    case True
    show ?thesis
    proof (cases "vm_lookup m at")
      case None
      then have "\<not> vm_covered m at fin" using True by (simp add: vm_covered.simps)
      moreover have "vm_at m at = None" using None by (simp add: vm_at_def)
      ultimately show ?thesis using True by blast
    next
      case (Some p)
      obtain s e where p: "p = (s, e)" by (cases p)
      then have h: "holds_at m at s e" using Some vm_lookup_Some [OF 1(2)] by simp
      have "vm_at m a \<noteq> None" if "at \<le> a" "a < e_end e" for a
        using vm_at_holds [OF 1(2), of a s e] h that by (simp add: holds_at_def)
      moreover have "vm_covered m at fin = vm_covered m (e_end e) fin"
        using True Some p by (subst vm_covered.simps) simp
      moreover have "vm_covered m (e_end e) fin \<longleftrightarrow> (\<forall>a. e_end e \<le> a \<longrightarrow> a < fin \<longrightarrow> vm_at m a \<noteq> None)"
        using 1(1) [OF True Some [unfolded p] refl 1(2)] .
      moreover have "at < e_end e" using h by (simp add: holds_at_def)
      ultimately show ?thesis by (meson le_less_trans less_imp_le not_le order_trans)
    qed
  qed
qed

text \<open>Whether a protection is within the maximum at every address of a range.\<close>

definition within_max :: "vm_entries \<Rightarrow> nat \<Rightarrow> nat \<Rightarrow> u8 \<Rightarrow> bool" where
  "within_max m at fin prot \<longleftrightarrow>
     (\<forall>a p mp sh k. at \<le> a \<longrightarrow> a < fin \<longrightarrow> vm_at m a = Some (p, mp, sh, k) \<longrightarrow> prot AND NOT mp = 0)"

lemma within_max_step:
  assumes "entries_ok m" and "holds_at m at s e" and "at < fin"
  shows "within_max m at fin prot \<longleftrightarrow> prot AND NOT (e_max_prot e) = 0 \<and> within_max m (e_end e) fin prot"
proof -
  have at: "vm_at m a = Some (attrs e s a)" if "at \<le> a" "a < e_end e" for a
    using vm_at_holds [OF assms(1), of a s e] assms(2) that by (simp add: holds_at_def)
  have lt: "at < e_end e" using assms(2) by (simp add: holds_at_def)
  show ?thesis
  proof
    assume w: "within_max m at fin prot"
    have "vm_at m at = Some (e_prot e, e_max_prot e, e_shared e, shift_kind ((at - s) div page) (e_kind e))"
      using at [of at] lt by (simp add: attrs_def)
    then have "prot AND NOT (e_max_prot e) = 0" using w assms(3) unfolding within_max_def by blast
    moreover have "within_max m (e_end e) fin prot"
      using w lt unfolding within_max_def by (meson less_imp_le order_trans)
    ultimately show "prot AND NOT (e_max_prot e) = 0 \<and> within_max m (e_end e) fin prot" ..
  next
    assume w: "prot AND NOT (e_max_prot e) = 0 \<and> within_max m (e_end e) fin prot"
    show "within_max m at fin prot"
      unfolding within_max_def
    proof (intro allI impI)
      fix a p mp sh k assume a: "at \<le> a" "a < fin" "vm_at m a = Some (p, mp, sh, k)"
      show "prot AND NOT mp = 0"
      proof (cases "a < e_end e")
        case True
        then show ?thesis using a w at [of a] by (simp add: attrs_def)
      next
        case False
        then have "e_end e \<le> a" by simp
        then show ?thesis using a(2,3) w unfolding within_max_def by blast
      qed
    qed
  qed
qed

lemma page_step:
  assumes "s mod page = 0" and "t mod page = 0" and "s < t"
  shows "s + page \<le> t"
proof -
  obtain i j where ij: "s = page * i" "t = page * j" using assms(1,2) by (metis mod_0_imp_dvd dvdE)
  then have "page * Suc i \<le> page * j" using assms(3) by (simp add: page_def)
  then show ?thesis using ij by simp
qed

lemma prot_allowed_spec:
  assumes "entries_ok m" and "vm_covered m at fin"
  shows "prot_allowed m at fin prot = Some (within_max m at fin prot)"
  using assms
proof (induction m at fin prot rule: prot_allowed.induct)
  case (1 m at fin prot)
  show ?case
  proof (cases "at < fin")
    case False
    then show ?thesis by (simp add: prot_allowed.simps within_max_def)
  next
    case True
    then have "vm_at m at \<noteq> None" using 1(3) vm_covered_iff [OF 1(2)] by blast
    then obtain s e where l: "vm_lookup m at = Some (s, e)" by (auto simp: vm_at_def)
    then have h: "holds_at m at s e" using vm_lookup_Some [OF 1(2)] by simp
    then have "s mod page = 0" "e_end e mod page = 0" "s < e_end e"
      using entries_okD(2-4) [OF 1(2), of s e] by (simp_all add: holds_at_def)
    then have "s + page \<le> e_end e" by (rule page_step)
    then have m: "max (e_end e) (s + page) = e_end e" by simp
    have "vm_covered m (e_end e) fin" using 1(3) True l by (subst (asm) vm_covered.simps) simp
    then have "prot_allowed m (e_end e) fin prot = Some (within_max m (e_end e) fin prot)"
      if "\<not> prot AND NOT (e_max_prot e) \<noteq> 0"
      using 1(1) [OF True l refl that] 1(2) m by simp
    then show ?thesis
      using True l m within_max_step [OF 1(2) h True, of prot] by (subst prot_allowed.simps) auto
  qed
qed

lemma bget_set_prot_range:
  "bget (set_prot_range start fin prot m) k =
     map_option (\<lambda>e. if start \<le> k \<and> k < fin then e\<lparr>e_prot := prot\<rparr> else e) (bget m k)"
  by (induction m) (auto simp: set_prot_range_def)

lemma map_fst_set_prot_range: "map fst (set_prot_range start fin prot m) = map fst m"
  by (induction m) (auto simp: set_prot_range_def)

lemma bsum_set_prot_range: "ent_total (set_prot_range start fin prot m) = ent_total m"
  by (induction m) (auto simp: set_prot_range_def counted_def)

lemma set_prot_range_spec:
  assumes "entries_ok n"
    and "\<And>a k f. holds_at n a k f \<Longrightarrow> (start \<le> k \<and> k < fin) = (start \<le> a \<and> a < fin)"
  shows "entries_ok (set_prot_range start fin prot n) \<and>
    (\<forall>a. vm_at (set_prot_range start fin prot n) a =
      (if start \<le> a \<and> a < fin then map_option (\<lambda>(_, r). (prot, r)) (vm_at n a) else vm_at n a))"
proof -
  let ?f = "\<lambda>k e. if start \<le> k \<and> k < fin then e\<lparr>e_prot := prot\<rparr> else e"
  let ?n = "set_prot_range start fin prot n"
  have get: "bget ?n k = map_option (?f k) (bget n k)" for k by (rule bget_set_prot_range)
  have ok: "entries_ok ?n"
    using entries_okD(1) [OF assms(1)] entries_okD(2-6) [OF assms(1)]
    by (intro entries_okI) (auto simp: get bwf_def map_fst_set_prot_range split: if_splits)
  have "vm_at ?n a = (if start \<le> a \<and> a < fin then map_option (\<lambda>(_, r). (prot, r)) (vm_at n a) else vm_at n a)" for a
  proof (cases "\<exists>k f. holds_at n a k f")
    case True
    then obtain k f where h: "holds_at n a k f" by blast
    then have "holds_at ?n a k (?f k f)" by (simp add: holds_at_def get)
    then have "vm_at ?n a = Some (attrs (?f k f) k a)" by (rule vm_at_holds [OF ok])
    moreover have "vm_at n a = Some (attrs f k a)" by (rule vm_at_holds [OF assms(1) h])
    ultimately show ?thesis using assms(2) [OF h] by (auto simp: attrs_def)
  next
    case False
    then have "\<not> holds_at ?n a k f" for k f by (auto simp: holds_at_def get split: if_splits)
    then show ?thesis using vm_at_None [OF ok, of a] vm_at_None [OF assms(1), of a] False by auto
  qed
  with ok show ?thesis by blast
qed

lemma vm_protect_spec:
  assumes "vm_inv m"
  shows "if bad_range start fin then vm_protect start fin prot m = Some (MErr Invalid)
    else if \<exists>a. start \<le> a \<and> a < fin \<and> vm_at (v_entries m) a = None then vm_protect start fin prot m = Some (MErr Unmapped)
    else if \<exists>a. start \<le> a \<and> a < fin \<and> kernel_at (v_entries m) a then vm_protect start fin prot m = Some (MErr KernelRange)
    else if \<not> within_max (v_entries m) start fin prot then vm_protect start fin prot m = Some (MErr Exceeds)
    else \<exists>out m'. vm_protect start fin prot m = Some (MOk (out, m')) \<and> vm_inv m'
      \<and> (\<forall>a. vm_at (v_entries m') a =
            (if start \<le> a \<and> a < fin then map_option (\<lambda>(_, r). (prot, r)) (vm_at (v_entries m) a)
             else vm_at (v_entries m) a))"
proof -
  let ?m = "v_entries m" let ?p = "set_prot_range start fin prot (split_range start fin ?m)"
  note ok = vm_invD(1) [OF assms]
  have cov: "vm_covered ?m start fin \<longleftrightarrow> \<not> (\<exists>a. start \<le> a \<and> a < fin \<and> vm_at ?m a = None)"
    unfolding vm_covered_iff [OF ok] by metis
  have last: "\<exists>out m'. vm_protect start fin prot m = Some (MOk (out, m')) \<and> vm_inv m'
      \<and> (\<forall>a. vm_at (v_entries m') a =
            (if start \<le> a \<and> a < fin then map_option (\<lambda>(_, r). (prot, r)) (vm_at ?m a) else vm_at ?m a))"
    if c: "\<not> bad_range start fin" "vm_covered ?m start fin" "\<not> touches_kernel ?m start fin" "within_max ?m start fin prot"
  proof -
    note n = split_range_spec [OF ok c(1)]
    note p = set_prot_range_spec [OF n(1,4), where prot = prot]
    have at: "vm_at ?p a = (if start \<le> a \<and> a < fin then map_option (\<lambda>(_, r). (prot, r)) (vm_at ?m a) else vm_at ?m a)" for a
      using p n(2) by simp
    have "vm_at ?p a \<noteq> None" if "vm_at ?m a \<noteq> None" for a using that at [of a] by (simp only: option.map_disc_iff split: if_split) simp
    then have "cursor_full ?p (v_cursor m)" using vm_invD(3) [OF assms] by (simp add: cursor_full_def split: prod.splits)
    then have "vm_inv (m\<lparr>v_entries := ?p\<rparr>)"
      using p vm_invD(2) [OF assms] n(3) bsum_set_prot_range by (simp add: vm_inv_def)
    moreover have "vm_protect start fin prot m = Some (MOk (brange start fin ?p, m\<lparr>v_entries := ?p\<rparr>))"
      using c prot_allowed_spec [OF ok c(2), of prot] by (simp add: vm_protect_def split_range_def Let_def)
    ultimately show ?thesis using at by auto
  qed
  show ?thesis
  proof (cases "bad_range start fin \<or> \<not> vm_covered ?m start fin")
    case True
    then show ?thesis
    proof (cases "bad_range start fin")
      case b: False
      then have "\<exists>a. start \<le> a \<and> a < fin \<and> vm_at ?m a = None" using cov True by blast
      moreover have "vm_protect start fin prot m = Some (MErr Unmapped)" using b True by (simp add: vm_protect_def)
      ultimately show ?thesis using b by (simp only: if_True if_False)
    qed (simp add: vm_protect_def)
  next
    case False
    then have "start < fin" by (auto simp: bad_range_def)
    note tk = touches_kernel_iff [OF ok this]
    show ?thesis
    proof (cases "touches_kernel ?m start fin \<or> \<not> within_max ?m start fin prot")
      case True
      then show ?thesis
        using False cov tk prot_allowed_spec [OF ok, of start fin prot] by (auto simp: vm_protect_def)
    next
      case f: False
      then show ?thesis using last False cov tk by auto
    qed
  qed
qed

section \<open>Moving an end or a start\<close>

text \<open>Replacing the entry at one key, when what replaces it meets no other entry.\<close>

lemma replace_entry:
  assumes "entries_ok m" and "bget m k0 = Some e0" and "bwf m'"
    and "\<And>k. bget m' k = (if k = s then Some e else if k = k0 then None else bget m k)"
    and "s mod page = 0" and "e_end e mod page = 0" and "s < e_end e" and "e_end e \<le> u64_max"
    and "\<And>k f. bget m k = Some f \<Longrightarrow> k \<noteq> k0 \<Longrightarrow> e_end f \<le> s \<or> e_end e \<le> k"
  shows "entries_ok m' \<and> (\<forall>a. vm_at m' a = (if s \<le> a \<and> a < e_end e then Some (attrs e s a)
    else if k0 \<le> a \<and> a < e_end e0 then None else vm_at m a))"
proof -
  have ok: "entries_ok m'"
  proof (rule entries_okI [OF assms(3)])
    fix k f assume "bget m' k = Some f"
    then show "k mod page = 0 \<and> e_end f mod page = 0 \<and> k < e_end f \<and> e_end f \<le> u64_max"
      using assms(4-8) entries_okD(2-5) [OF assms(1)] by (auto split: if_splits)
  next
    fix k f k' f' assume k: "bget m' k = Some f" "bget m' k' = Some f'" "k < k'"
    show "e_end f \<le> k'"
      using k assms(4,7) assms(9) [of k f] assms(9) [of k' f'] entries_okD(4) [OF assms(1), of k' f']
        entries_okD(6) [OF assms(1), of k f k' f']
      by (cases "k = s"; cases "k' = s") (auto split: if_splits)
  qed
  have "vm_at m' a = (if s \<le> a \<and> a < e_end e then Some (attrs e s a)
      else if k0 \<le> a \<and> a < e_end e0 then None else vm_at m a)" for a
  proof (cases "s \<le> a \<and> a < e_end e")
    case True
    then have "holds_at m' a s e" by (simp add: holds_at_def assms(4))
    then show ?thesis using vm_at_holds [OF ok] True by simp
  next
    case out: False
    have h: "holds_at m' a k f \<longleftrightarrow> k \<noteq> k0 \<and> holds_at m a k f" for k f
      using out assms(7) assms(9) [of k f] entries_okD(4) [OF assms(1), of k f]
      by (auto simp: holds_at_def assms(4) split: if_splits)
    show ?thesis
    proof (cases "k0 \<le> a \<and> a < e_end e0")
      case True
      then have hk: "holds_at m a k0 e0" using assms(2) by (simp add: holds_at_def)
      have "\<not> holds_at m' a k f" for k f using h [of k f] holds_at_unique [OF assms(1) hk, of k f] by blast
      then show ?thesis using vm_at_None [OF ok, of a] out True by auto
    next
      case False
      then have "holds_at m' a k f \<longleftrightarrow> holds_at m a k f" for k f using h assms(2) by (auto simp: holds_at_def)
      then show ?thesis using vm_at_cong [OF assms(1) ok, of a] out False by auto
    qed
  qed
  with ok show ?thesis by blast
qed

lemma remove_entry:
  assumes "entries_ok m" and "bget m k0 = Some e0"
  shows "entries_ok (bremove k0 m) \<and>
    (\<forall>a. vm_at (bremove k0 m) a = (if k0 \<le> a \<and> a < e_end e0 then None else vm_at m a))"
proof -
  have ok: "entries_ok (bremove k0 m)"
    using entries_okD [OF assms(1)] by (intro entries_okI) (auto split: if_splits)
  have "k \<noteq> k0 \<longleftrightarrow> \<not> (k0 \<le> a \<and> a < e_end e0)" if "holds_at m a k f" for a k f
    using holds_at_unique [OF assms(1) that, of k0 e0] that assms(2) by (auto simp: holds_at_def)
  then show ?thesis using restrict_vm_at [OF assms(1) ok, of "\<lambda>k. k \<noteq> k0"] ok by auto
qed

lemma vm_set_end_spec:
  assumes "vm_inv m" and "vm_set_end start new_end m = MOk m'" and "new_end \<le> u64_max"
  shows "vm_inv m' \<and> (\<exists>e. bget (v_entries m) start = Some e \<and>
    (\<forall>a. vm_at (v_entries m') a = (if start \<le> a \<and> a < new_end then Some (attrs e start a)
       else if start \<le> a \<and> a < e_end e then None else vm_at (v_entries m) a)))"
proof -
  let ?m = "v_entries m"
  note ok = vm_invD(1) [OF assms(1)]
  note wf = entries_okD(1) [OF ok]
  obtain e where e: "bget ?m start = Some e" "new_end mod page = 0" "start \<le> new_end"
      "\<not> (e_end e < new_end \<and> vm_overlaps ?m (e_end e) new_end)"
    using assms(2) by (auto simp: vm_set_end_def Let_def not_less split: option.splits if_splits)
  have room: "e_end f \<le> start \<or> new_end \<le> k" if "bget ?m k = Some f" "k \<noteq> start" for k f
    using e(4) vm_overlaps_iff [OF ok, of "e_end e" new_end] that entries_okD(4) [OF ok that(1)]
      entries_okD(6) [OF ok that(1) e(1)] entries_okD(6) [OF ok e(1) that(1)]
    by (metis (no_types) linorder_neqE_nat not_le order.strict_trans1 order_le_less_trans)
  have v': "v_entries m' = (if new_end = start then bremove start ?m else bupdate start (\<lambda>e. e\<lparr>e_end := new_end\<rparr>) ?m)"
      "v_cursor m' = freed new_end (v_cursor m)"
      "v_size m' = v_size m - counted e start + (if new_end = start then 0 else counted (e\<lparr>e_end := new_end\<rparr>) start)"
    using assms(2) e by (auto simp: vm_set_end_def Let_def split: if_splits)
  have at: "entries_ok (v_entries m') \<and> (\<forall>a. vm_at (v_entries m') a = (if start \<le> a \<and> a < new_end then Some (attrs e start a)
       else if start \<le> a \<and> a < e_end e then None else vm_at ?m a))"
  proof (cases "new_end = start")
    case True
    then show ?thesis using remove_entry [OF ok e(1)] v'(1) by simp
  next
    case False
    let ?e = "e\<lparr>e_end := new_end\<rparr>"
    have "entries_ok (v_entries m') \<and> (\<forall>a. vm_at (v_entries m') a = (if start \<le> a \<and> a < e_end ?e then Some (attrs ?e start a)
        else if start \<le> a \<and> a < e_end e then None else vm_at ?m a))"
      by (rule replace_entry [OF ok e(1)])
        (use False v'(1) e wf entries_okD(2) [OF ok e(1)] assms(3) room in \<open>auto simp: bupdate_as_insert\<close>)
    then show ?thesis by (simp add: attrs_def)
  qed
  have "ent_total (v_entries m') = v_size m'"
    using v' bsum_bremove [OF wf] bsum_binsert [OF wf] e(1) vm_invD(2) [OF assms(1)] bupdate_as_insert [OF wf e(1)] by auto
  moreover have "cursor_full (v_entries m') (v_cursor m')"
    unfolding v'(2) by (rule freed_full [OF vm_invD(3) [OF assms(1)]]) (use at e(2) assms(3) in \<open>auto split: if_splits\<close>)
  ultimately have "vm_inv m'" using at by (simp add: vm_inv_def)
  with at e(1) show ?thesis by blast
qed

lemma vm_set_start_spec:
  assumes "vm_inv m" and "vm_set_start start new_start m = MOk m'"
  shows "vm_inv m' \<and> (\<exists>e. bget (v_entries m) start = Some e \<and>
    (\<forall>a. vm_at (v_entries m') a = (if new_start \<le> a \<and> a < e_end e then Some (attrs e new_start a)
       else if start \<le> a \<and> a < e_end e then None else vm_at (v_entries m) a)))"
proof -
  let ?m = "v_entries m"
  note ok = vm_invD(1) [OF assms(1)]
  note wf = entries_okD(1) [OF ok]
  obtain e where e: "bget ?m start = Some e" "new_start mod page = 0" "new_start < e_end e"
      "\<not> (new_start < start \<and> vm_overlaps ?m new_start start)"
    using assms(2) by (auto simp: vm_set_start_def Let_def not_le split: option.splits if_splits)
  have room: "e_end f \<le> new_start \<or> e_end e \<le> k" if "bget ?m k = Some f" "k \<noteq> start" for k f
  proof (cases "k < start")
    case True
    then have "e_end f \<le> start" using entries_okD(6) [OF ok that(1) e(1)] by blast
    then show ?thesis
      using e(4) vm_overlaps_iff [OF ok, of new_start start] that True by (metis le_less_linear order_trans)
  next
    case False
    then show ?thesis using entries_okD(6) [OF ok e(1) that(1)] that(2) by simp
  qed
  have v': "v_entries m' = binsert new_start e (bremove start ?m)" "v_cursor m' = freed start (v_cursor m)"
      "v_size m' = v_size m - counted e start + counted e new_start"
    using assms(2) e by (auto simp: vm_set_start_def split: if_splits)
  have at: "entries_ok (v_entries m') \<and> (\<forall>a. vm_at (v_entries m') a = (if new_start \<le> a \<and> a < e_end e then Some (attrs e new_start a)
       else if start \<le> a \<and> a < e_end e then None else vm_at ?m a))"
    by (rule replace_entry [OF ok e(1)])
      (use v'(1) e wf entries_okD(3,5) [OF ok e(1)] room in auto)
  have "bget ?m new_start = None" if "new_start \<noteq> start"
    using room [of new_start] that e(3) entries_okD(4) [OF ok, of new_start] by (cases "bget ?m new_start") force+
  then have "ent_total (v_entries m') = v_size m'"
    using v' bsum_bremove [OF wf] bsum_binsert [of "bremove start ?m"] wf e(1) vm_invD(2) [OF assms(1)] by auto
  moreover have "start \<le> u64_max" using entries_okD(4,5) [OF ok e(1)] by simp
  then have "cursor_full (v_entries m') (v_cursor m')"
    unfolding v'(2)
    by (intro freed_full [OF vm_invD(3) [OF assms(1)]]) (use at entries_okD(2) [OF ok e(1)] in \<open>auto split: if_splits\<close>)
  ultimately have "vm_inv m'" using at by (simp add: vm_inv_def)
  with at e(1) show ?thesis by blast
qed

lemma set_base_spec:
  assumes "vm_inv m"
  shows "\<exists>m'. set_base base m = Some m' \<and> vm_inv m' \<and> v_entries m' = v_entries m \<and> fst (v_cursor m') = base"
proof -
  let ?m = "v_entries m"
  note ok = vm_invD(1) [OF assms]
  define at where "at = (case vm_lookup ?m base of Some (_, e) \<Rightarrow> e_end e | None \<Rightarrow> base)"
  have at: "base \<le> at \<and> (at = base \<or> at mod page = 0 \<and> at \<le> u64_max) \<and> (\<forall>a. base \<le> a \<longrightarrow> a < at \<longrightarrow> vm_at ?m a \<noteq> None)"
  proof (cases "vm_lookup ?m base")
    case None
    then show ?thesis by (simp add: at_def)
  next
    case (Some p)
    obtain s e where p: "p = (s, e)" by (cases p)
    have h: "holds_at ?m base s e" using Some p vm_lookup_Some [OF ok] by simp
    have "vm_at ?m a \<noteq> None" if "base \<le> a" "a < e_end e" for a
      using vm_at_holds [OF ok, of a s e] h that by (simp add: holds_at_def)
    then show ?thesis using Some p h entries_okD(3,5) [OF ok, of s e] by (simp add: at_def holds_at_def)
  qed
  obtain at' where at': "cursor_walk ?m at = Some at'" "at \<le> at'"
      "at' = at \<or> at' mod page = 0 \<and> at' \<le> u64_max" "\<forall>a. at \<le> a \<longrightarrow> a < at' \<longrightarrow> vm_at ?m a \<noteq> None"
    using cursor_walk_spec [OF ok, of at] by (elim exE conjE) (rule that)
  have "vm_at ?m a \<noteq> None" if "base \<le> a" "a < at'" for a using that at at'(4) by (cases "a < at") (simp_all add: not_less)
  then have "cursor_full ?m (base, at')" using at at'(2,3) by (auto simp: cursor_full_def)
  moreover have "set_base base m = Some (m\<lparr>v_cursor := (base, at')\<rparr>)"
    using at'(1) unfolding set_base_def at_def Let_def by simp
  ultimately show ?thesis using vm_invD [OF assms] by (simp add: vm_inv_def)
qed

section \<open>Free space\<close>

definition fits :: "vm_entries \<Rightarrow> nat \<Rightarrow> nat \<Rightarrow> nat \<Rightarrow> nat \<Rightarrow> bool" where
  "fits m len lo hi a \<longleftrightarrow> lo \<le> a \<and> a mod page = 0 \<and> a + len \<le> hi \<and> (\<forall>x. a \<le> x \<longrightarrow> x < a + len \<longrightarrow> vm_at m x = None)"

text \<open>\<open>r\<close> is the lowest address that fits, or there is none.\<close>

definition lowest_fit :: "vm_entries \<Rightarrow> nat \<Rightarrow> nat \<Rightarrow> nat \<Rightarrow> nat option \<Rightarrow> bool" where
  "lowest_fit m len lo hi r \<longleftrightarrow>
     (case r of None \<Rightarrow> \<forall>b. \<not> fits m len lo hi b
      | Some a \<Rightarrow> fits m len lo hi a \<and> (\<forall>b. fits m len lo hi b \<longrightarrow> a \<le> b))"

lemma lowest_fit_unique: "lowest_fit m len lo hi r \<Longrightarrow> lowest_fit m len lo hi r' \<Longrightarrow> r = r'"
  by (cases r; cases r') (auto simp: lowest_fit_def intro: antisym)

lemma lowest_fit_cong:
  "(\<And>b. fits m len lo hi b = fits m len lo' hi b) \<Longrightarrow> lowest_fit m len lo hi r = lowest_fit m len lo' hi r"
  by (cases r) (simp_all add: lowest_fit_def)

lemma free_iff:
  assumes "entries_ok m"
  shows "(\<forall>x. a \<le> x \<longrightarrow> x < b \<longrightarrow> vm_at m x = None) \<longleftrightarrow> (\<forall>s e. bget m s = Some e \<longrightarrow> a < b \<longrightarrow> b \<le> s \<or> e_end e \<le> a)"
proof (cases "a < b")
  case True
  have "(\<exists>x. a \<le> x \<and> x < b \<and> vm_at m x \<noteq> None) \<longleftrightarrow> (\<exists>s e. bget m s = Some e \<and> s < b \<and> a < e_end e)"
    using vm_overlaps_at [OF assms True] vm_overlaps_iff [OF assms True] by blast
  then show ?thesis using True by (meson not_le)
qed auto

lemma last_fit_spec:
  assumes "entries_ok m" and "0 < len" and "hi \<le> u64_max" and "at mod page = 0"
    and "\<And>s e. bget m s = Some e \<Longrightarrow> hi \<le> s \<or> e_end e \<le> at"
  shows "lowest_fit m len at hi (last_fit len hi at)"
proof (cases "at + len \<le> hi")
  case True
  then have "last_fit len hi at = Some at"
    using assms(3) by (simp add: last_fit_def checked_add_u64_def)
  moreover have "\<forall>x. at \<le> x \<longrightarrow> x < at + len \<longrightarrow> vm_at m x = None"
    unfolding free_iff [OF assms(1)] using assms(5) True by (meson order_trans)
  then have "fits m len at hi at" using True assms(4) by (simp add: fits_def)
  ultimately show ?thesis by (simp add: lowest_fit_def fits_def)
next
  case False
  then have "last_fit len hi at = None" by (simp add: last_fit_def checked_add_u64_def)
  then show ?thesis using False by (simp add: lowest_fit_def fits_def)
qed

text \<open>No range that starts before an entry too close to the left end avoids that entry.\<close>

lemma fits_skip:
  assumes "entries_ok m" and "bget m s = Some e" and "at \<le> s" and "s < at + len"
  shows "fits m len at hi b \<longleftrightarrow> fits m len (e_end e) hi b"
proof -
  have lt: "s < e_end e" using entries_okD(4) [OF assms(1,2)] .
  have "e_end e \<le> b" if "fits m len at hi b"
  proof -
    have "b \<le> x \<Longrightarrow> x < b + len \<Longrightarrow> vm_at m x = None" for x using that by (simp add: fits_def)
    then have "b + len \<le> s \<or> e_end e \<le> b" using free_iff [OF assms(1), of b "b + len"] assms(2,4) assms(3) by fastforce
    then show ?thesis using that assms(3,4) by (auto simp: fits_def)
  qed
  then show ?thesis using assms(3) lt by (auto simp: fits_def)
qed

lemma fit_loop_spec:
  assumes "entries_ok m" and "0 < len" and "hi \<le> u64_max" and "at mod page = 0"
    and "bwf es" and "\<And>s e. (s, e) \<in> set es \<Longrightarrow> bget m s = Some e \<and> at \<le> s"
    and "\<And>s e. bget m s = Some e \<Longrightarrow> (s, e) \<in> set es \<or> e_end e \<le> at"
  shows "lowest_fit m len at hi (fit_loop len hi at es)"
  using assms(4-7)
proof (induction es arbitrary: at)
  case Nil
  then show ?case using last_fit_spec [OF assms(1-3), of at] by auto
next
  case (Cons x es)
  obtain s e where x: "x = (s, e)" by (cases x)
  have s: "bget m s = Some e" "at \<le> s" using Cons.prems(3) [of s e] x by auto
  have lt: "s < e_end e" using entries_okD(4) [OF assms(1) s(1)] .
  have later: "s < s'" if "(s', e') \<in> set es" for s' e'
    using Cons.prems(2) that by (force simp: x bwf_Cons)
  consider "hi \<le> s" | "s < hi" "len \<le> s - at" | "s < hi" "s < at + len" using s(2) by linarith
  then show ?case
  proof cases
    case 1
    have "hi \<le> k \<or> e_end f \<le> at" if "bget m k = Some f" for k f
      using Cons.prems(4) [OF that] later [of k f] 1 by (auto simp: x)
    then show ?thesis using last_fit_spec [OF assms(1-3) Cons.prems(1)] 1 by (simp add: x)
  next
    case 2
    have "at + len \<le> k \<or> e_end f \<le> at" if "bget m k = Some f" for k f
      using Cons.prems(4) [OF that] later [of k f] 2 s(2) by (auto simp: x)
    then have "fits m len at hi at"
      using 2 s(2) Cons.prems(1) free_iff [OF assms(1), of at "at + len"] by (auto simp: fits_def)
    then show ?thesis using 2 s(2) by (simp add: x lowest_fit_def fits_def)
  next
    case 3
    have at': "max at (e_end e) = e_end e" using s(2) lt by simp
    have "lowest_fit m len (e_end e) hi (fit_loop len hi (e_end e) es)"
    proof (rule Cons.IH)
      show "e_end e mod page = 0" using entries_okD(3) [OF assms(1) s(1)] .
      show "bwf es" using Cons.prems(2) by (simp add: x bwf_Cons)
    next
      fix s' e' assume i: "(s', e') \<in> set es"
      then have "bget m s' = Some e'" using Cons.prems(3) by simp
      then show "bget m s' = Some e' \<and> e_end e \<le> s'" using entries_okD(6) [OF assms(1) s(1)] later [OF i] by blast
    next
      fix s' e' assume "bget m s' = Some e'"
      then show "(s', e') \<in> set es \<or> e_end e' \<le> e_end e" using Cons.prems(4) [of s' e'] s(2) lt by (auto simp: x)
    qed
    moreover have "fit_loop len hi at (x # es) = fit_loop len hi (e_end e) es" using 3 s(2) at' by (simp add: x) linarith
    ultimately show ?thesis
      using lowest_fit_cong [of m len at hi "e_end e"] fits_skip [OF assms(1) s 3(2)] by simp
  qed
qed

lemma page_up_le: "a \<le> b \<Longrightarrow> b mod page = 0 \<Longrightarrow> page_up a \<le> b"
proof -
  assume a: "a \<le> b" "b mod page = 0"
  then obtain j where "b = page * j" by (metis mod_0_imp_dvd dvdE)
  then show "page_up a \<le> b" using a(1) by (simp add: page_up_def page_def)
qed

lemma page_up_ge: "a \<le> page_up a" and page_up_mod: "page_up a mod page = 0"
  by (simp_all add: page_up_def page_def)

lemma fits_page_up: "fits m len lo hi b \<longleftrightarrow> fits m len (page_up lo) hi b"
  using page_up_le [of lo b] page_up_ge [of lo] by (auto simp: fits_def)

lemma first_fit_spec:
  assumes "entries_ok m" and "0 < len" and "hi \<le> u64_max" and "page_up (max from lo) \<le> u64_max"
  shows "\<exists>r. first_fit m len lo hi from = Ok r \<and> lowest_fit m len (max from lo) hi r"
proof -
  define a0 where "a0 = page_up (max from lo)"
  define at where "at = (case vm_lookup m a0 of Some (_, e) \<Rightarrow> e_end e | None \<Rightarrow> a0)"
  have res: "first_fit m len lo hi from = Ok (fit_loop len hi at (filter (\<lambda>x. at \<le> fst x) m))"
    using assms(4) unfolding first_fit_def Let_def a0_def [symmetric] at_def by simp
  have at: "at mod page = 0 \<and> (\<forall>s e. bget m s = Some e \<longrightarrow> at \<le> s \<or> e_end e \<le> at)
      \<and> (\<forall>b. fits m len a0 hi b = fits m len at hi b)"
  proof (cases "vm_lookup m a0")
    case None
    then have "\<forall>s e. bget m s = Some e \<longrightarrow> a0 \<le> s \<or> e_end e \<le> a0"
      using vm_lookup_None [OF assms(1), of a0] unfolding holds_at_def by (meson less_imp_le not_le)
    then show ?thesis using None page_up_mod by (simp add: at_def a0_def)
  next
    case (Some p)
    obtain s e where p: "p = (s, e)" by (cases p)
    then have h: "bget m s = Some e" "s \<le> a0" "a0 < e_end e"
      using Some vm_lookup_Some [OF assms(1)] by (auto simp: holds_at_def)
    have "fits m len a0 hi b = fits m len (e_end e) hi b" for b
    proof -
      have "e_end e \<le> b" if "fits m len a0 hi b"
        using that vm_at_holds [OF assms(1), of b s e] h assms(2) by (fastforce simp: fits_def holds_at_def)
      then show ?thesis using h by (auto simp: fits_def)
    qed
    moreover have "e_end e \<le> k \<or> e_end f \<le> e_end e" if "bget m k = Some f" for k f
      using entries_okD(6) [OF assms(1) h(1) that] entries_okD(6) [OF assms(1) that h(1)] h that entries_okD(4) [OF assms(1) h(1)]
      by (cases "k = s"; cases "s < k") auto
    ultimately show ?thesis using Some p entries_okD(3) [OF assms(1) h(1)] by (simp add: at_def)
  qed
  note wf = entries_okD(1) [OF assms(1)]
  have "lowest_fit m len at hi (fit_loop len hi at (filter (\<lambda>x. at \<le> fst x) m))"
    by (rule fit_loop_spec [OF assms(1-3)]) (use at wf in \<open>auto simp: bwf_filter bwf_in_set_iff\<close>)
  then have "lowest_fit m len (max from lo) hi (fit_loop len hi at (filter (\<lambda>x. at \<le> fst x) m))"
    using lowest_fit_cong [of m len "max from lo" hi at] at fits_page_up unfolding a0_def by blast
  with res show ?thesis by blast
qed

text \<open>Every page the cursor skips is mapped, so nothing that fits starts there.\<close>

lemma fits_from_cursor:
  assumes "cursor_full m (base, cur)" and "0 < len"
  shows "fits m len (max base lo) hi b \<longleftrightarrow> fits m len (max (max cur base) lo) hi b"
proof -
  have "cur \<le> b" if "fits m len (max base lo) hi b"
  proof (rule ccontr)
    assume "\<not> cur \<le> b"
    then have "vm_at m b \<noteq> None" using assms(1) that by (simp add: cursor_full_def fits_def)
    moreover have "vm_at m b = None" using that assms(2) by (simp add: fits_def)
    ultimately show False by simp
  qed
  then show ?thesis by (auto simp: fits_def)
qed

lemma first_fit_cursor:
  assumes "vm_inv m" and "v_cursor m = (base, cur)" and "0 < len" and "hi \<le> u64_max" and "page_up (max base lo) \<le> u64_max"
  shows "first_fit (v_entries m) len lo hi (max cur base) = first_fit (v_entries m) len lo hi base"
proof -
  let ?m = "v_entries m"
  note ok = vm_invD(1) [OF assms(1)]
  have c: "cursor_full ?m (base, cur)" using vm_invD(3) [OF assms(1)] assms(2) by simp
  have "page_up (max (max cur base) lo) \<le> u64_max"
  proof (cases "cur = base")
    case False
    then have "cur mod page = 0" "cur \<le> u64_max" using c by (auto simp: cursor_full_def)
    then show ?thesis
      using assms(5) page_up_le [of cur cur] by (auto simp: max_def split: if_splits)
  qed (use assms(5) in simp)
  then obtain r where r: "first_fit ?m len lo hi (max cur base) = Ok r" "lowest_fit ?m len (max (max cur base) lo) hi r"
    using first_fit_spec [OF ok assms(3,4)] by blast
  obtain r' where r': "first_fit ?m len lo hi base = Ok r'" "lowest_fit ?m len (max base lo) hi r'"
    using first_fit_spec [OF ok assms(3-5)] by blast
  have "lowest_fit ?m len (max base lo) hi r"
    using r(2) lowest_fit_cong fits_from_cursor [OF c assms(3)] by metis
  then have "r = r'" using r'(2) lowest_fit_unique by blast
  then show ?thesis using r(1) r'(1) by simp
qed

lemma find_space_spec:
  assumes "vm_inv m" and "0 < len" and "len mod page = 0" and "hi \<le> u64_max"
    and "page_up (max hint lo) \<le> u64_max" and "page_up (max base lo) \<le> u64_max"
  shows "\<exists>r. find_space m len hint base lo hi = Ok r
    \<and> (case r of None \<Rightarrow> \<forall>a. \<not> fits (v_entries m) len lo hi a | Some a \<Rightarrow> fits (v_entries m) len lo hi a)"
proof -
  let ?m = "v_entries m"
  note ok = vm_invD(1) [OF assms(1)]
  note ff = first_fit_spec [OF ok assms(2,4)]
  have weaken: "fits ?m len lo hi a" if "lowest_fit ?m len (max x lo) hi (Some a)" for x a
    using that by (simp add: lowest_fit_def fits_def)
  obtain h where h: "(if hint \<noteq> 0 then first_fit ?m len lo hi hint else Ok None) = Ok h"
      "h \<noteq> None \<Longrightarrow> lowest_fit ?m len (max hint lo) hi h"
    using ff [OF assms(5)] by (cases "hint = 0") auto
  let ?from = "if fst (v_cursor m) = base then max (snd (v_cursor m)) base else base"
  have "first_fit ?m len lo hi ?from = first_fit ?m len lo hi base"
    using first_fit_cursor [OF assms(1) _ assms(2,4,6), of "snd (v_cursor m)"] by (cases "v_cursor m") auto
  then obtain r where r: "first_fit ?m len lo hi ?from = Ok r" "lowest_fit ?m len (max base lo) hi r"
    using ff [OF assms(6)] by auto
  have "page_up lo \<le> page_up (max base lo)" by (simp add: page_up_def div_le_mono)
  then obtain l where l: "first_fit ?m len lo hi lo = Ok l" "lowest_fit ?m len lo hi l"
    using ff [of lo lo] assms(6) by auto
  have fs: "find_space m len hint base lo hi = Ok (case h of Some a \<Rightarrow> Some a | None \<Rightarrow> (case r of Some a \<Rightarrow> Some a | None \<Rightarrow> l))"
    unfolding find_space_def Let_def h(1) r(1) l(1) using assms(2,3) by (simp split: option.splits)
  show ?thesis
  proof (cases h)
    case (Some a)
    then show ?thesis using fs h(2) weaken by auto
  next
    case None
    then show ?thesis
    proof (cases r)
      case (Some a)
      then show ?thesis using fs None r(2) weaken by auto
    next
      case n: None
      then show ?thesis using fs None l(2) by (cases l) (auto simp: lowest_fit_def)
    qed
  qed
qed

section \<open>Properties\<close>

inductive vm_reach :: "vm_map \<Rightarrow> bool" where
  new: "vm_reach vm_map_new"
| insert: "vm_reach m \<Longrightarrow> e_end e \<le> u64_max \<Longrightarrow> vm_insert start e m = Some (MOk m') \<Longrightarrow> vm_reach m'"
| remove: "vm_reach m \<Longrightarrow> start \<le> u64_max \<Longrightarrow> vm_remove start fin m = Some (MOk (out, m')) \<Longrightarrow> vm_reach m'"
| protect: "vm_reach m \<Longrightarrow> vm_protect start fin prot m = Some (MOk (out, m')) \<Longrightarrow> vm_reach m'"
| set_end: "vm_reach m \<Longrightarrow> new_end \<le> u64_max \<Longrightarrow> vm_set_end start new_end m = MOk m' \<Longrightarrow> vm_reach m'"
| set_start: "vm_reach m \<Longrightarrow> vm_set_start start new_start m = MOk m' \<Longrightarrow> vm_reach m'"
| set_base: "vm_reach m \<Longrightarrow> set_base base m = Some m' \<Longrightarrow> vm_reach m'"

text \<open>
  C13. Every map reached from the empty one is well formed: entries are page-aligned, non-empty, in order and
  disjoint, the size counter is the sum of the counted entries (so it never went below zero), and every page
  between the search base and the cursor is mapped.
\<close>

theorem vm_reach_inv:
  assumes "vm_reach m"
  shows "vm_inv m \<and> 0 \<le> v_size m"
proof -
  from assms have "vm_inv m"
  proof induction
    case new
    show ?case by (rule vm_inv_new)
  next
    case (insert m e start m')
    then show ?case using vm_insert_spec [OF insert(4,2), of start] by (auto split: if_splits)
  next
    case (remove m start fin out m')
    then show ?case using vm_remove_spec [OF remove(4,2), of fin] by (auto split: if_splits)
  next
    case (protect m start fin prot out m')
    then show ?case using vm_protect_spec [OF protect(3), of start fin prot] by (auto split: if_splits)
  next
    case (set_end m new_end start m')
    then show ?case using vm_set_end_spec by blast
  next
    case (set_start m start new_start m')
    then show ?case using vm_set_start_spec by blast
  next
    case (set_base m base m')
    then show ?case using set_base_spec [OF set_base(3), of base] by auto
  qed
  then show ?thesis using size_nonneg by blast
qed

definition ex_anon :: "nat \<Rightarrow> vm_entry" where
  "ex_anon fin = \<lparr> e_end = fin, e_prot = 3, e_max_prot = 7, e_shared = False, e_kind = VAnon \<rparr>"

definition ex_file :: "nat \<Rightarrow> vm_entry" where
  "ex_file fin = \<lparr> e_end = fin, e_prot = 1, e_max_prot = 1, e_shared = False, e_kind = VFile 7 3 9 \<rparr>"

definition ex_vm :: vm_map where
  "ex_vm = \<lparr> v_entries = [(0x10000, ex_file 0x18000), (0x20000, ex_anon 0x24000)], v_size = 0xC000, v_cursor = (0x10000, 0x18000) \<rparr>"

lemma ex_vm_entries_ok: "entries_ok (v_entries ex_vm)"
  by (rule entries_okI) (auto simp: ex_vm_def ex_file_def ex_anon_def bwf_def page_def u64_max_def split: if_splits)

lemma ex_vm_at:
  "vm_at (v_entries ex_vm) a =
     (if 0x10000 \<le> a \<and> a < 0x18000 then Some (1, 1, False, VFile 7 (3 + (a - 0x10000) div page) 9)
      else if 0x20000 \<le> a \<and> a < 0x24000 then Some (3, 7, False, VAnon) else None)"
proof -
  have "holds_at (v_entries ex_vm) a s e \<longleftrightarrow>
      s = 0x10000 \<and> e = ex_file 0x18000 \<and> 0x10000 \<le> a \<and> a < 0x18000
      \<or> s = 0x20000 \<and> e = ex_anon 0x24000 \<and> 0x20000 \<le> a \<and> a < 0x24000" for s e
    by (auto simp: holds_at_def ex_vm_def ex_file_def ex_anon_def split: if_splits)
  then show ?thesis
    using vm_at_holds [OF ex_vm_entries_ok, of a] vm_at_None [OF ex_vm_entries_ok, of a]
    by (auto simp: attrs_def ex_file_def ex_anon_def)
qed

lemma ex_vm_inv: "vm_inv ex_vm"
proof -
  have "cursor_full (v_entries ex_vm) (v_cursor ex_vm)"
    by (auto simp: cursor_full_def ex_vm_at page_def u64_max_def) (simp_all add: ex_vm_def)
  moreover have "v_size ex_vm = ent_total (v_entries ex_vm)"
    by (simp add: ex_vm_def counted_def ex_file_def ex_anon_def)
  ultimately show ?thesis using ex_vm_entries_ok by (simp add: vm_inv_def)
qed

theorem vm_reach_inv_witness:
  "\<exists>m. vm_reach m \<and> v_entries m = [(0x1000, ex_anon 0x3000)] \<and> vm_inv m \<and> 0 \<le> v_size m"
proof -
  have "\<exists>m. vm_insert 0x1000 (ex_anon 0x3000) vm_map_new = Some (MOk m)"
    using vm_insert_spec [OF vm_inv_new, of "ex_anon 0x3000" "0x1000"]
    by (auto simp: ex_anon_def bad_range_def page_def u64_max_def vm_map_new_def vm_at_def vm_lookup_def blast_le_def last_opt_def)
  then obtain m where m: "vm_insert 0x1000 (ex_anon 0x3000) vm_map_new = Some (MOk m)" by blast
  have "vm_reach m" by (rule vm_reach.insert [OF vm_reach.new _ m]) (simp add: ex_anon_def u64_max_def)
  moreover have "v_entries m = [(0x1000, ex_anon 0x3000)]"
    using m by (auto simp: vm_insert_def vm_map_new_def Let_def split: if_splits)
  ultimately show ?thesis using vm_reach_inv by blast
qed

text \<open>
  C11. \<open>munmap\<close>'s part in the map: from a well-formed map, removing a range returns the exact pieces that were
  mapped there and leaves every address outside it as it was, file pages included; an unaligned, empty or
  kernel-owned range is refused and nothing else is.
\<close>

theorem vm_remove_refines:
  assumes "vm_inv m" and "start \<le> u64_max"
  shows "if bad_range start fin then vm_remove start fin m = Some (MErr Invalid)
    else if \<exists>a. start \<le> a \<and> a < fin \<and> kernel_at (v_entries m) a then vm_remove start fin m = Some (MErr KernelRange)
    else \<exists>out m'. vm_remove start fin m = Some (MOk (out, m')) \<and> vm_inv m' \<and> entries_ok out
      \<and> (\<forall>a. vm_at (v_entries m') a = (if start \<le> a \<and> a < fin then None else vm_at (v_entries m) a))
      \<and> (\<forall>a. vm_at out a = (if start \<le> a \<and> a < fin then vm_at (v_entries m) a else None))"
  by (rule vm_remove_spec [OF assms])

theorem vm_remove_refines_witness:
  "\<exists>out m'. vm_remove 0x12000 0x21000 ex_vm = Some (MOk (out, m'))
     \<and> vm_at (v_entries m') 0x11fff = Some (1, 1, False, VFile 7 4 9)
     \<and> vm_at (v_entries m') 0x12000 = None \<and> vm_at out 0x12000 = Some (1, 1, False, VFile 7 5 9)"
proof -
  have free: "\<not> (\<exists>a. 0x12000 \<le> a \<and> a < 0x21000 \<and> kernel_at (v_entries ex_vm) a)"
    by (auto simp: kernel_at_def ex_vm_at split: if_splits)
  have good: "\<not> bad_range 0x12000 0x21000" by (simp add: bad_range_def page_def)
  have "0x12000 \<le> u64_max" by (simp add: u64_max_def)
  from vm_remove_refines [OF ex_vm_inv this, of "0x21000", unfolded if_not_P [OF good] if_not_P [OF free]]
  obtain out m' where r: "vm_remove 0x12000 0x21000 ex_vm = Some (MOk (out, m'))"
      "\<forall>a. vm_at (v_entries m') a = (if 0x12000 \<le> a \<and> a < 0x21000 then None else vm_at (v_entries ex_vm) a)"
      "\<forall>a. vm_at out a = (if 0x12000 \<le> a \<and> a < 0x21000 then vm_at (v_entries ex_vm) a else None)"
    by blast
  then show ?thesis by (simp add: ex_vm_at page_def)
qed

text \<open>
  C26. \<open>mprotect\<close>'s part in the map: the protection changes at every address of the range and nowhere else,
  with the maximum, sharing and backing kept; a range with an unmapped page, one owned by the kernel or one
  whose maximum does not allow the protection is refused with the matching error, and only then.
\<close>

theorem vm_protect_refines:
  assumes "vm_inv m"
  shows "if bad_range start fin then vm_protect start fin prot m = Some (MErr Invalid)
    else if \<exists>a. start \<le> a \<and> a < fin \<and> vm_at (v_entries m) a = None then vm_protect start fin prot m = Some (MErr Unmapped)
    else if \<exists>a. start \<le> a \<and> a < fin \<and> kernel_at (v_entries m) a then vm_protect start fin prot m = Some (MErr KernelRange)
    else if \<not> within_max (v_entries m) start fin prot then vm_protect start fin prot m = Some (MErr Exceeds)
    else \<exists>out m'. vm_protect start fin prot m = Some (MOk (out, m')) \<and> vm_inv m'
      \<and> (\<forall>a. vm_at (v_entries m') a =
            (if start \<le> a \<and> a < fin then map_option (\<lambda>(_, r). (prot, r)) (vm_at (v_entries m) a)
             else vm_at (v_entries m) a))"
  by (rule vm_protect_spec [OF assms])

theorem vm_protect_refines_witness:
  "\<exists>out m'. vm_protect 0x21000 0x22000 1 ex_vm = Some (MOk (out, m'))
     \<and> vm_at (v_entries m') 0x21000 = Some (1, 7, False, VAnon)
     \<and> vm_at (v_entries m') 0x22000 = Some (3, 7, False, VAnon)"
proof -
  have mapped: "\<not> (\<exists>a. 0x21000 \<le> a \<and> a < 0x22000 \<and> vm_at (v_entries ex_vm) a = None)"
    and free: "\<not> (\<exists>a. 0x21000 \<le> a \<and> a < 0x22000 \<and> kernel_at (v_entries ex_vm) a)"
    by (auto simp: kernel_at_def ex_vm_at split: if_splits)
  have allowed: "\<not> \<not> within_max (v_entries ex_vm) 0x21000 0x22000 1"
    by (auto simp: within_max_def ex_vm_at split: if_splits)
  have good: "\<not> bad_range 0x21000 0x22000" by (simp add: bad_range_def page_def)
  from vm_protect_refines [OF ex_vm_inv, of "0x21000" "0x22000" 1, unfolded if_not_P [OF good] if_not_P [OF mapped]
      if_not_P [OF free] if_not_P [OF allowed]]
  obtain out m' where "vm_protect 0x21000 0x22000 1 ex_vm = Some (MOk (out, m'))"
      "\<forall>a. vm_at (v_entries m') a = (if 0x21000 \<le> a \<and> a < 0x22000
         then map_option (\<lambda>(_, r). (1, r)) (vm_at (v_entries ex_vm) a) else vm_at (v_entries ex_vm) a)"
    by blast
  then show ?thesis by (simp add: ex_vm_at)
qed

text \<open>
  C27. Insertion maps exactly the new range: it is refused only for a malformed range or one that meets a
  mapping, always returns, and every other address keeps what it had.
\<close>

theorem vm_insert_refines:
  assumes "vm_inv m" and "e_end e \<le> u64_max"
  shows "if bad_range start (e_end e) then vm_insert start e m = Some (MErr Invalid)
    else if \<exists>a. start \<le> a \<and> a < e_end e \<and> vm_at (v_entries m) a \<noteq> None then vm_insert start e m = Some (MErr Overlap)
    else \<exists>m'. vm_insert start e m = Some (MOk m') \<and> vm_inv m'
      \<and> (\<forall>a. vm_at (v_entries m') a =
            (if start \<le> a \<and> a < e_end e then Some (attrs e start a) else vm_at (v_entries m) a))"
  using vm_insert_spec [OF assms, of start] by (auto split: if_splits)

theorem vm_insert_refines_witness:
  "\<exists>m'. vm_insert 0x18000 (ex_anon 0x20000) ex_vm = Some (MOk m') \<and> vm_inv m'
     \<and> vm_at (v_entries m') 0x1ffff = Some (3, 7, False, VAnon)"
proof -
  have free: "\<not> (\<exists>a. 0x18000 \<le> a \<and> a < e_end (ex_anon 0x20000) \<and> vm_at (v_entries ex_vm) a \<noteq> None)"
    by (auto simp: ex_vm_at ex_anon_def split: if_splits)
  have good: "\<not> bad_range 0x18000 (e_end (ex_anon 0x20000))" by (simp add: bad_range_def page_def ex_anon_def)
  have "e_end (ex_anon 0x20000) \<le> u64_max" by (simp add: u64_max_def ex_anon_def)
  from vm_insert_refines [OF ex_vm_inv this, of "0x18000", unfolded if_not_P [OF good] if_not_P [OF free]]
  obtain m' where "vm_insert 0x18000 (ex_anon 0x20000) ex_vm = Some (MOk m')" "vm_inv m'"
      "\<forall>a. vm_at (v_entries m') a = (if 0x18000 \<le> a \<and> a < e_end (ex_anon 0x20000)
         then Some (attrs (ex_anon 0x20000) 0x18000 a) else vm_at (v_entries ex_vm) a)"
    by blast
  then show ?thesis by (simp add: ex_anon_def attrs_def)
qed

text \<open>
  C28. The search for free space is sound and complete: the address it returns starts a free, page-aligned range
  inside the window, and it gives up only when the window has none.
\<close>

theorem find_space_sound_complete:
  assumes "vm_inv m" and "0 < len" and "len mod page = 0" and "hi \<le> u64_max"
    and "page_up (max hint lo) \<le> u64_max" and "page_up (max base lo) \<le> u64_max"
  shows "\<exists>r. find_space m len hint base lo hi = Ok r
    \<and> (case r of None \<Rightarrow> \<forall>a. \<not> fits (v_entries m) len lo hi a | Some a \<Rightarrow> fits (v_entries m) len lo hi a)"
  by (rule find_space_spec [OF assms])

theorem find_space_sound_complete_witness:
  "\<exists>a. find_space ex_vm 0x1000 0 0x10000 0x10000 0x19000 = Ok (Some a) \<and> fits (v_entries ex_vm) 0x1000 0x10000 0x19000 a"
proof -
  obtain r where r: "find_space ex_vm 0x1000 0 0x10000 0x10000 0x19000 = Ok r"
      "case r of None \<Rightarrow> \<forall>a. \<not> fits (v_entries ex_vm) 0x1000 0x10000 0x19000 a | Some a \<Rightarrow> fits (v_entries ex_vm) 0x1000 0x10000 0x19000 a"
    using find_space_sound_complete [OF ex_vm_inv, of "0x1000" "0x19000" 0 "0x10000" "0x10000"]
    by (auto simp: page_def page_up_def u64_max_def)
  have "fits (v_entries ex_vm) 0x1000 0x10000 0x19000 0x18000" by (simp add: fits_def ex_vm_at page_def)
  then show ?thesis using r by (cases r) auto
qed

text \<open>
  The cursor is only an optimisation: a search that starts at the cursor gives the same answer as one that
  starts at the base.
\<close>

theorem find_space_ignores_cursor:
  assumes "vm_inv m" and "hi \<le> u64_max" and "page_up (max base lo) \<le> u64_max"
  shows "find_space m len hint base lo hi = find_space (m\<lparr>v_cursor := (base, base)\<rparr>) len hint base lo hi"
proof (cases "len = 0 \<or> len mod page \<noteq> 0")
  case True
  then show ?thesis by (auto simp: find_space_def)
next
  case False
  have "fst (v_cursor m) = base \<Longrightarrow>
      first_fit (v_entries m) len lo hi (max (snd (v_cursor m)) base) = first_fit (v_entries m) len lo hi base"
    using first_fit_cursor [OF assms(1) _ _ assms(2,3), of "snd (v_cursor m)" len] False by (cases "v_cursor m") auto
  then show ?thesis by (simp add: find_space_def Let_def)
qed

theorem find_space_ignores_cursor_witness:
  "find_space ex_vm 0x1000 0 0x10000 0x10000 0x19000
     = find_space (ex_vm\<lparr>v_cursor := (0x10000, 0x10000)\<rparr>) 0x1000 0 0x10000 0x10000 0x19000"
  by (rule find_space_ignores_cursor [OF ex_vm_inv]) (simp_all add: page_up_def page_def u64_max_def)

text \<open>
  C17. A mapping placed by the kernel never lands on another one: \<open>reserve\<close> without a fixed address either
  enters the new range at addresses of the window that were free, leaving the rest of the map alone, or fails
  with \<open>ENOMEM\<close> and the map unchanged because the limit or the window has no room. It never panics.
\<close>

theorem reserve_takes_free_space:
  assumes "vm_inv m" and "0 < len" and "len mod page = 0" and "mmap_base \<le> mmap_region_ceiling"
    and "\<And>x. e_end (entry x) = x"
  shows "case vm_reserve m mmap_base None hint len as_limit entry of
      (Ok base, m') \<Rightarrow> check_as m len as_limit \<and> fits (v_entries m) len mmap_region_base mmap_region_ceiling base \<and> vm_inv m'
         \<and> (\<forall>a. vm_at (v_entries m') a = (if base \<le> a \<and> a < base + len
               then Some (attrs (entry (base + len)) base a) else vm_at (v_entries m) a))
    | (Err e, m') \<Rightarrow> m' = m \<and> e = ENOMEM
         \<and> (check_as m len as_limit \<longrightarrow> (\<forall>a. \<not> fits (v_entries m) len mmap_region_base mmap_region_ceiling a))
    | (Panic, m') \<Rightarrow> False"
proof (cases "check_as m len as_limit")
  case False
  then show ?thesis by (simp add: vm_reserve_def alloc_va_def)
next
  case True
  define h where "h = (if mmap_region_base \<le> hint \<and> hint < mmap_region_ceiling then hint div page * page else 0)"
  have "h \<le> mmap_region_ceiling" by (auto simp: h_def intro: order_trans [OF div_times_less_eq_dividend])
  then have up: "page_up (max h mmap_region_base) \<le> u64_max" "page_up (max mmap_base mmap_region_base) \<le> u64_max"
    using assms(4) by (auto simp: page_up_def page_def mmap_region_base_def mmap_region_ceiling_def u64_max_def)
  have top: "mmap_region_ceiling \<le> u64_max" by (simp add: mmap_region_ceiling_def u64_max_def)
  obtain r where r: "find_space m len h mmap_base mmap_region_base mmap_region_ceiling = Ok r"
      "case r of None \<Rightarrow> \<forall>a. \<not> fits (v_entries m) len mmap_region_base mmap_region_ceiling a
         | Some a \<Rightarrow> fits (v_entries m) len mmap_region_base mmap_region_ceiling a"
    using find_space_spec [OF assms(1-3) top up] by blast
  show ?thesis
  proof (cases r)
    case None
    then show ?thesis using True r by (simp add: vm_reserve_def alloc_va_def h_def Let_def)
  next
    case (Some base)
    then have fit: "fits (v_entries m) len mmap_region_base mmap_region_ceiling base" using r by simp
    then have u: "base + len \<le> u64_max" by (auto simp: fits_def mmap_region_ceiling_def u64_max_def)
    then have u': "e_end (entry (base + len)) \<le> u64_max" by (simp add: assms(5))
    have good: "\<not> bad_range base (e_end (entry (base + len)))"
      using fit assms(2,3,5) by (auto simp: fits_def bad_range_def mod_add_eq [symmetric, of base])
    have free: "\<not> (\<exists>a. base \<le> a \<and> a < e_end (entry (base + len)) \<and> vm_at (v_entries m) a \<noteq> None)"
      using fit assms(5) by (auto simp: fits_def)
    obtain m' where "vm_insert base (entry (base + len)) m = Some (MOk m')" "vm_inv m'"
        "\<forall>a. vm_at (v_entries m') a = (if base \<le> a \<and> a < e_end (entry (base + len))
           then Some (attrs (entry (base + len)) base a) else vm_at (v_entries m) a)"
      using vm_insert_spec [OF assms(1) u', of base, unfolded if_not_P [OF good] if_not_P [OF free]] by blast
    then show ?thesis using True r Some u fit assms(5) by (simp add: vm_reserve_def alloc_va_def h_def [symmetric] Let_def)
  qed
qed

theorem reserve_takes_free_space_witness:
  "\<exists>base m'. vm_reserve ex_vm mmap_region_base None 0 0x1000 0x1000000 ex_anon = (Ok base, m')
     \<and> fits (v_entries ex_vm) 0x1000 mmap_region_base mmap_region_ceiling base \<and> vm_inv m'"
proof -
  have "fits (v_entries ex_vm) 0x1000 mmap_region_base mmap_region_ceiling mmap_region_base"
    by (simp add: fits_def ex_vm_at page_def mmap_region_base_def mmap_region_ceiling_def)
  moreover have "check_as ex_vm 0x1000 0x1000000" by (simp add: check_as_def ex_vm_def u64_max_def)
  ultimately show ?thesis
    using reserve_takes_free_space [OF ex_vm_inv, where len = "0x1000" and mmap_base = mmap_region_base
        and entry = ex_anon and hint = 0 and as_limit = "0x1000000"]
    by (cases "vm_reserve ex_vm mmap_region_base None 0 0x1000 0x1000000 ex_anon")
      (auto simp: page_def ex_anon_def mmap_region_base_def mmap_region_ceiling_def split: kres.splits)
qed

end
