(* ===== verification/Fd_Bitmap.thy ===== *)
theory Fd_Bitmap
  imports Prelude
begin

text \<open>
  The bitmap of a process's descriptor numbers in use (\<open>sys/fs/fd.rs\<close>, \<open>FdBitmap\<close>): two
  levels of 64-bit words, the upper marking the full words of the lower, so that the lowest free
  number is found without walking the open ones.

  \<open>bm_set\<close> is the set of numbers the bitmap stands for. \<open>bm_inv\<close> says that the summary level
  and the count agree with it. Setting and clearing a number are insertion and removal on that
  set, \<open>lowest_free\<close> is the least number from a bound on that is not in it, and
  \<open>count_below\<close> is a cardinality.
\<close>

section \<open>Rust's word and vector operations\<close>

definition trailing_zeros :: "u64 \<Rightarrow> nat" where
  "trailing_zeros x = length (takeWhile (\<lambda>i. \<not> bit x i) [0..<64])"

definition count_ones :: "u64 \<Rightarrow> nat" where
  "count_ones x = length (filter (bit x) [0..<64])"

definition one_bit :: "nat \<Rightarrow> u64" where
  "one_bit b = push_bit b 1"

definition vec_resize :: "nat \<Rightarrow> 'a \<Rightarrow> 'a list \<Rightarrow> 'a list" where
  "vec_resize n x xs = take n xs @ replicate (n - length xs) x"

definition word_full :: u64 where "word_full = - 1"

section \<open>The bitmap\<close>

record fd_bitmap =
  bm_lo :: "u64 list"
  bm_hi :: "u64 list"
  bm_count :: nat

definition bm_default :: fd_bitmap where
  "bm_default = \<lparr> bm_lo = [], bm_hi = [], bm_count = 0 \<rparr>"

definition bm_grow :: "nat \<Rightarrow> fd_bitmap \<Rightarrow> fd_bitmap" where
  "bm_grow w m =
     (if length (bm_lo m) \<le> w
      then m\<lparr>bm_lo := vec_resize (w + 1) 0 (bm_lo m), bm_hi := vec_resize (w div 64 + 1) 0 (bm_hi m)\<rparr>
      else m)"

definition bm_insert :: "nat \<Rightarrow> fd_bitmap \<Rightarrow> fd_bitmap" where
  "bm_insert fd m =
     (let w = fd div 64; b = fd mod 64; m = bm_grow w m in
      if bm_lo m ! w AND one_bit b = 0
      then let x = bm_lo m ! w OR one_bit b in
        m\<lparr>bm_lo := (bm_lo m)[w := x], bm_count := bm_count m + 1,
          bm_hi := (if x = word_full then (bm_hi m)[w div 64 := bm_hi m ! (w div 64) OR one_bit (w mod 64)]
                    else bm_hi m)\<rparr>
      else m)"

definition bm_clear :: "nat \<Rightarrow> fd_bitmap \<Rightarrow> fd_bitmap" where
  "bm_clear fd m =
     (let w = fd div 64; b = fd mod 64 in
      if w < length (bm_lo m) \<and> bm_lo m ! w AND one_bit b \<noteq> 0
      then m\<lparr>bm_lo := (bm_lo m)[w := bm_lo m ! w AND NOT (one_bit b)], bm_count := bm_count m - 1,
             bm_hi := (bm_hi m)[w div 64 := bm_hi m ! (w div 64) AND NOT (one_bit (w mod 64))]\<rparr>
      else m)"

text \<open>
  The loop of \<open>lowest_free\<close>: from word \<open>w\<close> on, skip full words by the summary level, 64 of
  them at a time when a whole summary word is full.
\<close>

function free_walk :: "u64 list \<Rightarrow> u64 list \<Rightarrow> nat \<Rightarrow> nat" where
  "free_walk lo hi w =
     (if w < length lo then
        let h = hi ! (w div 64) OR (one_bit (w mod 64) - 1) in
        if h = word_full then free_walk lo hi ((w div 64 + 1) * 64)
        else let w' = w div 64 * 64 + trailing_zeros (NOT h) in
          if length lo \<le> w' then length lo * 64
          else w' * 64 + trailing_zeros (NOT (lo ! w'))
      else length lo * 64)"
  by pat_completeness auto
termination
proof (relation "measure (\<lambda>(lo, hi, w). length lo - w)")
  fix lo hi :: "u64 list" and w :: nat
  assume "w < length lo"
  moreover have "w < (w div 64 + 1) * 64"
    using div_mult_mod_eq [of w 64] by (simp add: distrib_right)
  ultimately show "((lo, hi, (w div 64 + 1) * 64), (lo, hi, w)) \<in> measure (\<lambda>(lo, hi, w). length lo - w)"
    by simp
qed simp

declare free_walk.simps [simp del]

definition bm_lowest_free :: "nat \<Rightarrow> fd_bitmap \<Rightarrow> nat" where
  "bm_lowest_free mn m =
     (let first = mn div 64 in
      if length (bm_lo m) \<le> first then mn
      else let word = bm_lo m ! first OR (one_bit (mn mod 64) - 1) in
        if word \<noteq> word_full then first * 64 + trailing_zeros (NOT word)
        else free_walk (bm_lo m) (bm_hi m) (first + 1))"

definition bm_count_below :: "nat \<Rightarrow> fd_bitmap \<Rightarrow> nat" where
  "bm_count_below limit m =
     (if length (bm_lo m) * 64 \<le> limit then bm_count m
      else let w = limit div 64; b = limit mod 64 in
        sum_list (map count_ones (take w (bm_lo m))) + count_ones (bm_lo m ! w AND (one_bit b - 1)))"

section \<open>Words\<close>

lemma bit_one_bit [simp]: "b < 64 \<Longrightarrow> bit (one_bit b) i \<longleftrightarrow> i = b"
  by (auto simp: one_bit_def push_bit_eq_mult bit_exp_iff)

lemma one_bit_minus_1: "one_bit b - 1 = mask b"
  by (simp add: one_bit_def mask_eq_exp_minus_1 push_bit_eq_mult)

lemma bit_below: "bit (x OR (one_bit b - 1)) i \<longleftrightarrow> bit x i \<or> i < b \<and> i < 64" for x :: u64
  by (auto simp: one_bit_minus_1 bit_or_iff bit_mask_iff)

lemma bit_lt_64: "bit (x :: u64) i \<Longrightarrow> i < 64"
  using bit_imp_le_length [of x i] by simp

lemma and_one_bit_eq_0:
  fixes x :: u64
  assumes "b < 64"
  shows "x AND one_bit b = 0 \<longleftrightarrow> \<not> bit x b"
proof
  assume "x AND one_bit b = 0"
  then have "\<not> bit (x AND one_bit b) b" by simp
  then show "\<not> bit x b" using \<open>b < 64\<close> by (simp add: bit_and_iff)
next
  assume "\<not> bit x b"
  then show "x AND one_bit b = 0" using \<open>b < 64\<close> by (intro bit_word_eqI) (auto simp: bit_and_iff)
qed

lemma word_full_iff: "x = word_full \<longleftrightarrow> (\<forall>i<64. bit x i)" for x :: u64
proof
  assume "\<forall>i<64. bit x i"
  then show "x = word_full" by (intro bit_word_eqI) (simp add: word_full_def)
qed (simp add: word_full_def)

lemma trailing_zeros_first:
  assumes "bit x i" and "\<And>j. j < i \<Longrightarrow> \<not> bit x j"
  shows "trailing_zeros x = i"
proof -
  have i: "i < 64" using assms(1) by (rule bit_lt_64)
  have "[0..<64] = [0..<i] @ i # [Suc i..<64]"
    using i by (metis less_imp_le_nat upt_add_eq_append upt_conv_Cons le_add_diff_inverse zero_le add_0)
  moreover have "takeWhile (\<lambda>i. \<not> bit x i) [0..<i] = [0..<i]"
    using assms(2) by (simp add: takeWhile_eq_all_conv)
  ultimately show ?thesis using assms by (simp only: trailing_zeros_def takeWhile_append2) (simp add: takeWhile_append)
qed

lemma trailing_zeros_NOT:
  assumes "x \<noteq> word_full"
  shows "trailing_zeros (NOT x) < 64" and "\<not> bit x (trailing_zeros (NOT x))"
    and "j < trailing_zeros (NOT x) \<Longrightarrow> bit x j"
proof -
  have "\<exists>i. i < 64 \<and> \<not> bit x i" using assms by (auto simp: word_full_iff)
  then obtain i where i: "i < 64" "\<not> bit x i" "\<And>j. j < i \<Longrightarrow> bit x j"
    using exists_least_iff [of "\<lambda>i. i < 64 \<and> \<not> bit x i"] by (metis less_trans)
  have "trailing_zeros (NOT x) = i"
    by (rule trailing_zeros_first) (use i in \<open>auto simp: bit_not_iff\<close>)
  then show "trailing_zeros (NOT x) < 64" "\<not> bit x (trailing_zeros (NOT x))"
    "j < trailing_zeros (NOT x) \<Longrightarrow> bit x j" using i by auto
qed

lemma count_ones_card: "count_ones x = card {i. bit x i}"
proof -
  have "count_ones x = card (set (filter (bit x) [0..<64]))"
    by (metis count_ones_def distinct_card distinct_filter distinct_upt)
  also have "set (filter (bit x) [0..<64]) = {i. bit x i}" using bit_lt_64 by auto
  finally show ?thesis .
qed

lemma length_vec_resize [simp]: "length (vec_resize n x xs) = n"
  by (simp add: vec_resize_def)

lemma nth_vec_resize: "i < n \<Longrightarrow> vec_resize n x xs ! i = (if i < length xs then xs ! i else x)"
  by (auto simp: vec_resize_def nth_append)

section \<open>The set of numbers in use\<close>

definition bm_set :: "fd_bitmap \<Rightarrow> nat set" where
  "bm_set m = {fd. fd div 64 < length (bm_lo m) \<and> bit (bm_lo m ! (fd div 64)) (fd mod 64)}"

definition bm_inv :: "fd_bitmap \<Rightarrow> bool" where
  "bm_inv m \<longleftrightarrow> length (bm_hi m) = (length (bm_lo m) + 63) div 64
     \<and> (\<forall>w. w < length (bm_hi m) * 64 \<longrightarrow>
           bit (bm_hi m ! (w div 64)) (w mod 64) = (w < length (bm_lo m) \<and> bm_lo m ! w = word_full))
     \<and> bm_count m = card (bm_set m)"

lemma bm_set_default [simp]: "bm_set bm_default = {}"
  by (simp add: bm_set_def bm_default_def)

lemma bm_inv_default [simp]: "bm_inv bm_default"
  by (simp add: bm_inv_def bm_set_def bm_default_def)

lemma bm_set_bound: "fd \<in> bm_set m \<Longrightarrow> fd < length (bm_lo m) * 64"
  by (simp add: bm_set_def div_less_iff_less_mult)

lemma finite_bm_set [simp]: "finite (bm_set m)"
  by (rule finite_subset [of _ "{..<length (bm_lo m) * 64}"]) (auto dest: bm_set_bound)

lemma bm_word_free: "n div 64 < length (bm_lo m) \<Longrightarrow> n \<notin> bm_set m \<longleftrightarrow> \<not> bit (bm_lo m ! (n div 64)) (n mod 64)"
  by (simp add: bm_set_def)

section \<open>Growing, setting and clearing\<close>

lemma bm_inv_hi: "bm_inv m \<Longrightarrow> w < length (bm_lo m) \<Longrightarrow> w div 64 < length (bm_hi m)"
  by (simp add: bm_inv_def div_less_iff_less_mult)

lemma bm_inv_full:
  "bm_inv m \<Longrightarrow> w < length (bm_lo m) \<Longrightarrow> bit (bm_hi m ! (w div 64)) (w mod 64) \<longleftrightarrow> bm_lo m ! w = word_full"
  using bm_inv_hi [of m w] by (simp add: bm_inv_def div_less_iff_less_mult)

lemma bm_set_grow [simp]: "bm_set (bm_grow w m) = bm_set m"
  by (auto simp: bm_set_def bm_grow_def nth_vec_resize split: if_splits)

lemma length_bm_grow: "w < length (bm_lo (bm_grow w m))"
  by (simp add: bm_grow_def)

lemma bm_inv_grow:
  assumes "bm_inv m"
  shows "bm_inv (bm_grow w m)"
proof (cases "length (bm_lo m) \<le> w")
  case True
  have len: "length (bm_hi m) = (length (bm_lo m) + 63) div 64" using assms by (simp add: bm_inv_def)
  have short: "length (bm_hi m) \<le> w div 64 + 1" using True len by (simp add: div_le_mono)
  have "bit (vec_resize (w div 64 + 1) 0 (bm_hi m) ! (v div 64)) (v mod 64)
      = (v < w + 1 \<and> vec_resize (w + 1) 0 (bm_lo m) ! v = word_full)" if v: "v < (w div 64 + 1) * 64" for v
  proof -
    have d: "v div 64 < w div 64 + 1" using v by (simp add: div_less_iff_less_mult)
    have zero: "(0 :: u64) \<noteq> word_full" by (simp add: word_full_def)
    show ?thesis
    proof (cases "v div 64 < length (bm_hi m)")
      case True
      then have "v < length (bm_hi m) * 64" by (simp add: div_less_iff_less_mult)
      then have "bit (bm_hi m ! (v div 64)) (v mod 64) = (v < length (bm_lo m) \<and> bm_lo m ! v = word_full)"
        using assms by (simp add: bm_inv_def)
      then show ?thesis using True d zero \<open>length (bm_lo m) \<le> w\<close>
        by (cases "v < length (bm_lo m)") (auto simp: nth_vec_resize)
    next
      case False
      then have "\<not> v < length (bm_lo m)" using bm_inv_hi [OF assms] by blast
      then show ?thesis using False d zero by (auto simp: nth_vec_resize)
    qed
  qed
  then show ?thesis using True assms bm_set_grow [of w m]
    by (simp add: bm_inv_def [of "bm_grow w m"]) (simp add: bm_inv_def bm_grow_def)
qed (use assms in \<open>simp add: bm_grow_def\<close>)

text \<open>Writing one word, and marking it in the summary exactly when it is full, keeps the summary right.\<close>

lemma hi_update:
  assumes "bm_inv m" and "w < length (bm_lo m)"
    and hi: "\<And>v. v < length (bm_hi m) * 64 \<Longrightarrow> bit (hi' ! (v div 64)) (v mod 64)
       = (if v = w then x = word_full else bit (bm_hi m ! (v div 64)) (v mod 64))"
    and "length hi' = length (bm_hi m)" and "v < length hi' * 64"
  shows "bit (hi' ! (v div 64)) (v mod 64) = (v < length ((bm_lo m)[w := x]) \<and> (bm_lo m)[w := x] ! v = word_full)"
  using assms hi [of v] by (auto simp: bm_inv_def)

lemma bit_list_update:
  assumes "b < 64" and "q < length (xs :: u64 list)"
  shows "bit (xs[q := xs ! q OR one_bit b] ! i) j = (bit (xs ! i) j \<or> i = q \<and> j = b)"
    and "bit (xs[q := xs ! q AND NOT (one_bit b)] ! i) j = (bit (xs ! i) j \<and> \<not> (i = q \<and> j = b))"
  using assms bit_lt_64 by (auto simp: nth_list_update bit_or_iff bit_and_iff bit_not_iff)

lemma word_pos_eq: "v div 64 = w div 64 \<and> v mod 64 = w mod 64 \<longleftrightarrow> v = w" for v w :: nat
  by (metis div_mult_mod_eq)

lemma bm_insert_spec:
  assumes "bm_inv m"
  shows "bm_set (bm_insert fd m) = insert fd (bm_set m)" and "bm_inv (bm_insert fd m)"
proof -
  define w b g where "w = fd div 64" and "b = fd mod 64" and "g = bm_grow w m"
  have g: "bm_inv g" "bm_set g = bm_set m" "w < length (bm_lo g)" "b < 64"
    using bm_inv_grow [OF assms] by (simp_all add: g_def length_bm_grow b_def)
  have fd: "fd \<in> bm_set g \<longleftrightarrow> bit (bm_lo g ! w) b" using g(3) by (simp add: bm_set_def [of g] w_def b_def)
  define x where "x = bm_lo g ! w OR one_bit b"
  define hi' where "hi' = (if x = word_full then (bm_hi g)[w div 64 := bm_hi g ! (w div 64) OR one_bit (w mod 64)] else bm_hi g)"
  define r where "r = g\<lparr>bm_lo := (bm_lo g)[w := x], bm_count := bm_count g + 1, bm_hi := hi'\<rparr>"
  have eq: "bm_insert fd m = (if bit (bm_lo g ! w) b then g else r)"
    using g by (simp add: bm_insert_def Let_def w_def [symmetric] b_def [symmetric] g_def [symmetric]
        and_one_bit_eq_0 r_def x_def hi'_def)
  show "bm_set (bm_insert fd m) = insert fd (bm_set m)" and "bm_inv (bm_insert fd m)"
  proof -
    have rset: "bm_set r = insert fd (bm_set m)"
      unfolding g(2) [symmetric] using g
      by (auto simp: bm_set_def r_def x_def bit_list_update w_def b_def word_pos_eq)
    then show "bm_set (bm_insert fd m) = insert fd (bm_set m)" using eq fd g by auto
    have "bm_inv r" if new: "\<not> bit (bm_lo g ! w) b"
    proof -
      have len: "length hi' = length (bm_hi g)" by (simp add: hi'_def)
      have nf: "bm_lo g ! w \<noteq> word_full" using new g by (auto simp: word_full_iff)
      have hi: "bit (hi' ! (v div 64)) (v mod 64) = (if v = w then x = word_full else bit (bm_hi g ! (v div 64)) (v mod 64))" for v
        using bm_inv_hi [OF g(1,3)] bm_inv_full [OF g(1,3)] nf
        by (auto simp: hi'_def bit_list_update word_pos_eq bit_or_iff)
      have "bm_count r = card (bm_set r)"
        using g new fd rset by (simp add: r_def bm_inv_def)
      moreover have "bit (hi' ! (v div 64)) (v mod 64) = (v < length ((bm_lo g)[w := x]) \<and> (bm_lo g)[w := x] ! v = word_full)"
        if "v < length hi' * 64" for v
        by (rule hi_update [OF g(1,3) hi len that])
      ultimately show ?thesis using g(1) len by (simp add: bm_inv_def [of r]) (simp add: bm_inv_def r_def)
    qed
    then show "bm_inv (bm_insert fd m)" using eq g by simp
  qed
qed

lemma bm_clear_spec:
  assumes "bm_inv m"
  shows "bm_set (bm_clear fd m) = bm_set m - {fd}" and "bm_inv (bm_clear fd m)"
proof -
  define w b where "w = fd div 64" and "b = fd mod 64"
  have b: "b < 64" by (simp add: b_def)
  have fd: "fd \<in> bm_set m \<longleftrightarrow> w < length (bm_lo m) \<and> bit (bm_lo m ! w) b" by (simp add: bm_set_def w_def b_def)
  define x where "x = bm_lo m ! w AND NOT (one_bit b)"
  define hi' where "hi' = (bm_hi m)[w div 64 := bm_hi m ! (w div 64) AND NOT (one_bit (w mod 64))]"
  define r where "r = m\<lparr>bm_lo := (bm_lo m)[w := x], bm_count := bm_count m - 1, bm_hi := hi'\<rparr>"
  have eq: "bm_clear fd m = (if fd \<in> bm_set m then r else m)"
    using b by (simp add: bm_clear_def Let_def w_def [symmetric] b_def [symmetric] and_one_bit_eq_0 fd r_def x_def hi'_def)
  have rset: "bm_set r = bm_set m - {fd}" if "fd \<in> bm_set m"
    using that b unfolding fd by (auto simp: bm_set_def r_def x_def bit_list_update w_def b_def word_pos_eq)
  then show "bm_set (bm_clear fd m) = bm_set m - {fd}" using eq by auto
  have "bm_inv r" if old: "fd \<in> bm_set m"
  proof -
    have w: "w < length (bm_lo m)" using old fd by simp
    have len: "length hi' = length (bm_hi m)" by (simp add: hi'_def)
    have nf: "x \<noteq> word_full" using b by (auto simp: x_def word_full_iff bit_and_iff bit_not_iff)
    have hi: "bit (hi' ! (v div 64)) (v mod 64) = (if v = w then x = word_full else bit (bm_hi m ! (v div 64)) (v mod 64))" for v
      using bm_inv_hi [OF assms w] nf by (auto simp: hi'_def bit_list_update word_pos_eq)
    have "bm_count r = card (bm_set r)"
      using assms old rset [OF old] by (simp add: r_def bm_inv_def)
    moreover have "bit (hi' ! (v div 64)) (v mod 64) = (v < length ((bm_lo m)[w := x]) \<and> (bm_lo m)[w := x] ! v = word_full)"
      if "v < length hi' * 64" for v
      by (rule hi_update [OF assms w hi len that])
    ultimately show ?thesis using assms len by (simp add: bm_inv_def [of r]) (simp add: bm_inv_def r_def)
  qed
  then show "bm_inv (bm_clear fd m)" using eq assms by simp
qed

section \<open>The lowest free number\<close>

definition is_lowest_free :: "nat set \<Rightarrow> nat \<Rightarrow> nat \<Rightarrow> bool" where
  "is_lowest_free used mn r \<longleftrightarrow> mn \<le> r \<and> r \<notin> used \<and> (\<forall>x. mn \<le> x \<longrightarrow> x < r \<longrightarrow> x \<in> used)"

lemma is_lowest_free_unique: "is_lowest_free A mn r \<Longrightarrow> is_lowest_free A mn r' \<Longrightarrow> r = r'"
  unfolding is_lowest_free_def by (metis linorder_neqE_nat)

lemma full_word_used:
  assumes "w < length (bm_lo m)" and "bm_lo m ! w = word_full" and "w * 64 \<le> x" and "x < (w + 1) * 64"
  shows "x \<in> bm_set m"
proof -
  have "x div 64 = w" using assms(3,4) by (intro div_nat_eqI) auto
  then show ?thesis using assms(1,2) by (simp add: bm_set_def word_full_iff)
qed

lemma full_words_used:
  assumes "\<And>v. w \<le> v \<Longrightarrow> v < w' \<Longrightarrow> v < length (bm_lo m) \<and> bm_lo m ! v = word_full" and "w * 64 \<le> x" and "x < w' * 64"
  shows "x \<in> bm_set m"
proof (rule full_word_used)
  have "w \<le> x div 64" "x div 64 < w'" using assms(2,3) by (simp_all add: less_eq_div_iff_mult_less_eq div_less_iff_less_mult)
  then show "x div 64 < length (bm_lo m)" "bm_lo m ! (x div 64) = word_full" using assms(1) by simp_all
qed (use div_mult_mod_eq [of x 64] in \<open>auto simp: distrib_right\<close>)

lemma word_lowest_free:
  assumes "w < length (bm_lo m)" and "bm_lo m ! w \<noteq> word_full"
    and "\<And>x. mn \<le> x \<Longrightarrow> x < w * 64 \<Longrightarrow> x \<in> bm_set m" and "mn \<le> w * 64"
  shows "is_lowest_free (bm_set m) mn (w * 64 + trailing_zeros (NOT (bm_lo m ! w)))"
proof -
  let ?t = "trailing_zeros (NOT (bm_lo m ! w))"
  note t = trailing_zeros_NOT [OF assms(2)]
  have "w * 64 + ?t \<notin> bm_set m" using t by (simp add: bm_set_def)
  moreover have "x \<in> bm_set m" if "mn \<le> x" "x < w * 64 + ?t" for x
  proof (cases "x < w * 64")
    case False
    then have d: "x div 64 = w" using that(2) t(1) by (auto intro!: div_nat_eqI)
    moreover have "x mod 64 < ?t" using False that(2) div_mult_mod_eq [of x 64] unfolding d by linarith
    ultimately have "x div 64 = w" "x mod 64 < ?t" by simp_all
    then show ?thesis using t(3) assms(1) by (simp add: bm_set_def)
  qed (use assms(3) that in auto)
  ultimately show ?thesis using assms(4) by (simp add: is_lowest_free_def)
qed

lemma summary_run:
  assumes "bm_inv m" and "w < length (bm_lo m)" and "c \<le> 64"
    and "\<And>i. w mod 64 \<le> i \<Longrightarrow> i < c \<Longrightarrow> bit (bm_hi m ! (w div 64)) i"
    and "w \<le> v" and "v < w div 64 * 64 + c"
  shows "v < length (bm_lo m) \<and> bm_lo m ! v = word_full"
proof -
  have d: "v div 64 = w div 64" using assms(3,5,6) div_mult_mod_eq [of w 64] by (intro div_nat_eqI) auto
  moreover have "w mod 64 \<le> v mod 64" "v mod 64 < c"
    using assms(5,6) div_mult_mod_eq [of w 64] div_mult_mod_eq [of v 64] unfolding d by linarith+
  ultimately have "bit (bm_hi m ! (v div 64)) (v mod 64)" using assms(4) by simp
  moreover have "v < length (bm_hi m) * 64"
    using bm_inv_hi [OF assms(1,2)] d by (simp add: div_less_iff_less_mult [symmetric])
  ultimately show ?thesis using assms(1) by (auto simp: bm_inv_def)
qed

lemma free_walk_spec:
  assumes "bm_inv m" and "\<And>x. mn \<le> x \<Longrightarrow> x < w * 64 \<Longrightarrow> x \<in> bm_set m" and "mn \<le> w * 64"
    and "w \<le> length (bm_lo m)"
  shows "is_lowest_free (bm_set m) mn (free_walk (bm_lo m) (bm_hi m) w)"
  using assms(2-)
proof (induction "bm_lo m" "bm_hi m" w rule: free_walk.induct)
  case (1 w)
  let ?h = "bm_hi m ! (w div 64) OR (one_bit (w mod 64) - 1)"
  have outside: "is_lowest_free (bm_set m) mn (length (bm_lo m) * 64)"
    if "\<And>x. mn \<le> x \<Longrightarrow> x < length (bm_lo m) * 64 \<Longrightarrow> x \<in> bm_set m" "mn \<le> length (bm_lo m) * 64"
    using that bm_set_bound [of "length (bm_lo m) * 64" m] by (auto simp: is_lowest_free_def)
  show ?case
  proof (cases "w < length (bm_lo m)")
    case False
    then have "w = length (bm_lo m)" using "1.prems"(3) by simp
    then show ?thesis using outside "1.prems"(1,2) by (simp add: free_walk.simps)
  next
    case True
    define c where "c = (if ?h = word_full then 64 else trailing_zeros (NOT ?h))"
    define w' where "w' = w div 64 * 64 + c"
    have c: "c \<le> 64 \<and> (\<forall>i<c. bit ?h i)"
    proof (cases "?h = word_full")
      case True
      then have "\<forall>i<64. bit ?h i" by (simp only: word_full_iff)
      then show ?thesis using True by (simp add: c_def)
    next
      case False
      then show ?thesis using trailing_zeros_NOT [OF False] by (simp add: c_def)
    qed
    have c: "c \<le> 64" "\<And>i. i < c \<Longrightarrow> bit ?h i" using c by blast+
    have below: "w mod 64 \<le> c"
    proof (cases "?h = word_full")
      case False
      then have "\<not> bit ?h c" using trailing_zeros_NOT [of ?h] by (simp add: c_def)
      then show ?thesis using c(1) by (auto simp: bit_below not_less)
    qed (simp add: c_def)
    then have le: "w \<le> w'" unfolding w'_def using div_mult_mod_eq [of w 64] by linarith
    have run: "v < length (bm_lo m) \<and> bm_lo m ! v = word_full" if "w \<le> v" "v < w'" for v
    proof (rule summary_run [OF assms(1) True c(1) _ that(1)])
      show "bit (bm_hi m ! (w div 64)) i" if "w mod 64 \<le> i" "i < c" for i
        using c(2) [OF that(2)] that(1) by (auto simp: bit_below)
    qed (use that(2) in \<open>simp add: w'_def\<close>)
    have used: "x \<in> bm_set m" if "mn \<le> x" "x < w' * 64" for x
    proof (cases "x < w * 64")
      case False
      show ?thesis by (rule full_words_used [of w w']) (use run False that(2) in auto)
    qed (use "1.prems"(1) that(1) in simp)
    have mn: "mn \<le> w' * 64" using "1.prems"(2) le by linarith
    have len: "w' \<le> length (bm_lo m)"
    proof (cases "w = w'")
      case False
      then have "w' - 1 < length (bm_lo m)" using run [of "w' - 1"] le by simp
      then show ?thesis by linarith
    qed (use True in simp)
    show ?thesis
    proof (cases "?h = word_full")
      case full: True
      then have w': "w' = (w div 64 + 1) * 64" by (simp add: w'_def c_def)
      have "is_lowest_free (bm_set m) mn (free_walk (bm_lo m) (bm_hi m) ((w div 64 + 1) * 64))"
        by (rule "1.hyps" [OF True refl full]) (use used mn len in \<open>simp_all only: w' [symmetric]\<close>)
      then show ?thesis using True full by (simp add: free_walk.simps [of _ _ w])
    next
      case nfull: False
      then have w': "w' = w div 64 * 64 + trailing_zeros (NOT ?h)" by (simp add: w'_def c_def)
      show ?thesis
      proof (cases "w' < length (bm_lo m)")
        case False
        then have "w' = length (bm_lo m)" using len by simp
        then show ?thesis using outside used mn True nfull w' by (simp add: free_walk.simps [of _ _ w])
      next
        case inside: True
        have "c < 64" using trailing_zeros_NOT(1) [OF nfull] nfull by (simp add: c_def)
        then have "w' div 64 = w div 64" "w' mod 64 = c" by (simp_all add: w'_def)
        moreover have "\<not> bit (bm_hi m ! (w div 64)) c"
          using trailing_zeros_NOT(2) [OF nfull] nfull by (simp add: c_def bit_below)
        ultimately have "bm_lo m ! w' \<noteq> word_full" using bm_inv_full [OF assms(1) inside] by simp
        then show ?thesis
          using word_lowest_free [OF inside _ used mn] True nfull inside w' by (simp add: free_walk.simps [of _ _ w])
      qed
    qed
  qed
qed

lemma bm_lowest_free_spec:
  assumes "bm_inv m"
  shows "is_lowest_free (bm_set m) mn (bm_lowest_free mn m)"
proof (cases "mn div 64 < length (bm_lo m)")
  case False
  then have "mn \<notin> bm_set m" by (simp add: bm_set_def)
  then show ?thesis using False by (simp add: bm_lowest_free_def is_lowest_free_def)
next
  case True
  let ?f = "mn div 64"
  let ?word = "bm_lo m ! ?f OR (one_bit (mn mod 64) - 1)"
  have split: "?f * 64 + mn mod 64 = mn" by simp
  have member: "x \<in> bm_set m \<longleftrightarrow> bit (bm_lo m ! ?f) (x - ?f * 64)" if "?f * 64 \<le> x" "x < (?f + 1) * 64" for x
  proof -
    have d: "x div 64 = ?f" using that by (intro div_nat_eqI) auto
    then have "x mod 64 = x - ?f * 64" by (metis minus_div_mult_eq_mod)
    then show ?thesis using True d by (simp add: bm_set_def)
  qed
  show ?thesis
  proof (cases "?word = word_full")
    case False
    define t where "t = trailing_zeros (NOT ?word)"
    have t: "t < 64" "\<not> bit ?word t" "\<And>j. j < t \<Longrightarrow> bit ?word j"
      using trailing_zeros_NOT [OF False] by (simp_all add: t_def)
    then have ge: "mn mod 64 \<le> t" by (auto simp: bit_below not_less)
    have "is_lowest_free (bm_set m) mn (?f * 64 + t)"
      unfolding is_lowest_free_def
    proof (intro conjI allI impI)
      show "mn \<le> ?f * 64 + t" using ge split by linarith
      show "?f * 64 + t \<notin> bm_set m" using member [of "?f * 64 + t"] t by (simp add: bit_below)
      fix x assume x: "mn \<le> x" "x < ?f * 64 + t"
      then have "x - ?f * 64 < t" "\<not> x - ?f * 64 < mn mod 64" using split by linarith+
      then have "bit (bm_lo m ! ?f) (x - ?f * 64)" using t(3) by (auto simp: bit_below)
      then show "x \<in> bm_set m" using member [of x] x t(1) split by (simp add: distrib_right)
    qed
    then show ?thesis using True False by (simp add: bm_lowest_free_def t_def Let_def)
  next
    case full: True
    have "x \<in> bm_set m" if "mn \<le> x" "x < (?f + 1) * 64" for x
    proof -
      have "x < ?f * 64 + 64" using that(2) by simp
      then have "x - ?f * 64 < 64" "\<not> x - ?f * 64 < mn mod 64" using that(1) split by linarith+
      then have "bit (bm_lo m ! ?f) (x - ?f * 64)" using full by (auto simp: word_full_iff bit_below)
      then show ?thesis using member [of x] that split by simp
    qed
    moreover have "mn \<le> (?f + 1) * 64" using split mod_less_divisor [of 64 mn, OF zero_less_numeral] by (simp add: distrib_right)
    ultimately have "is_lowest_free (bm_set m) mn (free_walk (bm_lo m) (bm_hi m) (?f + 1))"
      using True by (intro free_walk_spec [OF assms]) auto
    then show ?thesis using True full by (simp add: bm_lowest_free_def)
  qed
qed

section \<open>Counting\<close>

lemma card_word:
  assumes "w < length (bm_lo m)" and "b \<le> 64"
  shows "card (bm_set m \<inter> {w * 64..<w * 64 + b}) = count_ones (bm_lo m ! w AND mask b)"
proof -
  have "bm_set m \<inter> {w * 64..<w * 64 + b} = (\<lambda>i. w * 64 + i) ` {i. bit (bm_lo m ! w AND mask b) i}"
  proof (rule set_eqI)
    fix x
    show "x \<in> bm_set m \<inter> {w * 64..<w * 64 + b} \<longleftrightarrow> x \<in> (\<lambda>i. w * 64 + i) ` {i. bit (bm_lo m ! w AND mask b) i}"
    proof (cases "w * 64 \<le> x \<and> x < w * 64 + b")
      case True
      then obtain i where i: "x = w * 64 + i" by (metis le_Suc_ex)
      have d: "x div 64 = w" using True assms(2) by (intro div_nat_eqI) auto
      then have "x mod 64 = i" using i div_mult_mod_eq [of x 64] by simp
      then show ?thesis using True d i assms by (auto simp: bm_set_def bit_and_iff bit_mask_iff)
    qed (auto simp: bit_and_iff bit_mask_iff)
  qed
  moreover have "inj_on (\<lambda>i. w * 64 + i) S" for S :: "nat set" by (simp add: inj_on_def)
  ultimately show ?thesis by (simp add: card_image count_ones_card)
qed

lemma card_words:
  "w \<le> length (bm_lo m) \<Longrightarrow> sum_list (map count_ones (take w (bm_lo m))) = card (bm_set m \<inter> {..<w * 64})"
proof (induction w)
  case (Suc w)
  have "bm_lo m ! w AND mask 64 = bm_lo m ! w" by (rule bit_word_eqI) (simp add: bit_and_iff bit_mask_iff)
  then have "count_ones (bm_lo m ! w) = card (bm_set m \<inter> {w * 64..<w * 64 + 64})"
    using card_word [of w m 64] Suc.prems by simp
  moreover have "bm_set m \<inter> {..<Suc w * 64} = (bm_set m \<inter> {..<w * 64}) \<union> (bm_set m \<inter> {w * 64..<w * 64 + 64})" by auto
  moreover have "card (\<dots>) = card (bm_set m \<inter> {..<w * 64}) + card (bm_set m \<inter> {w * 64..<w * 64 + 64})"
    by (rule card_Un_disjoint) auto
  ultimately show ?case using Suc by (simp add: take_Suc_conv_app_nth)
qed simp

lemma bm_count_below_spec:
  assumes "bm_inv m"
  shows "bm_count_below limit m = card (bm_set m \<inter> {..<limit})"
proof (cases "length (bm_lo m) * 64 \<le> limit")
  case True
  then have "bm_set m \<inter> {..<limit} = bm_set m" by (fastforce dest: bm_set_bound)
  then show ?thesis using True assms by (simp add: bm_count_below_def bm_inv_def)
next
  case False
  let ?w = "limit div 64" and ?b = "limit mod 64"
  have w: "?w < length (bm_lo m)" using False by (simp add: div_less_iff_less_mult)
  have "bm_set m \<inter> {..<limit} = (bm_set m \<inter> {..<?w * 64}) \<union> (bm_set m \<inter> {?w * 64..<?w * 64 + ?b})" by auto
  moreover have "card (\<dots>) = card (bm_set m \<inter> {..<?w * 64}) + card (bm_set m \<inter> {?w * 64..<?w * 64 + ?b})"
    by (rule card_Un_disjoint) auto
  ultimately show ?thesis
    using False w card_word [OF w, of ?b] by (simp add: bm_count_below_def Let_def card_words one_bit_minus_1)
qed

section \<open>Properties\<close>

datatype bm_op = BSet nat | BClear nat

fun bm_exec :: "bm_op \<Rightarrow> fd_bitmap \<Rightarrow> fd_bitmap" where
  "bm_exec (BSet fd) m = bm_insert fd m"
| "bm_exec (BClear fd) m = bm_clear fd m"

fun set_exec :: "bm_op \<Rightarrow> nat set \<Rightarrow> nat set" where
  "set_exec (BSet fd) S = insert fd S"
| "set_exec (BClear fd) S = S - {fd}"

lemma bm_exec_refines: "bm_inv m \<Longrightarrow> bm_inv (bm_exec x m) \<and> bm_set (bm_exec x m) = set_exec x (bm_set m)"
  by (cases x) (simp_all add: bm_insert_spec bm_clear_spec)

lemma bm_execs_refine:
  "bm_inv m \<Longrightarrow> bm_inv (fold bm_exec ops m) \<and> bm_set (fold bm_exec ops m) = fold set_exec ops (bm_set m)"
  by (induction ops arbitrary: m) (simp_all add: bm_exec_refines)

lemma is_lowest_free_Least: "is_lowest_free A mn r \<Longrightarrow> r = (LEAST x. mn \<le> x \<and> x \<notin> A)"
  by (rule Least_equality [symmetric]) (auto simp: is_lowest_free_def not_le [symmetric])

text \<open>
  C20. The two-level bitmap answers as a plain set would: after any sequence of numbers taken and
  given back, \<open>lowest_free\<close> is the least number from the bound on that is not in use, and
  the counts are the set's.
\<close>

theorem fd_bitmap_equivalent:
  "let m = fold bm_exec ops bm_default; S = fold set_exec ops {} in
     bm_lowest_free mn m = (LEAST x. mn \<le> x \<and> x \<notin> S)
     \<and> bm_count_below limit m = card (S \<inter> {..<limit}) \<and> bm_count m = card S"
proof -
  have m: "bm_inv (fold bm_exec ops bm_default)" "bm_set (fold bm_exec ops bm_default) = fold set_exec ops {}"
    using bm_execs_refine [of bm_default ops] by simp_all
  then have "bm_lowest_free mn (fold bm_exec ops bm_default) = (LEAST x. mn \<le> x \<and> x \<notin> fold set_exec ops {})"
    using is_lowest_free_Least [OF bm_lowest_free_spec] by metis
  moreover have "bm_count (fold bm_exec ops bm_default) = card (fold set_exec ops {})"
    using m by (simp add: bm_inv_def)
  ultimately show ?thesis using bm_count_below_spec [OF m(1)] m(2) by (simp add: Let_def)
qed

end
