(* ===== verification/Fd_Table.thy ===== *)
theory Fd_Table
  imports User_Memory Fd_Bitmap "HOL-Library.Product_Lexorder"
begin

text \<open>
  The descriptor registry (\<open>sys/fs/fd.rs\<close>): the table from a process's descriptor numbers to
  open file descriptions, the descriptions with their reference counts, the close-on-exec set,
  and the operations on them that \<open>open\<close>, \<open>close\<close>, \<open>dup\<close>, \<open>fork\<close>, \<open>execve\<close>, \<open>exit\<close> and
  descriptor passing use.

  A description's operations belong to drivers and modules; what the registry does with them is
  kept in a log: \<open>Closed r t\<close> when description \<open>r\<close> is closed through operation table \<open>t\<close>,
  \<open>Vrele v\<close> when the reference to a vnode is dropped, \<open>Slot_closed r\<close> when the
  socket layer is told that a slot went away while references remain. A close operation that
  gives up descriptors of its own (a socket with messages in flight) does so by \<open>release\<close>,
  which is an operation of the model.
\<close>

section \<open>Descriptions and their flags\<close>

text \<open>Which operation table a description has: two the registry compares with, or another.\<close>

datatype ops_table = Vn_ops | Dead_ops | Other_ops nat

record file_ops =
  fo_table :: ops_table
  fo_flags :: u32

definition dflag_seekable :: u32 where "dflag_seekable = 1"
definition fread :: u32 where "fread = 1"
definition fwrite :: u32 where "fwrite = 2"
definition fappend :: u32 where "fappend = 0x400"
definition fnonblock :: u32 where "fnonblock = 0x800"
definition fof_offset :: u64 where "fof_offset = 1"
definition fof_nextoff :: u64 where "fof_nextoff = 2"

definition open_flag :: "u64 \<Rightarrow> u32" where
  "open_flag oflags =
     (ucast ((oflags AND 3) + 1) AND (fread OR fwrite)) OR (ucast oflags AND (fappend OR fnonblock))"

record readiness =
  rd_readable :: bool
  rd_writable :: bool
  rd_hangup :: bool
  rd_error :: bool

definition poll_bits :: "readiness \<Rightarrow> bool \<Rightarrow> int" where
  "poll_bits r pulled = of_bool (rd_readable r) * 1 OR of_bool (rd_writable r) * 2
     OR of_bool (rd_hangup r) * 4 OR of_bool (rd_error r) * 8 OR of_bool pulled * 0x100"

datatype fd_kind = FModule | FPipe nat | FSocket nat | FFifo nat | FMqueue | FDevice nat | FVnode

record description =
  d_ops :: file_ops
  d_data :: nat
  d_flag :: u32
  d_offset :: nat
  d_kind :: fd_kind
  d_refs :: nat
  d_vnode :: nat

section \<open>The table of slots\<close>

record fd_table =
  ft_map :: "(nat \<times> nat, nat) bmap"
  ft_used :: "(nat, fd_bitmap) bmap"

definition ft_new :: fd_table where "ft_new = \<lparr> ft_map = [], ft_used = [] \<rparr>"

definition ft_insert :: "nat \<times> nat \<Rightarrow> nat \<Rightarrow> fd_table \<Rightarrow> fd_table" where
  "ft_insert key real_fd t =
     \<lparr> ft_map = binsert key real_fd (ft_map t),
       ft_used = binsert (fst key) (bm_insert (snd key)
         (case bget (ft_used t) (fst key) of Some b \<Rightarrow> b | None \<Rightarrow> bm_default)) (ft_used t) \<rparr>"

definition ft_remove :: "nat \<times> nat \<Rightarrow> fd_table \<Rightarrow> nat option \<times> fd_table" where
  "ft_remove key t =
     (case bget (ft_map t) key of
        None \<Rightarrow> (None, t)
      | Some old \<Rightarrow>
          (Some old,
           \<lparr> ft_map = bremove key (ft_map t),
             ft_used = (case bget (ft_used t) (fst key) of
                 None \<Rightarrow> ft_used t
               | Some bits \<Rightarrow>
                   if bm_count (bm_clear (snd key) bits) = 0 then bremove (fst key) (ft_used t)
                   else bupdate (fst key) (bm_clear (snd key)) (ft_used t)) \<rparr>))"

definition ft_lowest_free :: "nat \<Rightarrow> nat \<Rightarrow> fd_table \<Rightarrow> nat" where
  "ft_lowest_free pid mn t = (case bget (ft_used t) pid of None \<Rightarrow> mn | Some bits \<Rightarrow> bm_lowest_free mn bits)"

definition ft_free_below :: "nat \<Rightarrow> nat \<Rightarrow> fd_table \<Rightarrow> nat" where
  "ft_free_below pid limit t =
     limit - (case bget (ft_used t) pid of None \<Rightarrow> 0 | Some bits \<Rightarrow> bm_count_below limit bits)"

section \<open>The registry\<close>

datatype fd_event = Closed nat ops_table | Vrele nat | Slot_closed nat

record fds =
  fd_next :: nat
  fd_tab :: fd_table
  fd_descs :: "(nat, description) bmap"
  fd_cloexec :: "(nat \<times> nat, unit) bmap"
  fd_kopen :: "pid option"
  fd_log :: "fd_event list"

text \<open>The caller: its thread and thread group, its \<open>RLIMIT_NOFILE\<close>, and \<open>kern.maxfiles\<close>.\<close>

record fd_env =
  ev_pid :: pid
  ev_tgid :: nat
  ev_nofile :: nat
  ev_maxfiles :: nat

definition fds_boot :: fds where
  "fds_boot = \<lparr> fd_next = 3, fd_tab = ft_new, fd_descs = [], fd_cloexec = [], fd_kopen = None, fd_log = [] \<rparr>"

definition slot :: "fds \<Rightarrow> nat \<times> nat \<Rightarrow> nat option" where
  "slot s k = bget (ft_map (fd_tab s)) k"

text \<open>The slots of one process, in order of their numbers.\<close>

definition slots_of :: "nat \<Rightarrow> fds \<Rightarrow> (nat \<times> nat) list" where
  "slots_of pid s = map (\<lambda>((_, fd), r). (fd, r)) (filter (\<lambda>((p, _), _). p = pid) (ft_map (fd_tab s)))"

definition u32_max :: nat where "u32_max = 2 ^ 32 - 1"

definition hold :: "nat \<Rightarrow> fds \<Rightarrow> fds option" where
  "hold real_fd s =
     (case bget (fd_descs s) real_fd of
        None \<Rightarrow> Some s
      | Some d \<Rightarrow> if d_refs d = u32_max then None
          else Some (s\<lparr>fd_descs := bupdate real_fd (\<lambda>d. d\<lparr>d_refs := d_refs d + 1\<rparr>) (fd_descs s)\<rparr>))"

text \<open>
  The end of a reference: the last one calls the close operation, takes the description out and
  drops its vnode. \<^const>\<open>None\<close> is the panic of a count below zero.
\<close>

definition drop_vnode :: "nat \<Rightarrow> fd_event list" where
  "drop_vnode v = (if v = 0 then [] else [Vrele v])"

definition release :: "nat \<Rightarrow> fds \<Rightarrow> fds option" where
  "release real_fd s =
     (case bget (fd_descs s) real_fd of
        None \<Rightarrow> Some s
      | Some d \<Rightarrow>
          if d_refs d = 0 then None
          else if d_refs d = 1
          then Some (s\<lparr>fd_descs := bremove real_fd (fd_descs s), fd_log := fd_log s @ Closed real_fd (fo_table (d_ops d)) # drop_vnode (d_vnode d)\<rparr>)
          else Some (s\<lparr>fd_descs := bupdate real_fd (\<lambda>d. d\<lparr>d_refs := d_refs d - 1\<rparr>) (fd_descs s)\<rparr>))"

definition refs :: "nat \<Rightarrow> fds \<Rightarrow> nat" where
  "refs real_fd s = (case bget (fd_descs s) real_fd of None \<Rightarrow> 0 | Some d \<Rightarrow> d_refs d)"

definition free_count :: "fd_env \<Rightarrow> fds \<Rightarrow> nat" where
  "free_count e s = ft_free_below (ev_tgid e) (ev_nofile e) (fd_tab s)"

definition set_cloexec :: "nat \<Rightarrow> nat \<Rightarrow> bool \<Rightarrow> fds \<Rightarrow> fds" where
  "set_cloexec pid fd on s =
     s\<lparr>fd_cloexec := (if on then binsert (pid, fd) () (fd_cloexec s) else bremove (pid, fd) (fd_cloexec s))\<rparr>"

definition is_cloexec :: "nat \<Rightarrow> nat \<Rightarrow> fds \<Rightarrow> bool" where
  "is_cloexec pid fd s \<longleftrightarrow> bget (fd_cloexec s) (pid, fd) \<noteq> None"

definition install_held :: "fd_env \<Rightarrow> nat \<Rightarrow> bool \<Rightarrow> fds \<Rightarrow> nat \<times> fds" where
  "install_held e real_fd cloexec s =
     (let fd = ft_lowest_free (ev_tgid e) 0 (fd_tab s);
          s' = s\<lparr>fd_tab := ft_insert (ev_tgid e, fd) real_fd (fd_tab s)\<rparr>
      in (fd, if cloexec then set_cloexec (ev_tgid e) fd True s' else s'))"

text \<open>\<open>install\<close>: \<^const>\<open>None\<close> is the panic of a handle with no description, or of the count.\<close>

definition install :: "nat \<Rightarrow> nat \<Rightarrow> nat \<Rightarrow> fds \<Rightarrow> fds option" where
  "install pid fd real_fd s =
     (case bget (fd_descs s) real_fd of
        None \<Rightarrow> None
      | Some d \<Rightarrow> if d_refs d = u32_max then None
          else Some (s\<lparr>fd_tab := ft_insert (pid, fd) real_fd (fd_tab s),
                       fd_descs := bupdate real_fd (\<lambda>d. d\<lparr>d_refs := d_refs d + 1\<rparr>) (fd_descs s)\<rparr>))"

definition close_one :: "nat \<Rightarrow> nat \<Rightarrow> fds \<Rightarrow> (bool \<times> fds) option" where
  "close_one pid fd s =
     (case ft_remove (pid, fd) (fd_tab s) of
        (None, _) \<Rightarrow> Some (False, s)
      | (Some real_fd, t) \<Rightarrow>
          let s = s\<lparr>fd_tab := t, fd_cloexec := bremove (pid, fd) (fd_cloexec s)\<rparr> in
          (case bget (fd_descs s) real_fd of
             None \<Rightarrow> None
           | Some d \<Rightarrow>
               if d_refs d = 0 then None
               else if d_refs d = 1
               then Some (True, s\<lparr>fd_descs := bremove real_fd (fd_descs s),
                                  fd_log := fd_log s @ Closed real_fd (fo_table (d_ops d)) # drop_vnode (d_vnode d)\<rparr>)
               else Some (True, s\<lparr>fd_descs := bupdate real_fd (\<lambda>d. d\<lparr>d_refs := d_refs d - 1\<rparr>) (fd_descs s),
                                  fd_log := fd_log s @ [Slot_closed real_fd]\<rparr>)))"

definition close_fd :: "fd_env \<Rightarrow> nat \<Rightarrow> fds \<Rightarrow> (int \<times> fds) option" where
  "close_fd e fd s = map_option (\<lambda>(ok, s'). (if ok then 0 else -1, s')) (close_one (ev_tgid e) fd s)"

text \<open>A loop over slots that stops at a panic.\<close>

fun fold_opt :: "('a \<Rightarrow> 's \<Rightarrow> 's option) \<Rightarrow> 'a list \<Rightarrow> 's \<Rightarrow> 's option" where
  "fold_opt f [] s = Some s"
| "fold_opt f (x # xs) s = (case f x s of None \<Rightarrow> None | Some s' \<Rightarrow> fold_opt f xs s')"

definition close_all :: "nat \<Rightarrow> fds \<Rightarrow> fds option" where
  "close_all pid s = fold_opt (\<lambda>fd s. map_option snd (close_one pid fd s)) (map fst (slots_of pid s)) s"

text \<open>Closing a slot and forgetting its close-on-exec mark, as \<open>execve\<close> and \<open>close_range\<close> do.\<close>

definition close_marked :: "nat \<Rightarrow> nat \<Rightarrow> fds \<Rightarrow> fds option" where
  "close_marked pid fd s =
     map_option (\<lambda>(_, s'). s'\<lparr>fd_cloexec := bremove (pid, fd) (fd_cloexec s')\<rparr>) (close_one pid fd s)"

definition close_cloexec :: "nat \<Rightarrow> fds \<Rightarrow> fds option" where
  "close_cloexec pid s =
     fold_opt (close_marked pid) (map snd (filter (\<lambda>k. fst k = pid) (bkeys (fd_cloexec s)))) s"

definition close_range :: "fd_env \<Rightarrow> u64 \<Rightarrow> u64 \<Rightarrow> u64 \<Rightarrow> fds \<Rightarrow> nat kres \<times> fds" where
  "close_range e first_fd last_fd flags s =
     (let lo = unat (ucast first_fd :: u32); hi = unat (ucast last_fd :: u32) in
      if hi < lo \<or> flags AND NOT (2 OR 4) \<noteq> 0 then (Err EINVAL, s)
      else let fds = filter (\<lambda>fd. lo \<le> fd \<and> fd \<le> hi) (map fst (slots_of (ev_tgid e) s)) in
        case fold_opt (\<lambda>fd s. if flags AND 4 \<noteq> 0 then Some (set_cloexec (ev_tgid e) fd True s)
                              else close_marked (ev_tgid e) fd s) fds s of
          None \<Rightarrow> (Panic, s)
        | Some s' \<Rightarrow> (Ok 0, s'))"

definition fork_slot :: "nat \<Rightarrow> nat \<Rightarrow> nat \<times> nat \<Rightarrow> fds \<Rightarrow> fds option" where
  "fork_slot parent child x s =
     map_option (\<lambda>s'. if is_cloexec parent (fst x) s' then set_cloexec child (fst x) True s' else s')
       (install child (fst x) (snd x) s)"

definition fork_inherit :: "nat \<Rightarrow> nat \<Rightarrow> fds \<Rightarrow> fds option" where
  "fork_inherit parent child s = fold_opt (fork_slot parent child) (slots_of parent s) s"

definition dup2 :: "fd_env \<Rightarrow> nat \<Rightarrow> nat \<Rightarrow> fds \<Rightarrow> nat kres \<times> fds" where
  "dup2 e oldfd newfd s =
     (case slot s (ev_tgid e, oldfd) of
        None \<Rightarrow> (Err EBADF, s)
      | Some real_fd \<Rightarrow>
          if ev_nofile e \<le> newfd then (Err EBADF, s)
          else if oldfd = newfd then (Ok newfd, s)
          else (case close_one (ev_tgid e) newfd s of
              None \<Rightarrow> (Panic, s)
            | Some (_, s') \<Rightarrow> (case install (ev_tgid e) newfd real_fd s' of
                  None \<Rightarrow> (Panic, s')
                | Some s'' \<Rightarrow> (Ok newfd, s''))))"

definition dup_min :: "fd_env \<Rightarrow> nat \<Rightarrow> nat \<Rightarrow> fds \<Rightarrow> nat kres \<times> fds" where
  "dup_min e oldfd mn s =
     (case slot s (ev_tgid e, oldfd) of
        None \<Rightarrow> (Err EBADF, s)
      | Some real_fd \<Rightarrow>
          if ev_nofile e \<le> mn then (Err EINVAL, s)
          else let newfd = ft_lowest_free (ev_tgid e) mn (fd_tab s) in
            if ev_nofile e \<le> newfd then (Err EMFILE, s)
            else (case install (ev_tgid e) newfd real_fd s of
                None \<Rightarrow> (Panic, s)
              | Some s' \<Rightarrow> (Ok newfd, s')))"

definition fd_dup :: "fd_env \<Rightarrow> nat \<Rightarrow> fds \<Rightarrow> nat kres \<times> fds" where
  "fd_dup e oldfd s = dup_min e oldfd 0 s"

section \<open>Opening\<close>

definition alloc_fd :: "fds \<Rightarrow> nat \<times> fds" where
  "alloc_fd s = (fd_next s, s\<lparr>fd_next := fd_next s + 1\<rparr>)"

definition kernel_opening :: "fd_env \<Rightarrow> fds \<Rightarrow> bool" where
  "kernel_opening e s \<longleftrightarrow> fd_kopen s = Some (ev_pid e)"

definition kernel_open :: "fd_env \<Rightarrow> (fds \<Rightarrow> nat kres \<times> fds) \<Rightarrow> fds \<Rightarrow> nat kres \<times> fds" where
  "kernel_open e open_op s =
     (let (r, s') = open_op (s\<lparr>fd_kopen := Some (ev_pid e)\<rparr>) in (r, s'\<lparr>fd_kopen := None\<rparr>))"

definition check_room :: "fd_env \<Rightarrow> nat \<Rightarrow> fds \<Rightarrow> unit kres" where
  "check_room e n s =
     (if ev_maxfiles e < length (fd_descs s) + n then Err ENFILE
      else if \<not> kernel_opening e s \<and> ft_free_below (ev_tgid e) (ev_nofile e) (fd_tab s) < n then Err EMFILE
      else Ok ())"

definition finstall :: "fd_env \<Rightarrow> nat \<Rightarrow> file_ops \<Rightarrow> nat \<Rightarrow> u32 \<Rightarrow> fd_kind \<Rightarrow> fds \<Rightarrow> nat kres \<times> fds" where
  "finstall e real_fd ops data flag kind s =
     (let held = kernel_opening e s in
      if ev_maxfiles e \<le> length (fd_descs s) then (Err ENFILE, s)
      else let s' = s\<lparr>fd_descs := binsert real_fd
               \<lparr> d_ops = ops, d_data = data, d_flag = flag, d_offset = 0, d_kind = kind,
                 d_refs = of_bool held, d_vnode = 0 \<rparr> (fd_descs s)\<rparr> in
        if held then (Ok real_fd, s'\<lparr>fd_kopen := None\<rparr>)
        else let fd = ft_lowest_free (ev_tgid e) 0 (fd_tab s') in
          case install (ev_tgid e) fd real_fd s' of
            None \<Rightarrow> (Panic, s')
          | Some s'' \<Rightarrow> (Ok fd, s''))"

definition finstall_module :: "fd_env \<Rightarrow> nat \<Rightarrow> file_ops \<Rightarrow> nat \<Rightarrow> u64 \<Rightarrow> fds \<Rightarrow> nat kres \<times> fds" where
  "finstall_module e real_fd ops data oflags s = finstall e real_fd ops data (open_flag oflags) FModule s"

text \<open>
  \<open>init\<close>: descriptors 0 to 2 of the bootstrap process become the console's one description.
\<close>

definition fd_init :: "file_ops \<Rightarrow> fds \<Rightarrow> fds option" where
  "fd_init tty_ops s =
     (case fold_opt (\<lambda>fd s. map_option snd (close_one 0 fd s)) [0, 1, 2] s of
        None \<Rightarrow> None
      | Some s' \<Rightarrow>
          fold_opt (\<lambda>fd s. install 0 fd 0 s) [0, 1, 2]
            (s'\<lparr>fd_descs := binsert 0 \<lparr> d_ops = tty_ops, d_data = 0, d_flag = fread OR fwrite, d_offset = 0,
               d_kind = FModule, d_refs = 0, d_vnode = 0 \<rparr> (fd_descs s')\<rparr>))"

section \<open>Reading and changing a description\<close>

definition with_description :: "nat \<Rightarrow> (description \<Rightarrow> description) \<Rightarrow> fds \<Rightarrow> fds" where
  "with_description real_fd f s = s\<lparr>fd_descs := bupdate real_fd f (fd_descs s)\<rparr>"

definition set_nonblocking :: "nat \<Rightarrow> bool \<Rightarrow> fds \<Rightarrow> fds" where
  "set_nonblocking real_fd on s =
     with_description real_fd (\<lambda>d. d\<lparr>d_flag := (if on then d_flag d OR fnonblock else d_flag d AND NOT fnonblock)\<rparr>) s"

definition is_nonblocking :: "nat \<Rightarrow> fds \<Rightarrow> bool" where
  "is_nonblocking real_fd s \<longleftrightarrow> (case bget (fd_descs s) real_fd of None \<Rightarrow> False | Some d \<Rightarrow> d_flag d AND fnonblock \<noteq> 0)"

definition file_data :: "nat \<Rightarrow> fds \<Rightarrow> nat" where
  "file_data handle s = (case bget (fd_descs s) handle of None \<Rightarrow> 0 | Some d \<Rightarrow> d_data d)"

definition file_offset :: "nat \<Rightarrow> fds \<Rightarrow> nat" where
  "file_offset handle s = (case bget (fd_descs s) handle of None \<Rightarrow> 0 | Some d \<Rightarrow> d_offset d)"

definition set_offset :: "nat \<Rightarrow> nat \<Rightarrow> fds \<Rightarrow> fds" where
  "set_offset real_fd offset s = with_description real_fd (\<lambda>d. d\<lparr>d_offset := offset\<rparr>) s"

definition tag_device :: "nat \<Rightarrow> nat \<Rightarrow> fds \<Rightarrow> fds" where
  "tag_device real_fd dev s =
     with_description real_fd (\<lambda>d. if d_kind d = FModule then d\<lparr>d_kind := FDevice dev\<rparr> else d) s"

definition file_of :: "nat \<Rightarrow> fds \<Rightarrow> (file_ops \<times> u32 \<times> nat \<times> nat) option" where
  "file_of real_fd s = map_option (\<lambda>d. (d_ops d, d_flag d, d_offset d, d_data d)) (bget (fd_descs s) real_fd)"

definition real_fd_of :: "fd_env \<Rightarrow> nat \<Rightarrow> fds \<Rightarrow> nat option" where
  "real_fd_of e fd s = slot s (ev_tgid e, fd)"

definition lookup_fd :: "fd_env \<Rightarrow> nat \<Rightarrow> fds \<Rightarrow> (nat \<times> file_ops) option" where
  "lookup_fd e fd s =
     (case slot s (ev_tgid e, fd) of
        None \<Rightarrow> None
      | Some real_fd \<Rightarrow> map_option (\<lambda>d. (real_fd, d_ops d)) (bget (fd_descs s) real_fd))"

definition file_by_fd :: "fd_env \<Rightarrow> nat \<Rightarrow> fds \<Rightarrow> (nat \<times> file_ops \<times> u32 \<times> nat) option" where
  "file_by_fd e fd s =
     (case real_fd_of e fd s of
        None \<Rightarrow> None
      | Some real_fd \<Rightarrow> map_option (\<lambda>(ops, flag, offset, _). (real_fd, ops, flag, offset)) (file_of real_fd s))"

definition access_mode_of :: "fd_env \<Rightarrow> nat \<Rightarrow> fds \<Rightarrow> bool \<times> bool" where
  "access_mode_of e fd s =
     (case Option.bind (real_fd_of e fd s) (\<lambda>r. file_of r s) of
        Some (_, flag, _, _) \<Rightarrow> (flag AND fread \<noteq> 0, flag AND fwrite \<noteq> 0)
      | None \<Rightarrow> (True, True))"

definition is_append_of :: "fd_env \<Rightarrow> nat \<Rightarrow> fds \<Rightarrow> bool" where
  "is_append_of e fd s =
     (case Option.bind (real_fd_of e fd s) (\<lambda>r. file_of r s) of
        Some (_, flag, _, _) \<Rightarrow> flag AND fappend \<noteq> 0
      | None \<Rightarrow> False)"

definition set_vnode :: "nat \<Rightarrow> nat \<Rightarrow> fds \<Rightarrow> fds" where
  "set_vnode real_fd vp s =
     (case bget (fd_descs s) real_fd of
        Some d \<Rightarrow> if d_vnode d = 0 then with_description real_fd (\<lambda>d. d\<lparr>d_vnode := vp\<rparr>) s
                  else s\<lparr>fd_log := fd_log s @ [Vrele vp]\<rparr>
      | None \<Rightarrow> s\<lparr>fd_log := fd_log s @ [Vrele vp]\<rparr>)"

definition vnode_of :: "nat \<Rightarrow> fds \<Rightarrow> nat option" where
  "vnode_of real_fd s =
     (case bget (fd_descs s) real_fd of
        None \<Rightarrow> None
      | Some d \<Rightarrow> if fo_table (d_ops d) = Vn_ops then Some (d_data d)
          else if d_vnode d \<noteq> 0 then Some (d_vnode d) else None)"

text \<open>\<open>revoke_where\<close>: one description, then all of those that are not dead already.\<close>

definition revoke_one :: "file_ops \<Rightarrow> (nat \<Rightarrow> nat option \<Rightarrow> bool) \<Rightarrow> nat \<Rightarrow> nat \<times> fds \<Rightarrow> nat \<times> fds" where
  "revoke_one dead_ops matches handle x =
     (let (revoked, s) = x in
      if \<not> matches handle (vnode_of handle s) then (revoked, s)
      else case bget (fd_descs s) handle of
          None \<Rightarrow> (revoked, s)
        | Some d \<Rightarrow>
            (revoked + 1,
             (with_description handle (\<lambda>d. d\<lparr>d_ops := dead_ops, d_data := 0, d_kind := FModule, d_vnode := 0\<rparr>) s)
               \<lparr>fd_log := fd_log s @ Closed handle (fo_table (d_ops d)) # drop_vnode (d_vnode d)\<rparr>))"

definition revoke_where :: "file_ops \<Rightarrow> (nat \<Rightarrow> nat option \<Rightarrow> bool) \<Rightarrow> fds \<Rightarrow> nat \<times> fds" where
  "revoke_where dead_ops matches s =
     fold (revoke_one dead_ops matches)
       (bkeys (filter (\<lambda>(_, d). fo_table (d_ops d) \<noteq> Dead_ops) (fd_descs s))) (0, s)"

section \<open>Transfers\<close>

text \<open>
  The kernel's part of \<open>read\<close> and \<open>write\<close>, around the backend's operation \<open>op\<close>, which
  moves data through the vector and answers a count or an error.
\<close>

type_synonym backend_op = "nat \<Rightarrow> uio \<Rightarrow> u64 \<Rightarrow> nat kres \<times> uio"

definition partial_ok :: "errno list" where "partial_ok = [EINTR, ERESTART, EAGAIN]"

definition transfer :: "backend_op \<Rightarrow> file_ops \<Rightarrow> u32 \<Rightarrow> nat \<Rightarrow> uio \<Rightarrow> u64 \<Rightarrow> fds \<Rightarrow> nat kres \<times> uio \<times> fds" where
  "transfer op ops need real_fd uio flags s =
     (let seekable = fo_flags ops AND dflag_seekable \<noteq> 0 in
      if flags AND fof_offset \<noteq> 0 \<and> \<not> seekable then (Err ESPIPE, uio, s)
      else case file_of real_fd s of
        None \<Rightarrow> (Err EBADF, uio, s)
      | Some (_, flag, offset, _) \<Rightarrow>
          if flag AND need = 0 then (Err EBADF, uio, s)
          else
            let kept = seekable \<and> flags AND fof_offset = 0;
                uio = (if kept then uio\<lparr>u_offset := offset\<rparr> else uio);
                flags = (if kept then flags OR fof_nextoff else flags);
                len = u_resid uio
            in if len = 0 then (Ok 0, uio, s)
               else
                 let (r, uio') = op real_fd uio flags;
                     s' = (if kept then set_offset real_fd (u_offset uio') s else s)
                 in if len < u_resid uio' then (Panic, uio', s')
                    else
                      let moved = len - u_resid uio' in
                      (case r of
                         Err er \<Rightarrow> (if 0 < moved \<and> er \<in> set partial_ok then Ok moved else Err er, uio', s')
                       | r \<Rightarrow> (r, uio', s')))"

text \<open>\<open>None\<close>: the caller has no such descriptor. The backend is the description's, by its handle.\<close>

definition fd_read :: "fd_env \<Rightarrow> backend_op \<Rightarrow> nat \<Rightarrow> uio \<Rightarrow> u64 \<Rightarrow> fds \<Rightarrow> (nat kres \<times> uio \<times> fds) option" where
  "fd_read e op fd uio flags s =
     (case real_fd_of e fd s of
        None \<Rightarrow> None
      | Some real_fd \<Rightarrow> (case file_of real_fd s of
            None \<Rightarrow> None
          | Some (ops, _) \<Rightarrow> Some (transfer op ops fread real_fd uio flags s)))"

definition fd_write :: "fd_env \<Rightarrow> backend_op \<Rightarrow> nat \<Rightarrow> uio \<Rightarrow> u64 \<Rightarrow> fds \<Rightarrow> (nat kres \<times> uio \<times> fds) option" where
  "fd_write e op fd uio flags s =
     (case lookup_fd e fd s of
        None \<Rightarrow> None
      | Some (real_fd, ops) \<Rightarrow> Some (transfer op ops fwrite real_fd uio flags s))"

section \<open>Listing\<close>

definition fd_at :: "(pid \<Rightarrow> nat option) \<Rightarrow> pid \<Rightarrow> nat \<Rightarrow> fds \<Rightarrow> int" where
  "fd_at tgid_of pid index s =
     (let tgid = (case tgid_of pid of Some t \<Rightarrow> t | None \<Rightarrow> pid); l = slots_of tgid s
      in if index < length l then int (fst (l ! index)) else - 1)"

definition real_fd_of_pid :: "(pid \<Rightarrow> nat option) \<Rightarrow> pid \<Rightarrow> nat \<Rightarrow> fds \<Rightarrow> int" where
  "real_fd_of_pid tgid_of pid fd s =
     (case tgid_of pid of
        None \<Rightarrow> - 1
      | Some tgid \<Rightarrow> (case slot s (tgid, fd) of Some r \<Rightarrow> int r | None \<Rightarrow> - 1))"

text \<open>The kind codes of \<open>oxidebsd_real_fd_kind\<close>; \<open>tty_dev\<close> is the terminal layer's answer.\<close>

definition real_fd_kind :: "(nat \<Rightarrow> nat option) \<Rightarrow> nat \<Rightarrow> fds \<Rightarrow> (int \<times> nat) option" where
  "real_fd_kind tty_dev real_fd s =
     (case tty_dev real_fd of
        Some dev \<Rightarrow> Some (1, dev)
      | None \<Rightarrow> (case bget (fd_descs s) real_fd of
            None \<Rightarrow> None
          | Some d \<Rightarrow> Some (case d_kind d of
                FModule \<Rightarrow> (0, 0) | FPipe i \<Rightarrow> (2, i) | FSocket i \<Rightarrow> (3, i) | FFifo i \<Rightarrow> (4, i)
              | FMqueue \<Rightarrow> (5, 0) | FDevice dev \<Rightarrow> (6, dev) | FVnode \<Rightarrow> (7, d_data d))))"

section \<open>The table and its bitmaps\<close>

definition numbers :: "fd_table \<Rightarrow> nat \<Rightarrow> nat set" where
  "numbers t p = {fd. bget (ft_map t) (p, fd) \<noteq> None}"

definition tab_ok :: "fd_table \<Rightarrow> bool" where
  "tab_ok t \<longleftrightarrow> bwf (ft_map t) \<and> bwf (ft_used t)
     \<and> (\<forall>p. case bget (ft_used t) p of None \<Rightarrow> numbers t p = {}
            | Some b \<Rightarrow> bm_inv b \<and> bm_set b = numbers t p \<and> numbers t p \<noteq> {})"

lemma tab_okD:
  assumes "tab_ok t"
  shows "bwf (ft_map t)" and "bwf (ft_used t)"
    and "bget (ft_used t) p = None \<Longrightarrow> numbers t p = {}"
    and "bget (ft_used t) p = Some b \<Longrightarrow> bm_inv b \<and> bm_set b = numbers t p \<and> numbers t p \<noteq> {}"
  using assms unfolding tab_ok_def by (auto dest: spec [of _ p])

lemma tab_ok_new [simp]: "tab_ok ft_new"
  by (simp add: tab_ok_def ft_new_def numbers_def)

lemma bget_ft_insert [simp]: "bget (ft_map (ft_insert k r t)) k' = (if k' = k then Some r else bget (ft_map t) k')"
  by (simp add: ft_insert_def)

lemma numbers_insert: "numbers (ft_insert k r t) p = (if p = fst k then insert (snd k) (numbers t p) else numbers t p)"
  by (cases k) (auto simp: numbers_def)

lemma tab_ok_insert:
  assumes "tab_ok t"
  shows "tab_ok (ft_insert k r t)"
proof -
  define b where "b = (case bget (ft_used t) (fst k) of Some b \<Rightarrow> b | None \<Rightarrow> bm_default)"
  have b: "bm_inv b" "bm_set b = numbers t (fst k)"
    using tab_okD(3,4) [OF assms, of "fst k"] by (auto simp: b_def split: option.splits)
  have used: "bget (ft_used (ft_insert k r t)) p = (if p = fst k then Some (bm_insert (snd k) b) else bget (ft_used t) p)" for p
    by (simp add: ft_insert_def b_def)
  show ?thesis unfolding tab_ok_def
  proof (intro conjI allI)
    fix p
    show "case bget (ft_used (ft_insert k r t)) p of None \<Rightarrow> numbers (ft_insert k r t) p = {}
        | Some b \<Rightarrow> bm_inv b \<and> bm_set b = numbers (ft_insert k r t) p \<and> numbers (ft_insert k r t) p \<noteq> {}"
      using tab_okD(3,4) [OF assms, of p] b
      by (auto simp: used numbers_insert bm_insert_spec split: option.splits)
  qed (use tab_okD(1,2) [OF assms] in \<open>auto simp: ft_insert_def\<close>)
qed

lemma ft_remove_None: "fst (ft_remove k t) = None \<longleftrightarrow> bget (ft_map t) k = None" "bget (ft_map t) k = None \<Longrightarrow> ft_remove k t = (None, t)"
  by (auto simp: ft_remove_def split: option.splits)

lemma ft_remove_cases:
  assumes "tab_ok t" and "bget (ft_map t) k = Some r"
  obtains t' where "ft_remove k t = (Some r, t')" and "ft_map t' = bremove k (ft_map t)" and "tab_ok t'"
    and "\<And>p. p \<noteq> fst k \<Longrightarrow> bget (ft_used t') p = bget (ft_used t) p"
proof -
  have "snd k \<in> numbers t (fst k)" using assms(2) by (simp add: numbers_def)
  then obtain b where b: "bget (ft_used t) (fst k) = Some b" "bm_inv b" "bm_set b = numbers t (fst k)"
    using tab_okD(3,4) [OF assms(1), of "fst k"] by (cases "bget (ft_used t) (fst k)") auto
  define c where "c = bm_clear (snd k) b"
  have c: "bm_inv c" "bm_set c = numbers t (fst k) - {snd k}" using bm_clear_spec [OF b(2)] b(3) by (simp_all add: c_def)
  define t' where "t' = \<lparr> ft_map = bremove k (ft_map t),
      ft_used = (if bm_count c = 0 then bremove (fst k) (ft_used t) else bupdate (fst k) (bm_clear (snd k)) (ft_used t)) \<rparr>"
  have eq: "ft_remove k t = (Some r, t')" using assms(2) b(1) by (simp add: ft_remove_def t'_def c_def)
  have nums: "numbers t' p = (if p = fst k then numbers t p - {snd k} else numbers t p)" for p
    by (cases k) (auto simp: numbers_def t'_def)
  have cnt: "bm_count c = 0 \<longleftrightarrow> bm_set c = {}" using c(1) by (simp add: bm_inv_def)
  have used: "bget (ft_used t') p = (if p = fst k then (if bm_count c = 0 then None else Some c) else bget (ft_used t) p)" for p
    using b(1) by (simp add: t'_def c_def)
  have "tab_ok t'" unfolding tab_ok_def
  proof (intro conjI allI)
    fix p
    show "case bget (ft_used t') p of None \<Rightarrow> numbers t' p = {}
        | Some b \<Rightarrow> bm_inv b \<and> bm_set b = numbers t' p \<and> numbers t' p \<noteq> {}"
      using tab_okD(3,4) [OF assms(1), of p] c cnt by (auto simp: used nums split: option.splits)
  qed (use tab_okD(1,2) [OF assms(1)] in \<open>auto simp: t'_def\<close>)
  moreover have "\<And>p. p \<noteq> fst k \<Longrightarrow> bget (ft_used t') p = bget (ft_used t) p" by (simp add: used)
  ultimately show ?thesis using that [OF eq] by (simp add: t'_def)
qed

lemma ft_lowest_free_spec:
  assumes "tab_ok t"
  shows "is_lowest_free (numbers t p) mn (ft_lowest_free p mn t)"
proof (cases "bget (ft_used t) p")
  case None
  then show ?thesis using tab_okD(3) [OF assms] by (simp add: ft_lowest_free_def is_lowest_free_def)
next
  case (Some b)
  then show ?thesis using tab_okD(4) [OF assms Some] bm_lowest_free_spec [of b mn] by (simp add: ft_lowest_free_def)
qed

lemma ft_free_below_spec:
  assumes "tab_ok t"
  shows "ft_free_below p limit t = limit - card (numbers t p \<inter> {..<limit})"
proof (cases "bget (ft_used t) p")
  case None
  then show ?thesis using tab_okD(3) [OF assms] by (simp add: ft_free_below_def)
next
  case (Some b)
  then show ?thesis using tab_okD(4) [OF assms Some] bm_count_below_spec [of b limit] by (simp add: ft_free_below_def)
qed

lemma lowest_free_fresh: "tab_ok t \<Longrightarrow> bget (ft_map t) (p, ft_lowest_free p mn t) = None"
  using ft_lowest_free_spec [of t p mn] by (simp add: is_lowest_free_def numbers_def)

section \<open>References\<close>

definition slot_refs :: "fds \<Rightarrow> nat \<Rightarrow> int" where
  "slot_refs s r = bsum (\<lambda>k v. of_bool (v = r)) (ft_map (fd_tab s))"

definition closes :: "fds \<Rightarrow> nat \<Rightarrow> nat" where
  "closes s r = length (filter (\<lambda>ev. case ev of Closed r' t \<Rightarrow> r' = r \<and> t \<noteq> Dead_ops | _ \<Rightarrow> False) (fd_log s))"

text \<open>
  \<open>held r\<close> counts the references to \<open>r\<close> that no slot has: messages in flight, files the
  kernel opened for itself.
\<close>

definition refs_ok :: "fds \<Rightarrow> (nat \<Rightarrow> nat) \<Rightarrow> bool" where
  "refs_ok s held \<longleftrightarrow> (\<forall>r. case bget (fd_descs s) r of
       None \<Rightarrow> slot_refs s r = 0 \<and> held r = 0
     | Some d \<Rightarrow> int (d_refs d) = slot_refs s r + int (held r) \<and> 0 < d_refs d \<and> r < fd_next s)"

definition log_ok :: "fds \<Rightarrow> bool" where
  "log_ok s \<longleftrightarrow> (\<forall>r. closes s r = 0 \<or> closes s r = 1 \<and> r < fd_next s
     \<and> (case bget (fd_descs s) r of None \<Rightarrow> True | Some d \<Rightarrow> fo_table (d_ops d) = Dead_ops))"

definition fd_inv :: "fds \<Rightarrow> (nat \<Rightarrow> nat) \<Rightarrow> bool" where
  "fd_inv s held \<longleftrightarrow> tab_ok (fd_tab s) \<and> bwf (fd_descs s) \<and> bwf (fd_cloexec s) \<and> refs_ok s held \<and> log_ok s
     \<and> (\<forall>k. bget (fd_cloexec s) k \<noteq> None \<longrightarrow> slot s k \<noteq> None) \<and> 0 < fd_next s"

lemma slot_refs_upd [simp]:
  "slot_refs (s\<lparr>fd_cloexec := c\<rparr>) r = slot_refs s r" "slot_refs (s\<lparr>fd_descs := d\<rparr>) r = slot_refs s r"
  "slot_refs (s\<lparr>fd_log := l\<rparr>) r = slot_refs s r" "slot_refs (s\<lparr>fd_next := n\<rparr>) r = slot_refs s r"
  "slot_refs (s\<lparr>fd_kopen := k\<rparr>) r = slot_refs s r"
  by (simp_all add: slot_refs_def)

lemma slot_upd [simp]:
  "slot (s\<lparr>fd_cloexec := c\<rparr>) x = slot s x" "slot (s\<lparr>fd_descs := d\<rparr>) x = slot s x" "slot (s\<lparr>fd_log := l\<rparr>) x = slot s x"
  "slot (s\<lparr>fd_next := n\<rparr>) x = slot s x" "slot (s\<lparr>fd_kopen := k\<rparr>) x = slot s x"
  by (simp_all add: slot_def)

lemma closes_upd [simp]:
  "closes (s\<lparr>fd_cloexec := c\<rparr>) r = closes s r" "closes (s\<lparr>fd_descs := d\<rparr>) r = closes s r"
  "closes (s\<lparr>fd_tab := t\<rparr>) r = closes s r" "closes (s\<lparr>fd_next := n\<rparr>) r = closes s r"
  "closes (s\<lparr>fd_kopen := k\<rparr>) r = closes s r"
  by (simp_all add: closes_def)

lemma fd_invD:
  assumes "fd_inv s held"
  shows "tab_ok (fd_tab s)" and "bwf (fd_descs s)" and "bwf (fd_cloexec s)" and "refs_ok s held" and "log_ok s"
    and "bget (fd_cloexec s) k \<noteq> None \<Longrightarrow> slot s k \<noteq> None" and "0 < fd_next s"
  using assms unfolding fd_inv_def by blast+

lemma slot_refs_nonneg: "tab_ok (fd_tab s) \<Longrightarrow> 0 \<le> slot_refs s r"
  unfolding slot_refs_def by (rule bsum_nonneg) (auto dest: tab_okD)

lemma slot_refs_pos:
  assumes "tab_ok (fd_tab s)" and "slot s k = Some r"
  shows "0 < slot_refs s r"
proof -
  let ?m = "ft_map (fd_tab s)" and ?f = "\<lambda>k v. of_bool (v = r) :: int"
  have wf: "bwf ?m" using assms(1) by (rule tab_okD)
  have "bsum ?f (bremove k ?m) = bsum ?f ?m - 1"
    using assms(2) by (simp add: bsum_bremove [OF wf] slot_def)
  moreover have "0 \<le> bsum ?f (bremove k ?m)" using wf by (intro bsum_nonneg) auto
  ultimately show ?thesis by (simp add: slot_refs_def)
qed

lemma slot_desc:
  assumes "fd_inv s held" and "slot s k = Some r"
  obtains d where "bget (fd_descs s) r = Some d" and "int (d_refs d) = slot_refs s r + int (held r)"
    and "0 < d_refs d"
proof -
  have "slot_refs s r \<noteq> 0" using slot_refs_pos [OF fd_invD(1) [OF assms(1)] assms(2)] by simp
  then show ?thesis using fd_invD(4) [OF assms(1)] that
    by (cases "bget (fd_descs s) r") (auto simp: refs_ok_def dest!: spec [of _ r])
qed

lemma slot_refs_insert:
  assumes "tab_ok (fd_tab s)" and "slot s k = None" and "fd_tab s' = ft_insert k r (fd_tab s)"
  shows "slot_refs s' r' = slot_refs s r' + of_bool (r' = r)"
  using assms tab_okD(1) [OF assms(1)] by (auto simp: slot_refs_def ft_insert_def bsum_binsert slot_def)

lemma slot_refs_remove:
  assumes "tab_ok (fd_tab s)" and "slot s k = Some r" and "ft_map (fd_tab s') = bremove k (ft_map (fd_tab s))"
  shows "slot_refs s' r' = slot_refs s r' - of_bool (r' = r)"
  using assms tab_okD(1) [OF assms(1)] by (auto simp: slot_refs_def bsum_bremove slot_def)

lemma slot_insert: "fd_tab s' = ft_insert k r (fd_tab s) \<Longrightarrow> slot s' k' = (if k' = k then Some r else slot s k')"
  by (simp add: slot_def)

lemma refs_okI:
  assumes "\<And>r. bget (fd_descs s) r = None \<Longrightarrow> slot_refs s r = 0 \<and> held r = 0"
    and "\<And>r d. bget (fd_descs s) r = Some d \<Longrightarrow> int (d_refs d) = slot_refs s r + int (held r) \<and> 0 < d_refs d \<and> r < fd_next s"
  shows "refs_ok s held"
  using assms unfolding refs_ok_def by (auto split: option.split)

lemma refs_okD:
  assumes "refs_ok s held"
  shows "bget (fd_descs s) r = None \<Longrightarrow> slot_refs s r = 0 \<and> held r = 0"
    and "bget (fd_descs s) r = Some d \<Longrightarrow> int (d_refs d) = slot_refs s r + int (held r) \<and> 0 < d_refs d \<and> r < fd_next s"
  using assms unfolding refs_ok_def by (auto dest: spec [of _ r])

lemma log_okD:
  assumes "log_ok s" and "closes s r \<noteq> 0"
  shows "closes s r = 1" and "r < fd_next s" and "bget (fd_descs s) r = Some d \<Longrightarrow> fo_table (d_ops d) = Dead_ops"
  using assms unfolding log_ok_def by (auto dest!: spec [of _ r] split: option.splits)

lemma log_okI:
  assumes "\<And>r. closes s r \<noteq> 0 \<Longrightarrow> closes s r = 1 \<and> r < fd_next s \<and> (\<forall>d. bget (fd_descs s) r = Some d \<longrightarrow> fo_table (d_ops d) = Dead_ops)"
  shows "log_ok s"
  using assms unfolding log_ok_def by (auto split: option.split)

text \<open>An operation that touches the description and the references of one handle only.\<close>

definition ref_at :: "fds \<Rightarrow> (nat \<Rightarrow> nat) \<Rightarrow> nat \<Rightarrow> bool" where
  "ref_at s held r \<longleftrightarrow> (case bget (fd_descs s) r of
       None \<Rightarrow> slot_refs s r = 0 \<and> held r = 0
     | Some d \<Rightarrow> int (d_refs d) = slot_refs s r + int (held r) \<and> 0 < d_refs d \<and> r < fd_next s)"

definition log_at :: "fds \<Rightarrow> nat \<Rightarrow> bool" where
  "log_at s r \<longleftrightarrow> closes s r = 0 \<or> closes s r = 1 \<and> r < fd_next s
     \<and> (case bget (fd_descs s) r of None \<Rightarrow> True | Some d \<Rightarrow> fo_table (d_ops d) = Dead_ops)"

lemma fd_inv_at: "fd_inv s held \<Longrightarrow> ref_at s held r \<and> log_at s r"
  unfolding fd_inv_def refs_ok_def log_ok_def ref_at_def log_at_def by blast

lemma fd_inv_change:
  assumes "fd_inv s held" and "tab_ok (fd_tab s')" and "bwf (fd_descs s')" and "bwf (fd_cloexec s')"
    and "\<And>k. bget (fd_cloexec s') k \<noteq> None \<Longrightarrow> slot s' k \<noteq> None" and "fd_next s \<le> fd_next s'"
    and other: "\<And>r'. r' \<noteq> r \<Longrightarrow> bget (fd_descs s') r' = bget (fd_descs s) r' \<and> slot_refs s' r' = slot_refs s r'
       \<and> held' r' = held r' \<and> closes s' r' = closes s r'"
    and "ref_at s' held' r" and "log_at s' r"
  shows "fd_inv s' held'"
proof -
  have "ref_at s' held' r' \<and> log_at s' r'" for r'
  proof (cases "r' = r")
    case False
    then show ?thesis using fd_inv_at [OF assms(1), of r'] other [OF False] assms(6)
      by (auto simp: ref_at_def log_at_def split: option.splits)
  qed (use assms(8,9) in simp)
  moreover have "0 < fd_next s'" using fd_invD(7) [OF assms(1)] assms(6) by linarith
  ultimately show ?thesis using assms(2-5)
    unfolding fd_inv_def refs_ok_def log_ok_def ref_at_def log_at_def by blast
qed

lemma closes_same:
  "fd_log s' = fd_log s \<Longrightarrow> closes s' r = closes s r"
  by (simp add: closes_def)

lemma closes_Closed:
  "fd_log s' = fd_log s @ Closed x t # drop_vnode v \<Longrightarrow> closes s' r = closes s r + of_bool (r = x \<and> t \<noteq> Dead_ops)"
  "fd_log s' = fd_log s @ [Slot_closed x] \<Longrightarrow> closes s' r = closes s r"
  "fd_log s' = fd_log s @ [Vrele x] \<Longrightarrow> closes s' r = closes s r"
  by (auto simp: closes_def drop_vnode_def)

text \<open>A reference is added: \<open>install\<close> and \<open>hold\<close>.\<close>

lemma ref_added:
  assumes "fd_inv s held" and "bget (fd_descs s) r = Some d"
    and "fd_descs s' = bupdate r (\<lambda>d. d\<lparr>d_refs := d_refs d + 1\<rparr>) (fd_descs s)"
    and "slot_refs s' r + int (held' r) = slot_refs s r + int (held r) + 1"
    and "fd_log s' = fd_log s" and "fd_next s' = fd_next s"
  shows "ref_at s' held' r" and "log_at s' r"
proof -
  have "bget (fd_descs s') r = Some (d\<lparr>d_refs := d_refs d + 1\<rparr>)" using assms(2,3) by simp
  moreover have "closes s' r = closes s r" using assms(5) by (rule closes_same)
  ultimately show "ref_at s' held' r" "log_at s' r"
    using fd_inv_at [OF assms(1), of r] assms(2,4,6) by (auto simp: ref_at_def log_at_def)
qed

lemma install_cases:
  assumes "install p fd r s = Some s'"
  obtains d where "bget (fd_descs s) r = Some d" and "d_refs d < u32_max \<or> u32_max < d_refs d"
    and "s' = s\<lparr>fd_tab := ft_insert (p, fd) r (fd_tab s), fd_descs := bupdate r (\<lambda>d. d\<lparr>d_refs := d_refs d + 1\<rparr>) (fd_descs s)\<rparr>"
  using assms unfolding install_def by (fastforce split: option.splits if_splits)

lemma install_None_iff: "bget (fd_descs s) r = Some d \<Longrightarrow> install p fd r s = None \<longleftrightarrow> refs r s = u32_max"
  by (simp add: install_def refs_def)

lemma install_effect:
  assumes "install p fd r s = Some s'"
  shows "slot s' k = (if k = (p, fd) then Some r else slot s k)" and "refs x s' = (if r = x then refs x s + 1 else refs x s)"
  using assms by (auto elim!: install_cases simp: slot_def refs_def bget_bupdate)

lemma fd_inv_install:
  assumes "fd_inv s held" and "install p fd r s = Some s'" and "slot s (p, fd) = None"
  shows "fd_inv s' held"
  using assms(2)
proof (rule install_cases)
  fix d
  assume d: "bget (fd_descs s) r = Some d"
    and s': "s' = s\<lparr>fd_tab := ft_insert (p, fd) r (fd_tab s), fd_descs := bupdate r (\<lambda>d. d\<lparr>d_refs := d_refs d + 1\<rparr>) (fd_descs s)\<rparr>"
  note i = fd_invD [OF assms(1)]
  have tab: "fd_tab s' = ft_insert (p, fd) r (fd_tab s)" by (simp add: s')
  note sr = slot_refs_insert [OF i(1) assms(3) tab]
  have "fd_descs s' = bupdate r (\<lambda>d. d\<lparr>d_refs := d_refs d + 1\<rparr>) (fd_descs s)" "fd_log s' = fd_log s" "fd_next s' = fd_next s"
    by (simp_all add: s')
  note at = ref_added [OF assms(1) d this(1) _ this(2,3), of held]
  show ?thesis
  proof (rule fd_inv_change [OF assms(1), where r = r])
    show "slot s' k \<noteq> None" if "bget (fd_cloexec s') k \<noteq> None" for k
    proof -
      have "fd_cloexec s' = fd_cloexec s" by (simp add: s')
      then show ?thesis using i(6) [of k] that by (simp add: slot_insert [OF tab])
    qed
    show "ref_at s' held r" "log_at s' r" using at sr [of r] by simp_all
    show "bget (fd_descs s') r' = bget (fd_descs s) r' \<and> slot_refs s' r' = slot_refs s r' \<and> held r' = held r' \<and> closes s' r' = closes s r'"
      if "r' \<noteq> r" for r' using that sr [of r'] by (simp add: s')
  qed (use i in \<open>simp_all add: s' tab_ok_insert\<close>)
qed

lemma fd_inv_set_cloexec:
  assumes "fd_inv s held" and "on \<Longrightarrow> slot s (p, fd) \<noteq> None"
  shows "fd_inv (set_cloexec p fd on s) held"
proof (rule fd_inv_change [OF assms(1), where r = 0])
  show "slot (set_cloexec p fd on s) k \<noteq> None" if "bget (fd_cloexec (set_cloexec p fd on s)) k \<noteq> None" for k
    using fd_invD(6) [OF assms(1), of k] assms(2) that
    by (cases "k = (p, fd)") (auto simp: set_cloexec_def split: if_splits)
qed (use fd_invD [OF assms(1)] fd_inv_at [OF assms(1), of 0] in
  \<open>simp_all add: set_cloexec_def ref_at_def log_at_def cong: option.case_cong\<close>)

text \<open>A reference is given up: \<open>close_one\<close> and \<open>release\<close>.\<close>

definition dropped :: "nat \<Rightarrow> description \<Rightarrow> fd_event list \<Rightarrow> fds \<Rightarrow> fds \<Rightarrow> bool" where
  "dropped r d kept_events s s' \<longleftrightarrow>
     fd_descs s' = (if d_refs d = 1 then bremove r (fd_descs s) else bupdate r (\<lambda>d. d\<lparr>d_refs := d_refs d - 1\<rparr>) (fd_descs s))
     \<and> fd_log s' = fd_log s @ (if d_refs d = 1 then Closed r (fo_table (d_ops d)) # drop_vnode (d_vnode d) else kept_events)
     \<and> fd_next s' = fd_next s \<and> fd_kopen s' = fd_kopen s"

lemma dropped_desc:
  assumes "dropped r d evs s s'" and "bget (fd_descs s) r = Some d"
  shows "bget (fd_descs s') r' = (if r' = r then if d_refs d = 1 then None else Some (d\<lparr>d_refs := d_refs d - 1\<rparr>) else bget (fd_descs s) r')"
  using assms by (auto simp: dropped_def)

lemma ref_dropped:
  assumes "fd_inv s held" and "bget (fd_descs s) r = Some d" and "dropped r d evs s s'"
    and "evs = [] \<or> evs = [Slot_closed r]"
    and "slot_refs s' r + int (held' r) = slot_refs s r + int (held r) - 1"
    and "0 \<le> slot_refs s' r"
  shows "ref_at s' held' r" and "log_at s' r" and "r' \<noteq> r \<Longrightarrow> closes s' r' = closes s r'"
proof -
  have c: "closes s' r' = closes s r' + of_bool (r' = r \<and> d_refs d = 1 \<and> fo_table (d_ops d) \<noteq> Dead_ops)" for r'
  proof (cases "d_refs d = 1")
    case True
    then show ?thesis using closes_Closed(1) [of s' s r "fo_table (d_ops d)" "d_vnode d" r'] assms(3) by (simp add: dropped_def)
  next
    case False
    then show ?thesis
      using closes_same [of s' s r'] closes_Closed(2) [of s' s r r'] assms(3,4) by (auto simp: dropped_def)
  qed
  then show "r' \<noteq> r \<Longrightarrow> closes s' r' = closes s r'" by simp
  have n: "fd_next s' = fd_next s" using assms(3) by (simp add: dropped_def)
  show "ref_at s' held' r" "log_at s' r"
    using fd_inv_at [OF assms(1), of r] assms(2,5,6) c [of r] n dropped_desc [OF assms(3,2), of r]
    by (auto simp: ref_at_def log_at_def)
qed

lemma bwf_dropped: "dropped r d evs s s' \<Longrightarrow> bwf (fd_descs s) \<Longrightarrow> bwf (fd_descs s')"
  by (simp add: dropped_def)

lemma close_one_None: "slot s (p, fd) = None \<Longrightarrow> close_one p fd s = Some (False, s)"
  by (simp add: close_one_def ft_remove_None slot_def)

lemma close_one_Some:
  assumes "fd_inv s held" and "slot s (p, fd) = Some r"
  obtains d s' where "close_one p fd s = Some (True, s')" and "bget (fd_descs s) r = Some d"
    and "dropped r d [Slot_closed r] s s'" and "fd_inv s' held"
    and "ft_map (fd_tab s') = bremove (p, fd) (ft_map (fd_tab s))"
    and "fd_cloexec s' = bremove (p, fd) (fd_cloexec s)"
    and "\<And>q. q \<noteq> p \<Longrightarrow> bget (ft_used (fd_tab s')) q = bget (ft_used (fd_tab s)) q"
proof -
  note i = fd_invD [OF assms(1)]
  obtain d where d: "bget (fd_descs s) r = Some d" "int (d_refs d) = slot_refs s r + int (held r)" "0 < d_refs d"
    using assms by (rule slot_desc)
  obtain t where t: "ft_remove (p, fd) (fd_tab s) = (Some r, t)" "ft_map t = bremove (p, fd) (ft_map (fd_tab s))" "tab_ok t"
      "\<And>q. q \<noteq> p \<Longrightarrow> bget (ft_used t) q = bget (ft_used (fd_tab s)) q"
    using ft_remove_cases [OF i(1), of "(p, fd)" r] assms(2) by (auto simp: slot_def)
  define m where "m = s\<lparr>fd_tab := t, fd_cloexec := bremove (p, fd) (fd_cloexec s)\<rparr>"
  define s' where "s' = (if d_refs d = 1
      then m\<lparr>fd_descs := bremove r (fd_descs s), fd_log := fd_log s @ Closed r (fo_table (d_ops d)) # drop_vnode (d_vnode d)\<rparr>
      else m\<lparr>fd_descs := bupdate r (\<lambda>d. d\<lparr>d_refs := d_refs d - 1\<rparr>) (fd_descs s), fd_log := fd_log s @ [Slot_closed r]\<rparr>)"
  have run: "close_one p fd s = Some (True, s')"
    using t(1) d by (simp add: close_one_def s'_def m_def Let_def)
  have tab: "fd_tab s' = t" "fd_cloexec s' = bremove (p, fd) (fd_cloexec s)" by (simp_all add: s'_def m_def)
  have dr: "dropped r d [Slot_closed r] s s'" by (simp add: dropped_def s'_def m_def)
  have map': "ft_map (fd_tab s') = bremove (p, fd) (ft_map (fd_tab s))" by (simp add: tab t)
  note sr = slot_refs_remove [OF i(1) assms(2) map']
  have tok: "tab_ok (fd_tab s')" by (simp add: tab t)
  have slot': "slot s' k = (if k = (p, fd) then None else slot s k)" for k
    by (simp add: slot_def map')
  have refs': "slot_refs s' r + int (held r) = slot_refs s r + int (held r) - 1" using sr [of r] by simp
  note at = ref_dropped [OF assms(1) d(1) dr, of held, OF _ refs' slot_refs_nonneg [OF tok]]
  have "fd_inv s' held"
  proof (rule fd_inv_change [OF assms(1) tok, where r = r])
    show "slot s' k \<noteq> None" if "bget (fd_cloexec s') k \<noteq> None" for k
      using i(6) [of k] that by (auto simp: slot' tab split: if_splits)
    show "bget (fd_descs s') r' = bget (fd_descs s) r' \<and> slot_refs s' r' = slot_refs s r' \<and> held r' = held r' \<and> closes s' r' = closes s r'"
      if "r' \<noteq> r" for r' using that sr [of r'] at(3) [of r'] dropped_desc [OF dr d(1), of r'] by simp
  qed (use i at bwf_dropped [OF dr] dr in \<open>simp_all add: tab dropped_def\<close>)
  then show ?thesis using that [OF run d(1) dr _ map' tab(2)] t(4) by (simp add: tab)
qed

lemma close_one_inv:
  assumes "fd_inv s held"
  obtains b s' where "close_one p fd s = Some (b, s')" and "fd_inv s' held"
    and "\<And>k. slot s' k = (if k = (p, fd) then None else slot s k)"
    and "\<And>k. bget (fd_cloexec s') k = (if k = (p, fd) then None else bget (fd_cloexec s) k)"
    and "fd_next s' = fd_next s" and "fd_kopen s' = fd_kopen s"
    and "\<And>q. q \<noteq> p \<Longrightarrow> bget (ft_used (fd_tab s')) q = bget (ft_used (fd_tab s)) q"
    and "\<And>r. map_option (d_refs_update (\<lambda>_. 0)) (bget (fd_descs s') r) = map_option (d_refs_update (\<lambda>_. 0)) (bget (fd_descs s) r)
         \<or> bget (fd_descs s') r = None"
    and "\<And>r. bget (fd_descs s) r = None \<Longrightarrow> closes s' r = closes s r"
proof (cases "slot s (p, fd)")
  case None
  then have "bget (fd_cloexec s) (p, fd) = None" using fd_invD(6) [OF assms, of "(p, fd)"] by blast
  then show ?thesis by (intro that [OF close_one_None [OF None] assms]) (use None in auto)
next
  case (Some r)
  obtain d s' where c: "close_one p fd s = Some (True, s')" "bget (fd_descs s) r = Some d" "dropped r d [Slot_closed r] s s'"
      "fd_inv s' held" "ft_map (fd_tab s') = bremove (p, fd) (ft_map (fd_tab s))" "fd_cloexec s' = bremove (p, fd) (fd_cloexec s)"
      "\<And>q. q \<noteq> p \<Longrightarrow> bget (ft_used (fd_tab s')) q = bget (ft_used (fd_tab s)) q"
    using assms Some by (rule close_one_Some) blast
  show ?thesis
  proof (rule that [OF c(1,4)])
    show "closes s' r' = closes s r'" if "bget (fd_descs s) r' = None" for r'
    proof -
      have "r' \<noteq> r" using that c(2) by auto
      then show ?thesis
        using c(3) closes_Closed(1) [of s' s r "fo_table (d_ops d)" "d_vnode d" r'] closes_Closed(2) [of s' s r r']
        by (auto simp: dropped_def split: if_splits)
    qed
  qed (use c(2-) dropped_desc [OF c(3,2)] in \<open>auto simp: slot_def dropped_def\<close>)
qed

lemma fd_inv_hold:
  assumes "fd_inv s held" and "bget (fd_descs s) r = Some d" and "hold r s = Some s'"
  shows "fd_inv s' (held(r := held r + 1))"
proof -
  have s': "s' = s\<lparr>fd_descs := bupdate r (\<lambda>d. d\<lparr>d_refs := d_refs d + 1\<rparr>) (fd_descs s)\<rparr>"
    using assms(2,3) by (simp add: hold_def split: if_splits)
  note i = fd_invD [OF assms(1)]
  have at: "ref_at s' (held(r := held r + 1)) r" "log_at s' r"
    by (rule ref_added [OF assms(1,2), where held' = "held(r := held r + 1)"]; simp add: s')+
  show ?thesis
  proof (rule fd_inv_change [OF assms(1) _ _ _ _ _ _ at])
    show "slot s' k \<noteq> None" if "bget (fd_cloexec s') k \<noteq> None" for k using i(6) [of k] that by (simp add: s')
  qed (use i in \<open>simp_all add: s'\<close>)
qed

lemma release_inv:
  assumes "fd_inv s held" and "0 < held r"
  obtains s' d where "release r s = Some s'" and "fd_inv s' (held(r := held r - 1))"
    and "bget (fd_descs s) r = Some d" and "dropped r d [] s s'" and "fd_tab s' = fd_tab s"
proof -
  note i = fd_invD [OF assms(1)]
  obtain d where d: "bget (fd_descs s) r = Some d" "0 < d_refs d"
    using refs_okD [OF i(4), of r] assms(2) by (cases "bget (fd_descs s) r") auto
  define s' where "s' = (if d_refs d = 1
      then s\<lparr>fd_descs := bremove r (fd_descs s), fd_log := fd_log s @ Closed r (fo_table (d_ops d)) # drop_vnode (d_vnode d)\<rparr>
      else s\<lparr>fd_descs := bupdate r (\<lambda>d. d\<lparr>d_refs := d_refs d - 1\<rparr>) (fd_descs s)\<rparr>)"
  have run: "release r s = Some s'" using d by (simp add: release_def s'_def)
  have dr: "dropped r d [] s s'" by (simp add: dropped_def s'_def)
  have tab: "fd_tab s' = fd_tab s" "fd_cloexec s' = fd_cloexec s" by (simp_all add: s'_def)
  have sr: "slot_refs s' r' = slot_refs s r'" "slot s' k = slot s k" for r' k by (simp_all add: slot_refs_def slot_def tab)
  have refs': "slot_refs s' r + int ((held(r := held r - 1)) r) = slot_refs s r + int (held r) - 1"
    using assms(2) by (simp add: sr of_nat_diff)
  have tok: "tab_ok (fd_tab s')" using i(1) by (simp add: tab)
  note at = ref_dropped [OF assms(1) d(1) dr, of "held(r := held r - 1)", OF _ refs' slot_refs_nonneg [OF tok]]
  have "fd_inv s' (held(r := held r - 1))"
  proof (rule fd_inv_change [OF assms(1) tok, where r = r])
    show "slot s' k \<noteq> None" if "bget (fd_cloexec s') k \<noteq> None" for k using i(6) [of k] that by (simp add: sr tab)
    show "bget (fd_descs s') r' = bget (fd_descs s) r' \<and> slot_refs s' r' = slot_refs s r'
        \<and> (held(r := held r - 1)) r' = held r' \<and> closes s' r' = closes s r'" if "r' \<noteq> r" for r'
      using that at(3) [of r'] dropped_desc [OF dr d(1), of r'] by (simp add: sr)
  qed (use i at bwf_dropped [OF dr] dr in \<open>simp_all add: tab dropped_def\<close>)
  then show ?thesis using that run d(1) dr tab(1) by blast
qed

lemma fd_inv_install_held:
  assumes "fd_inv s held" and "0 < held r" and "install_held e r cloexec s = (fd, s')"
  shows "fd_inv s' (held(r := held r - 1))" and "slot s (ev_tgid e, fd) = None" and "slot s' (ev_tgid e, fd) = Some r"
proof -
  note i = fd_invD [OF assms(1)]
  define m where "m = s\<lparr>fd_tab := ft_insert (ev_tgid e, fd) r (fd_tab s)\<rparr>"
  have fd: "fd = ft_lowest_free (ev_tgid e) 0 (fd_tab s)" and s': "s' = (if cloexec then set_cloexec (ev_tgid e) fd True m else m)"
    using assms(3) by (auto simp: install_held_def Let_def m_def)
  show new: "slot s (ev_tgid e, fd) = None" using lowest_free_fresh [OF i(1)] by (simp add: fd slot_def)
  have tab: "fd_tab m = ft_insert (ev_tgid e, fd) r (fd_tab s)" by (simp add: m_def)
  note sr = slot_refs_insert [OF i(1) new tab]
  have keep: "fd_descs m = fd_descs s" "fd_cloexec m = fd_cloexec s" "fd_next m = fd_next s" "closes m = closes s"
    by (simp_all add: m_def fun_eq_iff)
  have "fd_inv m (held(r := held r - 1))"
  proof (rule fd_inv_change [OF assms(1), where r = r])
    show "slot m k \<noteq> None" if "bget (fd_cloexec m) k \<noteq> None" for k
      using i(6) [of k] that by (simp add: slot_insert [OF tab] keep)
    show "ref_at m (held(r := held r - 1)) r" "log_at m r"
      using fd_inv_at [OF assms(1), of r] assms(2) by (auto simp: ref_at_def log_at_def keep sr split: option.splits)
  qed (use i in \<open>simp_all add: tab keep sr tab_ok_insert\<close>)
  moreover have "slot m (ev_tgid e, fd) = Some r" by (simp add: slot_insert [OF tab])
  ultimately show "fd_inv s' (held(r := held r - 1))" "slot s' (ev_tgid e, fd) = Some r"
    using fd_inv_set_cloexec [of m _ True "ev_tgid e" fd] by (auto simp: s' set_cloexec_def)
qed

text \<open>A new description, with its first reference a slot or the kernel.\<close>

definition opened :: "fds \<Rightarrow> nat \<Rightarrow> bool" where
  "opened s r \<longleftrightarrow> bget (fd_descs s) r \<noteq> None \<or> closes s r \<noteq> 0"

lemma fd_inv_new_slot:
  assumes "fd_inv s held" and "\<not> opened s r" and "r < fd_next s" and "d_refs d = 1" and "slot s (p, fd) = None"
    and s': "s' = s\<lparr>fd_descs := binsert r d (fd_descs s), fd_tab := ft_insert (p, fd) r (fd_tab s)\<rparr>"
  shows "fd_inv s' held"
proof -
  note i = fd_invD [OF assms(1)]
  have tab: "fd_tab s' = ft_insert (p, fd) r (fd_tab s)" by (simp add: s')
  note sr = slot_refs_insert [OF i(1) assms(5) tab]
  have keep: "fd_descs s' = binsert r d (fd_descs s)" "fd_cloexec s' = fd_cloexec s" "fd_next s' = fd_next s" "closes s' = closes s"
    by (simp_all add: s' fun_eq_iff)
  show ?thesis
  proof (rule fd_inv_change [OF assms(1), where r = r])
    show "slot s' k \<noteq> None" if "bget (fd_cloexec s') k \<noteq> None" for k
      using i(6) [of k] that by (simp add: slot_insert [OF tab] keep)
    show "ref_at s' held r" "log_at s' r"
      using fd_inv_at [OF assms(1), of r] assms(2-4) by (auto simp: ref_at_def log_at_def keep sr opened_def)
  qed (use i in \<open>simp_all add: tab keep sr tab_ok_insert\<close>)
qed

lemma fd_inv_new_held:
  assumes "fd_inv s held" and "\<not> opened s r" and "r < fd_next s" and "d_refs d = 1"
    and s': "s' = s\<lparr>fd_descs := binsert r d (fd_descs s), fd_kopen := None\<rparr>"
  shows "fd_inv s' (held(r := held r + 1))"
proof -
  note i = fd_invD [OF assms(1)]
  have keep: "fd_descs s' = binsert r d (fd_descs s)" "fd_cloexec s' = fd_cloexec s" "fd_next s' = fd_next s" "closes s' = closes s"
      "fd_tab s' = fd_tab s" "slot s' = slot s" "slot_refs s' = slot_refs s"
    by (simp_all add: s' fun_eq_iff)
  show ?thesis
  proof (rule fd_inv_change [OF assms(1), where r = r])
    show "slot s' k \<noteq> None" if "bget (fd_cloexec s') k \<noteq> None" for k using i(6) [of k] that by (simp add: keep)
    show "ref_at s' (held(r := held r + 1)) r" "log_at s' r"
      using fd_inv_at [OF assms(1), of r] assms(2-4) by (auto simp: ref_at_def log_at_def keep opened_def)
  qed (use i in \<open>simp_all add: keep\<close>)
qed

lemma install_new:
  assumes "bwf (fd_descs s)" and "d_refs d = 0"
  shows "install p fd r (s\<lparr>fd_descs := binsert r d (fd_descs s)\<rparr>) =
    Some (s\<lparr>fd_descs := binsert r (d\<lparr>d_refs := 1\<rparr>) (fd_descs s), fd_tab := ft_insert (p, fd) r (fd_tab s)\<rparr>)"
proof -
  have "bupdate r (\<lambda>d. d\<lparr>d_refs := d_refs d + 1\<rparr>) (binsert r d (fd_descs s)) = binsert r (d\<lparr>d_refs := 1\<rparr>) (fd_descs s)"
    using assms by (intro bmap_eqI) auto
  then show ?thesis using assms(2) by (simp add: install_def u32_max_def)
qed

lemma finstall_cases:
  assumes "fd_inv s held" and "\<not> opened s r" and "r < fd_next s"
  obtains (full) "ev_maxfiles e \<le> length (fd_descs s)" and "finstall e r ops data flag kind s = (Err ENFILE, s)"
  | (kernel) s' where "kernel_opening e s" and "finstall e r ops data flag kind s = (Ok r, s')"
      and "fd_inv s' (held(r := held r + 1))" and "fd_tab s' = fd_tab s"
  | (user) fd s' d where "\<not> kernel_opening e s" and "length (fd_descs s) < ev_maxfiles e"
      and "fd = ft_lowest_free (ev_tgid e) 0 (fd_tab s)"
      and "finstall e r ops data flag kind s = (Ok fd, s')" and "fd_inv s' held"
      and "s' = s\<lparr>fd_descs := binsert r d (fd_descs s), fd_tab := ft_insert (ev_tgid e, fd) r (fd_tab s)\<rparr>"
proof -
  note i = fd_invD [OF assms(1)]
  define d where "d = \<lparr> d_ops = ops, d_data = data, d_flag = flag, d_offset = 0, d_kind = kind, d_refs = 0, d_vnode = 0 \<rparr>"
  define fd where "fd = ft_lowest_free (ev_tgid e) 0 (fd_tab s)"
  have free: "slot s (ev_tgid e, fd) = None" using lowest_free_fresh [OF i(1)] by (simp add: fd_def slot_def)
  show ?thesis
  proof (cases "ev_maxfiles e \<le> length (fd_descs s)")
    case True
    then show ?thesis using full by (simp add: finstall_def)
  next
    case room: False
    show ?thesis
    proof (cases "kernel_opening e s")
      case True
      define s' where "s' = s\<lparr>fd_descs := binsert r (d\<lparr>d_refs := 1\<rparr>) (fd_descs s), fd_kopen := None\<rparr>"
      have "finstall e r ops data flag kind s = (Ok r, s')"
        using True room by (simp add: finstall_def d_def s'_def)
      moreover have "fd_inv s' (held(r := held r + 1))"
        by (rule fd_inv_new_held [OF assms]) (simp_all add: s'_def)
      ultimately show ?thesis using kernel True by (simp add: s'_def)
    next
      case False
      define s' where "s' = s\<lparr>fd_descs := binsert r (d\<lparr>d_refs := 1\<rparr>) (fd_descs s), fd_tab := ft_insert (ev_tgid e, fd) r (fd_tab s)\<rparr>"
      have "finstall e r ops data flag kind s = (Ok fd, s')"
        using False room install_new [OF i(2), of d "ev_tgid e" fd r]
        by (simp add: finstall_def d_def s'_def fd_def Let_def)
      moreover have "fd_inv s' held"
        by (rule fd_inv_new_slot [OF assms _ free]) (simp_all add: s'_def)
      ultimately show ?thesis using user False room s'_def fd_def by (metis not_le)
    qed
  qed
qed

section \<open>Closing and copying many slots\<close>

lemma in_slots_of: "tab_ok (fd_tab s) \<Longrightarrow> (fd, r) \<in> set (slots_of p s) \<longleftrightarrow> slot s (p, fd) = Some r"
  using bwf_in_set_iff [OF tab_okD(1), of "fd_tab s" "(p, fd)" r]
  by (force simp: slots_of_def slot_def image_iff)

lemma distinct_slots_of: "tab_ok (fd_tab s) \<Longrightarrow> distinct (map fst (slots_of p s))"
proof -
  assume "tab_ok (fd_tab s)"
  then have "distinct (map fst (filter (\<lambda>((q, _), _). q = p) (ft_map (fd_tab s))))"
    by (metis tab_okD(1) bwf_filter bwf_distinct)
  then have "inj_on fst (set (filter (\<lambda>((q, _), _). q = p) (ft_map (fd_tab s))))"
      "distinct (filter (\<lambda>((q, _), _). q = p) (ft_map (fd_tab s)))"
    by (simp_all add: distinct_map)
  then show ?thesis by (auto simp: slots_of_def distinct_map inj_on_def comp_def)
qed

text \<open>What a run of closes on one process changes.\<close>

definition closed_list :: "nat \<Rightarrow> nat set \<Rightarrow> fds \<Rightarrow> fds \<Rightarrow> bool" where
  "closed_list p F s s' \<longleftrightarrow>
     (\<forall>k. slot s' k = (if fst k = p \<and> snd k \<in> F then None else slot s k))
     \<and> (\<forall>k. bget (fd_cloexec s') k = (if fst k = p \<and> snd k \<in> F then None else bget (fd_cloexec s) k))
     \<and> fd_next s' = fd_next s \<and> fd_kopen s' = fd_kopen s
     \<and> (\<forall>q. q \<noteq> p \<longrightarrow> bget (ft_used (fd_tab s')) q = bget (ft_used (fd_tab s)) q)
     \<and> (\<forall>r. map_option (d_refs_update (\<lambda>_. 0)) (bget (fd_descs s') r) = map_option (d_refs_update (\<lambda>_. 0)) (bget (fd_descs s) r)
           \<or> bget (fd_descs s') r = None)
     \<and> (\<forall>r. bget (fd_descs s) r = None \<longrightarrow> closes s' r = closes s r)"

lemma closed_list_one:
  assumes "fd_inv s held"
  obtains b s' where "close_one p fd s = Some (b, s')" and "fd_inv s' held" and "closed_list p {fd} s s'"
  using assms
proof (rule close_one_inv [of s held p fd])
  fix b s'
  assume *: "close_one p fd s = Some (b, s')" "fd_inv s' held"
    "\<And>k. slot s' k = (if k = (p, fd) then None else slot s k)"
    "\<And>k. bget (fd_cloexec s') k = (if k = (p, fd) then None else bget (fd_cloexec s) k)"
    "fd_next s' = fd_next s" "fd_kopen s' = fd_kopen s"
    "\<And>q. q \<noteq> p \<Longrightarrow> bget (ft_used (fd_tab s')) q = bget (ft_used (fd_tab s)) q"
    "\<And>r. map_option (d_refs_update (\<lambda>_. 0)) (bget (fd_descs s') r) = map_option (d_refs_update (\<lambda>_. 0)) (bget (fd_descs s) r)
         \<or> bget (fd_descs s') r = None"
    "\<And>r. bget (fd_descs s) r = None \<Longrightarrow> closes s' r = closes s r"
  have "closed_list p {fd} s s'"
    unfolding closed_list_def using *(3-9) by (intro conjI allI) (auto simp: prod_eq_iff)
  then show ?thesis using that *(1,2) by blast
qed

lemma closed_list_trans:
  assumes "closed_list p F s t" and "closed_list p G t u"
  shows "closed_list p (F \<union> G) s u"
proof -
  have "map_option (d_refs_update (\<lambda>_. 0)) (bget (fd_descs u) r) = map_option (d_refs_update (\<lambda>_. 0)) (bget (fd_descs s) r)
      \<or> bget (fd_descs u) r = None" for r
    using assms unfolding closed_list_def by (metis option.map_disc_iff)
  moreover have "closes u r = closes s r" if "bget (fd_descs s) r = None" for r
    using assms that unfolding closed_list_def by (metis option.map_disc_iff)
  ultimately show ?thesis using assms unfolding closed_list_def by auto
qed

lemma closed_list_empty: "closed_list p {} s s"
  by (simp add: closed_list_def)

lemma close_marked_eq:
  assumes "fd_inv s held"
  shows "close_marked p fd s = map_option snd (close_one p fd s)"
proof -
  obtain b s' where c: "close_one p fd s = Some (b, s')" "fd_inv s' held" "closed_list p {fd} s s'"
    using assms by (rule closed_list_one)
  then have "bget (fd_cloexec s') (p, fd) = None" by (simp add: closed_list_def)
  then have "bremove (p, fd) (fd_cloexec s') = fd_cloexec s'" by (intro bremove_fresh) (simp add: bget_None_iff)
  then show ?thesis using c(1) by (simp add: close_marked_def)
qed

lemma close_list:
  assumes "fd_inv s held"
  obtains s' where "fold_opt (\<lambda>fd s. map_option snd (close_one p fd s)) fds s = Some s'"
    and "fd_inv s' held" and "closed_list p (set fds) s s'"
proof -
  have "\<exists>s'. fold_opt (\<lambda>fd s. map_option snd (close_one p fd s)) fds s = Some s' \<and> fd_inv s' held \<and> closed_list p (set fds) s s'"
    using assms
  proof (induction fds arbitrary: s)
    case (Cons fd fds)
    obtain b t where t: "close_one p fd s = Some (b, t)" "fd_inv t held" "closed_list p {fd} s t"
      using Cons.prems by (rule closed_list_one)
    then obtain u where "fold_opt (\<lambda>fd s. map_option snd (close_one p fd s)) fds t = Some u" "fd_inv u held" "closed_list p (set fds) t u"
      using Cons.IH [OF t(2)] by blast
    then show ?case using t closed_list_trans [OF t(3)] by simp
  qed (simp add: closed_list_empty)
  then show ?thesis using that by blast
qed

lemma fold_opt_cong:
  assumes "P s" and "\<And>x s. P s \<Longrightarrow> f x s = g x s" and "\<And>x s s'. P s \<Longrightarrow> g x s = Some s' \<Longrightarrow> P s'"
  shows "fold_opt f xs s = fold_opt g xs s"
  using assms(1)
proof (induction xs arbitrary: s)
  case (Cons x xs)
  then show ?case using assms(2,3) by (auto split: option.split)
qed simp

lemma close_marked_list:
  assumes "fd_inv s held"
  shows "fold_opt (close_marked p) fds s = fold_opt (\<lambda>fd s. map_option snd (close_one p fd s)) fds s"
proof (rule fold_opt_cong [where P = "\<lambda>s. fd_inv s held"])
  fix fd s s'
  assume i: "fd_inv s held" and s': "map_option snd (close_one p fd s) = Some s'"
  show "fd_inv s' held" using i by (rule closed_list_one [of s held p fd]) (use s' in simp)
qed (use assms close_marked_eq in auto)

lemma close_all_inv:
  assumes "fd_inv s held"
  obtains s' where "close_all p s = Some s'" and "fd_inv s' held" and "closed_list p (numbers (fd_tab s) p) s s'"
proof -
  have "set (map fst (slots_of p s)) = numbers (fd_tab s) p"
    using in_slots_of [OF fd_invD(1) [OF assms], of _ _ p] by (force simp: numbers_def slot_def)
  then show ?thesis using close_list [OF assms, of p "map fst (slots_of p s)"] that by (metis close_all_def)
qed

lemma close_cloexec_inv:
  assumes "fd_inv s held"
  obtains s' where "close_cloexec p s = Some s'" and "fd_inv s' held" and "closed_list p {fd. is_cloexec p fd s} s s'"
proof -
  have "set (map snd (filter (\<lambda>k. fst k = p) (bkeys (fd_cloexec s)))) = {fd. is_cloexec p fd s}"
    using bkeys_dom [of "fd_cloexec s"] by (force simp: is_cloexec_def)
  then show ?thesis
    using close_list [OF assms, of p "map snd (filter (\<lambda>k. fst k = p) (bkeys (fd_cloexec s)))"] that
      close_marked_list [OF assms] by (metis close_cloexec_def)
qed

text \<open>What copying slots of one process into another changes.\<close>

definition copied :: "nat \<Rightarrow> nat \<Rightarrow> nat set \<Rightarrow> fds \<Rightarrow> fds \<Rightarrow> bool" where
  "copied p c F s s' \<longleftrightarrow>
     (\<forall>k. slot s' k = (if fst k = c \<and> snd k \<in> F then slot s (p, snd k) else slot s k))
     \<and> (\<forall>k. bget (fd_cloexec s') k = (if fst k = c \<and> snd k \<in> F then bget (fd_cloexec s) (p, snd k) else bget (fd_cloexec s) k))
     \<and> fd_next s' = fd_next s \<and> fd_kopen s' = fd_kopen s \<and> fd_log s' = fd_log s
     \<and> (\<forall>q. q \<noteq> c \<longrightarrow> bget (ft_used (fd_tab s')) q = bget (ft_used (fd_tab s)) q)
     \<and> (\<forall>r. map_option (d_refs_update (\<lambda>_. 0)) (bget (fd_descs s') r) = map_option (d_refs_update (\<lambda>_. 0)) (bget (fd_descs s) r))"

lemma copied_trans:
  assumes "copied p c F s t" and "copied p c G t u" and "p \<noteq> c"
  shows "copied p c (F \<union> G) s u"
  using assms unfolding copied_def by (auto simp del: option.map_id)

lemma fork_slot_copied:
  assumes "fd_inv s held" and "p \<noteq> c" and "slot s (p, fd) = Some r" and "slot s (c, fd) = None"
    and "fork_slot p c (fd, r) s = Some s'"
  shows "fd_inv s' held" and "copied p c {fd} s s'"
proof -
  obtain m where m: "install c fd r s = Some m" and s': "s' = (if is_cloexec p fd m then set_cloexec c fd True m else m)"
    using assms(5) by (auto simp: fork_slot_def)
  have im: "fd_inv m held" by (rule fd_inv_install [OF assms(1) m assms(4)])
  obtain d where d: "bget (fd_descs s) r = Some d"
    and mr: "m = s\<lparr>fd_tab := ft_insert (c, fd) r (fd_tab s), fd_descs := bupdate r (\<lambda>d. d\<lparr>d_refs := d_refs d + 1\<rparr>) (fd_descs s)\<rparr>"
    using m by (rule install_cases)
  have tab: "fd_tab m = ft_insert (c, fd) r (fd_tab s)" by (simp add: mr)
  note sl = slot_insert [OF tab]
  have cl: "is_cloexec p fd m \<longleftrightarrow> bget (fd_cloexec s) (p, fd) \<noteq> None" by (simp add: mr is_cloexec_def)
  have none: "bget (fd_cloexec s) (c, fd) = None" using fd_invD(6) [OF assms(1), of "(c, fd)"] assms(4) by blast
  show "fd_inv s' held" using im fd_inv_set_cloexec [OF im, of True c fd] by (auto simp: s' sl)
  show "copied p c {fd} s s'" unfolding copied_def
  proof (intro conjI allI impI)
    fix k
    have "slot s' k = slot m k" by (simp add: s' set_cloexec_def)
    then show "slot s' k = (if fst k = c \<and> snd k \<in> {fd} then slot s (p, snd k) else slot s k)"
      using assms(3) by (cases k) (auto simp: sl)
    show "bget (fd_cloexec s') k = (if fst k = c \<and> snd k \<in> {fd} then bget (fd_cloexec s) (p, snd k) else bget (fd_cloexec s) k)"
      using cl none by (cases k; cases "bget (fd_cloexec s) (p, fd)") (auto simp: s' set_cloexec_def mr)
  next
    fix q assume "q \<noteq> c"
    then show "bget (ft_used (fd_tab s')) q = bget (ft_used (fd_tab s)) q"
      by (simp add: s' set_cloexec_def tab) (simp add: ft_insert_def)
  next
    fix r'
    show "map_option (d_refs_update (\<lambda>_. 0)) (bget (fd_descs s') r') = map_option (d_refs_update (\<lambda>_. 0)) (bget (fd_descs s) r')"
      using d by (simp add: s' set_cloexec_def mr)
  qed (simp_all add: s' set_cloexec_def mr)
qed

lemma fork_list:
  assumes "fold_opt (fork_slot p c) xs s = Some s'" and "fd_inv s held" and "p \<noteq> c" and "distinct (map fst xs)"
    and "\<And>fd r. (fd, r) \<in> set xs \<Longrightarrow> slot s (p, fd) = Some r \<and> slot s (c, fd) = None"
  shows "fd_inv s' held \<and> copied p c (fst ` set xs) s s'"
  using assms
proof (induction xs arbitrary: s)
  case Nil
  then show ?case by (simp add: copied_def)
next
  case (Cons x xs)
  obtain fd r where x: "x = (fd, r)" by (cases x)
  obtain t where t: "fork_slot p c (fd, r) s = Some t" "fold_opt (fork_slot p c) xs t = Some s'"
    using Cons.prems(1) by (auto simp: x split: option.splits)
  have sl: "slot s (p, fd) = Some r" "slot s (c, fd) = None" using Cons.prems(5) [of fd r] by (simp_all add: x)
  note one = fork_slot_copied [OF Cons.prems(2,3) sl t(1)]
  have rest: "slot t (p, fd') = Some r' \<and> slot t (c, fd') = None" if "(fd', r') \<in> set xs" for fd' r'
  proof -
    have "fd' \<noteq> fd" using Cons.prems(4) that by (force simp: x)
    then show ?thesis using Cons.prems(5) [of fd' r'] that one(2) Cons.prems(3) by (auto simp: copied_def)
  qed
  have "fd_inv s' held \<and> copied p c (fst ` set xs) t s'"
    by (rule Cons.IH [OF t(2) one(1) Cons.prems(3)]) (use Cons.prems(4) rest in \<open>simp_all add: x\<close>)
  then show ?case using copied_trans [OF one(2) _ Cons.prems(3)] by (simp add: x)
qed

lemma fork_inherit_copies:
  assumes "fd_inv s held" and "p \<noteq> c" and "numbers (fd_tab s) c = {}" and "fork_inherit p c s = Some s'"
  shows "fd_inv s' held" and "copied p c (numbers (fd_tab s) p) s s'"
proof -
  have iff: "(fd, r) \<in> set (slots_of p s) \<longleftrightarrow> slot s (p, fd) = Some r" for fd r
    by (rule in_slots_of) (rule fd_invD [OF assms(1)])
  have F: "fst ` set (slots_of p s) = numbers (fd_tab s) p" using iff by (force simp: numbers_def slot_def)
  have "fd_inv s' held \<and> copied p c (fst ` set (slots_of p s)) s s'"
  proof (rule fork_list)
    show "fold_opt (fork_slot p c) (slots_of p s) s = Some s'" using assms(4) by (simp add: fork_inherit_def)
    show "distinct (map fst (slots_of p s))" by (rule distinct_slots_of) (rule fd_invD [OF assms(1)])
    show "slot s (p, fd) = Some r \<and> slot s (c, fd) = None" if "(fd, r) \<in> set (slots_of p s)" for fd r
      using that assms(3) unfolding iff by (auto simp: numbers_def slot_def)
  qed (use assms in auto)
  then show "fd_inv s' held" "copied p c (numbers (fd_tab s) p) s s'" unfolding F by auto
qed

section \<open>Duplicating\<close>

lemma dup2_cases:
  assumes "fd_inv s held"
  obtains (bad) "slot s (ev_tgid e, oldfd) = None \<or> ev_nofile e \<le> newfd" and "dup2 e oldfd newfd s = (Err EBADF, s)"
  | (same) r where "slot s (ev_tgid e, oldfd) = Some r" and "newfd < ev_nofile e" and "oldfd = newfd" and "dup2 e oldfd newfd s = (Ok newfd, s)"
  | (full) r s' where "slot s (ev_tgid e, oldfd) = Some r" and "newfd < ev_nofile e" and "oldfd \<noteq> newfd" and "dup2 e oldfd newfd s = (Panic, s')"
      and "fd_inv s' held" and "refs r s' = u32_max" and "closed_list (ev_tgid e) {newfd} s s'"
  | (dup) r s1 s' where "slot s (ev_tgid e, oldfd) = Some r" and "newfd < ev_nofile e" and "oldfd \<noteq> newfd" and "dup2 e oldfd newfd s = (Ok newfd, s')"
      and "fd_inv s1 held" and "closed_list (ev_tgid e) {newfd} s s1" and "install (ev_tgid e) newfd r s1 = Some s'" and "fd_inv s' held"
proof (cases "slot s (ev_tgid e, oldfd)")
  case None
  then show ?thesis using bad by (simp add: dup2_def)
next
  case (Some r)
  show ?thesis
  proof (cases "ev_nofile e \<le> newfd")
    case True
    then show ?thesis using bad Some by (simp add: dup2_def)
  next
    case lim: False
    show ?thesis
    proof (cases "oldfd = newfd")
      case True
      then show ?thesis using same Some lim by (simp add: dup2_def)
    next
      case False
      obtain b s1 where s1: "close_one (ev_tgid e) newfd s = Some (b, s1)" "fd_inv s1 held" "closed_list (ev_tgid e) {newfd} s s1"
        using assms by (rule closed_list_one)
      have sl: "slot s1 (ev_tgid e, oldfd) = Some r" "slot s1 (ev_tgid e, newfd) = None"
        using s1(3) Some False by (simp_all add: closed_list_def)
      obtain d where d: "bget (fd_descs s1) r = Some d" using slot_desc [OF s1(2) sl(1)] by blast
      show ?thesis
      proof (cases "install (ev_tgid e) newfd r s1")
        case None
        then have "refs r s1 = u32_max" using d by (simp add: install_def refs_def split: if_splits)
        then show ?thesis using full [OF Some _ False _ s1(2)] lim False Some s1 None by (simp add: dup2_def)
      next
        case (Some s')
        then have "fd_inv s' held" using fd_inv_install [OF s1(2) Some sl(2)] by simp
        then show ?thesis using dup [OF \<open>slot s (ev_tgid e, oldfd) = _\<close> _ False _ s1(2,3) Some] lim False \<open>slot s (ev_tgid e, oldfd) = _\<close> s1(1) Some
          by (simp add: dup2_def)
      qed
    qed
  qed
qed

lemma dup_min_cases:
  assumes "fd_inv s held"
  obtains (bad) "slot s (ev_tgid e, oldfd) = None" and "dup_min e oldfd mn s = (Err EBADF, s)"
  | (range) r where "slot s (ev_tgid e, oldfd) = Some r" and "ev_nofile e \<le> mn" and "dup_min e oldfd mn s = (Err EINVAL, s)"
  | (full) r where "slot s (ev_tgid e, oldfd) = Some r" and "mn < ev_nofile e" and "ev_nofile e \<le> ft_lowest_free (ev_tgid e) mn (fd_tab s)"
      and "dup_min e oldfd mn s = (Err EMFILE, s)"
  | (panic) r where "slot s (ev_tgid e, oldfd) = Some r" and "dup_min e oldfd mn s = (Panic, s)" and "refs r s = u32_max"
  | (dup) r newfd s' where "slot s (ev_tgid e, oldfd) = Some r" and "newfd = ft_lowest_free (ev_tgid e) mn (fd_tab s)"
      and "newfd < ev_nofile e" and "mn < ev_nofile e" and "dup_min e oldfd mn s = (Ok newfd, s')" and "install (ev_tgid e) newfd r s = Some s'" and "fd_inv s' held"
proof (cases "slot s (ev_tgid e, oldfd)")
  case None
  then show ?thesis using bad by (simp add: dup_min_def)
next
  case (Some r)
  let ?n = "ft_lowest_free (ev_tgid e) mn (fd_tab s)"
  have free: "slot s (ev_tgid e, ?n) = None"
    using lowest_free_fresh [OF fd_invD(1) [OF assms]] by (simp add: slot_def)
  obtain d where d: "bget (fd_descs s) r = Some d" using slot_desc [OF assms Some] by blast
  consider "ev_nofile e \<le> mn" | "mn < ev_nofile e" "ev_nofile e \<le> ?n" | "mn < ev_nofile e" "?n < ev_nofile e" by linarith
  then show ?thesis
  proof cases
    case 1
    then show ?thesis using range Some by (simp add: dup_min_def)
  next
    case 2
    then show ?thesis using full Some by (simp add: dup_min_def)
  next
    case 3
    show ?thesis
    proof (cases "install (ev_tgid e) ?n r s")
      case None
      then have "refs r s = u32_max" using d by (simp add: install_def refs_def split: if_splits)
      then show ?thesis using panic [OF Some] Some 3 None by (simp add: dup_min_def)
    next
      case (Some s')
      then show ?thesis using dup [OF \<open>slot s (ev_tgid e, oldfd) = _\<close> refl 3(2,1) _ Some fd_inv_install [OF assms Some free]]
          \<open>slot s (ev_tgid e, oldfd) = _\<close> 3 by (simp add: dup_min_def)
    qed
  qed
qed

section \<open>Changes inside a description\<close>

lemma fd_inv_with_description:
  assumes "fd_inv s held" and "\<And>d. d_refs (f d) = d_refs d \<and> (fo_table (d_ops d) = Dead_ops \<longrightarrow> fo_table (d_ops (f d)) = Dead_ops)"
  shows "fd_inv (with_description r f s) held"
proof (rule fd_inv_change [OF assms(1), where r = r])
  show "slot (with_description r f s) k \<noteq> None" if "bget (fd_cloexec (with_description r f s)) k \<noteq> None" for k
    using fd_invD(6) [OF assms(1), of k] that by (simp add: with_description_def)
  show "ref_at (with_description r f s) held r" "log_at (with_description r f s) r"
    using fd_inv_at [OF assms(1), of r] assms(2) by (auto simp: ref_at_def log_at_def with_description_def split: option.splits)
qed (use fd_invD [OF assms(1)] in \<open>simp_all add: with_description_def\<close>)

lemma fd_inv_log:
  assumes "fd_inv s held" and "fd_log s' = fd_log s @ [Vrele v]" and "s' = s\<lparr>fd_log := fd_log s'\<rparr>"
  shows "fd_inv s' held"
proof -
  have c: "closes s' r = closes s r" for r using assms(2) by (rule closes_Closed)
  have keep: "fd_tab s' = fd_tab s" "fd_descs s' = fd_descs s" "fd_cloexec s' = fd_cloexec s" "fd_next s' = fd_next s"
    by (subst assms(3), simp)+
  have sr: "slot s' k = slot s k" "slot_refs s' r = slot_refs s r" for k r by (simp_all add: slot_def slot_refs_def keep)
  show ?thesis
  proof (rule fd_inv_change [OF assms(1), where r = 0])
    show "slot s' k \<noteq> None" if "bget (fd_cloexec s') k \<noteq> None" for k using fd_invD(6) [OF assms(1), of k] that by (simp add: keep sr)
  qed (use fd_invD [OF assms(1)] fd_inv_at [OF assms(1), of 0] in \<open>simp_all add: keep sr c ref_at_def log_at_def cong: option.case_cong\<close>)
qed

lemma fd_inv_set_vnode: "fd_inv s held \<Longrightarrow> fd_inv (set_vnode r vp s) held"
proof -
  assume i: "fd_inv s held"
  have a: "fd_inv (with_description r (\<lambda>d. d\<lparr>d_vnode := vp\<rparr>) s) held" by (rule fd_inv_with_description [OF i]) simp
  have b: "fd_inv (s\<lparr>fd_log := fd_log s @ [Vrele vp]\<rparr>) held" by (rule fd_inv_log [OF i]) simp_all
  show ?thesis using a b by (simp add: set_vnode_def split: option.split)
qed

lemma fd_inv_revoke_one:
  assumes "fd_inv s held" and "fo_table dead = Dead_ops" and "revoke_one dead matches h (n, s) = (n', s')"
    and "\<And>d. bget (fd_descs s) h = Some d \<Longrightarrow> fo_table (d_ops d) \<noteq> Dead_ops"
  shows "fd_inv s' held" and "h' \<noteq> h \<Longrightarrow> bget (fd_descs s') h' = bget (fd_descs s) h'"
proof -
  have "fd_inv s' held \<and> (h' \<noteq> h \<longrightarrow> bget (fd_descs s') h' = bget (fd_descs s) h')"
  proof (cases "matches h (vnode_of h s) \<and> bget (fd_descs s) h \<noteq> None")
    case False
    then have "s' = s" using assms(3) by (auto simp: revoke_one_def split: option.splits if_splits)
    then show ?thesis using assms(1) by simp
  next
    case True
    then obtain d where d: "bget (fd_descs s) h = Some d" by blast
    note i = fd_invD [OF assms(1)]
    let ?f = "\<lambda>d. d\<lparr>d_ops := dead, d_data := 0, d_kind := FModule, d_vnode := 0\<rparr>"
    have s': "s' = (with_description h ?f s)\<lparr>fd_log := fd_log s @ Closed h (fo_table (d_ops d)) # drop_vnode (d_vnode d)\<rparr>"
      using True d assms(3) by (simp add: revoke_one_def)
    have keep: "fd_tab s' = fd_tab s" "fd_cloexec s' = fd_cloexec s" "fd_next s' = fd_next s" "slot s' = slot s" "slot_refs s' = slot_refs s"
        "fd_descs s' = bupdate h ?f (fd_descs s)"
      by (simp_all add: s' with_description_def fun_eq_iff)
    have c: "closes s' r = closes s r + of_bool (r = h)" for r
      using closes_Closed(1) [of s' s h "fo_table (d_ops d)" "d_vnode d" r] assms(4) [OF d] by (simp add: s' with_description_def)
    have "closes s h = 0" using log_okD(3) [OF i(5), of h d] d assms(4) [OF d] by blast
    have "fd_inv s' held"
    proof (rule fd_inv_change [OF assms(1), where r = h])
      show "slot s' k \<noteq> None" if "bget (fd_cloexec s') k \<noteq> None" for k using i(6) [of k] that by (simp add: keep)
      show "ref_at s' held h" "log_at s' h"
        using fd_inv_at [OF assms(1), of h] d assms(2) \<open>closes s h = 0\<close> by (auto simp: ref_at_def log_at_def keep c)
    qed (use i in \<open>simp_all add: keep c\<close>)
    then show ?thesis by (simp add: keep)
  qed
  then show "fd_inv s' held" and "h' \<noteq> h \<Longrightarrow> bget (fd_descs s') h' = bget (fd_descs s) h'" by blast+
qed

lemma fd_inv_revoke_list:
  assumes "fd_inv s held" and "fo_table dead = Dead_ops" and "fold (revoke_one dead matches) hs (n, s) = (n', s')"
    and "distinct hs" and "\<And>h d. h \<in> set hs \<Longrightarrow> bget (fd_descs s) h = Some d \<Longrightarrow> fo_table (d_ops d) \<noteq> Dead_ops"
  shows "fd_inv s' held"
  using assms(1,3-)
proof (induction hs arbitrary: n s)
  case (Cons h hs)
  obtain m t where t: "revoke_one dead matches h (n, s) = (m, t)" by (cases "revoke_one dead matches h (n, s)")
  note one = fd_inv_revoke_one [OF Cons.prems(1) assms(2) t Cons.prems(4) [of h]]
  show ?case
  proof (rule Cons.IH)
    show "fold (revoke_one dead matches) hs (m, t) = (n', s')" using Cons.prems(2) t by simp
    show "fo_table (d_ops d) \<noteq> Dead_ops" if "h' \<in> set hs" "bget (fd_descs t) h' = Some d" for h' d
    proof -
      have "h' \<noteq> h" using Cons.prems(3) that(1) by auto
      then show ?thesis using one(2) Cons.prems(4) [of h' d] that by simp
    qed
  qed (use one Cons.prems(3) in simp_all)
qed simp

lemma fd_inv_revoke_where:
  assumes "fd_inv s held" and "fo_table dead = Dead_ops" and "revoke_where dead matches s = (n, s')"
  shows "fd_inv s' held"
proof -
  let ?l = "filter (\<lambda>(_, d). fo_table (d_ops d) \<noteq> Dead_ops) (fd_descs s)"
  have wf: "bwf (fd_descs s)" by (rule fd_invD [OF assms(1)])
  then have "bwf ?l" by (rule bwf_filter)
  then have "distinct (bkeys ?l)" by (simp add: bkeys_def bwf_distinct)
  moreover have "fo_table (d_ops d) \<noteq> Dead_ops" if "h \<in> set (bkeys ?l)" "bget (fd_descs s) h = Some d" for h d
    using that bwf_in_set_iff [OF wf, of h] by (auto simp: bkeys_def)
  ultimately show ?thesis
    by (rule fd_inv_revoke_list [OF assms(1,2) assms(3) [unfolded revoke_where_def]])
qed

section \<open>Every reachable registry is consistent\<close>

lemma fd_inv_boot: "fd_inv fds_boot (\<lambda>_. 0)"
  by (simp add: fd_inv_def fds_boot_def refs_ok_def log_ok_def slot_refs_def closes_def ft_new_def [symmetric])
    (simp add: ft_new_def)

lemma fd_inv_init:
  assumes "fd_inv s held" and "\<not> opened s 0" and "fd_init ops s = Some s'"
  shows "fd_inv s' held"
proof -
  obtain t where t: "fold_opt (\<lambda>fd s. map_option snd (close_one 0 fd s)) [0, 1, 2] s = Some t" "fd_inv t held"
      "closed_list 0 {0, 1, 2} s t"
    using close_list [OF assms(1), of 0 "[0, 1, 2]"] by (metis list.set(1,2))
  define d where "d = \<lparr> d_ops = ops, d_data = 0, d_flag = fread OR fwrite, d_offset = 0, d_kind = FModule, d_refs = 0, d_vnode = 0 \<rparr>"
  define u where "u = t\<lparr>fd_descs := binsert 0 (d\<lparr>d_refs := 1\<rparr>) (fd_descs t), fd_tab := ft_insert (0, 0) 0 (fd_tab t)\<rparr>"
  have "bget (fd_descs t) 0 = None" using t(3) assms(2) unfolding closed_list_def opened_def by (metis option.map_disc_iff)
  then have new: "\<not> opened t 0" using t(3) assms(2) by (auto simp: opened_def closed_list_def)
  have free: "slot t (0, fd) = None" if "fd \<in> {0, 1, 2}" for fd using t(3) that by (simp add: closed_list_def)
  have iu: "fd_inv u held" by (rule fd_inv_new_slot [OF t(2) new fd_invD(7) [OF t(2)] _ free]) (simp_all add: u_def)
  have iu': "install 0 0 0 (t\<lparr>fd_descs := binsert 0 d (fd_descs t)\<rparr>) = Some u"
    using install_new [OF fd_invD(2) [OF t(2)], of d 0 0 0] by (simp add: d_def u_def)
  obtain v where v: "install 0 1 0 u = Some v" "install 0 2 0 v = Some s'"
    using assms(3) t(1) iu' by (auto simp: fd_init_def d_def split: option.splits)
  have uslot: "slot u k = (if k = (0, 0) then Some 0 else slot t k)" for k by (rule slot_insert) (simp add: u_def)
  have iv: "fd_inv v held" by (rule fd_inv_install [OF iu v(1)]) (simp add: uslot free)
  have "slot v (0, 2) = None"
    using v(1) by (rule install_cases) (simp add: slot_def uslot [unfolded slot_def] free [unfolded slot_def])
  then show ?thesis by (rule fd_inv_install [OF iv v(2)])
qed

lemma fd_inv_set_cloexec_list:
  assumes "fd_inv s held" and "\<And>fd. fd \<in> set fds \<Longrightarrow> slot s (p, fd) \<noteq> None"
  shows "\<exists>s'. fold_opt (\<lambda>fd s. Some (set_cloexec p fd True s)) fds s = Some s' \<and> fd_inv s' held"
  using assms
proof (induction fds arbitrary: s)
  case (Cons fd fds)
  have "fd_inv (set_cloexec p fd True s) held" using Cons.prems by (intro fd_inv_set_cloexec) simp_all
  then show ?case using Cons.IH [of "set_cloexec p fd True s"] Cons.prems(2) by (simp add: set_cloexec_def)
qed simp

lemma fd_inv_close_range:
  assumes "fd_inv s held" and "close_range e a b flags s = (r, s')"
  shows "fd_inv s' held" and "r \<noteq> Panic"
proof -
  define bad where "bad \<longleftrightarrow> unat (ucast b :: u32) < unat (ucast a :: u32) \<or> flags AND NOT (2 OR 4) \<noteq> 0"
  define l where "l = filter (\<lambda>fd. unat (ucast a :: u32) \<le> fd \<and> fd \<le> unat (ucast b :: u32)) (map fst (slots_of (ev_tgid e) s))"
  have open_l: "slot s (ev_tgid e, fd) \<noteq> None" if "fd \<in> set l" for fd
    using that in_slots_of [OF fd_invD(1) [OF assms(1)], of _ _ "ev_tgid e"] by (auto simp: l_def)
  obtain t where t: "fold_opt (\<lambda>fd s. if flags AND 4 \<noteq> 0 then Some (set_cloexec (ev_tgid e) fd True s) else close_marked (ev_tgid e) fd s) l s = Some t"
      "fd_inv t held"
  proof (cases "flags AND 4 = 0")
    case True
    obtain t where "fold_opt (close_marked (ev_tgid e)) l s = Some t" "fd_inv t held"
      using close_list [OF assms(1), of "ev_tgid e" l] unfolding close_marked_list [OF assms(1), symmetric] by metis
    then show ?thesis using that True by simp
  next
    case False
    then show ?thesis using that fd_inv_set_cloexec_list [OF assms(1) open_l] by auto
  qed
  have "close_range e a b flags s = (if bad then (Err EINVAL, s) else (Ok 0, t))"
    using t(1) by (simp add: close_range_def Let_def bad_def l_def)
  then show "fd_inv s' held" "r \<noteq> Panic" using assms t(2) by (auto split: if_splits)
qed

text \<open>
  The registry's states, with \<open>held\<close> counting references that are not slots. A handle is
  made a file at most once; a process forked into has no descriptors yet; a description is released as often as it was held.
\<close>

inductive fd_reach :: "fds \<Rightarrow> (nat \<Rightarrow> nat) \<Rightarrow> bool" where
  boot: "fd_reach fds_boot (\<lambda>_. 0)"
| init: "fd_reach s held \<Longrightarrow> \<not> opened s 0 \<Longrightarrow> fd_init ops s = Some s' \<Longrightarrow> fd_reach s' held"
| alloc: "fd_reach s held \<Longrightarrow> alloc_fd s = (r, s') \<Longrightarrow> fd_reach s' held"
| kopen: "fd_reach s held \<Longrightarrow> fd_reach (s\<lparr>fd_kopen := who\<rparr>) held"
| finstall: "fd_reach s held \<Longrightarrow> \<not> opened s r \<Longrightarrow> r < fd_next s \<Longrightarrow> finstall e r ops data flag kind s = (Ok x, s')
    \<Longrightarrow> fd_reach s' (if kernel_opening e s then held(r := held r + 1) else held)"
| close: "fd_reach s held \<Longrightarrow> close_one p fd s = Some (b, s') \<Longrightarrow> fd_reach s' held"
| exit: "fd_reach s held \<Longrightarrow> close_all p s = Some s' \<Longrightarrow> fd_reach s' held"
| exec: "fd_reach s held \<Longrightarrow> close_cloexec p s = Some s' \<Longrightarrow> fd_reach s' held"
| range: "fd_reach s held \<Longrightarrow> close_range e a b flags s = (res, s') \<Longrightarrow> fd_reach s' held"
| fork: "fd_reach s held \<Longrightarrow> p \<noteq> c \<Longrightarrow> numbers (fd_tab s) c = {} \<Longrightarrow> fork_inherit p c s = Some s' \<Longrightarrow> fd_reach s' held"
| dup2: "fd_reach s held \<Longrightarrow> dup2 e oldfd newfd s = (Ok x, s') \<Longrightarrow> fd_reach s' held"
| dup_min: "fd_reach s held \<Longrightarrow> dup_min e oldfd mn s = (Ok x, s') \<Longrightarrow> fd_reach s' held"
| cloexec: "fd_reach s held \<Longrightarrow> slot s (p, fd) \<noteq> None \<Longrightarrow> fd_reach (set_cloexec p fd on s) held"
| hold: "fd_reach s held \<Longrightarrow> bget (fd_descs s) r \<noteq> None \<Longrightarrow> hold r s = Some s' \<Longrightarrow> fd_reach s' (held(r := held r + 1))"
| release: "fd_reach s held \<Longrightarrow> 0 < held r \<Longrightarrow> release r s = Some s' \<Longrightarrow> fd_reach s' (held(r := held r - 1))"
| install_held: "fd_reach s held \<Longrightarrow> 0 < held r \<Longrightarrow> install_held e r cl s = (x, s') \<Longrightarrow> fd_reach s' (held(r := held r - 1))"
| nonblocking: "fd_reach s held \<Longrightarrow> fd_reach (set_nonblocking r on s) held"
| offset: "fd_reach s held \<Longrightarrow> fd_reach (set_offset r off s) held"
| device: "fd_reach s held \<Longrightarrow> fd_reach (tag_device r dev s) held"
| vnode: "fd_reach s held \<Longrightarrow> fd_reach (set_vnode r vp s) held"
| revoke: "fd_reach s held \<Longrightarrow> fo_table dead = Dead_ops \<Longrightarrow> revoke_where dead matches s = (n, s') \<Longrightarrow> fd_reach s' held"

lemma fd_inv_kopen:
  assumes "fd_inv s held"
  shows "fd_inv (s\<lparr>fd_kopen := who\<rparr>) held"
proof (rule fd_inv_change [OF assms, where r = 0])
  show "slot (s\<lparr>fd_kopen := who\<rparr>) k \<noteq> None" if "bget (fd_cloexec (s\<lparr>fd_kopen := who\<rparr>)) k \<noteq> None" for k
    using fd_invD(6) [OF assms, of k] that by simp
qed (use fd_invD [OF assms] fd_inv_at [OF assms, of 0] in \<open>simp_all add: ref_at_def log_at_def cong: option.case_cong\<close>)

lemma fd_inv_alloc:
  assumes "fd_inv s held"
  shows "fd_inv (s\<lparr>fd_next := fd_next s + 1\<rparr>) held"
proof (rule fd_inv_change [OF assms, where r = 0])
  show "slot (s\<lparr>fd_next := fd_next s + 1\<rparr>) k \<noteq> None" if "bget (fd_cloexec (s\<lparr>fd_next := fd_next s + 1\<rparr>)) k \<noteq> None" for k
    using fd_invD(6) [OF assms, of k] that by simp
qed (use fd_invD [OF assms] fd_inv_at [OF assms, of 0] in \<open>auto simp: ref_at_def log_at_def split: option.splits\<close>)

lemma fd_inv_finstall:
  assumes "fd_inv s held" and "\<not> opened s r" and "r < fd_next s" and "finstall e r ops data flag kind s = (Ok x, s')"
  shows "fd_inv s' (if kernel_opening e s then held(r := held r + 1) else held)"
  using assms(1-3) by (cases rule: finstall_cases [where e = e and ops = ops and data = data and flag = flag and kind = kind])
    (use assms(4) in auto)

lemma fd_reach_inv: "fd_reach s held \<Longrightarrow> fd_inv s held"
proof (induction rule: fd_reach.induct)
  case (close s held p fd b s')
  then show ?case using closed_list_one [of s held p fd] by (metis option.inject prod.inject)
next
  case (exit s held p s')
  then show ?case using close_all_inv [of s held p] by (metis option.inject)
next
  case (exec s held p s')
  then show ?case using close_cloexec_inv [of s held p] by (metis option.inject)
next
  case (dup2 s held e oldfd newfd x s')
  show ?case using dup2.IH by (cases rule: dup2_cases [where e = e and oldfd = oldfd and newfd = newfd]) (use dup2 in auto)
next
  case (dup_min s held e oldfd mn x s')
  show ?case using dup_min.IH by (cases rule: dup_min_cases [where e = e and oldfd = oldfd and mn = mn]) (use dup_min in auto)
next
  case (hold s held r s')
  then show ?case using fd_inv_hold by blast
next
  case (release s held r s')
  then show ?case using release_inv [of s held r] by (metis option.inject)
next
  case (nonblocking s held r on)
  show ?case unfolding set_nonblocking_def by (rule fd_inv_with_description [OF nonblocking.IH]) simp
next
  case (offset s held r off)
  show ?case unfolding set_offset_def by (rule fd_inv_with_description [OF offset.IH]) simp
next
  case (device s held r dev)
  show ?case unfolding tag_device_def by (rule fd_inv_with_description [OF device.IH]) simp
next
  case boot
  show ?case by (rule fd_inv_boot)
next
  case (init s held ops s')
  show ?case by (rule fd_inv_init [OF init.IH init.hyps(2,3)])
next
  case (alloc s held r s')
  then have "s' = s\<lparr>fd_next := fd_next s + 1\<rparr>" by (auto simp: alloc_fd_def)
  then show ?case using fd_inv_alloc [OF alloc.IH] by simp
next
  case (kopen s held who)
  show ?case by (rule fd_inv_kopen [OF kopen.IH])
next
  case (finstall s held r e ops data flag kind x s')
  show ?case by (rule fd_inv_finstall [OF finstall.IH finstall.hyps(2-4)])
next
  case (range s held e a b flags res s')
  show ?case by (rule fd_inv_close_range(1) [OF range.IH range.hyps(2)])
next
  case (fork s held p c s')
  show ?case by (rule fork_inherit_copies(1) [OF fork.IH fork.hyps(2-4)])
next
  case (cloexec s held p fd on)
  show ?case by (rule fd_inv_set_cloexec [OF cloexec.IH cloexec.hyps(2)])
next
  case (install_held s held r e cl x s')
  show ?case by (rule fd_inv_install_held(1) [OF install_held.IH install_held.hyps(2,3)])
next
  case (vnode s held r vp)
  show ?case by (rule fd_inv_set_vnode [OF vnode.IH])
next
  case (revoke s held dead matches n s')
  show ?case by (rule fd_inv_revoke_where [OF revoke.IH revoke.hyps(2,3)])
qed

lemma bsum_count:
  "bwf m \<Longrightarrow> bsum (\<lambda>k v. of_bool (v = r)) m = int (card {k. bget m k = Some r})"
proof (induction m)
  case (Cons x m)
  obtain k v where x: "x = (k, v)" by (cases x)
  have fresh: "bget m k = None" using Cons.prems by (auto simp: x bwf_Cons bget_None_iff)
  have "{k'. bget (x # m) k' = Some r} = (if v = r then insert k {k'. bget m k' = Some r} else {k'. bget m k' = Some r})"
    using fresh by (auto simp: x)
  moreover have "finite {k'. bget m k' = Some r}"
    by (rule finite_subset [OF _ bm.finite_dom [of m]]) auto
  ultimately show ?case using Cons fresh by (simp add: x bwf_Cons)
qed simp

lemma slot_refs_card: "tab_ok (fd_tab s) \<Longrightarrow> slot_refs s r = int (card {k. slot s k = Some r})"
  by (simp add: slot_refs_def slot_def bsum_count tab_okD(1))

section \<open>Properties\<close>

definition ex_env :: fd_env where
  "ex_env = \<lparr> ev_pid = 7, ev_tgid = 7, ev_nofile = 64, ev_maxfiles = 100 \<rparr>"

definition ex_ops :: file_ops where
  "ex_ops = \<lparr> fo_table = Other_ops 1, fo_flags = 0 \<rparr>"

definition ex_fds :: fds where
  "ex_fds = snd (finstall ex_env 3 ex_ops 0 3 FModule (snd (alloc_fd fds_boot)))"

lemma ex_fds_run:
  "finstall ex_env 3 ex_ops 0 3 FModule (snd (alloc_fd fds_boot)) =
     (Ok 0, \<lparr> fd_next = 4, fd_tab = ft_insert (7, 0) 3 ft_new,
       fd_descs = [(3, \<lparr> d_ops = ex_ops, d_data = 0, d_flag = 3, d_offset = 0, d_kind = FModule, d_refs = 1, d_vnode = 0 \<rparr>)],
       fd_cloexec = [], fd_kopen = None, fd_log = [] \<rparr>)"
  by (simp add: finstall_def alloc_fd_def fds_boot_def ex_env_def kernel_opening_def Let_def install_def ft_lowest_free_def
      u32_max_def bupdate_def) (simp add: ft_new_def)

lemma ex_fds_reach: "fd_reach ex_fds (\<lambda>_. 0)"
proof -
  let ?s = "snd (alloc_fd fds_boot)"
  have "fd_reach ?s (\<lambda>_. 0)" by (rule fd_reach.alloc [OF fd_reach.boot, of 3]) (simp add: alloc_fd_def fds_boot_def)
  moreover have "\<not> opened ?s 3" "3 < fd_next ?s" "\<not> kernel_opening ex_env ?s"
    by (simp_all add: opened_def alloc_fd_def fds_boot_def closes_def kernel_opening_def)
  moreover have "finstall ex_env 3 ex_ops 0 3 FModule ?s = (Ok 0, ex_fds)"
    by (simp add: ex_fds_run ex_fds_def)
  ultimately show ?thesis using fd_reach.finstall by metis
qed

lemma ex_fds_slot: "slot ex_fds k = (if k = (7, 0) then Some 3 else None)"
  by (simp add: ex_fds_def ex_fds_run slot_def) (simp add: ft_new_def)

text \<open>
  C3. Reference counts are exact in every reachable state: each slot names a description; a
  description's count is the number of slots that name it, in every process, plus the references
  held elsewhere, and is never zero; the bitmaps hold exactly the numbers in use; and the close
  operation of a file runs at most once, never while a slot or a message can still reach the file.
\<close>

theorem fd_refs_exact:
  assumes "fd_reach s held"
  shows "(\<forall>k r. slot s k = Some r \<longrightarrow> bget (fd_descs s) r \<noteq> None)
    \<and> (\<forall>r d. bget (fd_descs s) r = Some d \<longrightarrow> d_refs d = card {k. slot s k = Some r} + held r \<and> 0 < d_refs d)
    \<and> (\<forall>p b. bget (ft_used (fd_tab s)) p = Some b \<longrightarrow> bm_set b = {fd. slot s (p, fd) \<noteq> None})
    \<and> (\<forall>r. closes s r \<le> 1 \<and> (\<forall>d. closes s r = 1 \<longrightarrow> bget (fd_descs s) r = Some d \<longrightarrow> fo_table (d_ops d) = Dead_ops))"
proof -
  have inv: "fd_inv s held" using assms by (rule fd_reach_inv)
  note i = fd_invD [OF inv]
  have a: "bget (fd_descs s) r \<noteq> None" if "slot s k = Some r" for k r
    using inv that by (rule slot_desc) simp
  have b: "d_refs d = card {k. slot s k = Some r} + held r \<and> 0 < d_refs d" if "bget (fd_descs s) r = Some d" for r d
    using refs_okD(2) [OF i(4) that] by (simp add: slot_refs_card [OF i(1)])
  have c: "bm_set b = {fd. slot s (p, fd) \<noteq> None}" if "bget (ft_used (fd_tab s)) p = Some b" for p b
    using tab_okD(4) [OF i(1) that] by (simp add: numbers_def slot_def)
  have d: "closes s r \<le> 1 \<and> (\<forall>d. closes s r = 1 \<longrightarrow> bget (fd_descs s) r = Some d \<longrightarrow> fo_table (d_ops d) = Dead_ops)" for r
    using log_okD [OF i(5), of r] by (cases "closes s r = 0") auto
  show ?thesis using a b c d by (intro conjI) blast+
qed

theorem fd_refs_exact_witness:
  "fd_reach ex_fds (\<lambda>_. 0) \<and> slot ex_fds (7, 0) = Some 3 \<and> bget (fd_descs ex_fds) 3 \<noteq> None"
  using fd_refs_exact [OF ex_fds_reach] ex_fds_reach ex_fds_slot by (metis (full_types))

text \<open>
  C29. \<open>dup\<close> and \<open>F_DUPFD\<close>, every outcome: \<open>EBADF\<close> exactly when the descriptor is not open; otherwise
  \<open>EINVAL\<close> exactly when the bound is at or past the limit; otherwise \<open>EMFILE\<close> exactly when every number
  from the bound to the limit is taken. Otherwise, unless the reference count is at its largest value, the
  least free number from the bound on is below the limit and becomes a name of the same description,
  whose count grows by one. No other slot or count changes, and an error changes nothing.
\<close>

theorem dup_min_lowest:
  assumes "fd_reach s held"
  shows "let old = slot s (ev_tgid e, oldfd); free = (\<lambda>x. mn \<le> x \<and> slot s (ev_tgid e, x) = None); n = (LEAST x. free x) in
    if old = None then dup_min e oldfd mn s = (Err EBADF, s)
    else if ev_nofile e \<le> mn then dup_min e oldfd mn s = (Err EINVAL, s)
    else if \<forall>x. free x \<longrightarrow> ev_nofile e \<le> x then dup_min e oldfd mn s = (Err EMFILE, s)
    else if refs (the old) s = u32_max then dup_min e oldfd mn s = (Panic, s)
    else \<exists>s'. dup_min e oldfd mn s = (Ok n, s') \<and> n < ev_nofile e
      \<and> (\<forall>k. slot s' k = (if k = (ev_tgid e, n) then old else slot s k))
      \<and> (\<forall>r. refs r s' = (if old = Some r then refs r s + 1 else refs r s))"
proof -
  have inv: "fd_inv s held" using assms by (rule fd_reach_inv)
  let ?L = "ft_lowest_free (ev_tgid e) mn (fd_tab s)" and ?free = "\<lambda>x. mn \<le> x \<and> slot s (ev_tgid e, x) = None"
  have lf: "is_lowest_free (numbers (fd_tab s) (ev_tgid e)) mn ?L"
    by (rule ft_lowest_free_spec) (rule fd_invD [OF inv])
  have least: "(LEAST x. ?free x) = ?L"
    using is_lowest_free_Least [OF lf] by (simp add: numbers_def slot_def)
  have "?free ?L" using lf by (simp add: is_lowest_free_def numbers_def slot_def)
  moreover have "?L \<le> x" if "?free x" for x
    using lf that unfolding is_lowest_free_def numbers_def slot_def by (metis (mono_tags, lifting) mem_Collect_eq not_le)
  ultimately have full: "(\<forall>x. ?free x \<longrightarrow> ev_nofile e \<le> x) \<longleftrightarrow> ev_nofile e \<le> ?L" by (meson le_trans)
  show ?thesis
  proof (cases "slot s (ev_tgid e, oldfd)")
    case (Some r)
    obtain d where d: "bget (fd_descs s) r = Some d" using slot_desc [OF inv Some] by blast
    show ?thesis
    proof (cases "install (ev_tgid e) ?L r s")
      case None
      then have "refs r s = u32_max" using install_None_iff [OF d] by blast
      then show ?thesis unfolding Let_def least full using Some None by (simp add: dup_min_def)
    next
      case installed: (Some s')
      then have "refs r s \<noteq> u32_max" using install_None_iff [OF d] by fastforce
      then show ?thesis unfolding Let_def least full using Some installed install_effect [OF installed] by (simp add: dup_min_def)
    qed
  qed (simp add: dup_min_def Let_def)
qed

theorem dup_min_lowest_witness:
  "fst (dup_min ex_env 0 0 ex_fds) = Ok 1 \<and> slot (snd (dup_min ex_env 0 0 ex_fds)) (7, 1) = Some 3
     \<and> refs 3 (snd (dup_min ex_env 0 0 ex_fds)) = 2 \<and> dup_min ex_env 0 64 ex_fds = (Err EINVAL, ex_fds)"
proof -
  have l: "(LEAST x. 0 \<le> x \<and> slot ex_fds (7, x) = None) = 1"
    by (rule Least_equality) (auto simp: ex_fds_slot split: if_splits)
  have free: "0 \<le> (1 :: nat) \<and> slot ex_fds (7, 1) = None" "slot ex_fds (7, 0) = Some 3" by (simp_all add: ex_fds_slot)
  have e: "ev_tgid ex_env = 7" "ev_nofile ex_env = 64" by (simp_all add: ex_env_def)
  have r: "refs 3 ex_fds = 1" by (simp add: ex_fds_def ex_fds_run refs_def)
  have some: "\<not> (\<forall>x. 0 \<le> x \<and> slot ex_fds (7, x) = None \<longrightarrow> 64 \<le> x)" using free(1) by (meson numeral_le_one_iff semiring_norm(69))
  have "\<exists>s'. dup_min ex_env 0 0 ex_fds = (Ok 1, s') \<and> slot s' (7, 1) = Some 3 \<and> refs 3 s' = 2"
    using dup_min_lowest [OF ex_fds_reach, where e = ex_env and oldfd = 0 and mn = 0, unfolded Let_def e l]
    unfolding if_not_P [OF some] free(2) by (auto simp: r u32_max_def)
  moreover have "dup_min ex_env 0 64 ex_fds = (Err EINVAL, ex_fds)"
    using dup_min_lowest [OF ex_fds_reach, where e = ex_env and oldfd = 0 and mn = 64, unfolded Let_def e] free(2) by simp
  ultimately show ?thesis by auto
qed

text \<open>
  C18. A fork undone: when a process with no descriptors inherits another's and then exits, the
  table, every description with its count, and the close-on-exec marks are what they were.
\<close>

theorem fork_exit_roundtrip:
  assumes "fd_reach s held" and "p \<noteq> c" and "numbers (fd_tab s) c = {}" and "fork_inherit p c s = Some s1"
  shows "\<exists>s2. close_all c s1 = Some s2 \<and> fd_tab s2 = fd_tab s \<and> fd_descs s2 = fd_descs s \<and> fd_cloexec s2 = fd_cloexec s"
proof -
  have inv: "fd_inv s held" using assms(1) by (rule fd_reach_inv)
  note f = fork_inherit_copies [OF inv assms(2-4)]
  obtain s2 where c: "close_all c s1 = Some s2" "fd_inv s2 held" "closed_list c (numbers (fd_tab s1) c) s1 s2"
    using f(1) by (rule close_all_inv)
  note i = fd_invD [OF inv] and i2 = fd_invD [OF c(2)]
  have none: "slot s (c, fd) = None" for fd using assms(3) by (auto simp: numbers_def slot_def)
  have sl: "slot s2 k = slot s k" for k
    using c(3) f(2) none by (cases k) (auto simp: closed_list_def copied_def numbers_def slot_def)
  have map_eq: "ft_map (fd_tab s2) = ft_map (fd_tab s)"
    using sl tab_okD(1) [OF i(1)] tab_okD(1) [OF i2(1)] by (intro bmap_eqI) (simp_all add: slot_def)
  have used: "bget (ft_used (fd_tab s2)) q = bget (ft_used (fd_tab s)) q" for q
  proof (cases "q = c")
    case True
    have "numbers (fd_tab s2) c = {}" using assms(3) by (simp add: numbers_def map_eq)
    then have "bget (ft_used (fd_tab s2)) c = None" "bget (ft_used (fd_tab s)) c = None"
      using tab_okD(4) [OF i2(1), of c] tab_okD(4) [OF i(1), of c] assms(3) by (metis option.exhaust)+
    then show ?thesis using True by simp
  qed (use c(3) f(2) in \<open>simp add: closed_list_def copied_def\<close>)
  have used_eq: "ft_used (fd_tab s2) = ft_used (fd_tab s)"
    using used tab_okD(2) [OF i(1)] tab_okD(2) [OF i2(1)] by (intro bmap_eqI)
  have refs_eq: "slot_refs s2 r = slot_refs s r" for r by (simp add: slot_refs_def map_eq)
  have desc: "bget (fd_descs s2) r = bget (fd_descs s) r" for r
  proof (cases "bget (fd_descs s2) r")
    case None
    then have "bget (fd_descs s) r = None"
      using refs_okD(1) [OF i2(4), of r] refs_okD(2) [OF i(4), of r] refs_eq by (cases "bget (fd_descs s) r") auto
    then show ?thesis using None by simp
  next
    case (Some d2)
    then have "map_option (d_refs_update (\<lambda>_. 0)) (bget (fd_descs s) r) = Some (d2\<lparr>d_refs := 0\<rparr>)"
      using c(3) f(2) unfolding closed_list_def copied_def by (metis option.distinct(1) option.simps(9))
    then obtain d where d: "bget (fd_descs s) r = Some d" "d\<lparr>d_refs := 0\<rparr> = d2\<lparr>d_refs := 0\<rparr>" by auto
    have "d_refs d = d_refs d2"
      using refs_okD(2) [OF i2(4) Some] refs_okD(2) [OF i(4) d(1)] refs_eq [of r] by linarith
    then have "d = d2" using d(2) by (cases d; cases d2) simp
    then show ?thesis using Some d(1) by simp
  qed
  have cl: "bget (fd_cloexec s2) k = bget (fd_cloexec s) k" for k
  proof (cases "fst k = c")
    case True
    then have "slot s k = None" using none [of "snd k"] by (cases k) simp
    then have "bget (fd_cloexec s2) k = None" "bget (fd_cloexec s) k = None" using i(6) [of k] i2(6) [of k] sl [of k] by metis+
    then show ?thesis by simp
  qed (use c(3) f(2) in \<open>cases k, simp add: closed_list_def copied_def\<close>)
  have "fd_descs s2 = fd_descs s" using desc i(2) i2(2) by (intro bmap_eqI)
  moreover have "fd_cloexec s2 = fd_cloexec s" using cl i(3) i2(3) by (intro bmap_eqI)
  ultimately show ?thesis using c(1) map_eq used_eq by (cases "fd_tab s2"; cases "fd_tab s") auto
qed

theorem fork_exit_roundtrip_witness:
  "\<exists>s1 s2. fork_inherit 7 8 ex_fds = Some s1 \<and> slot s1 (8, 0) = Some 3 \<and> close_all 8 s1 = Some s2
     \<and> fd_descs s2 = fd_descs ex_fds"
proof -
  have sl: "slots_of 7 ex_fds = [(0, 3)]"
    by (simp add: slots_of_def ex_fds_def ex_fds_run ft_insert_def ft_new_def)
  have "install 8 0 3 ex_fds \<noteq> None" by (simp add: install_def ex_fds_def ex_fds_run u32_max_def)
  then obtain s1 where s1: "fork_inherit 7 8 ex_fds = Some s1"
    by (auto simp: fork_inherit_def sl fork_slot_def)
  have no: "numbers (fd_tab ex_fds) 8 = {}" by (auto simp: numbers_def ex_fds_slot [unfolded slot_def])
  have "copied 7 8 (numbers (fd_tab ex_fds) 7) ex_fds s1"
    by (rule fork_inherit_copies(2) [OF fd_reach_inv [OF ex_fds_reach] _ no s1]) simp
  then have "slot s1 (8, 0) = Some 3" by (simp add: copied_def numbers_def ex_fds_slot [unfolded slot_def] slot_def [of ex_fds])
  then show ?thesis using fork_exit_roundtrip [OF ex_fds_reach _ no s1] s1 by auto
qed

text \<open>A creator of several files (a pipe makes two): their handles installed one after the other.\<close>

fun finstall_all :: "fd_env \<Rightarrow> file_ops \<Rightarrow> u32 \<Rightarrow> fd_kind \<Rightarrow> nat list \<Rightarrow> fds \<Rightarrow> nat kres list \<times> fds" where
  "finstall_all e ops flag kind [] s = ([], s)"
| "finstall_all e ops flag kind (r # rs) s =
     (let (x, s') = finstall e r ops 0 flag kind s; (xs, s'') = finstall_all e ops flag kind rs s' in (x # xs, s''))"

lemma lowest_below:
  assumes "tab_ok t" and "0 < ft_free_below p limit t"
  shows "ft_lowest_free p 0 t < limit"
proof (rule ccontr)
  assume "\<not> ft_lowest_free p 0 t < limit"
  then have "{..<limit} \<subseteq> numbers t p" using ft_lowest_free_spec [OF assms(1), of p 0] by (auto simp: is_lowest_free_def)
  then have "numbers t p \<inter> {..<limit} = {..<limit}" by blast
  then show False using assms by (simp add: ft_free_below_spec)
qed

lemma free_below_insert:
  assumes "tab_ok t" and "fd \<notin> numbers t p" and "fd < limit"
  shows "ft_free_below p limit (ft_insert (p, fd) r t) = ft_free_below p limit t - 1"
proof -
  have "insert fd (numbers t p) \<inter> {..<limit} = insert fd (numbers t p \<inter> {..<limit})" using assms(3) by auto
  then show ?thesis
    using assms by (simp add: ft_free_below_spec tab_ok_insert numbers_insert)
qed

lemma finstall_all_room:
  assumes "fd_inv s held" and "\<not> kernel_opening e s" and "distinct rs"
    and "\<And>r. r \<in> set rs \<Longrightarrow> \<not> opened s r \<and> r < fd_next s"
    and "length (fd_descs s) + length rs \<le> ev_maxfiles e" and "length rs \<le> ft_free_below (ev_tgid e) (ev_nofile e) (fd_tab s)"
  shows "\<exists>l s'. finstall_all e ops flag kind rs s = (map Ok l, s') \<and> length l = length rs \<and> distinct l
    \<and> (\<forall>fd \<in> set l. fd < ev_nofile e \<and> slot s (ev_tgid e, fd) = None)
    \<and> (\<forall>i < length rs. slot s' (ev_tgid e, l ! i) = Some (rs ! i))
    \<and> (\<forall>k. snd k \<notin> set l \<longrightarrow> slot s' k = slot s k)"
  using assms
proof (induction rs arbitrary: s)
  case (Cons r rs)
  note i = fd_invD [OF Cons.prems(1)]
  have r: "\<not> opened s r" "r < fd_next s" using Cons.prems(4) [of r] by simp_all
  define fd where "fd = ft_lowest_free (ev_tgid e) 0 (fd_tab s)"
  have lim: "fd < ev_nofile e" unfolding fd_def by (rule lowest_below [OF i(1)]) (use Cons.prems(6) in simp)
  have new: "slot s (ev_tgid e, fd) = None" using lowest_free_fresh [OF i(1)] by (simp add: fd_def slot_def)
  obtain d s1 where s1: "finstall e r ops 0 flag kind s = (Ok fd, s1)" "fd_inv s1 held"
      "s1 = s\<lparr>fd_descs := binsert r d (fd_descs s), fd_tab := ft_insert (ev_tgid e, fd) r (fd_tab s)\<rparr>"
    using Cons.prems(1) r
    by (cases rule: finstall_cases [where e = e and ops = ops and data = 0 and flag = flag and kind = kind])
      (use Cons.prems(2,5) fd_def in auto)
  have slot1: "slot s1 k = (if k = (ev_tgid e, fd) then Some r else slot s k)" for k by (rule slot_insert) (simp add: s1(3))
  have "\<exists>l s'. finstall_all e ops flag kind rs s1 = (map Ok l, s') \<and> length l = length rs \<and> distinct l
      \<and> (\<forall>fd \<in> set l. fd < ev_nofile e \<and> slot s1 (ev_tgid e, fd) = None)
      \<and> (\<forall>i < length rs. slot s' (ev_tgid e, l ! i) = Some (rs ! i)) \<and> (\<forall>k. snd k \<notin> set l \<longrightarrow> slot s' k = slot s1 k)"
  proof (rule Cons.IH [OF s1(2)])
    show "\<not> kernel_opening e s1" using Cons.prems(2) by (simp add: s1(3) kernel_opening_def)
    show "\<not> opened s1 r' \<and> r' < fd_next s1" if "r' \<in> set rs" for r'
      using Cons.prems(3) Cons.prems(4) [of r'] that by (auto simp: s1(3) opened_def)
    have "length (binsert r d (fd_descs s)) = Suc (length (fd_descs s))"
      using r(1) i(2) by (intro length_binsert_fresh) (simp_all add: opened_def)
    then show "length (fd_descs s1) + length rs \<le> ev_maxfiles e" using Cons.prems(5) by (simp add: s1(3))
    have "fd \<notin> numbers (fd_tab s) (ev_tgid e)" using new by (simp add: numbers_def slot_def)
    then show "length rs \<le> ft_free_below (ev_tgid e) (ev_nofile e) (fd_tab s1)"
      using free_below_insert [OF i(1) _ lim, of "ev_tgid e" r] Cons.prems(6) by (simp add: s1(3))
  qed (use Cons.prems(3) in simp)
  then obtain l s' where l: "finstall_all e ops flag kind rs s1 = (map Ok l, s')" "length l = length rs" "distinct l"
      "\<forall>fd \<in> set l. fd < ev_nofile e \<and> slot s1 (ev_tgid e, fd) = None"
      "\<forall>i < length rs. slot s' (ev_tgid e, l ! i) = Some (rs ! i)" "\<forall>k. snd k \<notin> set l \<longrightarrow> slot s' k = slot s1 k" by blast
  have fdl: "fd \<notin> set l" using l(4) slot1 by auto
  have "slot s' (ev_tgid e, (fd # l) ! i) = Some ((r # rs) ! i)" if "i < length (r # rs)" for i
    using that l(5,6) fdl slot1 by (cases i) auto
  moreover have "slot s' k = slot s k" if "snd k \<notin> set (fd # l)" for k using l(6) slot1 [of k] that by (cases k) auto
  ultimately show ?case
    using l fdl lim new slot1 s1(1) by (intro exI [of _ "fd # l"] exI [of _ s']) (auto split: if_splits)
qed (auto intro: exI [of _ "[]"])

text \<open>
  C19. Room checked is room enough: after \<open>check_room\<close> has allowed \<open>n\<close> files, installing
  \<open>n\<close> new ones in a row never fails, and gives \<open>n\<close> different descriptors that were free and are below
  the process's limit, each naming its file.
\<close>

theorem check_room_suffices:
  assumes "fd_reach s held" and "\<not> kernel_opening e s" and "distinct rs"
    and "\<And>r. r \<in> set rs \<Longrightarrow> \<not> opened s r \<and> r < fd_next s" and "check_room e (length rs) s = Ok ()"
  shows "\<exists>l s'. finstall_all e ops flag kind rs s = (map Ok l, s') \<and> length l = length rs \<and> distinct l
    \<and> (\<forall>fd \<in> set l. fd < ev_nofile e \<and> slot s (ev_tgid e, fd) = None)
    \<and> (\<forall>i < length rs. slot s' (ev_tgid e, l ! i) = Some (rs ! i))
    \<and> (\<forall>k. snd k \<notin> set l \<longrightarrow> slot s' k = slot s k)"
  using assms(2,5) by (intro finstall_all_room [OF fd_reach_inv [OF assms(1)] assms(2-4)])
    (auto simp: check_room_def split: if_splits)

theorem check_room_suffices_witness:
  "\<exists>a b s'. finstall_all ex_env ex_ops 3 (FPipe 1) [3, 4] (snd (alloc_fd (snd (alloc_fd fds_boot)))) = ([Ok a, Ok b], s') \<and> a \<noteq> b
     \<and> a < 64 \<and> b < 64 \<and> slot s' (7, a) = Some 3 \<and> slot s' (7, b) = Some 4"
proof -
  let ?s = "snd (alloc_fd (snd (alloc_fd fds_boot)))"
  have reach: "fd_reach ?s (\<lambda>_. 0)"
    by (rule fd_reach.alloc [of "snd (alloc_fd fds_boot)" _ 4], rule fd_reach.alloc [OF fd_reach.boot, of 3])
      (simp_all add: alloc_fd_def fds_boot_def)
  have k: "\<not> kernel_opening ex_env ?s" "check_room ex_env (length [3, 4]) ?s = Ok ()"
    by (simp_all add: kernel_opening_def check_room_def alloc_fd_def fds_boot_def ex_env_def ft_free_below_def ft_new_def)
  have "\<not> opened ?s r \<and> r < fd_next ?s" if "r \<in> set [3, 4]" for r
    using that by (auto simp: opened_def alloc_fd_def fds_boot_def closes_def)
  from check_room_suffices [OF reach k(1) _ this k(2), of ex_ops 3 "FPipe 1"]
  obtain l s' where l: "finstall_all ex_env ex_ops 3 (FPipe 1) [3, 4] ?s = (map Ok l, s')" "length l = 2" "distinct l"
      "\<forall>fd \<in> set l. fd < ev_nofile ex_env" "\<forall>i < 2. slot s' (ev_tgid ex_env, l ! i) = Some ([3, 4] ! i)" by auto
  then obtain a b where ab: "l = [a, b]" by (metis length_0_conv length_Suc_conv numeral_2_eq_2)
  have "slot s' (7, a) = Some 3" "slot s' (7, b) = Some 4"
    using l(5) [rule_format, of 0] l(5) [rule_format, of 1] by (simp_all add: ab ex_env_def)
  then show ?thesis using l(1,3,4) by (simp add: ab ex_env_def)
qed

end
