(* ===== verification/Pipe.thy ===== *)
theory Pipe
  imports Fd_Table Wakeup
begin

text \<open>
  Pipes and FIFOs (\<open>sys/fs/pipe.rs\<close>): bounded byte buffers between processes, with blocking
  reads and writes, end of file and \<open>EPIPE\<close>, \<open>pipe(2)\<close> itself, poll readiness, and named
  pipes whose ends are counted and whose opens wait for each other.

  One turn of a blocking loop is one \<open>pass\<close>. The transfer and the number of bytes written so
  far live across passes, so a pass takes and returns them. The ring buffer's contents are a list;
  where its two contiguous runs meet is an argument \<open>meet\<close>, and nothing proved depends on it.
\<close>

section \<open>Buffers\<close>

record pipe_buffer =
  pb_data :: "u8 list"
  pb_read_closed :: bool
  pb_write_closed :: bool

datatype pipe_end = ReadEnd | WriteEnd

record fifo =
  ff_pipe :: nat
  ff_readers :: nat
  ff_writers :: nat
  ff_reader_opens :: nat
  ff_writer_opens :: nat

record fifo_end =
  fe_key :: nat
  fe_read :: bool
  fe_write :: bool

record pipes =
  ps_next :: nat
  ps_pipes :: "(nat, pipe_buffer) bmap"
  ps_ends :: "(nat, nat \<times> pipe_end) bmap"
  ps_fifos :: "(nat, fifo) bmap"
  ps_fifo_ends :: "(nat, fifo_end) bmap"
  ps_opening :: "(pid, fifo_end) bmap"

definition pipe_capacity :: nat where "pipe_capacity = 65536"
definition pipe_buf :: nat where "pipe_buf = 4096"

definition new_pipe_buffer :: "pipes \<Rightarrow> nat \<times> pipes" where
  "new_pipe_buffer P =
     (ps_next P, P\<lparr>ps_next := ps_next P + 1,
        ps_pipes := binsert (ps_next P) \<lparr> pb_data = [], pb_read_closed = False, pb_write_closed = False \<rparr> (ps_pipes P)\<rparr>)"

definition wake_pipe_readers :: "nat \<Rightarrow> kcore \<Rightarrow> kcore" where
  "wake_pipe_readers pipe_id k = wake_pollers (wake_where (\<lambda>st. st = Blocked (WaitingForPipeData pipe_id)) k)"

definition wake_pipe_writers :: "nat \<Rightarrow> kcore \<Rightarrow> kcore" where
  "wake_pipe_writers pipe_id k = wake_pollers (wake_where (\<lambda>st. st = Blocked (WaitingForPipeSpace pipe_id)) k)"

definition set_data :: "nat \<Rightarrow> u8 list \<Rightarrow> pipes \<Rightarrow> pipes" where
  "set_data pipe_id bs P = P\<lparr>ps_pipes := bupdate pipe_id (\<lambda>p. p\<lparr>pb_data := bs\<rparr>) (ps_pipes P)\<rparr>"

section \<open>Reading\<close>

text \<open>
  The copy out of the buffer, run by run: what came of it and how many bytes left the buffer.
\<close>

definition read_runs :: "uio \<Rightarrow> umem \<Rightarrow> u8 list \<Rightarrow> nat \<Rightarrow> nat kres \<times> nat \<times> uio \<times> umem" where
  "read_runs u m data meet =
     (let n = min (u_resid u) (length data);
          front = take meet data; back_run = drop meet data;
          first = min n (length front);
          (r1, u1, m1, _) = uiomove_out u m (take first front)
      in case r1 of
           Ok mv \<Rightarrow>
             if mv = first \<and> first < n then
               (let (r2, u2, m2, _) = uiomove_out u1 m1 (take (n - first) back_run) in
                case r2 of Ok mv2 \<Rightarrow> (Ok (mv + mv2), mv + mv2, u2, m2) | Err e \<Rightarrow> (Err e, mv, u2, m2) | Panic \<Rightarrow> (Panic, mv, u2, m2))
             else (Ok mv, mv, u1, m1)
         | Err e \<Rightarrow> (Err e, 0, u1, m1)
         | Panic \<Rightarrow> (Panic, 0, u1, m1))"

definition read_pass ::
  "nat \<Rightarrow> nat \<Rightarrow> nat \<Rightarrow> uio \<Rightarrow> umem \<Rightarrow> fds \<Rightarrow> pipes \<Rightarrow> kcore \<Rightarrow> nat pass \<times> uio \<times> umem \<times> pipes \<times> kcore" where
  "read_pass pipe_id real_fd meet u m F P k =
     (case bget (ps_pipes P) pipe_id of
        None \<Rightarrow> (Return (Ok 0), u, m, P, k)
      | Some p \<Rightarrow>
          if pb_data p \<noteq> [] then
            (let (r, moved, u', m') = read_runs u m (pb_data p) meet in
             (Return r, u', m', set_data pipe_id (drop moved (pb_data p)) P,
              if 0 < moved then wake_pipe_writers pipe_id k else k))
          else if pb_write_closed p then (Return (Ok 0), u, m, P, k)
          else if is_nonblocking real_fd F then (Return (Err EAGAIN), u, m, P, k)
          else (Sleep, u, m, P, block_current (WaitingForPipeData pipe_id) k))"

section \<open>Writing\<close>

text \<open>
  The copy into the buffer, at most 512 bytes at a time through a buffer on the kernel stack:
  \<^const>\<open>None\<close> would be a loop that never ends. The bytes accepted so far are collected.
\<close>

partial_function (option) write_chunks ::
  "uio \<Rightarrow> umem \<Rightarrow> u8 list \<Rightarrow> nat \<Rightarrow> u8 list \<Rightarrow> (unit kres \<times> uio \<times> u8 list) option" where
  "write_chunks u m chunk left acc =
     (if left = 0 then Some (Ok (), u, acc)
      else let k = min left (length chunk) in
        case uiomove_in u m (take k chunk) of
          (Ok mv, u', _, buf) \<Rightarrow>
            if left < mv then Some (Panic, u', acc @ take mv buf)
            else write_chunks u' m (buf @ drop k chunk) (left - mv) (acc @ take mv buf)
        | (Err e, u', _, _) \<Rightarrow> Some (Err e, u', acc)
        | (Panic, u', _, _) \<Rightarrow> Some (Panic, u', acc))"

definition chunk_size :: nat where "chunk_size = 512"

text \<open>One turn of the loop: it returns, goes round again at once, or sleeps.\<close>

datatype turn = Done "nat kres" | Again | Block

definition short_or :: "nat \<Rightarrow> errno \<Rightarrow> nat kres" where
  "short_or written e = (if 0 < written then Ok written else Err e)"

definition write_turn ::
  "nat \<Rightarrow> nat \<Rightarrow> uio \<Rightarrow> umem \<Rightarrow> nat \<Rightarrow> fds \<Rightarrow> pipes \<Rightarrow> kcore \<Rightarrow> (turn \<times> nat \<times> uio \<times> pipes \<times> kcore) option" where
  "write_turn pipe_id real_fd u m written F P k =
     (case bget (ps_pipes P) pipe_id of
        None \<Rightarrow> Some (Done (short_or written EPIPE), written, u, P, k)
      | Some p \<Rightarrow>
          if pb_read_closed p \<or> pb_write_closed p then Some (Done (short_or written EPIPE), written, u, P, k)
          else let available = pipe_capacity - length (pb_data p) in
            if 0 < available then
              map_option (\<lambda>(r, u', acc).
                  let written' = written + length acc in
                  (case r of
                     Ok _ \<Rightarrow> if u_resid u' = 0 then Done (Ok written') else Again
                   | Err e \<Rightarrow> Done (Err e)
                   | Panic \<Rightarrow> Done Panic,
                   written', u', set_data pipe_id (pb_data p @ acc) P, wake_pipe_readers pipe_id k))
                (write_chunks u m (replicate chunk_size 0) (min (u_resid u) available) [])
            else if is_nonblocking real_fd F then Some (Done (short_or written EAGAIN), written, u, P, k)
            else Some (Block, written, u, P, block_current (WaitingForPipeSpace pipe_id) k))"

text \<open>Turns until the call returns or sleeps.\<close>

partial_function (option) write_pass ::
  "nat \<Rightarrow> nat \<Rightarrow> uio \<Rightarrow> umem \<Rightarrow> nat \<Rightarrow> fds \<Rightarrow> pipes \<Rightarrow> kcore \<Rightarrow> (nat pass \<times> nat \<times> uio \<times> pipes \<times> kcore) option" where
  "write_pass pipe_id real_fd u m written F P k =
     (case write_turn pipe_id real_fd u m written F P k of
        None \<Rightarrow> None
      | Some (Done r, w, u', P', k') \<Rightarrow> Some (Return r, w, u', P', k')
      | Some (Block, w, u', P', k') \<Rightarrow> Some (Sleep, w, u', P', k')
      | Some (Again, w, u', P', k') \<Rightarrow> write_pass pipe_id real_fd u' m w F P' k')"

section \<open>Closing\<close>

definition close_direction :: "nat \<Rightarrow> pipe_end \<Rightarrow> pipes \<Rightarrow> kcore \<Rightarrow> pipes \<times> kcore" where
  "close_direction pipe_id dir P k =
     (case bget (ps_pipes P) pipe_id of
        None \<Rightarrow> (P, k)
      | Some p \<Rightarrow>
          let p' = (case dir of ReadEnd \<Rightarrow> p\<lparr>pb_read_closed := True\<rparr> | WriteEnd \<Rightarrow> p\<lparr>pb_write_closed := True\<rparr>);
              P' = P\<lparr>ps_pipes := (if pb_read_closed p' \<and> pb_write_closed p' then bremove pipe_id (ps_pipes P)
                                  else binsert pipe_id p' (ps_pipes P))\<rparr>
          in (P', case dir of WriteEnd \<Rightarrow> wake_pipe_readers pipe_id k | ReadEnd \<Rightarrow> wake_pipe_writers pipe_id k))"

definition pipe_close :: "nat \<Rightarrow> pipes \<Rightarrow> kcore \<Rightarrow> unit kres \<times> pipes \<times> kcore" where
  "pipe_close real_fd P k =
     (case bget (ps_ends P) real_fd of
        None \<Rightarrow> (Err EBADF, P, k)
      | Some (pipe_id, dir) \<Rightarrow>
          let (P', k') = close_direction pipe_id dir (P\<lparr>ps_ends := bremove real_fd (ps_ends P)\<rparr>) k in (Ok (), P', k'))"

definition pipe_read ::
  "nat \<Rightarrow> nat \<Rightarrow> uio \<Rightarrow> umem \<Rightarrow> fds \<Rightarrow> pipes \<Rightarrow> kcore \<Rightarrow> nat pass \<times> uio \<times> umem \<times> pipes \<times> kcore" where
  "pipe_read real_fd meet u m F P k =
     (case bget (ps_ends P) real_fd of
        None \<Rightarrow> (Return (Err EBADF), u, m, P, k)
      | Some (pipe_id, dir) \<Rightarrow> if dir = ReadEnd then read_pass pipe_id real_fd meet u m F P k else (Return Panic, u, m, P, k))"

definition pipe_write ::
  "nat \<Rightarrow> uio \<Rightarrow> umem \<Rightarrow> nat \<Rightarrow> fds \<Rightarrow> pipes \<Rightarrow> kcore \<Rightarrow> (nat pass \<times> nat \<times> uio \<times> pipes \<times> kcore) option" where
  "pipe_write real_fd u m written F P k =
     (case bget (ps_ends P) real_fd of
        None \<Rightarrow> Some (Return (Err EBADF), written, u, P, k)
      | Some (pipe_id, dir) \<Rightarrow>
          if dir = WriteEnd then write_pass pipe_id real_fd u m written F P k else Some (Return Panic, written, u, P, k))"

section \<open>Making a pipe\<close>

definition pipe_read_ops :: file_ops where "pipe_read_ops = \<lparr> fo_table = Other_ops 1, fo_flags = 0 \<rparr>"
definition pipe_write_ops :: file_ops where "pipe_write_ops = \<lparr> fo_table = Other_ops 2, fo_flags = 0 \<rparr>"
definition fifo_ops :: file_ops where "fifo_ops = \<lparr> fo_table = Other_ops 3, fo_flags = 0 \<rparr>"

text \<open>
  The two installs' results are kept as they come: that neither is an error is a theorem.
\<close>

definition create_pipe :: "fd_env \<Rightarrow> fds \<Rightarrow> pipes \<Rightarrow> (nat kres \<times> nat kres) kres \<times> fds \<times> pipes" where
  "create_pipe e F P =
     (case check_room e 2 F of
        Err er \<Rightarrow> (Err er, F, P)
      | Panic \<Rightarrow> (Panic, F, P)
      | Ok _ \<Rightarrow>
          let (pipe_id, P1) = new_pipe_buffer P;
              (read_fd, F1) = alloc_fd F;
              (write_fd, F2) = alloc_fd F1;
              P2 = P1\<lparr>ps_ends := binsert write_fd (pipe_id, WriteEnd) (binsert read_fd (pipe_id, ReadEnd) (ps_ends P1))\<rparr>;
              (a, F3) = finstall e read_fd pipe_read_ops pipe_id fread (FPipe pipe_id) F2;
              (b, F4) = finstall e write_fd pipe_write_ops pipe_id fwrite (FPipe pipe_id) F3
          in (Ok (a, b), F4, P2))"

text \<open>The close operations of pipe ends, in the order the descriptor table called them.\<close>

fun run_closes :: "fd_event list \<Rightarrow> pipes \<Rightarrow> kcore \<Rightarrow> pipes \<times> kcore" where
  "run_closes [] P k = (P, k)"
| "run_closes (Closed r t # evs) P k =
     (if t \<in> {Other_ops 1, Other_ops 2} then (let (_, P', k') = pipe_close r P k in run_closes evs P' k')
      else run_closes evs P k)"
| "run_closes (_ # evs) P k = run_closes evs P k"

definition close_and_run :: "fd_env \<Rightarrow> nat \<Rightarrow> fds \<Rightarrow> pipes \<Rightarrow> kcore \<Rightarrow> fds \<times> pipes \<times> kcore" where
  "close_and_run e fd F P k =
     (let (_, F') = close_range e (word_of_nat fd) (word_of_nat fd) 0 F;
          (P', k') = run_closes (drop (length (fd_log F)) (fd_log F')) P k
      in (F', P', k'))"

definition copyout_fds ::
  "fd_env \<Rightarrow> nat \<Rightarrow> nat \<Rightarrow> nat \<Rightarrow> umem \<Rightarrow> fds \<Rightarrow> pipes \<Rightarrow> kcore \<Rightarrow> unit kres \<times> umem \<times> fds \<times> pipes \<times> kcore" where
  "copyout_fds e read_fd write_fd ptr m F P k =
     (case copyout m (le_sbytes 4 (int read_fd) @ le_sbytes 4 (int write_fd)) ptr of
        (Ok _, m') \<Rightarrow> (Ok (), m', F, P, k)
      | (er, m') \<Rightarrow>
          let (F1, P1, k1) = close_and_run e read_fd F P k; (F2, P2, k2) = close_and_run e write_fd F1 P1 k1
          in (er, m', F2, P2, k2))"

definition do_pipe ::
  "fd_env \<Rightarrow> nat \<Rightarrow> umem \<Rightarrow> fds \<Rightarrow> pipes \<Rightarrow> kcore \<Rightarrow> nat kres \<times> umem \<times> fds \<times> pipes \<times> kcore" where
  "do_pipe e ptr m F P k =
     (case create_pipe e F P of
        (Ok (Ok a, Ok b), F', P') \<Rightarrow>
          let (r, m', F'', P'', k') = copyout_fds e a b ptr m F' P' k
          in (bind_kres r (\<lambda>_. Ok 0), m', F'', P'', k')
      | (Err er, F', P') \<Rightarrow> (Err er, m, F', P', k)
      | (_, F', P') \<Rightarrow> (Panic, m, F', P', k))"

section \<open>Readiness\<close>

definition read_side :: "pipes \<Rightarrow> nat \<Rightarrow> bool \<times> bool" where
  "read_side P pipe_id =
     (case bget (ps_pipes P) pipe_id of
        Some p \<Rightarrow> (pb_data p \<noteq> [] \<or> pb_write_closed p, pb_write_closed p)
      | None \<Rightarrow> (True, True))"

text \<open>\<^const>\<open>None\<close>: the subtraction from the capacity underflows.\<close>

definition write_side :: "pipes \<Rightarrow> nat \<Rightarrow> (bool \<times> bool) option" where
  "write_side P pipe_id =
     (case bget (ps_pipes P) pipe_id of
        Some p \<Rightarrow>
          if pb_read_closed p \<or> pb_write_closed p then Some (False, True)
          else if pipe_capacity < length (pb_data p) then None
          else Some (pipe_buf \<le> pipe_capacity - length (pb_data p), False)
      | None \<Rightarrow> Some (False, True))"

definition queued :: "pipes \<Rightarrow> nat \<Rightarrow> nat" where
  "queued P real_fd =
     (let pipe_id = (case bget (ps_fifo_ends P) real_fd of
          Some e \<Rightarrow> map_option ff_pipe (bget (ps_fifos P) (fe_key e))
        | None \<Rightarrow> map_option fst (bget (ps_ends P) real_fd))
      in case Option.bind pipe_id (bget (ps_pipes P)) of None \<Rightarrow> 0 | Some p \<Rightarrow> length (pb_data p))"

definition not_ready :: readiness where
  "not_ready = \<lparr> rd_readable = False, rd_writable = False, rd_hangup = False, rd_error = False \<rparr>"

definition with_read :: "pipes \<Rightarrow> nat \<Rightarrow> readiness \<Rightarrow> readiness" where
  "with_read P pipe_id r = r\<lparr>rd_readable := fst (read_side P pipe_id), rd_hangup := snd (read_side P pipe_id)\<rparr>"

definition with_write :: "pipes \<Rightarrow> nat \<Rightarrow> readiness \<Rightarrow> readiness kres" where
  "with_write P pipe_id r =
     (case write_side P pipe_id of
        None \<Rightarrow> Panic
      | Some (w, er) \<Rightarrow> Ok (r\<lparr>rd_writable := w, rd_error := er\<rparr>))"

definition readiness_of :: "pipes \<Rightarrow> nat \<Rightarrow> readiness kres option" where
  "readiness_of P real_fd =
     (case bget (ps_fifo_ends P) real_fd of
        Some e \<Rightarrow>
          (case bget (ps_fifos P) (fe_key e) of
             None \<Rightarrow> None
           | Some f \<Rightarrow>
               let r = (if fe_read e then with_read P (ff_pipe f) not_ready else not_ready)
               in Some (if fe_write e then with_write P (ff_pipe f) r else Ok r))
      | None \<Rightarrow>
          (case bget (ps_ends P) real_fd of
             Some (pipe_id, ReadEnd) \<Rightarrow> Some (Ok (with_read P pipe_id not_ready))
           | Some (pipe_id, WriteEnd) \<Rightarrow> Some (with_write P pipe_id not_ready)
           | None \<Rightarrow> None))"

definition pipe_poll :: "pipes \<Rightarrow> nat \<Rightarrow> int kres" where
  "pipe_poll P real_fd =
     (case readiness_of P real_fd of
        None \<Rightarrow> Ok 3
      | Some r \<Rightarrow> bind_kres r (\<lambda>r. Ok (poll_bits r False)))"

definition pipe_ioctl :: "pipes \<Rightarrow> umem \<Rightarrow> nat \<Rightarrow> u64 \<Rightarrow> nat \<Rightarrow> unit kres \<times> umem" where
  "pipe_ioctl P m real_fd request argp =
     (if request \<noteq> 0x541B then (Err ENOTTY, m) else copyout m (le_sbytes 4 (int (queued P real_fd))) argp)"

section \<open>FIFOs\<close>

definition fifo_changed :: "fifo \<Rightarrow> pipes \<Rightarrow> kcore \<Rightarrow> pipes \<times> kcore" where
  "fifo_changed f P k =
     (P\<lparr>ps_pipes := bupdate (ff_pipe f) (\<lambda>p. p\<lparr>pb_read_closed := ff_readers f = 0, pb_write_closed := ff_writers f = 0\<rparr>) (ps_pipes P)\<rparr>,
      wake_pipe_writers (ff_pipe f) (wake_pipe_readers (ff_pipe f) k))"

text \<open>
  One end's counts are given back; \<^const>\<open>None\<close> is a count below zero. The counts are \<open>u32\<close>s, and
  each unit of them is an open file or a process waiting in \<open>open\<close>.
\<close>

definition fifo_release :: "fifo_end \<Rightarrow> pipes \<Rightarrow> kcore \<Rightarrow> (pipes \<times> kcore) option" where
  "fifo_release en P k =
     (case bget (ps_fifos P) (fe_key en) of
        None \<Rightarrow> Some (P, k)
      | Some f \<Rightarrow>
          if fe_read en \<and> ff_readers f = 0 \<or> fe_write en \<and> ff_writers f = 0 then None
          else
            let f' = f\<lparr>ff_readers := ff_readers f - of_bool (fe_read en), ff_writers := ff_writers f - of_bool (fe_write en)\<rparr>;
                (P', k') = fifo_changed f' (P\<lparr>ps_fifos := binsert (fe_key en) f' (ps_fifos P)\<rparr>) k
            in Some (if ff_readers f' = 0 \<and> ff_writers f' = 0
                     then P'\<lparr>ps_fifos := bremove (fe_key en) (ps_fifos P'), ps_pipes := bremove (ff_pipe f') (ps_pipes P')\<rparr>
                     else P', k'))"

text \<open>The end of an \<open>open\<close>: a file for the end, or the end given back if there is no room any more.\<close>

definition fifo_open_finish :: "fd_env \<Rightarrow> fifo_end \<Rightarrow> bool \<Rightarrow> fds \<Rightarrow> pipes \<Rightarrow> kcore \<Rightarrow> nat pass \<times> fds \<times> pipes \<times> kcore" where
  "fifo_open_finish e en nonblock F P k =
     (let (real_fd, F1) = alloc_fd F;
          P1 = P\<lparr>ps_fifo_ends := binsert real_fd en (ps_fifo_ends P)\<rparr>;
          flag = (if fe_read en then fread else 0) OR (if fe_write en then fwrite else 0) OR (if nonblock then fnonblock else 0)
      in case finstall e real_fd fifo_ops (fe_key en) flag (FFifo (fe_key en)) F1 of
           (Err er, F2) \<Rightarrow>
             (case fifo_release en (P1\<lparr>ps_fifo_ends := bremove real_fd (ps_fifo_ends P1)\<rparr>) k of
                None \<Rightarrow> (Return Panic, F2, P1, k)
              | Some (P2, k2) \<Rightarrow> (Return (Err er), F2, P2, k2))
         | (r, F2) \<Rightarrow> (Return r, F2, P1, k))"

text \<open>What an open that waits remembers: its end, and how many opens of each kind it has seen.\<close>

record fifo_wait =
  fw_end :: fifo_end
  fw_nonblock :: bool
  fw_for_writer :: bool
  fw_for_reader :: bool
  fw_seen_readers :: nat
  fw_seen_writers :: nat

definition fifo_wait_pass ::
  "fd_env \<Rightarrow> bool \<Rightarrow> fifo_wait \<Rightarrow> fds \<Rightarrow> pipes \<Rightarrow> kcore \<Rightarrow> nat pass \<times> fds \<times> pipes \<times> kcore" where
  "fifo_wait_pass e interrupted w F P k =
     (case bget (ps_fifos P) (fe_key (fw_end w)) of
        None \<Rightarrow> (Return Panic, F, P, k)
      | Some f \<Rightarrow>
          let P1 = P\<lparr>ps_opening := bremove (k_current k) (ps_opening P)\<rparr> in
          if fw_for_writer w \<and> ff_writer_opens f \<noteq> fw_seen_writers w \<or> fw_for_reader w \<and> ff_reader_opens f \<noteq> fw_seen_readers w
          then fifo_open_finish e (fw_end w) (fw_nonblock w) F P1 k
          else if interrupted then
            (case fifo_release (fw_end w) P1 k of
               None \<Rightarrow> (Return Panic, F, P1, k)
             | Some (P2, k2) \<Rightarrow> (Return (Err EINTR), F, P2, k2))
          else (Sleep, F, P, block_current (Polling u64_max) k))"

definition o_nonblock :: u64 where "o_nonblock = 0x800"

definition access_of :: "u64 \<Rightarrow> bool \<times> bool" where
  "access_of flags = (if flags AND 3 = 1 then (False, True) else if flags AND 3 = 2 then (True, True) else (True, False))"

text \<open>The counting part of \<open>open\<close>: the FIFO, made if there was none, with the new end counted.\<close>

definition fifo_entry :: "nat \<Rightarrow> pipes \<Rightarrow> fifo \<times> pipes" where
  "fifo_entry key P =
     (case bget (ps_fifos P) key of
        Some f \<Rightarrow> (f, P)
      | None \<Rightarrow>
          let (pipe_id, P') = new_pipe_buffer P in
          (\<lparr> ff_pipe = pipe_id, ff_readers = 0, ff_writers = 0, ff_reader_opens = 0, ff_writer_opens = 0 \<rparr>, P'))"

definition count_end :: "fifo_end \<Rightarrow> fifo \<Rightarrow> fifo" where
  "count_end en f =
     f\<lparr>ff_readers := ff_readers f + of_bool (fe_read en), ff_reader_opens := ff_reader_opens f + of_bool (fe_read en),
       ff_writers := ff_writers f + of_bool (fe_write en), ff_writer_opens := ff_writer_opens f + of_bool (fe_write en)\<rparr>"

definition fifo_count :: "fifo_end \<Rightarrow> pipes \<Rightarrow> kcore \<Rightarrow> fifo \<times> pipes \<times> kcore" where
  "fifo_count en P k =
     (let (f, P1) = fifo_entry (fe_key en) P; f' = count_end en f
      in (f', fifo_changed f' (P1\<lparr>ps_fifos := binsert (fe_key en) f' (ps_fifos P1)\<rparr>) k))"

definition fifo_refused :: "fd_env \<Rightarrow> fifo_end \<Rightarrow> bool \<Rightarrow> fds \<Rightarrow> pipes \<Rightarrow> nat kres option" where
  "fifo_refused e en nonblock F P =
     (case check_room e 1 F of
        Err er \<Rightarrow> Some (Err er)
      | Panic \<Rightarrow> Some Panic
      | Ok _ \<Rightarrow>
          if \<not> fe_read en \<and> nonblock \<and> (case bget (ps_fifos P) (fe_key en) of None \<Rightarrow> True | Some f \<Rightarrow> ff_readers f = 0)
          then Some (Err ENXIO) else None)"

definition fifo_open ::
  "fd_env \<Rightarrow> bool \<Rightarrow> nat \<Rightarrow> u64 \<Rightarrow> fds \<Rightarrow> pipes \<Rightarrow> kcore \<Rightarrow> (nat pass \<times> fds \<times> pipes \<times> kcore) \<times> fifo_wait option" where
  "fifo_open e interrupted key flags F P k =
     (let nonblock = (flags AND o_nonblock \<noteq> 0);
          en = \<lparr> fe_key = key, fe_read = fst (access_of flags), fe_write = snd (access_of flags) \<rparr> in
      case fifo_refused e en nonblock F P of
        Some r \<Rightarrow> ((Return r, F, P, k), None)
      | None \<Rightarrow>
          let (f, P2, k2) = fifo_count en P k;
              w = \<lparr> fw_end = en, fw_nonblock = nonblock,
                    fw_for_writer = (fe_read en \<and> \<not> fe_write en \<and> \<not> nonblock \<and> ff_writers f = 0),
                    fw_for_reader = (fe_write en \<and> \<not> fe_read en \<and> ff_readers f = 0),
                    fw_seen_readers = ff_reader_opens f, fw_seen_writers = ff_writer_opens f \<rparr>
          in if fw_for_writer w \<or> fw_for_reader w
             then (fifo_wait_pass e interrupted w F (P2\<lparr>ps_opening := binsert (k_current k2) en (ps_opening P2)\<rparr>) k2, Some w)
             else (fifo_open_finish e en nonblock F P2 k2, None))"

definition abandon_fifo_open :: "pid \<Rightarrow> pipes \<Rightarrow> kcore \<Rightarrow> (pipes \<times> kcore) option" where
  "abandon_fifo_open pid P k =
     (case bget (ps_opening P) pid of
        None \<Rightarrow> Some (P, k)
      | Some en \<Rightarrow> fifo_release en (P\<lparr>ps_opening := bremove pid (ps_opening P)\<rparr>) k)"

definition fifo_pipe :: "pipes \<Rightarrow> nat \<Rightarrow> nat option" where
  "fifo_pipe P real_fd =
     (case bget (ps_fifo_ends P) real_fd of
        None \<Rightarrow> None
      | Some en \<Rightarrow> map_option ff_pipe (bget (ps_fifos P) (fe_key en)))"

definition fifo_read ::
  "nat \<Rightarrow> nat \<Rightarrow> uio \<Rightarrow> umem \<Rightarrow> fds \<Rightarrow> pipes \<Rightarrow> kcore \<Rightarrow> nat pass \<times> uio \<times> umem \<times> pipes \<times> kcore" where
  "fifo_read real_fd meet u m F P k =
     (case fifo_pipe P real_fd of
        Some pipe_id \<Rightarrow> read_pass pipe_id real_fd meet u m F P k
      | None \<Rightarrow> (Return (Err EBADF), u, m, P, k))"

definition fifo_write ::
  "nat \<Rightarrow> uio \<Rightarrow> umem \<Rightarrow> nat \<Rightarrow> fds \<Rightarrow> pipes \<Rightarrow> kcore \<Rightarrow> (nat pass \<times> nat \<times> uio \<times> pipes \<times> kcore) option" where
  "fifo_write real_fd u m written F P k =
     (case fifo_pipe P real_fd of
        Some pipe_id \<Rightarrow> write_pass pipe_id real_fd u m written F P k
      | None \<Rightarrow> Some (Return (Err EBADF), written, u, P, k))"

definition fifo_close :: "nat \<Rightarrow> pipes \<Rightarrow> kcore \<Rightarrow> unit kres \<times> pipes \<times> kcore" where
  "fifo_close real_fd P k =
     (case bget (ps_fifo_ends P) real_fd of
        None \<Rightarrow> (Err EBADF, P, k)
      | Some en \<Rightarrow>
          (case fifo_release en (P\<lparr>ps_fifo_ends := bremove real_fd (ps_fifo_ends P)\<rparr>) k of
             None \<Rightarrow> (Panic, P, k)
           | Some (P', k') \<Rightarrow> (Ok (), P', k')))"

section \<open>Reads and writes\<close>

lemma set_data_get [simp]:
  "bget (ps_pipes (set_data i bs P)) j = (if j = i then map_option (\<lambda>p. p\<lparr>pb_data := bs\<rparr>) (bget (ps_pipes P) i) else bget (ps_pipes P) j)"
  by (simp add: set_data_def)

lemma set_data_frame [simp]:
  "ps_next (set_data i bs P) = ps_next P" "ps_ends (set_data i bs P) = ps_ends P" "ps_fifos (set_data i bs P) = ps_fifos P"
  "ps_fifo_ends (set_data i bs P) = ps_fifo_ends P" "ps_opening (set_data i bs P) = ps_opening P"
  by (simp_all add: set_data_def)

lemma moved_on_trans:
  assumes "moved_on u a v" and "moved_on v b w" 
  shows "moved_on u (a + b) w"
  using assms by (auto simp: moved_on_def add.assoc)

lemma read_runs_spec:
  assumes "uio_whole u" and "u_rw u = UioRead" and "u_seg u = UserSeg" and "distinct (uio_addrs u)"
  obtains r moved u' m' where "read_runs u m data meet = (r, moved, u', m')" and "moved \<le> length data"
    and "r = Err EFAULT \<or> r = Ok moved \<and> moved = min (u_resid u) (length data)
       \<and> map (m_bytes m') (take moved (uio_addrs u)) = take moved data \<and> moved_on u moved u'"
    and "r = Err EFAULT \<or> (\<forall>a. a \<notin> set (take moved (uio_addrs u)) \<longrightarrow> m_bytes m' a = m_bytes m a)"
proof -
  define n where "n = min (u_resid u) (length data)"
  define first where "first = min n (length (take meet data))"
  have whole: "u_resid u = length (uio_addrs u)" using assms(1) by (simp add: uio_whole_def)
  have f: "first \<le> n" "n \<le> length data" "n \<le> length (uio_addrs u)" "first \<le> meet" by (auto simp: first_def n_def whole)
  define d1 where "d1 = take first (take meet data)"
  have l1: "length d1 = first" "min (length d1) (u_resid u) = first" "d1 = take first data"
    using f by (auto simp: d1_def min_def first_def whole)
  have eq: "read_runs u m data meet = (case uiomove_out u m d1 of (r1, u1, m1, _) \<Rightarrow>
      (case r1 of
         Ok mv \<Rightarrow>
           if mv = first \<and> first < n then
             (case uiomove_out u1 m1 (take (n - first) (drop meet data)) of (r2, u2, m2, _) \<Rightarrow>
                (case r2 of Ok mv2 \<Rightarrow> (Ok (mv + mv2), mv + mv2, u2, m2) | Err e \<Rightarrow> (Err e, mv, u2, m2) | Panic \<Rightarrow> (Panic, mv, u2, m2)))
           else (Ok mv, mv, u1, m1)
       | Err e \<Rightarrow> (Err e, 0, u1, m1)
       | Panic \<Rightarrow> (Panic, 0, u1, m1)))"
    unfolding read_runs_def Let_def d1_def first_def n_def by (rule refl)
  show ?thesis
  proof (cases "\<forall>a \<in> set (take first (uio_addrs u)). can_write m a")
    case False
    then obtain u1 m1 where "uiomove_out u m d1 = (Err EFAULT, u1, m1, d1)"
      using uiomove_out_whole [OF assms(1-3), of d1 m] unfolding Let_def l1(2) if_not_P [OF False] by blast
    then show ?thesis using that [of "Err EFAULT" 0 u1 m1]
      by (simp add: eq)
  next
    case True
    define m1 where "m1 = scatter m (take first (uio_addrs u)) d1"
    obtain u1 where u1: "uiomove_out u m d1 = (Ok first, u1, m1, d1)" "moved_on u first u1"
      using uiomove_out_whole [OF assms(1-3), of d1 m] l1(1) unfolding Let_def l1(2) if_P [OF True] by (auto simp: m1_def)
    note w1 = moved_on_whole [OF u1(2) assms(1)]
    show ?thesis
    proof (cases "first < n")
      case False
      then have n: "first = n" using f by simp
      have "map (m_bytes m1) (take first (uio_addrs u)) = take first data"
        unfolding m1_def l1(3) by (rule scatter_read) (use assms(4) f in auto)
      then show ?thesis
        using that [of "Ok first" first u1 m1] u1 f n n_def m1_def scatter_other [of _ "take first (uio_addrs u)" m d1]
        by (simp add: eq)
    next
      case more: True
      define d2 where "d2 = take (n - first) (drop meet data)"
      have fm: "first = meet" using more f by (auto simp: first_def)
      have l2: "length d2 = n - first" "min (length d2) (u_resid u1) = n - first"
        using f fm more w1(3) whole by (auto simp: d2_def min_def)
      show ?thesis
      proof (cases "\<forall>a \<in> set (take (n - first) (uio_addrs u1)). can_write m1 a")
        case False
        then obtain u2 m2 where "uiomove_out u1 m1 d2 = (Err EFAULT, u2, m2, d2)"
          using uiomove_out_whole [OF w1(1), of d2 m1] w1(4,5) assms(2,3) unfolding Let_def l2(2) if_not_P [OF False] by auto
        then show ?thesis using that [of "Err EFAULT" first u2 m2] u1(1) more f
          by (simp add: eq d2_def [symmetric])
      next
        case True
        define m2 where "m2 = scatter m1 (take (n - first) (uio_addrs u1)) d2"
        obtain u2 where u2: "uiomove_out u1 m1 d2 = (Ok (n - first), u2, m2, d2)" "moved_on u1 (n - first) u2"
          using uiomove_out_whole [OF w1(1), of d2 m1] w1(4,5) assms(2,3) l2(1) unfolding Let_def l2(2) if_P [OF True] by (auto simp: m2_def)
        have as: "take n (uio_addrs u) = take first (uio_addrs u) @ take (n - first) (uio_addrs u1)"
          using f w1(2) by (simp add: take_add [symmetric])
        have ds: "take n data = d1 @ d2" using f fm by (simp add: take_add [symmetric] l1(3) d2_def)
        have m2: "m2 = scatter m (take n (uio_addrs u)) (take n data)"
          unfolding as ds m2_def m1_def using f l1(1) by (subst scatter_append) auto
        have "map (m_bytes m2) (take n (uio_addrs u)) = take n data"
          unfolding m2 by (rule scatter_read) (use assms(4) f in auto)
        moreover have "moved_on u n u2" using moved_on_trans [OF u1(2) u2(2)] f by simp
        moreover have "m_bytes m2 a = m_bytes m a" if "a \<notin> set (take n (uio_addrs u))" for a
          using scatter_other [OF that] by (simp add: m2)
        moreover have run: "read_runs u m data meet = (Ok n, n, u2, m2)"
          using u1(1) u2(1) more f by (simp add: eq d2_def [symmetric])
        ultimately show ?thesis using that [OF run f(2)] by (auto simp: n_def)
      qed
    qed
  qed
qed

text \<open>Copying in always ends, and takes the user's bytes in order.\<close>

definition uio_reads :: "umem \<Rightarrow> uio \<Rightarrow> bool" where
  "uio_reads m u \<longleftrightarrow> (\<forall>a \<in> set (uio_addrs u). can_read m a)"

lemma write_chunks_spec:
  assumes "uio_whole u" and "u_rw u = UioWrite" and "u_seg u = UserSeg" and "chunk \<noteq> []" and "left \<le> u_resid u"
  shows "\<exists>r u' n. write_chunks u m chunk left acc = Some (r, u', acc @ map (m_bytes m) (take n (uio_addrs u)))
     \<and> n \<le> left \<and> (r = Ok () \<and> n = left \<and> moved_on u left u' \<or> r = Err EFAULT \<and> \<not> uio_reads m u)"
  using assms
proof (induction left arbitrary: u chunk acc rule: less_induct)
  case (less left)
  have whole: "u_resid u = length (uio_addrs u)" using less.prems(1) by (simp add: uio_whole_def)
  show ?case
  proof (cases "left = 0")
    case True
    then show ?thesis using less.prems(1) moved_on_0 [of u]
      by (intro exI [of _ "Ok ()"] exI [of _ u] exI [of _ 0]) (simp add: write_chunks.simps [of _ _ _ 0] uio_whole_def)
  next
    case False
    define k where "k = min left (length chunk)"
    have k: "0 < k" "k \<le> left" "length (take k chunk) = k" "min (length (take k chunk)) (u_resid u) = k"
      using False less.prems(4,5) by (auto simp: k_def min_def)
    note move = uiomove_in_whole [OF less.prems(1-3), of "take k chunk" m, unfolded Let_def k(4)]
    have step: "write_chunks u m chunk left acc =
        (case uiomove_in u m (take k chunk) of
          (Ok mv, u', _, buf) \<Rightarrow>
            if left < mv then Some (Panic, u', acc @ take mv buf)
            else write_chunks u' m (buf @ drop k chunk) (left - mv) (acc @ take mv buf)
        | (Err e, u', _, _) \<Rightarrow> Some (Err e, u', acc)
        | (Panic, u', _, _) \<Rightarrow> Some (Panic, u', acc))"
      unfolding k_def using False by (subst write_chunks.simps) (simp only: Let_def if_False)
    show ?thesis
    proof (cases "\<forall>a \<in> set (take k (uio_addrs u)). can_read m a")
      case bad: False
      then obtain u' buf' where "uiomove_in u m (take k chunk) = (Err EFAULT, u', m, buf')"
        using move unfolding if_not_P [OF bad] by blast
      moreover have "\<not> uio_reads m u" using bad in_set_takeD by (fastforce simp: uio_reads_def)
      ultimately show ?thesis unfolding step by (intro exI [of _ "Err EFAULT"] exI [of _ u'] exI [of _ 0]) simp
    next
      case good: True
      define bs where "bs = map (m_bytes m) (take k (uio_addrs u))"
      have lbs: "length bs = k" using k less.prems(5) whole by (simp add: bs_def)
      obtain u1 where u1: "uiomove_in u m (take k chunk) = (Ok k, u1, m, bs)" "moved_on u k u1"
        using move unfolding if_P [OF good] by (auto simp: bs_def)
      note w1 = moved_on_whole [OF u1(2) less.prems(1)]
      have "\<exists>r u' n. write_chunks u1 m (bs @ drop k chunk) (left - k) (acc @ bs)
            = Some (r, u', (acc @ bs) @ map (m_bytes m) (take n (uio_addrs u1)))
          \<and> n \<le> left - k \<and> (r = Ok () \<and> n = left - k \<and> moved_on u1 (left - k) u' \<or> r = Err EFAULT \<and> \<not> uio_reads m u1)"
        by (rule less.IH) (use k less.prems w1 lbs in auto)
      then obtain r u' n where n: "write_chunks u1 m (bs @ drop k chunk) (left - k) (acc @ bs)
            = Some (r, u', (acc @ bs) @ map (m_bytes m) (take n (uio_addrs u1)))" "n \<le> left - k"
          "r = Ok () \<and> n = left - k \<and> moved_on u1 (left - k) u' \<or> r = Err EFAULT \<and> \<not> uio_reads m u1" by blast
      have "bs @ map (m_bytes m) (take n (uio_addrs u1)) = map (m_bytes m) (take (k + n) (uio_addrs u))"
        by (simp add: bs_def w1(2) take_add)
      then have "write_chunks u m chunk left acc = Some (r, u', acc @ map (m_bytes m) (take (k + n) (uio_addrs u)))"
        unfolding step using u1(1) n(1) k lbs by simp
      moreover have "r = Ok () \<and> k + n = left \<and> moved_on u left u' \<or> r = Err EFAULT \<and> \<not> uio_reads m u"
        using n(3) moved_on_trans [OF u1(2), of "left - k" u'] k in_set_dropD by (fastforce simp: uio_reads_def w1(2))
      ultimately show ?thesis using n(2) k by (intro exI [of _ r] exI [of _ u'] exI [of _ "k + n"]) auto
    qed
  qed
qed

definition pipes_ok :: "pipes \<Rightarrow> bool" where
  "pipes_ok P \<longleftrightarrow> bwf (ps_pipes P) \<and> (\<forall>i p. bget (ps_pipes P) i = Some p \<longrightarrow> length (pb_data p) \<le> pipe_capacity \<and> i < ps_next P)"

lemma pipes_okD:
  assumes "pipes_ok P"
  shows "bwf (ps_pipes P)" and "bget (ps_pipes P) i = Some p \<Longrightarrow> length (pb_data p) \<le> pipe_capacity \<and> i < ps_next P"
  using assms by (auto simp: pipes_ok_def)

text \<open>The outcomes of one call to the write loop, up to its return or sleep.\<close>

lemma write_pass_cases:
  assumes "uio_whole u" and "u_rw u = UioWrite" and "u_seg u = UserSeg" and "pipes_ok P" and "0 < u_resid u"
  obtains (shut) "write_pass i fd u m w F P k = Some (Return (short_or w EPIPE), w, u, P, k)"
      and "\<And>p. bget (ps_pipes P) i = Some p \<Longrightarrow> pb_read_closed p \<or> pb_write_closed p"
  | (busy) p where "write_pass i fd u m w F P k = Some (Return (short_or w EAGAIN), w, u, P, k)"
      and "bget (ps_pipes P) i = Some p" and "length (pb_data p) = pipe_capacity" and "is_nonblocking fd F"
  | (sleep) p where "write_pass i fd u m w F P k = Some (Sleep, w, u, P, block_current (WaitingForPipeSpace i) k)"
      and "bget (ps_pipes P) i = Some p" and "length (pb_data p) = pipe_capacity" and "\<not> pb_read_closed p" and "\<not> pb_write_closed p"
  | (some) p n r u' k' where "bget (ps_pipes P) i = Some p" and "\<not> pb_read_closed p" and "\<not> pb_write_closed p"
      and "length (pb_data p) < pipe_capacity"
      and "n \<le> u_resid u" and "length (pb_data p) + n \<le> pipe_capacity"
      and "write_pass i fd u m w F P k =
         Some (r, w + n, u', set_data i (pb_data p @ map (m_bytes m) (take n (uio_addrs u))) P, k')"
      and "r = Return (Err EFAULT) \<and> k' = wake_pipe_readers i k \<and> \<not> uio_reads m u
         \<or> r = Return (Ok (w + n)) \<and> k' = wake_pipe_readers i k \<and> (n = u_resid u \<or> length (pb_data p) + n = pipe_capacity)
         \<or> r = Sleep \<and> k' = block_current (WaitingForPipeSpace i) (wake_pipe_readers i k) \<and> length (pb_data p) + n = pipe_capacity
           \<and> n < u_resid u"
proof (cases "bget (ps_pipes P) i")
  case None
  then show ?thesis using shut by (simp add: write_pass.simps write_turn_def)
next
  case (Some p)
  have cap: "length (pb_data p) \<le> pipe_capacity" using pipes_okD(2) [OF assms(4) Some] by simp
  have whole: "u_resid u = length (uio_addrs u)" using assms(1) by (simp add: uio_whole_def)
  show ?thesis
  proof (cases "pb_read_closed p \<or> pb_write_closed p")
    case True
    then show ?thesis using shut Some by (simp add: write_pass.simps write_turn_def)
  next
    case op: False
    define av where "av = pipe_capacity - length (pb_data p)"
    show ?thesis
    proof (cases "0 < av")
      case False
      then have "length (pb_data p) = pipe_capacity" using cap by (simp add: av_def)
      then show ?thesis using busy sleep Some op
        by (cases "is_nonblocking fd F") (simp_all add: write_pass.simps write_turn_def)
    next
      case True
      define left where "left = min (u_resid u) av"
      obtain r u' n where c: "write_chunks u m (replicate chunk_size 0) left [] = Some (r, u', map (m_bytes m) (take n (uio_addrs u)))"
          "n \<le> left" "r = Ok () \<and> n = left \<and> moved_on u left u' \<or> r = Err EFAULT \<and> \<not> uio_reads m u"
        using write_chunks_spec [OF assms(1-3), of "replicate chunk_size 0" left m "[]"]
        by (auto simp: chunk_size_def left_def)
      define bs where "bs = map (m_bytes m) (take n (uio_addrs u))"
      have lbs: "length bs = n" using c(2) whole by (simp add: bs_def left_def)
      define P' where "P' = set_data i (pb_data p @ bs) P"
      define k1 where "k1 = wake_pipe_readers i k"
      have turn: "write_turn i fd u m w F P k = Some (case r of
            Ok _ \<Rightarrow> if u_resid u' = 0 then Done (Ok (w + n)) else Again | Err e \<Rightarrow> Done (Err e) | Panic \<Rightarrow> Done Panic, w + n, u', P', k1)"
        using Some op True c(1) lbs
        by (simp add: write_turn_def av_def [symmetric] left_def [symmetric] bs_def [symmetric] P'_def k1_def)
          (simp add: Let_def split: kres.split)
      have n: "n \<le> u_resid u" "length (pb_data p) + n \<le> pipe_capacity" using c(2) cap by (auto simp: left_def av_def)
      have open_p: "\<not> pb_read_closed p" "\<not> pb_write_closed p" "length (pb_data p) < pipe_capacity" using op True by (auto simp: av_def)
      consider "r = Err EFAULT" "\<not> uio_reads m u" | "r = Ok ()" "u_resid u' = 0" | "r = Ok ()" "u_resid u' \<noteq> 0" using c(3) by blast
      then show ?thesis
      proof cases
        case 1
        then have "write_pass i fd u m w F P k = Some (Return (Err EFAULT), w + n, u', P', k1)"
          by (subst write_pass.simps) (simp add: turn)
        with 1(2) show ?thesis using some [OF Some open_p n, of "Return (Err EFAULT)" u' k1] by (simp add: bs_def P'_def k1_def)
      next
        case 2
        then have "moved_on u n u'" "n = left" using c(3) by auto
        then have "n = u_resid u" using 2(2) n(1) by (auto simp: moved_on_def)
        moreover have "write_pass i fd u m w F P k = Some (Return (Ok (w + n)), w + n, u', P', k1)"
          using 2 by (subst write_pass.simps) (simp add: turn)
        ultimately show ?thesis using some [OF Some open_p n, of "Return (Ok (w + n))" u' k1] by (simp add: bs_def P'_def k1_def)
      next
        case 3
        then have mo: "moved_on u n u'" "n = left" using c(3) by auto
        then have part: "n < u_resid u" using 3(2) n(1) by (auto simp: moved_on_def)
        then have n_av: "n = av" using mo(2) by (auto simp: left_def)
        then have fullp: "length (pb_data p) + n = pipe_capacity" "0 < n" using True cap by (simp_all add: av_def)
        define p' where "p' = p\<lparr>pb_data := pb_data p @ bs\<rparr>"
        have p': "bget (ps_pipes P') i = Some p'" using Some by (simp add: P'_def p'_def)
        have len': "length (pb_data p') = pipe_capacity" using fullp lbs by (simp add: p'_def)
        have step: "write_pass i fd u m w F P k = write_pass i fd u' m (w + n) F P' k1"
          using 3 by (subst write_pass.simps) (simp add: turn)
        have "write_pass i fd u' m (w + n) F P' k1 =
            (if is_nonblocking fd F then Some (Return (Ok (w + n)), w + n, u', P', k1)
             else Some (Sleep, w + n, u', P', block_current (WaitingForPipeSpace i) k1))"
          using p' len' open_p fullp(2) by (subst write_pass.simps) (simp add: write_turn_def p'_def short_or_def)
        then show ?thesis
          using step fullp part some [OF Some open_p n, of "Return (Ok (w + n))" u' k1]
            some [OF Some open_p n, of Sleep u' "block_current (WaitingForPipeSpace i) k1"]
          by (simp add: bs_def P'_def k1_def split: if_splits)
      qed
    qed
  qed
qed

section \<open>Who waits for what\<close>

definition is_pipe_reason :: "block_reason \<Rightarrow> bool" where
  "is_pipe_reason r \<longleftrightarrow> (case r of WaitingForPipeData _ \<Rightarrow> True | WaitingForPipeSpace _ \<Rightarrow> True | _ \<Rightarrow> False)"

lemma is_pipe_reason_cases:
  assumes "is_pipe_reason r"
  obtains i where "r = WaitingForPipeData i" | i where "r = WaitingForPipeSpace i"
  using assms by (cases r) (auto simp: is_pipe_reason_def)

text \<open>A reader waits while its buffer is empty and can still be written; a writer while its buffer is full and can still be read.\<close>

fun pipe_stuck :: "pipes \<Rightarrow> block_reason \<Rightarrow> bool" where
  "pipe_stuck P (WaitingForPipeData i) = (\<exists>p. bget (ps_pipes P) i = Some p \<and> pb_data p = [] \<and> \<not> pb_write_closed p)"
| "pipe_stuck P (WaitingForPipeSpace i) = (\<exists>p. bget (ps_pipes P) i = Some p \<and> length (pb_data p) = pipe_capacity \<and> \<not> pb_read_closed p)"
| "pipe_stuck P _ = True"

definition pipe_waiting :: "pipes \<times> kcore \<Rightarrow> pid \<Rightarrow> block_reason \<Rightarrow> bool" where
  "pipe_waiting x pid r \<longleftrightarrow> is_pipe_reason r \<and> blocked_as (snd x) pid r"

definition pipe_wakes :: "pipes \<Rightarrow> kcore \<Rightarrow> pipes \<Rightarrow> kcore \<Rightarrow> bool" where
  "pipe_wakes P k P' k' \<longleftrightarrow> (\<forall>pid r. is_pipe_reason r \<longrightarrow> blocked_as k' pid r \<longrightarrow>
     pipe_stuck P' r \<or> blocked_as k pid r \<and> (pipe_stuck P r \<longrightarrow> pipe_stuck P' r))"

lemma is_polling_pipe: "is_pipe_reason r \<Longrightarrow> \<not> is_polling (Blocked r)"
  by (cases r) (auto simp: is_pipe_reason_def is_polling_def)

lemma blocked_wake_pollers:
  "blocked_as (wake_pollers k) pid r \<longleftrightarrow> blocked_as k pid r \<and> \<not> is_polling (Blocked r)"
  unfolding wake_pollers_def by (rule blocked_as_wake_where) (simp add: is_polling_def)

lemma blocked_wake_readers:
  "is_pipe_reason r \<Longrightarrow> blocked_as (wake_pipe_readers i k) pid r \<longleftrightarrow> blocked_as k pid r \<and> r \<noteq> WaitingForPipeData i"
  using is_polling_pipe by (auto simp: wake_pipe_readers_def blocked_wake_pollers blocked_as_wake_where)

lemma blocked_wake_writers:
  "is_pipe_reason r \<Longrightarrow> blocked_as (wake_pipe_writers i k) pid r \<longleftrightarrow> blocked_as k pid r \<and> r \<noteq> WaitingForPipeSpace i"
  using is_polling_pipe by (auto simp: wake_pipe_writers_def blocked_wake_pollers blocked_as_wake_where)

lemma pipe_stuck_cong: "ps_pipes P' = ps_pipes P \<Longrightarrow> pipe_stuck P' r = pipe_stuck P r"
  by (cases r) auto

lemma pipe_stuck_other:
  assumes "r \<noteq> WaitingForPipeData i" and "r \<noteq> WaitingForPipeSpace i" and "\<And>j. j \<noteq> i \<Longrightarrow> bget (ps_pipes P') j = bget (ps_pipes P) j"
  shows "pipe_stuck P' r = pipe_stuck P r"
  using assms by (cases r) auto

lemma pipe_wakes_same: "ps_pipes P' = ps_pipes P \<Longrightarrow> pipe_wakes P k P' k"
  unfolding pipe_wakes_def using pipe_stuck_cong [of P' P] by blast

text \<open>A step that changes one buffer at most, for the processes that still wait on it afterwards.\<close>

lemma pipe_wakesI:
  assumes "\<And>j. j \<noteq> i \<Longrightarrow> bget (ps_pipes P') j = bget (ps_pipes P) j"
    and "\<And>pid r. is_pipe_reason r \<Longrightarrow> blocked_as k' pid r \<Longrightarrow> blocked_as k pid r \<or> pipe_stuck P' r"
    and "\<And>pid. blocked_as k' pid (WaitingForPipeData i) \<Longrightarrow> pipe_stuck P (WaitingForPipeData i) \<Longrightarrow> pipe_stuck P' (WaitingForPipeData i)"
    and "\<And>pid. blocked_as k' pid (WaitingForPipeSpace i) \<Longrightarrow> pipe_stuck P (WaitingForPipeSpace i) \<Longrightarrow> pipe_stuck P' (WaitingForPipeSpace i)"
  shows "pipe_wakes P k P' k'"
  unfolding pipe_wakes_def
proof (intro allI impI)
  fix pid r
  assume r: "is_pipe_reason r" "blocked_as k' pid r"
  have "pipe_stuck P r \<Longrightarrow> pipe_stuck P' r"
  proof (cases "r = WaitingForPipeData i \<or> r = WaitingForPipeSpace i")
    case False
    then have "pipe_stuck P' r = pipe_stuck P r" by (intro pipe_stuck_other [OF _ _ assms(1)]) auto
    then show "pipe_stuck P r \<Longrightarrow> pipe_stuck P' r" by simp
  qed (use assms(3,4) r(2) in blast)
  then show "pipe_stuck P' r \<or> blocked_as k pid r \<and> (pipe_stuck P r \<longrightarrow> pipe_stuck P' r)"
    using assms(2) [OF r] by blast
qed

lemma read_pass_cases:
  assumes "read_pass i fd meet u m F P k = (r, u', m', P', k')"
  obtains (idle) "P' = P" and "k' = k"
  | (sleep) p where "bget (ps_pipes P) i = Some p" and "pb_data p = []" and "\<not> pb_write_closed p" and "P' = P"
      and "k' = block_current (WaitingForPipeData i) k"
  | (some) p n where "bget (ps_pipes P) i = Some p" and "pb_data p \<noteq> []" and "P' = set_data i (drop n (pb_data p)) P"
      and "k' = (if 0 < n then wake_pipe_writers i k else k)"
proof (cases "\<exists>p. bget (ps_pipes P) i = Some p \<and> pb_data p \<noteq> []")
  case True
  then obtain p where p: "bget (ps_pipes P) i = Some p" "pb_data p \<noteq> []" by blast
  obtain x n v l where runs: "read_runs u m (pb_data p) meet = (x, n, v, l)" by (metis prod_cases4)
  show ?thesis by (rule some [OF p, of n]) (use assms p runs in \<open>auto simp: read_pass_def\<close>)
next
  case False
  then show ?thesis using assms idle sleep by (auto simp: read_pass_def split: option.splits if_splits)
qed

lemma pipes_ok_set_data:
  assumes "pipes_ok P" and "length bs \<le> pipe_capacity"
  shows "pipes_ok (set_data i bs P)"
proof -
  have "length (pb_data p) \<le> pipe_capacity \<and> j < ps_next P" if "bget (ps_pipes (set_data i bs P)) j = Some p" for j p
    using that pipes_okD(2) [OF assms(1), of j] assms(2) by (auto split: if_splits)
  then show ?thesis using pipes_okD(1) [OF assms(1)] unfolding pipes_ok_def by (simp add: set_data_def)
qed

lemma read_wakes:
  assumes "read_pass i fd meet u m F P k = (r, u', m', P', k')"
  shows "pipe_wakes P k P' k'"
  using assms
proof (cases rule: read_pass_cases)
  case idle
  then show ?thesis by (simp add: pipe_wakes_same)
next
  case (sleep p)
  then show ?thesis by (auto simp: pipe_wakes_def blocked_as_block_current split: if_splits)
next
  case (some p n)
  show ?thesis
  proof (rule pipe_wakesI [where i = i])
    show "blocked_as k pid r \<or> pipe_stuck P' r" if "is_pipe_reason r" "blocked_as k' pid r" for pid r
      using that by (auto simp: some(4) blocked_wake_writers split: if_splits)
    show "pipe_stuck P' (WaitingForPipeSpace i)" if "blocked_as k' pid (WaitingForPipeSpace i)" "pipe_stuck P (WaitingForPipeSpace i)" for pid
      using that some by (auto simp: blocked_wake_writers is_pipe_reason_def split: if_splits)
  qed (use some in auto)
qed

lemma read_ok:
  assumes "read_pass i fd meet u m F P k = (r, u', m', P', k')" and "pipes_ok P"
  shows "pipes_ok P'"
  using assms(1)
proof (cases rule: read_pass_cases)
  case (some p n)
  then show ?thesis using pipes_okD(2) [OF assms(2) some(1)] by (auto intro: pipes_ok_set_data [OF assms(2)])
qed (use assms(2) in auto)

lemma write_wakes:
  assumes "uio_whole u" and "u_rw u = UioWrite" and "u_seg u = UserSeg" and "pipes_ok P" and "0 < u_resid u"
    and "write_pass i fd u m w F P k = Some (r, w', u', P', k')"
  shows "pipe_wakes P k P' k' \<and> pipes_ok P'"
  using assms(1-5)
proof (cases rule: write_pass_cases [where i = i and fd = fd and m = m and w = w and F = F and k = k])
  case shut
  then show ?thesis using assms(4,6) by (simp add: pipe_wakes_same)
next
  case (busy p)
  then show ?thesis using assms(4,6) by (simp add: pipe_wakes_same)
next
  case (sleep p)
  then have "P' = P" "k' = block_current (WaitingForPipeSpace i) k" using assms(6) by auto
  then show ?thesis using sleep(2-4) assms(4) by (auto simp: pipe_wakes_def blocked_as_block_current split: if_splits)
next
  case (some p n r' v l)
  define bs where "bs = map (m_bytes m) (take n (uio_addrs u))"
  have P': "P' = set_data i (pb_data p @ bs) P" and k': "k' = l" using some(7) assms(6) by (auto simp: bs_def)
  have len: "length bs = n" using assms(1) some(5) by (simp add: bs_def uio_whole_def)
  have blocked: "blocked_as k pid r \<and> r \<noteq> WaitingForPipeData i \<or> r = WaitingForPipeSpace i \<and> length (pb_data p) + n = pipe_capacity"
    if "is_pipe_reason r" "blocked_as k' pid r" for pid r
    using some(8) that by (auto simp: k' blocked_wake_readers blocked_as_block_current split: if_splits)
  have "pipe_wakes P k P' k'"
  proof (rule pipe_wakesI [where i = i])
    show "blocked_as k pid r \<or> pipe_stuck P' r" if "is_pipe_reason r" "blocked_as k' pid r" for pid r
      using blocked [OF that] some(1-3) len by (auto simp: P')
    show "pipe_stuck P' (WaitingForPipeData i)" if "blocked_as k' pid (WaitingForPipeData i)" for pid
      using blocked [OF _ that] by (simp add: is_pipe_reason_def)
    show "pipe_stuck P' (WaitingForPipeSpace i)" if "pipe_stuck P (WaitingForPipeSpace i)" using that some(1,4) by simp
  qed (simp add: P')
  moreover have "pipes_ok P'" using some(6) len by (simp add: P' pipes_ok_set_data [OF assms(4)])
  ultimately show ?thesis by simp
qed

lemma close_direction_wakes:
  assumes "close_direction i dir P k = (P', k')" and "pipes_ok P"
  shows "pipe_wakes P k P' k'" and "pipes_ok P'"
proof -
  have "pipe_wakes P k P' k' \<and> pipes_ok P'"
  proof (cases "bget (ps_pipes P) i")
    case None
    then show ?thesis using assms by (simp add: close_direction_def pipe_wakes_same)
  next
    case (Some p)
    define p' where "p' = (case dir of ReadEnd \<Rightarrow> p\<lparr>pb_read_closed := True\<rparr> | WriteEnd \<Rightarrow> p\<lparr>pb_write_closed := True\<rparr>)"
    have P': "ps_pipes P' = (if pb_read_closed p' \<and> pb_write_closed p' then bremove i (ps_pipes P) else binsert i p' (ps_pipes P))"
        "ps_next P' = ps_next P"
      and k': "k' = (case dir of WriteEnd \<Rightarrow> wake_pipe_readers i k | ReadEnd \<Rightarrow> wake_pipe_writers i k)"
      using assms(1) Some by (auto simp: close_direction_def Let_def p'_def)
    have data: "pb_data p' = pb_data p" by (simp add: p'_def split: pipe_end.split)
    have "pipe_wakes P k P' k'"
    proof (rule pipe_wakesI [where i = i])
      show "blocked_as k pid r \<or> pipe_stuck P' r" if "is_pipe_reason r" "blocked_as k' pid r" for pid r
        using that by (cases dir) (auto simp: k' blocked_wake_readers blocked_wake_writers)
      show "pipe_stuck P' (WaitingForPipeData i)" if "blocked_as k' pid (WaitingForPipeData i)" "pipe_stuck P (WaitingForPipeData i)" for pid
        using that Some by (cases dir) (auto simp: k' P' p'_def blocked_wake_readers blocked_wake_writers is_pipe_reason_def)
      show "pipe_stuck P' (WaitingForPipeSpace i)" if "blocked_as k' pid (WaitingForPipeSpace i)" "pipe_stuck P (WaitingForPipeSpace i)" for pid
        using that Some by (cases dir) (auto simp: k' P' p'_def blocked_wake_readers blocked_wake_writers is_pipe_reason_def)
    qed (simp add: P')
    moreover have "length (pb_data q) \<le> pipe_capacity \<and> j < ps_next P'" if "bget (ps_pipes P') j = Some q" for j q
      using that pipes_okD(2) [OF assms(2), of j] Some data by (auto simp: P' split: if_splits)
    ultimately show ?thesis using pipes_okD(1) [OF assms(2)] by (simp add: pipes_ok_def P'(1))
  qed
  then show "pipe_wakes P k P' k'" "pipes_ok P'" by simp_all
qed

lemma pipe_close_wakes:
  assumes "pipe_close fd P k = (r, P', k')" and "pipes_ok P"
  shows "pipe_wakes P k P' k' \<and> pipes_ok P'"
proof (cases "bget (ps_ends P) fd")
  case None
  then show ?thesis using assms by (simp add: pipe_close_def pipe_wakes_same)
next
  case (Some x)
  obtain i dir where x: "x = (i, dir)" by (cases x)
  let ?P = "P\<lparr>ps_ends := bremove fd (ps_ends P)\<rparr>"
  have c: "close_direction i dir ?P k = (P', k')" using assms(1) Some by (auto simp: pipe_close_def x split: prod.splits)
  have ok: "pipes_ok ?P" using assms(2) by (simp add: pipes_ok_def)
  have "pipe_wakes ?P k P' k' = pipe_wakes P k P' k'"
    unfolding pipe_wakes_def using pipe_stuck_cong [of ?P P] by simp
  then show ?thesis using close_direction_wakes [OF c ok] by simp
qed

lemma new_pipe_buffer_wakes:
  assumes "new_pipe_buffer P = (i, P')" and "pipes_ok P"
  shows "pipe_wakes P k P' k" and "pipes_ok P'" and "bget (ps_pipes P) i = None" and "i = ps_next P"
proof -
  show i: "i = ps_next P" using assms(1) by (simp add: new_pipe_buffer_def)
  show none: "bget (ps_pipes P) i = None" using pipes_okD(2) [OF assms(2), of i] by (cases "bget (ps_pipes P) i") (auto simp: i)
  have get: "bget (ps_pipes P') j = (if j = i then Some \<lparr> pb_data = [], pb_read_closed = False, pb_write_closed = False \<rparr> else bget (ps_pipes P) j)"
    and wf: "bwf (ps_pipes P')" and next': "ps_next P' = Suc (ps_next P)" for j
    using assms pipes_okD(1) [OF assms(2)] by (auto simp: new_pipe_buffer_def)
  show "pipe_wakes P k P' k" by (rule pipe_wakesI [where i = i]) (use none in \<open>auto simp: get\<close>)
  show "pipes_ok P'" using wf pipes_okD(2) [OF assms(2)] by (fastforce simp: pipes_ok_def get next' i)
qed

text \<open>A change of a FIFO's counts wakes everyone who waits on its buffer, so whatever happens to the buffer is seen.\<close>

lemma fifo_changed_wakes:
  assumes "fifo_changed f P k = (P1, k')" and "\<And>j. j \<noteq> ff_pipe f \<Longrightarrow> bget (ps_pipes P') j = bget (ps_pipes P) j"
  shows "pipe_wakes P k P' k'"
proof -
  have k': "k' = wake_pipe_writers (ff_pipe f) (wake_pipe_readers (ff_pipe f) k)" using assms(1) by (simp add: fifo_changed_def)
  show ?thesis
    by (rule pipe_wakesI [where i = "ff_pipe f"])
      (use assms(2) in \<open>auto simp: k' blocked_wake_readers blocked_wake_writers is_pipe_reason_def\<close>)
qed

lemma fifo_changed_ok:
  assumes "fifo_changed f P k = (P', k')" and "pipes_ok P"
  shows "pipes_ok P'" and "\<And>j. j \<noteq> ff_pipe f \<Longrightarrow> bget (ps_pipes P') j = bget (ps_pipes P) j"
    and "ps_fifos P' = ps_fifos P" and "ps_opening P' = ps_opening P" and "ps_fifo_ends P' = ps_fifo_ends P"
proof -
  have P': "P' = P\<lparr>ps_pipes := bupdate (ff_pipe f) (\<lambda>p. p\<lparr>pb_read_closed := ff_readers f = 0, pb_write_closed := ff_writers f = 0\<rparr>) (ps_pipes P)\<rparr>"
    using assms(1) by (simp add: fifo_changed_def)
  have "length (pb_data p) \<le> pipe_capacity \<and> j < ps_next P" if "bget (ps_pipes P') j = Some p" for j p
    using that pipes_okD(2) [OF assms(2), of j] by (auto simp: P' split: if_splits)
  moreover have "bwf (ps_pipes P')" "ps_next P' = ps_next P" using pipes_okD(1) [OF assms(2)] by (simp_all add: P')
  ultimately show "pipes_ok P'" unfolding pipes_ok_def by simp
qed (use assms(1) in \<open>auto simp: fifo_changed_def\<close>)

lemma pipes_ok_frame:
  "pipes_ok (P\<lparr>ps_fifos := a\<rparr>) = pipes_ok P" "pipes_ok (P\<lparr>ps_opening := b\<rparr>) = pipes_ok P"
  "pipes_ok (P\<lparr>ps_fifo_ends := c\<rparr>) = pipes_ok P" "pipes_ok (P\<lparr>ps_ends := d\<rparr>) = pipes_ok P"
  by (simp_all add: pipes_ok_def)

lemma pipes_ok_remove: "pipes_ok P \<Longrightarrow> pipes_ok (P\<lparr>ps_pipes := bremove i (ps_pipes P)\<rparr>)"
  by (auto simp: pipes_ok_def split: if_splits)

lemma pipe_wakes_cong:
  "ps_pipes P1 = ps_pipes P \<Longrightarrow> ps_pipes P1' = ps_pipes P' \<Longrightarrow> pipe_wakes P1 k P1' k' = pipe_wakes P k P' k'"
  unfolding pipe_wakes_def using pipe_stuck_cong [of P1 P] pipe_stuck_cong [of P1' P'] by simp

lemma fifo_release_wakes:
  assumes "fifo_release en P k = Some (P', k')" and "pipes_ok P"
  shows "pipe_wakes P k P' k' \<and> pipes_ok P'"
proof (cases "bget (ps_fifos P) (fe_key en)")
  case None
  then show ?thesis using assms by (simp add: fifo_release_def pipe_wakes_same)
next
  case (Some f)
  define f' where "f' = f\<lparr>ff_readers := ff_readers f - of_bool (fe_read en), ff_writers := ff_writers f - of_bool (fe_write en)\<rparr>"
  define P0 where "P0 = P\<lparr>ps_fifos := binsert (fe_key en) f' (ps_fifos P)\<rparr>"
  obtain P1 k1 where c: "fifo_changed f' P0 k = (P1, k1)" by (cases "fifo_changed f' P0 k")
  have res: "k' = k1" "P' = (if ff_readers f' = 0 \<and> ff_writers f' = 0
      then P1\<lparr>ps_fifos := bremove (fe_key en) (ps_fifos P1), ps_pipes := bremove (ff_pipe f') (ps_pipes P1)\<rparr> else P1)"
    using assms(1) Some c by (auto simp: fifo_release_def Let_def f'_def [symmetric] P0_def [symmetric] split: if_splits)
  have ok0: "pipes_ok P0" using assms(2) by (simp add: P0_def pipes_ok_frame)
  note ch = fifo_changed_ok [OF c ok0]
  have "pipe_wakes P0 k P' k1" by (rule fifo_changed_wakes [OF c]) (use ch(2) in \<open>simp add: res\<close>)
  moreover have "pipe_wakes P0 k P' k1 = pipe_wakes P k P' k1" by (rule pipe_wakes_cong) (simp_all add: P0_def)
  moreover have "pipes_ok P'" using ch(1) pipes_ok_remove [OF ch(1)] by (simp add: res) (simp add: pipes_ok_def)
  ultimately show ?thesis by (simp add: res)
qed

lemma fifo_finish_wakes:
  assumes "fifo_open_finish e en nb F P k = (r, F', P', k')" and "pipes_ok P"
  shows "pipe_wakes P k P' k' \<and> pipes_ok P'"
proof -
  define P1 where "P1 = P\<lparr>ps_fifo_ends := binsert (fd_next F) en (ps_fifo_ends P)\<rparr>"
  define P2 where "P2 = P1\<lparr>ps_fifo_ends := bremove (fd_next F) (ps_fifo_ends P1)\<rparr>"
  have same: "ps_pipes P1 = ps_pipes P" "ps_pipes P2 = ps_pipes P" by (simp_all add: P1_def P2_def)
  have "P' = P1 \<and> k' = k \<or> fifo_release en P2 k = Some (P', k')"
    using assms(1) unfolding fifo_open_finish_def
    by (auto simp: alloc_fd_def Let_def P1_def [symmetric] P2_def [symmetric] split: prod.splits kres.splits option.splits)
  moreover have "pipe_wakes P k P1 k \<and> pipes_ok P1" using assms(2) by (simp add: pipe_wakes_same [OF same(1)]) (simp add: P1_def pipes_ok_frame)
  moreover have "pipe_wakes P k P' k' \<and> pipes_ok P'" if "fifo_release en P2 k = Some (P', k')"
  proof -
    have "pipes_ok P2" using assms(2) by (simp add: P2_def P1_def pipes_ok_frame)
    then show ?thesis using fifo_release_wakes [OF that] pipe_wakes_cong [of P2 P P' P' k k', OF same(2) refl] by simp
  qed
  ultimately show ?thesis by blast
qed

lemma fifo_wait_wakes:
  assumes "fifo_wait_pass e intr w F P k = (r, F', P', k')" and "pipes_ok P"
  shows "pipe_wakes P k P' k' \<and> pipes_ok P'"
proof (cases "bget (ps_fifos P) (fe_key (fw_end w))")
  case None
  then show ?thesis using assms by (simp add: fifo_wait_pass_def pipe_wakes_same)
next
  case (Some f)
  define P1 where "P1 = P\<lparr>ps_opening := bremove (k_current k) (ps_opening P)\<rparr>"
  have ok1: "pipes_ok P1" and same: "ps_pipes P1 = ps_pipes P" using assms(2) by (simp_all add: P1_def pipes_ok_frame)
  consider "fifo_open_finish e (fw_end w) (fw_nonblock w) F P1 k = (r, F', P', k')" | "fifo_release (fw_end w) P1 k = Some (P', k')"
    | "P' = P1" "k' = k" | "P' = P" "k' = block_current (Polling u64_max) k"
    using assms(1) Some by (auto simp: fifo_wait_pass_def Let_def P1_def [symmetric] split: if_splits option.splits)
  then show ?thesis
  proof cases
    case 1
    then show ?thesis using fifo_finish_wakes [OF 1 ok1] pipe_wakes_cong [of P1 P P' P' k k', OF same refl] by simp
  next
    case 2
    then show ?thesis using fifo_release_wakes [OF 2 ok1] pipe_wakes_cong [of P1 P P' P' k k', OF same refl] by simp
  next
    case 3
    then show ?thesis using ok1 by (simp add: pipe_wakes_same same)
  next
    case 4
    then show ?thesis using assms(2) by (auto simp: pipe_wakes_def blocked_as_block_current is_pipe_reason_def split: if_splits)
  qed
qed

lemma pipe_wakes_trans: "pipe_wakes P k P1 k1 \<Longrightarrow> pipe_wakes P1 k1 P2 k2 \<Longrightarrow> pipe_wakes P k P2 k2"
  unfolding pipe_wakes_def by blast

lemma fifo_count_wakes:
  assumes "fifo_count en P k = (f', P2, k2)" and "pipes_ok P"
  shows "pipe_wakes P k P2 k2 \<and> pipes_ok P2"
proof -
  obtain f P1 where f: "fifo_entry (fe_key en) P = (f, P1)" by (cases "fifo_entry (fe_key en) P")
  define P0 where "P0 = P1\<lparr>ps_fifos := binsert (fe_key en) (count_end en f) (ps_fifos P1)\<rparr>"
  have ch: "fifo_changed (count_end en f) P0 k = (P2, k2)"
    using assms(1) f by (auto simp: fifo_count_def Let_def P0_def)
  have entry: "pipe_wakes P k P1 k \<and> pipes_ok P1"
  proof (cases "bget (ps_fifos P) (fe_key en)")
    case None
    then have n: "new_pipe_buffer P = (ff_pipe f, P1)" using f by (auto simp: fifo_entry_def Let_def split: prod.splits)
    show ?thesis using new_pipe_buffer_wakes(1,2) [OF n assms(2)] by simp
  next
    case (Some g)
    then show ?thesis using f assms(2) by (simp add: fifo_entry_def pipe_wakes_same)
  qed
  then have ok0: "pipes_ok P0" by (simp add: P0_def pipes_ok_frame)
  note c = fifo_changed_ok [OF ch ok0]
  have "pipe_wakes P0 k P2 k2" by (rule fifo_changed_wakes [OF ch]) (rule c(2))
  moreover have "pipe_wakes P0 k P2 k2 = pipe_wakes P1 k P2 k2" by (rule pipe_wakes_cong) (simp_all add: P0_def)
  ultimately show ?thesis using entry c(1) pipe_wakes_trans by blast
qed

lemma fifo_open_cases:
  assumes "fst (fifo_open e intr key flags F P k) = (r, F', P', k')"
  obtains (refused) "P' = P" and "k' = k" and "F' = F"
  | (waiting) en f P2 k2 w where "fe_key en = key" and "fifo_count en P k = (f, P2, k2)" and "fw_end w = en"
      and "fifo_wait_pass e intr w F (P2\<lparr>ps_opening := binsert (k_current k2) en (ps_opening P2)\<rparr>) k2 = (r, F', P', k')"
  | (opened) en f P2 k2 where "fe_key en = key" and "fifo_count en P k = (f, P2, k2)"
      and "fifo_open_finish e en (flags AND o_nonblock \<noteq> 0) F P2 k2 = (r, F', P', k')"
proof -
  define nb where "nb = (flags AND o_nonblock \<noteq> 0)"
  define en where "en = \<lparr> fe_key = key, fe_read = fst (access_of flags), fe_write = snd (access_of flags) \<rparr>"
  obtain f P2 k2 where c: "fifo_count en P k = (f, P2, k2)" by (metis prod_cases3)
  show ?thesis
  proof (cases "fifo_refused e en nb F P")
    case (Some x)
    then have "P' = P" "k' = k" "F' = F" using assms by (simp_all add: fifo_open_def Let_def nb_def [symmetric] en_def [symmetric])
    then show ?thesis by (rule refused)
  next
    case None
    define w where "w = \<lparr> fw_end = en, fw_nonblock = nb,
        fw_for_writer = (fe_read en \<and> \<not> fe_write en \<and> \<not> nb \<and> ff_writers f = 0),
        fw_for_reader = (fe_write en \<and> \<not> fe_read en \<and> ff_readers f = 0),
        fw_seen_readers = ff_reader_opens f, fw_seen_writers = ff_writer_opens f \<rparr>"
    have eq: "fst (fifo_open e intr key flags F P k) =
       (if fw_for_writer w \<or> fw_for_reader w
        then fifo_wait_pass e intr w F (P2\<lparr>ps_opening := binsert (k_current k2) en (ps_opening P2)\<rparr>) k2
        else fifo_open_finish e en nb F P2 k2)"
      using None c unfolding fifo_open_def Let_def nb_def [symmetric] en_def [symmetric]
      by (auto simp: w_def)
    have key: "fe_key en = key" and fw: "fw_end w = en" by (simp_all add: en_def w_def)
    show ?thesis
    proof (cases "fw_for_writer w \<or> fw_for_reader w")
      case True
      show ?thesis by (rule waiting [OF key c fw]) (use eq True assms in simp)
    next
      case False
      show ?thesis by (rule opened [OF key c]) (use eq False assms nb_def in simp)
    qed
  qed
qed

lemma fifo_open_wakes:
  assumes "fst (fifo_open e intr key flags F P k) = (r, F', P', k')" and "pipes_ok P"
  shows "pipe_wakes P k P' k' \<and> pipes_ok P'"
  using assms(1)
proof (cases rule: fifo_open_cases)
  case refused
  then show ?thesis using assms(2) by (simp add: pipe_wakes_same)
next
  case (waiting en f P2 k2 w)
  note c = fifo_count_wakes [OF waiting(2) assms(2)]
  let ?P = "P2\<lparr>ps_opening := binsert (k_current k2) en (ps_opening P2)\<rparr>"
  have "pipe_wakes ?P k2 P' k' \<and> pipes_ok P'" by (rule fifo_wait_wakes [OF waiting(4)]) (use c in \<open>simp add: pipes_ok_frame\<close>)
  moreover have "pipe_wakes ?P k2 P' k' = pipe_wakes P2 k2 P' k'" by (rule pipe_wakes_cong) simp_all
  ultimately show ?thesis using c pipe_wakes_trans by blast
next
  case (opened en f P2 k2)
  note c = fifo_count_wakes [OF opened(2) assms(2)]
  show ?thesis using fifo_finish_wakes [OF opened(3)] c pipe_wakes_trans by blast
qed

lemma abandon_wakes:
  assumes "abandon_fifo_open pid P k = Some (P', k')" and "pipes_ok P"
  shows "pipe_wakes P k P' k' \<and> pipes_ok P'"
proof (cases "bget (ps_opening P) pid")
  case None
  then show ?thesis using assms by (simp add: abandon_fifo_open_def pipe_wakes_same)
next
  case (Some en)
  let ?P = "P\<lparr>ps_opening := bremove pid (ps_opening P)\<rparr>"
  have "fifo_release en ?P k = Some (P', k')" using assms(1) Some by (simp add: abandon_fifo_open_def)
  then show ?thesis
    using fifo_release_wakes [of en ?P k P' k'] assms(2) pipe_wakes_cong [of ?P P P' P' k k'] by (simp add: pipes_ok_frame)
qed

lemma fifo_close_wakes:
  assumes "fifo_close fd P k = (r, P', k')" and "pipes_ok P"
  shows "pipe_wakes P k P' k' \<and> pipes_ok P'"
proof (cases "bget (ps_fifo_ends P) fd")
  case None
  then show ?thesis using assms by (simp add: fifo_close_def pipe_wakes_same)
next
  case (Some en)
  let ?P = "P\<lparr>ps_fifo_ends := bremove fd (ps_fifo_ends P)\<rparr>"
  have "P' = P \<and> k' = k \<or> fifo_release en ?P k = Some (P', k')"
    using assms(1) Some by (auto simp: fifo_close_def split: option.splits)
  then show ?thesis
    using fifo_release_wakes [of en ?P k P' k'] assms(2) pipe_wakes_cong [of ?P P P' P' k k']
    by (auto simp: pipes_ok_frame pipe_wakes_same)
qed

lemma create_pipe_wakes:
  assumes "create_pipe e F P = (r, F', P')" and "pipes_ok P"
  shows "pipe_wakes P k P' k \<and> pipes_ok P'"
proof -
  obtain i P1 where n: "new_pipe_buffer P = (i, P1)" by (cases "new_pipe_buffer P")
  have "P' = P \<or> ps_pipes P' = ps_pipes P1 \<and> ps_next P' = ps_next P1"
    using assms(1) n unfolding create_pipe_def by (auto simp: Let_def split: kres.splits prod.splits unit.splits)
  moreover have "pipe_wakes P k P1 k" "pipes_ok P1" using new_pipe_buffer_wakes(1,2) [OF n assms(2)] by simp_all
  moreover have "pipe_wakes P k P' k = pipe_wakes P k P1 k" "pipes_ok P' = pipes_ok P1"
    if "ps_pipes P' = ps_pipes P1 \<and> ps_next P' = ps_next P1"
    using that pipe_wakes_cong [OF refl, of P' P1 P k k] by (simp_all add: pipes_ok_def)
  ultimately show ?thesis using assms(2) pipe_wakes_same [of P P k] by auto
qed

section \<open>Steps\<close>

text \<open>
  Reads and writes of one buffer, and everything else that touches the buffers: opening and closing
  ends, the waiting of FIFO opens, and the rest of the kernel.
\<close>

inductive pipe_io :: "nat \<Rightarrow> pipes \<times> kcore \<Rightarrow> pipes \<times> kcore \<Rightarrow> bool" where
  get: "read_pass i fd meet u m F P k = (r, u', m', P', k') \<Longrightarrow> pipe_io i (P, k) (P', k')"
| put: "uio_whole u \<Longrightarrow> u_rw u = UioWrite \<Longrightarrow> u_seg u = UserSeg \<Longrightarrow> 0 < u_resid u
    \<Longrightarrow> write_pass i fd u m w F P k = Some (r, w', u', P', k') \<Longrightarrow> pipe_io i (P, k) (P', k')"

inductive pipe_ctl :: "pipes \<times> kcore \<Rightarrow> pipes \<times> kcore \<Rightarrow> bool" where
  close: "pipe_close fd P k = (res, P', k') \<Longrightarrow> pipe_ctl (P, k) (P', k')"
| create: "create_pipe e F P = (made, F', P') \<Longrightarrow> pipe_ctl (P, k) (P', k)"
| fifo_open: "fst (fifo_open e intr key flags F P k) = (r, F', P', k') \<Longrightarrow> pipe_ctl (P, k) (P', k')"
| fifo_wait: "fifo_wait_pass e intr fw F P k = (r, F', P', k') \<Longrightarrow> pipe_ctl (P, k) (P', k')"
| fifo_close: "fifo_close fd P k = (res, P', k') \<Longrightarrow> pipe_ctl (P, k) (P', k')"
| abandon: "abandon_fifo_open pid P k = Some (P', k') \<Longrightarrow> pipe_ctl (P, k) (P', k')"
| other: "elsewhere is_pipe_reason k k' \<Longrightarrow> pipe_ctl (P, k) (P, k')"

inductive pipe_step :: "pipes \<times> kcore \<Rightarrow> pipes \<times> kcore \<Rightarrow> bool" where
  io: "pipe_io i x x' \<Longrightarrow> pipe_step x x'"
| ctl: "pipe_ctl x x' \<Longrightarrow> pipe_step x x'"

inductive_cases pipe_ioE: "pipe_io i (P, k) (P', k')"

lemma pipe_io_wakes:
  assumes "pipe_io i x x'" and "pipes_ok (fst x)"
  shows "pipe_wakes (fst x) (snd x) (fst x') (snd x') \<and> pipes_ok (fst x')"
  using assms
proof (induction rule: pipe_io.induct)
  case (get i fd meet u m F P k r u' m' P' k')
  then show ?case using read_wakes [OF get(1)] read_ok [OF get(1)] by simp
next
  case (put u i fd m w F P k r w' u' P' k')
  then show ?case using write_wakes [OF put(1-3) _ put(4,5)] by simp
qed

lemma pipe_ctl_wakes:
  assumes "pipe_ctl x x'" and "pipes_ok (fst x)"
  shows "pipe_wakes (fst x) (snd x) (fst x') (snd x') \<and> pipes_ok (fst x')"
  using assms
proof (induction rule: pipe_ctl.induct)
  case (close fd P k res P' k')
  then show ?case using pipe_close_wakes by simp
next
  case (create e F P made F' P' k)
  then show ?case using create_pipe_wakes [OF create(1)] by simp
next
  case (fifo_open e intr key flags F P k r F' P' k')
  then show ?case using fifo_open_wakes [OF fifo_open(1)] by simp
next
  case (fifo_wait e intr fw F P k r F' P' k')
  then show ?case using fifo_wait_wakes [OF fifo_wait(1)] by simp
next
  case (fifo_close fd P k res P' k')
  then show ?case using fifo_close_wakes [OF fifo_close(1)] by simp
next
  case (abandon pid P k P' k')
  then show ?case using abandon_wakes [OF abandon(1)] by simp
next
  case (other k k' P)
  then show ?case using blocked_as_elsewhere [OF other(1)] by (auto simp: pipe_wakes_def)
qed

lemma pipe_step_wakes:
  assumes "pipe_step x x'" and "pipes_ok (fst x)"
  shows "pipe_wakes (fst x) (snd x) (fst x') (snd x') \<and> pipes_ok (fst x')"
  using assms by (induction rule: pipe_step.induct) (use pipe_io_wakes pipe_ctl_wakes in blast)+

interpretation pipe_sleep: wakeup_discipline pipe_step pipe_waiting "\<lambda>x. pipe_stuck (fst x)" "\<lambda>x. pipes_ok (fst x)"
proof
  show "pipes_ok (fst x')" if "pipe_step x x'" "pipes_ok (fst x)" for x x'
    using pipe_step_wakes [OF that] by simp
  show "pipe_stuck (fst x') w \<or> pipe_waiting x p w \<and> (pipe_stuck (fst x) w \<longrightarrow> pipe_stuck (fst x') w)"
    if "pipe_step x x'" "pipes_ok (fst x)" "pipe_waiting x' p w" for x x' p w
    using pipe_step_wakes [OF that(1,2)] that(3) unfolding pipe_wakes_def pipe_waiting_def by blast
qed

end
