(* ===== verification/Pipe_Stream.thy ===== *)
theory Pipe_Stream
  imports Pipe
begin

text \<open>
  What the pipes of \<open>sys/fs/pipe.rs\<close> promise: a buffer is a queue of bytes, \<open>pipe(2)\<close> is all or
  nothing together with the descriptor table, \<open>poll\<close> reports what a call would find, and no sleeper
  is forgotten but for one case.
\<close>

section \<open>The stream\<close>

text \<open>What opening, closing and waiting leave alone: the bytes of every buffer that was there and still is.\<close>

definition pipe_kept :: "pipes \<Rightarrow> pipes \<Rightarrow> bool" where
  "pipe_kept P P' \<longleftrightarrow> ps_next P \<le> ps_next P' \<and> (\<forall>i p'. i < ps_next P \<longrightarrow> bget (ps_pipes P') i = Some p' \<longrightarrow>
     (\<exists>p. bget (ps_pipes P) i = Some p \<and> pb_data p = pb_data p'))"

lemma pipe_kept_same: "ps_pipes P' = ps_pipes P \<Longrightarrow> ps_next P' = ps_next P \<Longrightarrow> pipe_kept P P'"
  by (simp add: pipe_kept_def)

lemma pipe_kept_trans: "pipe_kept P P1 \<Longrightarrow> pipe_kept P1 P2 \<Longrightarrow> pipe_kept P P2"
  unfolding pipe_kept_def by (metis (no_types) le_trans order_less_le_trans)

lemma pipe_kept_cong:
  "ps_pipes P1 = ps_pipes P \<Longrightarrow> ps_next P1 = ps_next P \<Longrightarrow> pipe_kept P1 P' = pipe_kept P P'"
  by (simp add: pipe_kept_def)

lemma kept_new: "new_pipe_buffer P = (i, P') \<Longrightarrow> bwf (ps_pipes P) \<Longrightarrow> pipe_kept P P'"
  by (auto simp: new_pipe_buffer_def pipe_kept_def)

lemma kept_close_direction: "close_direction i dir P k = (P', k') \<Longrightarrow> bwf (ps_pipes P) \<Longrightarrow> pipe_kept P P'"
  by (auto simp: close_direction_def pipe_kept_def Let_def split: option.splits if_splits pipe_end.splits)

lemma kept_close: "pipe_close fd P k = (r, P', k') \<Longrightarrow> bwf (ps_pipes P) \<Longrightarrow> pipe_kept P P'"
  using kept_close_direction [of _ _ "P\<lparr>ps_ends := bremove fd (ps_ends P)\<rparr>"] pipe_kept_cong [of "P\<lparr>ps_ends := bremove fd (ps_ends P)\<rparr>" P]
  by (auto simp: pipe_close_def pipe_kept_same split: option.splits prod.splits)

lemma kept_changed: "fifo_changed f P k = (P', k') \<Longrightarrow> pipe_kept P P'"
  by (auto simp: fifo_changed_def pipe_kept_def split: if_splits)

lemma kept_release:
  assumes "fifo_release en P k = Some (P', k')" and "bwf (ps_pipes P)"
  shows "pipe_kept P P'"
  using assms
  by (auto simp: fifo_release_def fifo_changed_def Let_def pipe_kept_def split: option.splits if_splits)

lemma kept_finish:
  assumes "fifo_open_finish e en nb F P k = (r, F', P', k')" and "bwf (ps_pipes P)"
  shows "pipe_kept P P'"
proof -
  define P1 where "P1 = P\<lparr>ps_fifo_ends := binsert (fd_next F) en (ps_fifo_ends P)\<rparr>"
  define P2 where "P2 = P1\<lparr>ps_fifo_ends := bremove (fd_next F) (ps_fifo_ends P1)\<rparr>"
  have same: "ps_pipes P1 = ps_pipes P" "ps_next P1 = ps_next P" "ps_pipes P2 = ps_pipes P" "ps_next P2 = ps_next P"
    by (simp_all add: P1_def P2_def)
  have "P' = P1 \<and> k' = k \<or> fifo_release en P2 k = Some (P', k')"
    using assms(1) unfolding fifo_open_finish_def
    by (auto simp: alloc_fd_def Let_def P1_def [symmetric] P2_def [symmetric] split: prod.splits kres.splits option.splits)
  then show ?thesis
    using kept_release [of en P2 k P' k'] pipe_kept_cong [of P2 P P'] pipe_kept_same [of P1 P] same assms(2) by auto
qed

lemma kept_wait:
  assumes "fifo_wait_pass e intr w F P k = (r, F', P', k')" and "bwf (ps_pipes P)"
  shows "pipe_kept P P'"
proof (cases "bget (ps_fifos P) (fe_key (fw_end w))")
  case None
  then show ?thesis using assms by (simp add: fifo_wait_pass_def pipe_kept_same)
next
  case (Some f)
  define P1 where "P1 = P\<lparr>ps_opening := bremove (k_current k) (ps_opening P)\<rparr>"
  have same: "ps_pipes P1 = ps_pipes P" "ps_next P1 = ps_next P" by (simp_all add: P1_def)
  consider "fifo_open_finish e (fw_end w) (fw_nonblock w) F P1 k = (r, F', P', k')" | "fifo_release (fw_end w) P1 k = Some (P', k')"
    | "P' = P1" | "P' = P"
    using assms(1) Some by (auto simp: fifo_wait_pass_def Let_def P1_def [symmetric] split: if_splits option.splits)
  then show ?thesis
    using kept_finish [of e "fw_end w" "fw_nonblock w" F P1 k r F' P' k'] kept_release [of "fw_end w" P1 k P' k']
      pipe_kept_cong [of P1 P P', OF same] pipe_kept_same [of P1 P, OF same] pipe_kept_same [of P P] same assms(2)
    by cases auto
qed

lemma kept_count:
  assumes "fifo_count en P k = (f', P', k')" and "pipes_ok P"
  shows "pipe_kept P P' \<and> bwf (ps_pipes P')"
proof -
  obtain f P1 where f: "fifo_entry (fe_key en) P = (f, P1)" by (cases "fifo_entry (fe_key en) P")
  have "pipe_kept P P1"
    using f kept_new [of P _ P1] pipes_okD(1) [OF assms(2)]
    by (auto simp: fifo_entry_def pipe_kept_same Let_def split: option.splits prod.splits)
  moreover have "pipe_kept P1 P'"
    using assms(1) f kept_changed [of _ "P1\<lparr>ps_fifos := x\<rparr>" k P' k' for x] pipe_kept_cong [of "P1\<lparr>ps_fifos := x\<rparr>" P1 P' for x]
    by (auto simp: fifo_count_def Let_def)
  ultimately show ?thesis
    using pipe_kept_trans fifo_count_wakes [OF assms] pipes_okD(1) by blast
qed

lemma kept_open:
  assumes "fst (fifo_open e intr key flags F P k) = (r, F', P', k')" and "pipes_ok P"
  shows "pipe_kept P P'"
  using assms(1)
proof (cases rule: fifo_open_cases)
  case refused
  then show ?thesis by (simp add: pipe_kept_same)
next
  case (waiting en f P2 k2 w)
  let ?P = "P2\<lparr>ps_opening := binsert (k_current k2) en (ps_opening P2)\<rparr>"
  note c = kept_count [OF waiting(2) assms(2)]
  have "pipe_kept ?P P'" by (rule kept_wait [OF waiting(4)]) (use c in simp)
  then show ?thesis using c pipe_kept_cong [of ?P P2 P'] pipe_kept_trans [of P P2 P'] by simp
next
  case (opened en f P2 k2)
  note c = kept_count [OF opened(2) assms(2)]
  then show ?thesis using kept_finish [OF opened(3)] pipe_kept_trans by blast
qed

lemma kept_abandon:
  assumes "abandon_fifo_open pid P k = Some (P', k')" and "bwf (ps_pipes P)"
  shows "pipe_kept P P'"
  using assms kept_release [of _ "P\<lparr>ps_opening := bremove pid (ps_opening P)\<rparr>" k P' k']
    pipe_kept_cong [of "P\<lparr>ps_opening := bremove pid (ps_opening P)\<rparr>" P P']
  by (auto simp: abandon_fifo_open_def pipe_kept_same split: option.splits)

lemma kept_fifo_close:
  assumes "fifo_close fd P k = (r, P', k')" and "bwf (ps_pipes P)"
  shows "pipe_kept P P'"
  using assms kept_release [of _ "P\<lparr>ps_fifo_ends := bremove fd (ps_fifo_ends P)\<rparr>" k P' k']
    pipe_kept_cong [of "P\<lparr>ps_fifo_ends := bremove fd (ps_fifo_ends P)\<rparr>" P P']
  by (auto simp: fifo_close_def pipe_kept_same split: option.splits)

lemma kept_create:
  assumes "create_pipe e F P = (r, F', P')" and "bwf (ps_pipes P)"
  shows "pipe_kept P P'"
proof -
  obtain i P1 where n: "new_pipe_buffer P = (i, P1)" by (cases "new_pipe_buffer P")
  have "P' = P \<or> ps_pipes P' = ps_pipes P1 \<and> ps_next P' = ps_next P1"
    using assms(1) n unfolding create_pipe_def by (auto simp: Let_def split: kres.splits prod.splits)
  then show ?thesis using kept_new [OF n assms(2)] by (auto simp: pipe_kept_def)
qed

lemma pipe_ctl_kept:
  assumes "pipe_ctl x x'" and "pipes_ok (fst x)"
  shows "pipe_kept (fst x) (fst x')"
  using assms
proof (induction rule: pipe_ctl.induct)
  case (close fd P k res P' k')
  then show ?case using kept_close [OF close(1)] pipes_okD(1) by simp
next
  case (create e F P made F' P' k)
  then show ?case using kept_create [OF create(1)] pipes_okD(1) by simp
next
  case (fifo_open e intr key flags F P k r F' P' k')
  then show ?case using kept_open [OF fifo_open(1)] by simp
next
  case (fifo_wait e intr fw F P k r F' P' k')
  then show ?case using kept_wait [OF fifo_wait(1)] pipes_okD(1) by simp
next
  case (fifo_close fd P k res P' k')
  then show ?case using kept_fifo_close [OF fifo_close(1)] pipes_okD(1) by simp
next
  case (abandon pid P k P' k')
  then show ?case using kept_abandon [OF abandon(1)] pipes_okD(1) by simp
next
  case (other k k' P)
  then show ?case by (simp add: pipe_kept_same)
qed

text \<open>
  A buffer's life with its history: the bytes accepted from writers and the bytes delivered to readers,
  both as they stand in the callers' memories. A read that faults is left out: what it had already
  delivered is gone from the buffer but not reported.
\<close>

inductive pipe_stream ::
  "nat \<Rightarrow> (pipes \<times> kcore) \<times> u8 list \<times> u8 list \<Rightarrow> (pipes \<times> kcore) \<times> u8 list \<times> u8 list \<Rightarrow> bool" for i where
  put: "uio_whole u \<Longrightarrow> u_rw u = UioWrite \<Longrightarrow> u_seg u = UserSeg \<Longrightarrow> 0 < u_resid u
    \<Longrightarrow> write_pass i fd u m w F P k = Some (r, w', u', P', k')
    \<Longrightarrow> pipe_stream i ((P, k), sent, got) ((P', k'), sent @ map (m_bytes m) (take (w' - w) (uio_addrs u)), got)"
| get: "uio_whole u \<Longrightarrow> u_rw u = UioRead \<Longrightarrow> u_seg u = UserSeg \<Longrightarrow> distinct (uio_addrs u)
    \<Longrightarrow> read_pass i fd meet u m F P k = (r, u', m', P', k') \<Longrightarrow> r \<noteq> Return (Err EFAULT)
    \<Longrightarrow> pipe_stream i ((P, k), sent, got)
          ((P', k'), sent, got @ map (m_bytes m') (take (u_resid u - u_resid u') (uio_addrs u)))"
| aside: "pipe_io j x x' \<Longrightarrow> j \<noteq> i \<Longrightarrow> pipe_stream i (x, sent, got) (x', sent, got)"
| ctl: "pipe_ctl x x' \<Longrightarrow> pipe_stream i (x, sent, got) (x', sent, got)"

definition stream_ok :: "nat \<Rightarrow> (pipes \<times> kcore) \<times> u8 list \<times> u8 list \<Rightarrow> bool" where
  "stream_ok i s \<longleftrightarrow> (case s of ((P, _), sent, got) \<Rightarrow>
     pipes_ok P \<and> i < ps_next P \<and> (\<forall>p. bget (ps_pipes P) i = Some p \<longrightarrow> sent = got @ pb_data p))"

lemma write_pass_next:
  assumes "uio_whole u" and "u_rw u = UioWrite" and "u_seg u = UserSeg" and "pipes_ok P" and "0 < u_resid u"
    and "write_pass i fd u m w F P k = Some (r, w', u', P', k')"
  shows "ps_next P' = ps_next P" and "\<And>j. j \<noteq> i \<Longrightarrow> bget (ps_pipes P') j = bget (ps_pipes P) j"
    and "bget (ps_pipes P') i = Some p' \<Longrightarrow> \<exists>p. bget (ps_pipes P) i = Some p
          \<and> pb_data p' = pb_data p @ map (m_bytes m) (take (w' - w) (uio_addrs u))"
proof -
  have "ps_next P' = ps_next P \<and> (\<forall>j. j \<noteq> i \<longrightarrow> bget (ps_pipes P') j = bget (ps_pipes P) j)
      \<and> (\<forall>p'. bget (ps_pipes P') i = Some p' \<longrightarrow> (\<exists>p. bget (ps_pipes P) i = Some p
          \<and> pb_data p' = pb_data p @ map (m_bytes m) (take (w' - w) (uio_addrs u))))"
    using assms(1-5)
    by (cases rule: write_pass_cases [where i = i and fd = fd and m = m and w = w and F = F and k = k])
      (use assms(6) in auto)
  then show "ps_next P' = ps_next P" "\<And>j. j \<noteq> i \<Longrightarrow> bget (ps_pipes P') j = bget (ps_pipes P) j"
    "bget (ps_pipes P') i = Some p' \<Longrightarrow> \<exists>p. bget (ps_pipes P) i = Some p
          \<and> pb_data p' = pb_data p @ map (m_bytes m) (take (w' - w) (uio_addrs u))" by simp_all
qed

lemma read_pass_next:
  assumes "read_pass i fd meet u m F P k = (r, u', m', P', k')"
  shows "ps_next P' = ps_next P" and "\<And>j. j \<noteq> i \<Longrightarrow> bget (ps_pipes P') j = bget (ps_pipes P) j"
  using assms by (cases rule: read_pass_cases; simp)+

lemma read_pass_delivers:
  assumes "uio_whole u" and "u_rw u = UioRead" and "u_seg u = UserSeg" and "distinct (uio_addrs u)"
    and "read_pass i fd meet u m F P k = (r, u', m', P', k')" and "r \<noteq> Return (Err EFAULT)"
    and "bget (ps_pipes P') i = Some p'"
  shows "\<exists>p. bget (ps_pipes P) i = Some p
    \<and> pb_data p = map (m_bytes m') (take (u_resid u - u_resid u') (uio_addrs u)) @ pb_data p'"
proof (cases "\<exists>p. bget (ps_pipes P) i = Some p \<and> pb_data p \<noteq> []")
  case False
  then show ?thesis using assms(5,7) by (auto simp: read_pass_def split: option.splits if_splits)
next
  case True
  then obtain p where p: "bget (ps_pipes P) i = Some p" "pb_data p \<noteq> []" by auto
  obtain r1 moved u1 m1 where rr: "read_runs u m (pb_data p) meet = (r1, moved, u1, m1)" and le: "moved \<le> length (pb_data p)"
    and res: "r1 = Err EFAULT \<or> r1 = Ok moved \<and> moved = min (u_resid u) (length (pb_data p))
       \<and> map (m_bytes m1) (take moved (uio_addrs u)) = take moved (pb_data p) \<and> moved_on u moved u1"
    by (rule read_runs_spec [OF assms(1-4), of m "pb_data p" meet])
  have out: "r = Return r1" "u' = u1" "m' = m1" "P' = set_data i (drop moved (pb_data p)) P"
    using assms(5) p rr by (simp_all add: read_pass_def)
  have "pb_data p' = drop moved (pb_data p)" using assms(7) p by (auto simp: out)
  moreover have "u_resid u - u_resid u' = moved"
    using res assms(6) by (auto simp: out moved_on_def)
  ultimately show ?thesis using res assms(6) p by (auto simp: out append_take_drop_id)
qed

lemma pipe_io_aside:
  assumes "pipe_io j x x'" and "pipes_ok (fst x)" and "j \<noteq> i"
  shows "bget (ps_pipes (fst x')) i = bget (ps_pipes (fst x)) i \<and> ps_next (fst x') = ps_next (fst x)"
  using assms
proof (induction rule: pipe_io.induct)
  case (get i fd meet u m F P k r u' m' P' k')
  then show ?case using read_pass_next [OF get(1)] by simp
next
  case (put u i fd m w F P k r w' u' P' k')
  then show ?case using write_pass_next(1,2) [OF put(1-3) _ put(4,5)] by simp
qed

lemma pipe_stream_step:
  assumes "pipe_stream i s s'" and "stream_ok i s"
  shows "stream_ok i s'"
  using assms
proof (induction rule: pipe_stream.induct)
  case (put u fd m w F P k r w' u' P' k' sent got)
  then have ok: "pipes_ok P" by (simp add: stream_ok_def)
  note n = write_pass_next [OF put(1-3) ok put(4,5)]
  have "pipes_ok P'" using write_wakes [OF put(1-3) ok put(4,5)] by simp
  then show ?case using put(6) n(1,3) by (fastforce simp: stream_ok_def)
next
  case (get u fd meet m F P k r u' m' P' k' sent got)
  then have ok: "pipes_ok P" by (simp add: stream_ok_def)
  show ?case using get(7) read_ok [OF get(5) ok] read_pass_next(1) [OF get(5)] read_pass_delivers [OF get(1-6)]
    by (fastforce simp: stream_ok_def)
next
  case (aside j x x' sent got)
  then have ok: "pipes_ok (fst x)" by (auto simp: stream_ok_def split: prod.splits)
  show ?case using aside(3) pipe_io_wakes [OF aside(1) ok] pipe_io_aside [OF aside(1) ok aside(2)]
    by (auto simp: stream_ok_def split: prod.splits)
next
  case (ctl x x' sent got)
  then have ok: "pipes_ok (fst x)" by (auto simp: stream_ok_def split: prod.splits)
  show ?case using ctl(2) pipe_ctl_wakes [OF ctl(1) ok] pipe_ctl_kept [OF ctl(1) ok]
    by (fastforce simp: stream_ok_def pipe_kept_def split: prod.splits)
qed

lemma pipe_stream_reach:
  assumes "(pipe_stream i)\<^sup>*\<^sup>* s s'" and "stream_ok i s"
  shows "stream_ok i s'"
  using assms by (induction rule: rtranclp_induct) (use pipe_stream_step in blast)+

section \<open>Making a pipe, and unmaking it\<close>

lemma finstall_room:
  assumes "fd_inv s held" and "\<not> kernel_opening e s" and "\<not> opened s r" and "r < fd_next s"
    and "length (fd_descs s) < ev_maxfiles e" and "0 < ft_free_below (ev_tgid e) (ev_nofile e) (fd_tab s)"
  obtains fd s' d where "finstall e r ops data flag kind s = (Ok fd, s')" and "fd_inv s' held"
    and "s' = s\<lparr>fd_descs := binsert r d (fd_descs s), fd_tab := ft_insert (ev_tgid e, fd) r (fd_tab s)\<rparr>"
    and "d_ops d = ops" and "d_vnode d = 0" and "d_refs d = 1" and "fd < ev_nofile e" and "slot s (ev_tgid e, fd) = None"
    and "ft_free_below (ev_tgid e) (ev_nofile e) (fd_tab s') = ft_free_below (ev_tgid e) (ev_nofile e) (fd_tab s) - 1"
    and "length (fd_descs s') = Suc (length (fd_descs s))"
proof -
  note i = fd_invD [OF assms(1)]
  define fd where "fd = ft_lowest_free (ev_tgid e) 0 (fd_tab s)"
  define d where "d = \<lparr> d_ops = ops, d_data = data, d_flag = flag, d_offset = 0, d_kind = kind, d_refs = 0, d_vnode = 0 \<rparr>"
  define s' where "s' = s\<lparr>fd_descs := binsert r (d\<lparr>d_refs := 1\<rparr>) (fd_descs s), fd_tab := ft_insert (ev_tgid e, fd) r (fd_tab s)\<rparr>"
  have run: "finstall e r ops data flag kind s = (Ok fd, s')"
    using assms(2,5) install_new [OF i(2), of d "ev_tgid e" fd r] by (simp add: finstall_def d_def s'_def fd_def Let_def)
  have inv: "fd_inv s' held"
    using assms(1,3,4) by (cases rule: finstall_cases [where e = e and ops = ops and data = data and flag = flag and kind = kind])
      (use assms(2,5) run in auto)
  have lim: "fd < ev_nofile e" unfolding fd_def by (rule lowest_below [OF i(1) assms(6)])
  have new: "slot s (ev_tgid e, fd) = None" using lowest_free_fresh [OF i(1)] by (simp add: fd_def slot_def)
  then have "fd \<notin> numbers (fd_tab s) (ev_tgid e)" by (simp add: numbers_def slot_def)
  from free_below_insert [OF i(1) this lim, of r]
  have "ft_free_below (ev_tgid e) (ev_nofile e) (fd_tab s') = ft_free_below (ev_tgid e) (ev_nofile e) (fd_tab s) - 1"
    by (simp add: s'_def)
  moreover have "length (fd_descs s') = Suc (length (fd_descs s))"
    using assms(3) i(2) by (simp add: s'_def) (intro length_binsert_fresh, simp_all add: opened_def)
  ultimately show ?thesis using that [of fd s' "d\<lparr>d_refs := 1\<rparr>"] run inv lim new by (simp add: s'_def d_def)
qed

lemma unat_fd: "fd < 2 ^ 32 \<Longrightarrow> unat (ucast (word_of_nat fd :: u64) :: u32) = fd"
  by (simp add: unat_eq_nat_uint unsigned_ucast_eq unsigned_of_nat take_bit_nat_eq_self flip: of_nat_take_bit)

lemma filter_only: "distinct xs \<Longrightarrow> x \<in> set xs \<Longrightarrow> filter (\<lambda>y. x \<le> y \<and> y \<le> x) xs = [x]" for x :: nat
proof (induction xs)
  case (Cons y ys)
  have "filter (\<lambda>y. x \<le> y \<and> y \<le> x) ys = []" if "x \<notin> set ys" using that by (auto simp: filter_empty_conv)
  then show ?case using Cons by (cases "x = y") auto
qed simp

lemma close_and_run_last:
  assumes "fd_inv F held" and "slot F (ev_tgid e, fd) = Some r" and "fd < 2 ^ 32"
    and "bget (fd_descs F) r = Some d" and "d_refs d = 1" and "d_vnode d = 0" and "fo_table (d_ops d) \<in> {Other_ops 1, Other_ops 2}"
  obtains F' where "close_and_run e fd F P k = (F', snd (pipe_close r P k))" and "fd_inv F' held"
    and "\<And>q. slot F' q = (if q = (ev_tgid e, fd) then None else slot F q)"
    and "fd_descs F' = bremove r (fd_descs F)" and "fd_next F' = fd_next F"
proof -
  note i = fd_invD [OF assms(1)]
  obtain F' where F': "close_one (ev_tgid e) fd F = Some (True, F')" "dropped r d [Slot_closed r] F F'" "fd_inv F' held"
      "ft_map (fd_tab F') = bremove (ev_tgid e, fd) (ft_map (fd_tab F))"
    using close_one_Some [OF assms(1,2)] assms(4) by (metis option.inject)
  have "fd \<in> set (map fst (slots_of (ev_tgid e) F))"
    using in_slots_of [OF i(1), of fd r "ev_tgid e"] assms(2) by force
  then have one: "filter (\<lambda>x. fd \<le> x \<and> x \<le> fd) (map fst (slots_of (ev_tgid e) F)) = [fd]"
    using distinct_slots_of [OF i(1), of "ev_tgid e"] filter_only by blast
  have "close_range e (word_of_nat fd) (word_of_nat fd) 0 F = (Ok 0, F')"
    using F'(1) close_marked_eq [OF assms(1), of "ev_tgid e" fd]
    by (simp add: close_range_def Let_def unat_fd [OF assms(3)] one)
  moreover have "drop (length (fd_log F)) (fd_log F') = [Closed r (fo_table (d_ops d))]"
    using F'(2) assms(5,6) by (simp add: dropped_def drop_vnode_def)
  ultimately have "close_and_run e fd F P k = (F', snd (pipe_close r P k))"
    using assms(7) by (auto simp: close_and_run_def split: prod.splits)
  then show ?thesis
    using that F' assms(5) by (auto simp: dropped_def slot_def)
qed

text \<open>A new pipe on two fresh files: both of its ends registered, its buffer empty and open.\<close>

definition piped :: "fd_env \<Rightarrow> nat \<Rightarrow> nat \<Rightarrow> fds \<Rightarrow> pipes \<Rightarrow> fds \<Rightarrow> pipes \<Rightarrow> bool" where
  "piped e a b F P F' P' \<longleftrightarrow> a \<noteq> b \<and> a < ev_nofile e \<and> b < ev_nofile e
     \<and> slot F (ev_tgid e, a) = None \<and> slot F (ev_tgid e, b) = None
     \<and> slot F' = (slot F)((ev_tgid e, a) \<mapsto> fd_next F, (ev_tgid e, b) \<mapsto> fd_next F + 1)
     \<and> bget (ps_ends P') = (bget (ps_ends P))(fd_next F \<mapsto> (ps_next P, ReadEnd), fd_next F + 1 \<mapsto> (ps_next P, WriteEnd))
     \<and> bget (ps_pipes P') = (bget (ps_pipes P))(ps_next P \<mapsto> \<lparr> pb_data = [], pb_read_closed = False, pb_write_closed = False \<rparr>)"

lemma fd_inv_fresh: "fd_inv s held \<Longrightarrow> fd_next s \<le> r \<Longrightarrow> \<not> opened s r"
  using fd_inv_at [of s held r] by (auto simp: opened_def ref_at_def log_at_def split: option.splits)

lemma create_pipe_cases:
  assumes "fd_inv F held" and "\<not> kernel_opening e F"
  obtains (refused) er where "create_pipe e F P = (Err er, F, P)"
  | (made) a b da db F' P' where "create_pipe e F P = (Ok (Ok a, Ok b), F', P')" and "fd_inv F' held" and "piped e a b F P F' P'"
      and "fd_descs F' = binsert (fd_next F + 1) db (binsert (fd_next F) da (fd_descs F))"
      and "bget (fd_descs F) (fd_next F) = None" and "bget (fd_descs F) (fd_next F + 1) = None"
      and "d_refs da = 1" and "d_vnode da = 0" and "d_ops da = pipe_read_ops"
      and "d_refs db = 1" and "d_vnode db = 0" and "d_ops db = pipe_write_ops"
proof (cases "check_room e 2 F")
  case (Ok x)
  define s where "s = F\<lparr>fd_next := fd_next F + 1\<rparr>\<lparr>fd_next := fd_next F + 1 + 1\<rparr>"
  have inv: "fd_inv s held"
    using fd_inv_alloc [OF fd_inv_alloc [OF assms(1)]] by (simp add: s_def)
  have room: "length (fd_descs s) + 2 \<le> ev_maxfiles e" "2 \<le> ft_free_below (ev_tgid e) (ev_nofile e) (fd_tab s)"
    using Ok assms(2) by (auto simp: check_room_def s_def split: if_splits)
  have k: "\<not> kernel_opening e s" using assms(2) by (simp add: kernel_opening_def s_def)
  have fresh: "\<not> opened F (fd_next F)" "\<not> opened F (fd_next F + 1)" using fd_inv_fresh [OF assms(1)] by simp_all
  then have o1: "\<not> opened s (fd_next F)" by (simp add: opened_def s_def)
  obtain a s1 da where a: "finstall e (fd_next F) pipe_read_ops (ps_next P) fread (FPipe (ps_next P)) s = (Ok a, s1)" "fd_inv s1 held"
      "s1 = s\<lparr>fd_descs := binsert (fd_next F) da (fd_descs s), fd_tab := ft_insert (ev_tgid e, a) (fd_next F) (fd_tab s)\<rparr>"
      "d_ops da = pipe_read_ops" "d_vnode da = 0" "d_refs da = 1" "a < ev_nofile e" "slot s (ev_tgid e, a) = None"
      "ft_free_below (ev_tgid e) (ev_nofile e) (fd_tab s1) = ft_free_below (ev_tgid e) (ev_nofile e) (fd_tab s) - 1"
      "length (fd_descs s1) = Suc (length (fd_descs s))"
    by (rule finstall_room [OF inv k o1, of pipe_read_ops "ps_next P" fread "FPipe (ps_next P)"])
      (use room in \<open>simp_all add: s_def\<close>)
  have k1: "\<not> kernel_opening e s1" using k by (simp add: kernel_opening_def a(3))
  have o2: "\<not> opened s1 (fd_next F + 1)" using fresh by (simp add: opened_def a(3) s_def)
  obtain b s2 db where b: "finstall e (fd_next F + 1) pipe_write_ops (ps_next P) fwrite (FPipe (ps_next P)) s1 = (Ok b, s2)" "fd_inv s2 held"
      "s2 = s1\<lparr>fd_descs := binsert (fd_next F + 1) db (fd_descs s1), fd_tab := ft_insert (ev_tgid e, b) (fd_next F + 1) (fd_tab s1)\<rparr>"
      "d_ops db = pipe_write_ops" "d_vnode db = 0" "d_refs db = 1" "b < ev_nofile e" "slot s1 (ev_tgid e, b) = None"
    by (rule finstall_room [OF a(2) k1 o2, of pipe_write_ops "ps_next P" fwrite "FPipe (ps_next P)"])
      (use room a in \<open>simp_all add: s_def\<close>)
  define P' where "P' = (snd (new_pipe_buffer P))\<lparr>ps_ends := binsert (fd_next F + 1) (ps_next P, WriteEnd)
      (binsert (fd_next F) (ps_next P, ReadEnd) (ps_ends P))\<rparr>"
  have slot1: "slot s1 q = (if q = (ev_tgid e, a) then Some (fd_next F) else slot s q)" for q by (rule slot_insert) (simp add: a(3))
  have slot2: "slot s2 q = (if q = (ev_tgid e, b) then Some (fd_next F + 1) else slot s1 q)" for q by (rule slot_insert) (simp add: b(3))
  have slots: "slot s q = slot F q" for q by (simp add: slot_def s_def)
  have "create_pipe e F P = (Ok (Ok a, Ok b), s2, P')"
    using Ok a(1) b(1) by (simp add: create_pipe_def alloc_fd_def new_pipe_buffer_def P'_def s_def)
  moreover have "piped e a b F P s2 P'"
    using a(7,8) b(7,8) slot1 slot2 slots
    by (auto simp: piped_def P'_def new_pipe_buffer_def bget_binsert fun_eq_iff split: if_splits)
  moreover have "fd_descs s2 = binsert (fd_next F + 1) db (binsert (fd_next F) da (fd_descs F))" by (simp add: b(3) a(3) s_def)
  ultimately show ?thesis using made [of a b s2 P' db da] a(4-6) b(2,4-6) fresh by (simp add: opened_def)
qed (use refused in \<open>auto simp: create_pipe_def check_room_def split: if_splits\<close>)

lemma copyout_result: "copyout m bs dst = (r, m') \<Longrightarrow> r = Ok () \<or> r = Err EFAULT"
  by (auto simp: copyout_def split: if_splits prod.splits bool.splits)

text \<open>Closing both ends of a fresh pipe, read end first, takes its buffer away again.\<close>

lemma close_both_ends:
  assumes "bget (ps_ends P) r = Some (i, ReadEnd)" and "bget (ps_ends P) w = Some (i, WriteEnd)" and "r \<noteq> w" and "bwf (ps_pipes P)"
    and "bget (ps_pipes P) i = Some p" and "\<not> pb_read_closed p" and "\<not> pb_write_closed p"
    and "pipe_close r P k = (x, P1, k1)" and "pipe_close w P1 k1 = (y, P2, k2)"
  shows "bget (ps_ends P2) = (bget (ps_ends P))(r := None, w := None)" and "bget (ps_pipes P2) = (bget (ps_pipes P))(i := None)"
    and "ps_next P2 = ps_next P"
proof -
  have P1: "P1 = P\<lparr>ps_ends := bremove r (ps_ends P), ps_pipes := binsert i (p\<lparr>pb_read_closed := True\<rparr>) (ps_pipes P)\<rparr>"
    using assms(1,5-8) by (simp add: pipe_close_def close_direction_def Let_def)
  have P2: "P2 = P1\<lparr>ps_ends := bremove w (ps_ends P1), ps_pipes := bremove i (ps_pipes P1)\<rparr>"
    using assms(2,3,9) by (simp add: pipe_close_def close_direction_def Let_def P1 bget_bremove)
  show "bget (ps_ends P2) = (bget (ps_ends P))(r := None, w := None)" "bget (ps_pipes P2) = (bget (ps_pipes P))(i := None)"
    "ps_next P2 = ps_next P"
    by (auto simp: P2 P1 bget_bremove bget_binsert)
qed

lemma do_pipe_cases:
  assumes "fd_inv F held" and "\<not> kernel_opening e F" and "pipes_ok P" and "ev_nofile e \<le> 2 ^ 31"
    and "\<And>r. bget (ps_ends P) r \<noteq> None \<Longrightarrow> r < fd_next F" and "do_pipe e ptr m F P k = (r, m', F', P', k')"
  shows "fd_inv F' held \<and> (r = Ok 0 \<and> (\<exists>a b. piped e a b F P F' P' \<and> copyout m (le_sbytes 4 (int a) @ le_sbytes 4 (int b)) ptr = (Ok (), m'))
    \<or> (\<exists>er. r = Err er) \<and> slot F' = slot F \<and> bget (fd_descs F') = bget (fd_descs F)
      \<and> bget (ps_ends P') = bget (ps_ends P) \<and> bget (ps_pipes P') = bget (ps_pipes P))"
  using assms(1,2)
proof (cases rule: create_pipe_cases [where P = P])
  case (refused er)
  then show ?thesis using assms(1,6) by (auto simp: do_pipe_def)
next
  case (made a b da db F1 P1)
  let ?bs = "le_sbytes 4 (int a) @ le_sbytes 4 (int b)"
  let ?r = "fd_next F" and ?w = "fd_next F + 1" and ?t = "ev_tgid e"
  note pd = made(3) [unfolded piped_def]
  obtain c m1 where c: "copyout m ?bs ptr = (c, m1)" by (cases "copyout m ?bs ptr")
  show ?thesis
  proof (cases "c = Ok ()")
    case True
    then have "r = Ok 0" "m' = m1" "F' = F1" "P' = P1" using assms(6) made(1) c by (simp_all add: do_pipe_def copyout_fds_def)
    then show ?thesis using made(2,3) c True by blast
  next
    case False
    then have fault: "c = Err EFAULT" using copyout_result [OF c] by simp
    have lim: "a < 2 ^ 32" "b < 2 ^ 32" using pd assms(4) by simp_all
    have ga: "bget (fd_descs F1) ?r = Some da" and sa: "slot F1 (?t, a) = Some ?r" using pd by (simp_all add: made(4))
    obtain F2 where F2: "close_and_run e a F1 P1 k = (F2, snd (pipe_close ?r P1 k))" "fd_inv F2 held"
        "\<And>q. slot F2 q = (if q = (?t, a) then None else slot F1 q)" "fd_descs F2 = bremove ?r (fd_descs F1)"
      by (rule close_and_run_last [OF made(2) sa lim(1) ga made(7,8), of P1 k]) (simp_all add: made(9) pipe_read_ops_def)
    obtain x P2 k2 where P2: "pipe_close ?r P1 k = (x, P2, k2)" by (metis prod_cases3)
    have gb: "bget (fd_descs F2) ?w = Some db" and sb: "slot F2 (?t, b) = Some ?w" using pd by (simp_all add: made(4) F2(3,4))
    obtain F3 where F3: "close_and_run e b F2 P2 k2 = (F3, snd (pipe_close ?w P2 k2))" "fd_inv F3 held"
        "\<And>q. slot F3 q = (if q = (?t, b) then None else slot F2 q)" "fd_descs F3 = bremove ?w (fd_descs F2)"
      by (rule close_and_run_last [OF F2(2) sb lim(2) gb made(10,11), of P2 k2]) (simp_all add: made(12) pipe_write_ops_def)
    obtain y P3 k3 where P3: "pipe_close ?w P2 k2 = (y, P3, k3)" by (metis prod_cases3)
    have res: "r = Err EFAULT" "F' = F3" "P' = P3"
      using assms(6) made(1) c fault F2(1) P2 F3(1) P3 by (simp_all add: do_pipe_def copyout_fds_def)
    have ok1: "bwf (ps_pipes P1)"
      using create_pipe_wakes [OF made(1) assms(3)] pipes_okD(1) by blast
    have ends: "bget (ps_ends P1) ?r = Some (ps_next P, ReadEnd)" "bget (ps_ends P1) ?w = Some (ps_next P, WriteEnd)"
      using pd by simp_all
    note gone = close_both_ends [OF ends _ ok1 _ _ _ P2 P3]
    have none: "bget (ps_ends P) ?r = None" "bget (ps_ends P) ?w = None" "bget (ps_pipes P) (ps_next P) = None"
      using assms(5) [of ?r] assms(5) [of ?w] pipes_okD(2) [OF assms(3), of "ps_next P"] by (auto intro: ccontr)
    have "slot F3 q = slot F q" for q using pd F3(3) F2(3) by (cases q) auto
    moreover have "bget (fd_descs F3) q = bget (fd_descs F) q" for q using made(5,6) by (simp add: F3(4) F2(4) made(4))
    moreover have "bget (ps_ends P3) = bget (ps_ends P)" "bget (ps_pipes P3) = bget (ps_pipes P)"
      using gone pd none by (auto simp: fun_eq_iff)
    ultimately show ?thesis using F3(2) by (simp add: res fun_eq_iff)
  qed
qed

section \<open>Readiness is what a call would find\<close>

lemma write_side_defined: "pipes_ok P \<Longrightarrow> \<exists>w er. write_side P i = Some (w, er)"
proof (cases "bget (ps_pipes P) i")
  case (Some p)
  moreover assume "pipes_ok P"
  ultimately have "\<not> pipe_capacity < length (pb_data p)" using pipes_okD(2) by (simp add: leD)
  with Some show ?thesis by (cases "pb_read_closed p \<or> pb_write_closed p") (auto simp: write_side_def)
qed (auto simp: write_side_def)

lemma read_pass_ready:
  assumes "uio_whole u" and "u_rw u = UioRead" and "u_seg u = UserSeg" and "distinct (uio_addrs u)"
  shows "fst (read_side P i) \<longleftrightarrow> fst (read_pass i fd meet u m F P k) \<notin> {Sleep, Return (Err EAGAIN)}"
proof (cases "\<exists>p. bget (ps_pipes P) i = Some p \<and> pb_data p \<noteq> []")
  case False
  then show ?thesis by (auto simp: read_side_def read_pass_def split: option.splits)
next
  case True
  then obtain p where p: "bget (ps_pipes P) i = Some p" "pb_data p \<noteq> []" by blast
  obtain r moved u' m' where "read_runs u m (pb_data p) meet = (r, moved, u', m')" and "r = Err EFAULT \<or> r = Ok moved"
    using read_runs_spec [OF assms, of m "pb_data p" meet] by metis
  then show ?thesis using p by (auto simp: read_side_def read_pass_def)
qed

lemma write_pass_ready:
  assumes "uio_whole u" and "u_rw u = UioWrite" and "u_seg u = UserSeg" and "pipes_ok P" and "0 < u_resid u"
    and "u_resid u \<le> pipe_buf" and "uio_reads m u" and "write_side P i = Some (w, er)"
  shows "(w \<longrightarrow> map_option fst (write_pass i fd u m 0 F P k) = Some (Return (Ok (u_resid u))))
    \<and> (er \<longrightarrow> map_option fst (write_pass i fd u m 0 F P k) = Some (Return (Err EPIPE)))"
  using assms(1-5)
proof (cases rule: write_pass_cases [where i = i and fd = fd and m = m and w = 0 and F = F and k = k])
  case shut
  then show ?thesis using assms(8) by (auto simp: write_side_def short_or_def split: option.splits if_splits)
next
  case (busy p)
  have "\<not> er" if "\<not> pb_read_closed p \<and> \<not> pb_write_closed p"
    using that busy(2) assms(8) by (auto simp: write_side_def split: if_splits)
  moreover have "write_pass i fd u m 0 F P k = Some (Return (Err EPIPE), 0, u, P, k)" if "pb_read_closed p \<or> pb_write_closed p"
    using that busy(2) by (subst write_pass.simps) (simp add: write_turn_def short_or_def)
  ultimately show ?thesis
    using busy assms(8) by (auto simp: write_side_def pipe_buf_def split: if_splits)
next
  case (sleep p)
  then show ?thesis using assms(8) by (auto simp: write_side_def pipe_buf_def split: if_splits)
next
  case (some p n r u' k')
  have "\<not> er" using some(1-3) assms(8) by (auto simp: write_side_def split: if_splits)
  moreover have "pipe_buf \<le> pipe_capacity - length (pb_data p)" if w
    using that some(1-3) assms(8) by (auto simp: write_side_def split: if_splits)
  ultimately show ?thesis using some assms(6,7) by (auto simp: pipe_buf_def)
qed

section \<open>Properties\<close>

text \<open>
  C6. A pipe is a queue of bytes: from its creation on, through any interleaving of reads and writes with
  every other use of the pipes, what the writes have accepted is what the reads have delivered followed by
  what the buffer holds, byte for byte in the callers' memories, and the buffer stays within its capacity.
  A read that faults is not among the steps: it may take bytes it has not delivered.
\<close>

theorem pipe_stream_order:
  assumes "new_pipe_buffer P0 = (i, P)" and "pipes_ok P0"
    and "(pipe_stream i)\<^sup>*\<^sup>* ((P, k), [], []) ((P', k'), sent, got)" and "bget (ps_pipes P') i = Some p"
  shows "sent = got @ pb_data p \<and> length (pb_data p) \<le> pipe_capacity"
proof -
  have "stream_ok i ((P, k), [], [])"
    using new_pipe_buffer_wakes(2,4) [OF assms(1,2)] assms(1) by (auto simp: stream_ok_def new_pipe_buffer_def)
  from pipe_stream_reach [OF assms(3) this] show ?thesis
    using assms(4) pipes_okD(2) by (auto simp: stream_ok_def)
qed

text \<open>Five bytes written to a new pipe.\<close>

definition ex_pipes :: pipes where
  "ex_pipes = \<lparr> ps_next = 0, ps_pipes = [], ps_ends = [], ps_fifos = [], ps_fifo_ends = [], ps_opening = [] \<rparr>"

definition ex_piped :: "u8 list \<Rightarrow> pipes" where
  "ex_piped bs = \<lparr> ps_next = 1, ps_pipes = [(0, \<lparr> pb_data = bs, pb_read_closed = False, pb_write_closed = False \<rparr>)],
     ps_ends = [(3, 0, ReadEnd), (4, 0, WriteEnd)], ps_fifos = [], ps_fifo_ends = [], ps_opening = [] \<rparr>"

lemma ex_uio_whole: "uio_whole (ex_uio rw)"
  using ex_uio_ok [of rw] by (simp add: uio_whole_def uio_ok_def)

lemma ex_pipes_ok: "pipes_ok ex_pipes" "length bs \<le> pipe_capacity \<Longrightarrow> pipes_ok (ex_piped bs)"
  by (auto simp: pipes_ok_def ex_pipes_def ex_piped_def bwf_def split: if_splits)

lemma ex_bytes: "[] @ map (m_bytes ex_mem) (take (5 - 0) (uio_addrs (ex_uio rw))) = [0, 1, 8, 9, 10]"
  by simp

lemma ex_k_runs: "k_current ex_k = 2" "bget (k_table ex_k) 2 \<noteq> None"
  by (simp_all add: ex_k_def)

lemma ex_write:
  "\<exists>u' P' k'. write_pass 0 4 (ex_uio UioWrite) ex_mem 0 F (snd (new_pipe_buffer ex_pipes)) ex_k = Some (Return (Ok 5), 5, u', P', k')
     \<and> bget (ps_pipes P') 0 = Some \<lparr> pb_data = [0, 1, 8, 9, 10], pb_read_closed = False, pb_write_closed = False \<rparr>"
proof -
  let ?P = "snd (new_pipe_buffer ex_pipes)"
  have ok: "pipes_ok ?P" using new_pipe_buffer_wakes(2) [OF _ ex_pipes_ok(1)] by (metis prod.collapse)
  have g: "bget (ps_pipes ?P) 0 = Some \<lparr> pb_data = [], pb_read_closed = False, pb_write_closed = False \<rparr>"
    by (simp add: new_pipe_buffer_def ex_pipes_def)
  have rd: "uio_reads ex_mem (ex_uio UioWrite)" by (simp add: uio_reads_def)
  show ?thesis
    using ex_uio_whole [of UioWrite] ex_uio_sel(1,2) ok
    by (cases rule: write_pass_cases [where i = 0 and fd = 4 and m = ex_mem and w = 0 and F = F and k = ex_k])
      (use g rd in \<open>auto simp: pipe_capacity_def\<close>)
qed

theorem pipe_stream_order_witness:
  "\<exists>P' k' p. (pipe_stream 0)\<^sup>*\<^sup>* ((snd (new_pipe_buffer ex_pipes), ex_k), [], []) ((P', k'), [0, 1, 8, 9, 10], [])
     \<and> bget (ps_pipes P') 0 = Some p \<and> [0, 1, 8, 9, 10] = [] @ pb_data p \<and> length (pb_data p) \<le> pipe_capacity"
proof -
  obtain u' P' k' where w: "write_pass 0 4 (ex_uio UioWrite) ex_mem 0 ex_fds (snd (new_pipe_buffer ex_pipes)) ex_k
        = Some (Return (Ok 5), 5, u', P', k')"
      and p: "bget (ps_pipes P') 0 = Some \<lparr> pb_data = [0, 1, 8, 9, 10], pb_read_closed = False, pb_write_closed = False \<rparr>"
    using ex_write by blast
  have "pipe_stream 0 ((snd (new_pipe_buffer ex_pipes), ex_k), [], []) ((P', k'), [0, 1, 8, 9, 10], [])"
    using pipe_stream.put [OF ex_uio_whole _ _ _ w, of "[]" "[]", unfolded ex_bytes] by simp
  then have run: "(pipe_stream 0)\<^sup>*\<^sup>* ((snd (new_pipe_buffer ex_pipes), ex_k), [], []) ((P', k'), [0, 1, 8, 9, 10], [])" ..
  have new: "new_pipe_buffer ex_pipes = (0, snd (new_pipe_buffer ex_pipes))" by (simp add: new_pipe_buffer_def ex_pipes_def)
  from pipe_stream_order [OF new ex_pipes_ok(1) run p] run p show ?thesis by blast
qed

text \<open>
  C8. No reader and no writer is forgotten: whatever the order of reads, writes, opens and closes, a process
  blocked for data waits on an empty buffer that can still be written, and one blocked for space on a full
  buffer that can still be read.
\<close>

theorem pipe_no_lost_wakeup:
  assumes "pipe_step\<^sup>*\<^sup>* (P, k) (P', k')" and "pipes_ok P" and "\<And>pid r. is_pipe_reason r \<Longrightarrow> \<not> blocked_as k pid r"
  shows "(blocked_as k' pid (WaitingForPipeData i) \<longrightarrow>
      (\<exists>p. bget (ps_pipes P') i = Some p \<and> pb_data p = [] \<and> \<not> pb_write_closed p))
    \<and> (blocked_as k' pid (WaitingForPipeSpace i) \<longrightarrow>
      (\<exists>p. bget (ps_pipes P') i = Some p \<and> length (pb_data p) = pipe_capacity \<and> \<not> pb_read_closed p))"
proof -
  have "pipe_stuck P' r" if "is_pipe_reason r" "blocked_as k' pid r" for r
    using pipe_sleep.no_lost_wakeup [OF assms(1), of pid r] assms(2,3) that by (simp add: pipe_waiting_def)
  from this [of "WaitingForPipeData i"] this [of "WaitingForPipeSpace i"] show ?thesis
    by (simp add: is_pipe_reason_def)
qed

lemma ex_k_not_piped: "is_pipe_reason r \<Longrightarrow> \<not> blocked_as ex_k pid r"
  by (auto simp: blocked_as_def ex_k_def ex_core_def ex_proc_def is_pipe_reason_def split: if_splits)

lemma ex_read_sleeps:
  "read_pass 0 3 0 (ex_uio UioRead) ex_mem fds_boot (ex_piped []) ex_k
     = (Sleep, ex_uio UioRead, ex_mem, ex_piped [], block_current (WaitingForPipeData 0) ex_k)"
  by (simp add: read_pass_def ex_piped_def is_nonblocking_def fds_boot_def file_of_def)

theorem pipe_no_lost_wakeup_witness:
  "\<exists>k'. pipe_step\<^sup>*\<^sup>* (ex_piped [], ex_k) (ex_piped [], k') \<and> blocked_as k' 2 (WaitingForPipeData 0)
     \<and> (\<exists>p. bget (ps_pipes (ex_piped [])) 0 = Some p \<and> pb_data p = [] \<and> \<not> pb_write_closed p)"
proof -
  let ?k = "block_current (WaitingForPipeData 0) ex_k"
  have step: "pipe_step\<^sup>*\<^sup>* (ex_piped [], ex_k) (ex_piped [], ?k)"
    using pipe_step.io [OF pipe_io.get [OF ex_read_sleeps]] by blast
  have blocked: "blocked_as ?k 2 (WaitingForPipeData 0)" unfolding blocked_as_block_current by (simp add: ex_k_runs)
  show ?thesis
    using pipe_no_lost_wakeup [OF step ex_pipes_ok(2) ex_k_not_piped, of 2 0] step blocked by auto
qed

text \<open>
  C14. \<open>pipe(2)\<close> is all or nothing, and never fails half way: it returns two distinct descriptors below
  the limit, new in the caller's table, for the two ends of a new empty pipe, and their numbers are in the caller's
  memory; or it returns an error, and then every slot, file description, pipe end and buffer is as before.
\<close>

theorem do_pipe_all_or_nothing:
  assumes "fd_reach F held" and "\<not> kernel_opening e F" and "pipes_ok P" and "ev_nofile e \<le> 2 ^ 31"
    and "\<And>r. bget (ps_ends P) r \<noteq> None \<Longrightarrow> r < fd_next F" and "do_pipe e ptr m F P k = (r, m', F', P', k')"
  shows "r = Ok 0 \<and> (\<exists>a b. piped e a b F P F' P' \<and> copyout m (le_sbytes 4 (int a) @ le_sbytes 4 (int b)) ptr = (Ok (), m'))
    \<or> (\<exists>er. r = Err er) \<and> slot F' = slot F \<and> bget (fd_descs F') = bget (fd_descs F)
      \<and> bget (ps_ends P') = bget (ps_ends P) \<and> bget (ps_pipes P') = bget (ps_pipes P)"
  using do_pipe_cases [OF fd_reach_inv [OF assms(1)] assms(2-6)] by simp

theorem do_pipe_all_or_nothing_witness:
  "\<exists>er m' F' P' k'. do_pipe ex_env 0 ex_mem fds_boot ex_pipes ex_k = (Err er, m', F', P', k')
     \<and> slot F' = slot fds_boot \<and> bget (fd_descs F') = bget (fd_descs fds_boot)
     \<and> bget (ps_ends P') = bget (ps_ends ex_pipes) \<and> bget (ps_pipes P') = bget (ps_pipes ex_pipes)"
proof -
  obtain r m' F' P' k' where d: "do_pipe ex_env 0 ex_mem fds_boot ex_pipes ex_k = (r, m', F', P', k')" by (metis prod_cases5)
  have "copyout ex_mem bs 0 \<noteq> (Ok (), m')" if "length bs = 8" for bs
    using that by (auto simp: copyout_def check_range_def vm_minuser_def split: option.splits)
  moreover have "ev_nofile ex_env \<le> 2 ^ 31" "\<not> kernel_opening ex_env fds_boot"
      "\<And>r. bget (ps_ends ex_pipes) r \<noteq> None \<Longrightarrow> r < fd_next fds_boot"
    by (simp_all add: ex_env_def kernel_opening_def fds_boot_def ex_pipes_def)
  ultimately show ?thesis
    using do_pipe_all_or_nothing [OF fd_reach.boot _ ex_pipes_ok(1) _ _ d] d by auto
qed

text \<open>
  C22. What \<open>poll\<close> says of a pipe end is true. An end reported readable is exactly one whose read
  neither sleeps nor fails with \<open>EAGAIN\<close>; an end reported writable takes a write of up to
  \<open>PIPE_BUF\<close> bytes at once and whole; an end reported in error refuses it with \<open>EPIPE\<close>.
\<close>

theorem pipe_poll_honest:
  assumes "pipes_ok P" and "bget (ps_fifo_ends P) fd = None" and "bget (ps_ends P) fd = Some (i, dir)"
    and "uio_whole u" and "u_seg u = UserSeg"
  shows "\<exists>r. readiness_of P fd = Some (Ok r) \<and> pipe_poll P fd = Ok (poll_bits r False)
    \<and> (dir = ReadEnd \<longrightarrow> u_rw u = UioRead \<longrightarrow> distinct (uio_addrs u) \<longrightarrow>
        (rd_readable r \<longleftrightarrow> fst (pipe_read fd meet u m F P k) \<notin> {Sleep, Return (Err EAGAIN)}))
    \<and> (dir = WriteEnd \<longrightarrow> u_rw u = UioWrite \<longrightarrow> 0 < u_resid u \<longrightarrow> u_resid u \<le> pipe_buf \<longrightarrow> uio_reads m u \<longrightarrow>
        (rd_writable r \<longrightarrow> map_option fst (pipe_write fd u m 0 F P k) = Some (Return (Ok (u_resid u))))
        \<and> (rd_error r \<longrightarrow> map_option fst (pipe_write fd u m 0 F P k) = Some (Return (Err EPIPE))))"
proof (cases dir)
  case ReadEnd
  have rd: "fst (read_side P i) \<longleftrightarrow> fst (read_pass i fd meet u m F P k) \<notin> {Sleep, Return (Err EAGAIN)}"
    if "u_rw u = UioRead" "distinct (uio_addrs u)"
    using read_pass_ready [OF assms(4) that(1) assms(5) that(2)] .
  show ?thesis
    using assms(2,3) rd by (simp add: ReadEnd readiness_of_def pipe_poll_def pipe_read_def with_read_def)
next
  case WriteEnd
  obtain w er where ws: "write_side P i = Some (w, er)"
    using write_side_defined [OF assms(1), of i] by blast
  have wr: "(w \<longrightarrow> map_option fst (write_pass i fd u m 0 F P k) = Some (Return (Ok (u_resid u))))
      \<and> (er \<longrightarrow> map_option fst (write_pass i fd u m 0 F P k) = Some (Return (Err EPIPE)))"
    if "u_rw u = UioWrite" "0 < u_resid u" "u_resid u \<le> pipe_buf" "uio_reads m u"
    using write_pass_ready [OF assms(4) that(1) assms(5,1) that(2-4) ws] .
  show ?thesis
    using assms(2,3) wr ws by (simp add: WriteEnd readiness_of_def pipe_poll_def pipe_write_def with_write_def not_ready_def)
qed

theorem pipe_poll_honest_witness:
  "\<exists>r. readiness_of (ex_piped []) 4 = Some (Ok r) \<and> rd_writable r
     \<and> map_option fst (pipe_write 4 (ex_uio UioWrite) ex_mem 0 fds_boot (ex_piped []) ex_k) = Some (Return (Ok 5))"
proof -
  have e: "bget (ps_fifo_ends (ex_piped [])) 4 = None" "bget (ps_ends (ex_piped [])) 4 = Some (0, WriteEnd)" by (simp_all add: ex_piped_def)
  have w: "readiness_of (ex_piped []) 4 = Some (Ok (not_ready\<lparr>rd_writable := True\<rparr>))"
    by (simp add: readiness_of_def ex_piped_def with_write_def write_side_def pipe_buf_def pipe_capacity_def not_ready_def)
  then show ?thesis
    using pipe_poll_honest [OF ex_pipes_ok(2) e ex_uio_whole [of UioWrite], where m = ex_mem and F = fds_boot and k = ex_k]
    by (simp add: uio_reads_def pipe_buf_def)
qed

text \<open>
  C30. A writer can be stranded by a close. When a process is blocked writing to a full pipe and the write
  end is closed under it, which another thread of the same process can do because a transfer keeps no reference
  to its file, the close wakes the pipe's readers only: the writer stays blocked although its write, run again,
  would return \<open>EPIPE\<close> at once.
\<close>

theorem close_strands_writer:
  assumes "bget (ps_ends P) fd = Some (i, WriteEnd)" and "bget (ps_pipes P) i = Some p" and "\<not> pb_read_closed p" and "bwf (ps_pipes P)"
    and "blocked_as k pid (WaitingForPipeSpace i)" and "pipe_close fd P k = (r, P', k')"
  shows "r = Ok () \<and> blocked_as k' pid (WaitingForPipeSpace i)
    \<and> write_pass i fd u m 0 F P' k' = Some (Return (Err EPIPE), 0, u, P', k')"
proof -
  have c: "r = Ok ()" "k' = wake_pipe_readers i k"
      "P' = P\<lparr>ps_ends := bremove fd (ps_ends P), ps_pipes := binsert i (p\<lparr>pb_write_closed := True\<rparr>) (ps_pipes P)\<rparr>"
    using assms(1-3,6) by (simp_all add: pipe_close_def close_direction_def Let_def)
  have "write_pass i fd u m 0 F P' k' = Some (Return (Err EPIPE), 0, u, P', k')"
    by (subst write_pass.simps) (simp add: write_turn_def c short_or_def)
  then show ?thesis using assms(5) c(1,2) by (simp add: blocked_wake_readers is_pipe_reason_def)
qed

theorem close_strands_writer_witness:
  "\<exists>P' k'. pipe_close 4 (ex_piped (replicate pipe_capacity 7)) (block_current (WaitingForPipeSpace 0) ex_k) = (Ok (), P', k')
     \<and> blocked_as k' 2 (WaitingForPipeSpace 0)
     \<and> write_pass 0 4 (ex_uio UioWrite) ex_mem 0 fds_boot P' k' = Some (Return (Err EPIPE), 0, ex_uio UioWrite, P', k')"
proof -
  let ?P = "ex_piped (replicate pipe_capacity 7)" and ?k = "block_current (WaitingForPipeSpace 0) ex_k"
  obtain r P' k' where c: "pipe_close 4 ?P ?k = (r, P', k')" by (metis prod_cases3)
  have e: "bget (ps_ends ?P) 4 = Some (0, WriteEnd)" "bget (ps_pipes ?P) 0 = Some \<lparr> pb_data = replicate pipe_capacity 7, pb_read_closed = False, pb_write_closed = False \<rparr>"
      "bwf (ps_pipes ?P)" by (simp_all add: ex_piped_def bwf_def)
  have blocked: "blocked_as ?k 2 (WaitingForPipeSpace 0)" unfolding blocked_as_block_current by (simp add: ex_k_runs)
  show ?thesis using close_strands_writer [OF e(1,2) _ e(3) blocked c] c by auto
qed

end
