(* ===== verification/Mqueue.thy ===== *)
theory Mqueue
  imports Fd_Table Wakeup "HOL-Library.List_Lexorder" "HOL-Library.Multiset"
begin

text \<open>
  POSIX message queues (\<open>sys/fs/mqueue.rs\<close>): a flat namespace of bounded priority queues that are
  opened as files, with blocking and timed sends and receives and one notification per queue.

  One turn of a blocking loop is one \<open>pass\<close>. The signal a fired notification sends is an output
  of the send that fires it. The wall clock (\<open>wall\<close>, seconds and nanoseconds) and whether a signal
  interrupts the caller (\<open>intr\<close>) are arguments.
\<close>

section \<open>Names\<close>

text \<open>\<open>String::from_utf8\<close>: whether a byte string is well-formed UTF-8.\<close>

definition cont_byte :: "nat \<Rightarrow> nat \<Rightarrow> u8 \<Rightarrow> bool" where
  "cont_byte lo hi b \<longleftrightarrow> lo \<le> unat b \<and> unat b \<le> hi"

fun utf8_ok :: "u8 list \<Rightarrow> bool" where
  "utf8_ok [] = True"
| "utf8_ok (b # bs) =
     (if unat b < 0x80 then utf8_ok bs
      else if cont_byte 0xC2 0xDF b then
        (case bs of c # r \<Rightarrow> cont_byte 0x80 0xBF c \<and> utf8_ok r | _ \<Rightarrow> False)
      else if cont_byte 0xE0 0xEF b then
        (case bs of
           c # d # r \<Rightarrow> cont_byte (if unat b = 0xE0 then 0xA0 else 0x80) (if unat b = 0xED then 0x9F else 0xBF) c
             \<and> cont_byte 0x80 0xBF d \<and> utf8_ok r
         | _ \<Rightarrow> False)
      else if cont_byte 0xF0 0xF4 b then
        (case bs of
           c # d # e # r \<Rightarrow> cont_byte (if unat b = 0xF0 then 0x90 else 0x80) (if unat b = 0xF4 then 0x8F else 0xBF) c
             \<and> cont_byte 0x80 0xBF d \<and> cont_byte 0x80 0xBF e \<and> utf8_ok r
         | _ \<Rightarrow> False)
      else False)"

fun scan_cstr :: "umem \<Rightarrow> u64 \<Rightarrow> nat \<Rightarrow> nat \<Rightarrow> u8 list \<Rightarrow> u8 list kres" where
  "scan_cstr m ptr i 0 bytes = Err ENAMETOOLONG"
| "scan_cstr m ptr i (Suc left) bytes =
     bind_kres (copyin m (user_add ptr (word_of_nat i)) 1) (\<lambda>bs.
       if hd bs = 0 then (if utf8_ok bytes then Ok bytes else Err EINVAL)
       else scan_cstr m ptr (i + 1) left (bytes @ [hd bs]))"

definition read_cstr :: "umem \<Rightarrow> u64 \<Rightarrow> nat \<Rightarrow> u8 list kres" where
  "read_cstr m ptr max_len = (if ptr = 0 then Err EINVAL else scan_cstr m ptr 0 max_len [])"

section \<open>State\<close>

record mq_message =
  mg_priority :: nat
  mg_data :: "u8 list"

datatype notify = NotifySignal pid nat | NotifyNone

record message_queue =
  mq_max_msg :: int
  mq_msg_size :: int
  mq_messages :: "mq_message list"
  mq_open_count :: nat
  mq_unlinked :: bool
  mq_notify :: "notify option"
  mq_owner :: "nat option"

record mq_end =
  me_id :: nat
  me_access :: u64

record mqs =
  ms_next :: nat
  ms_queues :: "(nat, message_queue) bmap"
  ms_names :: "(u8 list, nat) bmap"
  ms_ends :: "(nat, mq_end) bmap"

definition o_creat :: u64 where "o_creat = 0x40"
definition o_excl :: u64 where "o_excl = 0x80"
definition mq_o_nonblock :: u64 where "mq_o_nonblock = 0x800"
definition mq_default_maxmsg :: int where "mq_default_maxmsg = 10"
definition mq_default_msgsize :: int where "mq_default_msgsize = 8192"
definition mq_max_maxmsg :: int where "mq_max_maxmsg = 256"
definition mq_max_msgsize :: int where "mq_max_msgsize = 65536"
definition mq_prio_max :: nat where "mq_prio_max = 32768"
definition mq_name_max :: nat where "mq_name_max = 255"

definition set_queue :: "nat \<Rightarrow> (message_queue \<Rightarrow> message_queue) \<Rightarrow> mqs \<Rightarrow> mqs" where
  "set_queue i f st = st\<lparr>ms_queues := bupdate i f (ms_queues st)\<rparr>"

section \<open>Priority order\<close>

definition insert_by_priority :: "mq_message list \<Rightarrow> nat \<Rightarrow> u8 list \<Rightarrow> mq_message list" where
  "insert_by_priority ms priority data =
     (let pos = (case List.find (\<lambda>i. mg_priority (ms ! i) < priority) [0..<length ms] of Some i \<Rightarrow> i | None \<Rightarrow> length ms)
      in take pos ms @ \<lparr> mg_priority = priority, mg_data = data \<rparr> # drop pos ms)"

section \<open>Waking and deadlines\<close>

definition mq_receiver :: "nat \<Rightarrow> proc_state \<Rightarrow> bool" where
  "mq_receiver mq_id st \<longleftrightarrow> (case st of Blocked (WaitingForMqData i _) \<Rightarrow> i = mq_id | _ \<Rightarrow> False)"

definition mq_sender :: "nat \<Rightarrow> proc_state \<Rightarrow> bool" where
  "mq_sender mq_id st \<longleftrightarrow> (case st of Blocked (WaitingForMqSpace i _) \<Rightarrow> i = mq_id | _ \<Rightarrow> False)"

definition wake_mq_receivers :: "nat \<Rightarrow> kcore \<Rightarrow> bool \<times> kcore" where
  "wake_mq_receivers mq_id k = (list_ex (\<lambda>(_, p). mq_receiver mq_id (p_state p)) (k_table k), wake_where (mq_receiver mq_id) k)"

definition wake_mq_senders :: "nat \<Rightarrow> kcore \<Rightarrow> kcore" where
  "wake_mq_senders mq_id k = wake_where (mq_sender mq_id) k"

text \<open>
  Absolute times in ticks; \<^const>\<open>None\<close> is an overflow of the 64-bit arithmetic. Rust's \<open>/\<close> rounds
  towards zero.
\<close>

definition timer_hz :: int where "timer_hz = 100"

definition in_i64 :: "int \<Rightarrow> bool" where
  "in_i64 x \<longleftrightarrow> - (2 ^ 63) \<le> x \<and> x < 2 ^ 63"

definition rust_div :: "int \<Rightarrow> int \<Rightarrow> int" where
  "rust_div a b = sgn a * sgn b * (\<bar>a\<bar> div \<bar>b\<bar>)"

definition is_cputime_clock :: "u64 \<Rightarrow> bool" where
  "is_cputime_clock clockid \<longleftrightarrow> clockid = 2 \<or> clockid = 3"

definition abstime_to_ticks :: "u64 \<Rightarrow> int \<Rightarrow> int \<Rightarrow> int \<times> int \<Rightarrow> nat \<Rightarrow> nat option" where
  "abstime_to_ticks clockid sec nsec wall now_ticks =
     (let frac = nat nsec * nat timer_hz in
      if nsec < 0 \<or> u64_max < frac then None
      else if clockid = 1 \<or> is_cputime_clock clockid then
        (let t = nat (max sec 0) * nat timer_hz + (frac + 999999999) div 1000000000 in if t \<le> u64_max then Some t else None)
      else
        let ds = sec - fst wall; dn = nsec - snd wall in
        if \<not> in_i64 ds \<or> \<not> in_i64 (ds * timer_hz) \<or> \<not> in_i64 dn \<or> \<not> in_i64 (dn * timer_hz) then None
        else
          let delta = ds * timer_hz + rust_div (dn * timer_hz) 1000000000 in
          if \<not> in_i64 delta then None
          else if delta \<le> 0 then Some now_ticks
          else if now_ticks + nat delta \<le> u64_max then Some (now_ticks + nat delta) else None)"

definition resolve_deadline :: "umem \<Rightarrow> u64 \<Rightarrow> int \<times> int \<Rightarrow> nat \<Rightarrow> nat kres" where
  "resolve_deadline m at_ptr wall now_ticks =
     (if at_ptr = 0 then Ok u64_max
      else bind_kres (copyin_i64_pair m (unat at_ptr)) (\<lambda>(sec, nsec).
        if nsec < 0 \<or> 1000000000 \<le> nsec then Err EINVAL
        else case abstime_to_ticks 0 sec nsec wall now_ticks of None \<Rightarrow> Panic | Some t \<Rightarrow> Ok t))"

section \<open>Opening, closing and unlinking\<close>

definition mqueue_ops :: file_ops where "mqueue_ops = \<lparr> fo_table = Other_ops 4, fo_flags = 0 \<rparr>"

definition new_queue :: "int \<Rightarrow> int \<Rightarrow> message_queue" where
  "new_queue max_msg msg_size =
     \<lparr> mq_max_msg = max_msg, mq_msg_size = msg_size, mq_messages = [], mq_open_count = 0, mq_unlinked = False,
       mq_notify = None, mq_owner = None \<rparr>"

text \<open>The queue a name stands for, made if it is to be.\<close>

definition mq_attr_of :: "umem \<Rightarrow> u64 \<Rightarrow> (int \<times> int) kres" where
  "mq_attr_of m attr_ptr =
     (if attr_ptr = 0 then Ok (mq_default_maxmsg, mq_default_msgsize)
      else bind_kres (copyin m (unat attr_ptr) 64) (\<lambda>bs. Ok (le_sval (take 8 (drop 8 bs)), le_sval (take 8 (drop 16 bs)))))"

definition mq_resolve :: "umem \<Rightarrow> u8 list \<Rightarrow> u64 \<Rightarrow> u64 \<Rightarrow> mqs \<Rightarrow> (nat \<times> mqs) kres" where
  "mq_resolve m name flags attr_ptr st =
     (let creat = (flags AND o_creat \<noteq> 0); excl = (flags AND o_excl \<noteq> 0) in
      case bget (ms_names st) name of
        Some i \<Rightarrow> if creat \<and> excl then Err EEXIST else Ok (i, st)
      | None \<Rightarrow>
          if \<not> creat then Err ENOENT
          else bind_kres (mq_attr_of m attr_ptr) (\<lambda>(max_msg, msg_size).
            if max_msg \<le> 0 \<or> msg_size \<le> 0 \<or> mq_max_maxmsg < max_msg \<or> mq_max_msgsize < msg_size then Err EINVAL
            else Ok (ms_next st, st\<lparr>ms_next := ms_next st + 1,
                       ms_queues := binsert (ms_next st) (new_queue max_msg msg_size) (ms_queues st),
                       ms_names := binsert name (ms_next st) (ms_names st)\<rparr>)))"

text \<open>The result of the install is kept as it comes: it is returned whatever it is.\<close>

definition do_mq_open :: "fd_env \<Rightarrow> umem \<Rightarrow> u64 \<Rightarrow> u64 \<Rightarrow> u64 \<Rightarrow> fds \<Rightarrow> mqs \<Rightarrow> nat kres kres \<times> fds \<times> mqs" where
  "do_mq_open e m name_ptr flags attr_ptr F st =
     (case read_cstr m name_ptr mq_name_max of
        Err er \<Rightarrow> (Err er, F, st) | Panic \<Rightarrow> (Panic, F, st)
      | Ok name \<Rightarrow>
          if name = [] then (Err EINVAL, F, st)
          else case check_room e 1 F of
            Err er \<Rightarrow> (Err er, F, st) | Panic \<Rightarrow> (Panic, F, st)
          | Ok _ \<Rightarrow>
              case mq_resolve m name flags attr_ptr st of
                Err er \<Rightarrow> (Err er, F, st) | Panic \<Rightarrow> (Panic, F, st)
              | Ok (mq_id, st1) \<Rightarrow>
                  if (case bget (ms_queues st1) mq_id of Some q \<Rightarrow> mq_open_count q = u32_max | None \<Rightarrow> False) then (Panic, F, st1)
                  else
                    let st2 = set_queue mq_id (\<lambda>q. q\<lparr>mq_open_count := mq_open_count q + 1\<rparr>) st1;
                        (fd, F1) = alloc_fd F;
                        st3 = st2\<lparr>ms_ends := binsert fd \<lparr> me_id = mq_id, me_access = flags AND 3 \<rparr> (ms_ends st2)\<rparr>;
                        (user_fd, F2) = finstall e fd mqueue_ops mq_id (open_flag flags) FMqueue F1
                    in (Ok user_fd, F2, st3))"

definition mq_close :: "nat \<Rightarrow> mqs \<Rightarrow> unit kres \<times> mqs" where
  "mq_close real_fd st =
     (case bget (ms_ends st) real_fd of
        None \<Rightarrow> (Err EBADF, st)
      | Some en \<Rightarrow>
          let st1 = st\<lparr>ms_ends := bremove real_fd (ms_ends st)\<rparr> in
          case bget (ms_queues st1) (me_id en) of
            None \<Rightarrow> (Ok (), st1)
          | Some q \<Rightarrow>
              let q1 = (if mq_owner q = Some real_fd then q\<lparr>mq_notify := None, mq_owner := None\<rparr> else q);
                  q2 = q1\<lparr>mq_open_count := mq_open_count q1 - 1\<rparr>
              in (Ok (), st1\<lparr>ms_queues := (if mq_open_count q2 = 0 \<and> mq_unlinked q2 then bremove (me_id en) (ms_queues st1)
                                          else binsert (me_id en) q2 (ms_queues st1))\<rparr>))"

definition do_mq_unlink :: "umem \<Rightarrow> u64 \<Rightarrow> mqs \<Rightarrow> nat kres \<times> mqs" where
  "do_mq_unlink m name_ptr st =
     (case read_cstr m name_ptr mq_name_max of
        Err er \<Rightarrow> (Err er, st) | Panic \<Rightarrow> (Panic, st)
      | Ok name \<Rightarrow>
          case bget (ms_names st) name of
            None \<Rightarrow> (Err ENOENT, st)
          | Some i \<Rightarrow>
              let st1 = st\<lparr>ms_names := bremove name (ms_names st)\<rparr> in
              (Ok 0, case bget (ms_queues st1) i of
                 None \<Rightarrow> st1
               | Some q \<Rightarrow>
                   st1\<lparr>ms_queues := (if mq_open_count q = 0 then bremove i (ms_queues st1)
                                     else binsert i (q\<lparr>mq_unlinked := True\<rparr>) (ms_queues st1))\<rparr>))"

section \<open>Sending\<close>

record mq_request =
  mr_fd :: nat
  mr_id :: nat
  mr_priority :: nat
  mr_deadline :: nat
  mr_data :: "u8 list"

definition mq_send_check ::
  "fd_env \<Rightarrow> umem \<Rightarrow> int \<times> int \<Rightarrow> nat \<Rightarrow> u64 \<Rightarrow> u64 \<Rightarrow> u64 \<Rightarrow> u64 \<Rightarrow> fds \<Rightarrow> mqs \<Rightarrow> mq_request kres" where
  "mq_send_check e m wall now mqd_and_len msg_ptr prio at_ptr F st =
     (let mqd = unat (mqd_and_len AND 0xffffffff); len = unat (drop_bit 32 mqd_and_len) in
      if mq_prio_max \<le> unat prio then Err EINVAL
      else case real_fd_of e mqd F of
        None \<Rightarrow> Err EBADF
      | Some real_fd \<Rightarrow>
          case bget (ms_ends st) real_fd of
            None \<Rightarrow> Err EBADF
          | Some en \<Rightarrow>
              if me_access en = 0 then Err EBADF
              else bind_kres (resolve_deadline m at_ptr wall now) (\<lambda>deadline.
                case bget (ms_queues st) (me_id en) of
                  None \<Rightarrow> Err EBADF
                | Some q \<Rightarrow>
                    if mq_msg_size q < int len then Err EMSGSIZE
                    else bind_kres (copyin m (unat msg_ptr) len) (\<lambda>data.
                      Ok \<lparr> mr_fd = real_fd, mr_id = me_id en, mr_priority = unat prio, mr_deadline = deadline, mr_data = data \<rparr>)))"

definition mq_send_pass ::
  "bool \<Rightarrow> mq_request \<Rightarrow> fds \<Rightarrow> mqs \<Rightarrow> kcore \<Rightarrow> nat pass \<times> (pid \<times> nat) option \<times> mqs \<times> kcore" where
  "mq_send_pass intr req F st k =
     (case bget (ms_queues st) (mr_id req) of
        None \<Rightarrow> (Return (Err EBADF), None, st, k)
      | Some q \<Rightarrow>
          if mq_msg_size q < int (length (mr_data req)) then (Return (Err EMSGSIZE), None, st, k)
          else if int (length (mq_messages q)) < mq_max_msg q then
            let st1 = set_queue (mr_id req) (\<lambda>q. q\<lparr>mq_messages := insert_by_priority (mq_messages q) (mr_priority req) (mr_data req)\<rparr>) st;
                (woke, k1) = wake_mq_receivers (mr_id req) k;
                fire = (case mq_notify q of Some (NotifySignal pid signo) \<Rightarrow> if mq_messages q = [] \<and> \<not> woke then Some (pid, signo) else None | _ \<Rightarrow> None)
            in (Return (Ok 0), fire,
                if fire = None then st1 else set_queue (mr_id req) (\<lambda>q. q\<lparr>mq_notify := None, mq_owner := None\<rparr>) st1, k1)
          else if is_nonblocking (mr_fd req) F then (Return (Err EAGAIN), None, st, k)
          else if mr_deadline req \<le> k_ticks k then (Return (Err ETIMEDOUT), None, st, k)
          else if bget (k_table k) (k_current k) = None then (Return Panic, None, st, k)
          else if intr then (Return (Err EINTR), None, st, k)
          else (Sleep, None, st, block_current (WaitingForMqSpace (mr_id req) (mr_deadline req)) k))"

section \<open>Receiving\<close>

definition mq_recv_check :: "fd_env \<Rightarrow> u64 \<Rightarrow> fds \<Rightarrow> mqs \<Rightarrow> (nat \<times> nat \<times> nat) kres" where
  "mq_recv_check e mqd_and_len F st =
     (let mqd = unat (mqd_and_len AND 0xffffffff); len = unat (drop_bit 32 mqd_and_len) in
      case real_fd_of e mqd F of
        None \<Rightarrow> Err EBADF
      | Some real_fd \<Rightarrow>
          case bget (ms_ends st) real_fd of
            None \<Rightarrow> Err EBADF
          | Some en \<Rightarrow> if me_access en = 1 then Err EBADF else Ok (real_fd, me_id en, len))"

definition mq_deliver :: "mq_message \<Rightarrow> u64 \<Rightarrow> u64 \<Rightarrow> umem \<Rightarrow> unit kres \<times> umem" where
  "mq_deliver msg msg_ptr prio_ptr m =
     (case copyout m (mg_data msg) (unat msg_ptr) of
        (Ok _, m1) \<Rightarrow> if prio_ptr = 0 then (Ok (), m1) else copyout m1 (le_bytes 4 (mg_priority msg)) (unat prio_ptr)
      | (r, m1) \<Rightarrow> (r, m1))"

definition mq_recv_pass ::
  "bool \<Rightarrow> int \<times> int \<Rightarrow> nat \<Rightarrow> nat \<Rightarrow> nat \<Rightarrow> u64 \<Rightarrow> u64 \<Rightarrow> u64 \<Rightarrow> umem \<Rightarrow> fds \<Rightarrow> mqs \<Rightarrow> kcore \<Rightarrow> nat pass \<times> umem \<times> mqs \<times> kcore" where
  "mq_recv_pass intr wall real_fd mq_id len msg_ptr prio_ptr at_ptr m F st k =
     (case bget (ms_queues st) mq_id of
        None \<Rightarrow> (Return (Err EBADF), m, st, k)
      | Some q \<Rightarrow>
          if int len < mq_msg_size q then (Return (Err EMSGSIZE), m, st, k)
          else case mq_messages q of
            msg # rest \<Rightarrow>
              let st1 = set_queue mq_id (\<lambda>q. q\<lparr>mq_messages := rest\<rparr>) st in
              (case mq_deliver msg msg_ptr prio_ptr m of
                 (Ok _, m1) \<Rightarrow> (Return (Ok (length (mg_data msg))), m1, st1, wake_mq_senders mq_id k)
               | (Err er, m1) \<Rightarrow> (Return (Err er), m1, st1, k)
               | (Panic, m1) \<Rightarrow> (Return Panic, m1, st1, k))
          | [] \<Rightarrow>
              if is_nonblocking real_fd F then (Return (Err EAGAIN), m, st, k)
              else case resolve_deadline m at_ptr wall (k_ticks k) of
                Err er \<Rightarrow> (Return (Err er), m, st, k)
              | Panic \<Rightarrow> (Return Panic, m, st, k)
              | Ok deadline \<Rightarrow>
                  if deadline \<le> k_ticks k then (Return (Err ETIMEDOUT), m, st, k)
                  else if bget (k_table k) (k_current k) = None then (Return Panic, m, st, k)
                  else if intr then (Return (Err EINTR), m, st, k)
                  else (Sleep, m, st, block_current (WaitingForMqData mq_id deadline) k))"

section \<open>Notification and attributes\<close>

definition do_mq_notify :: "fd_env \<Rightarrow> pid \<Rightarrow> umem \<Rightarrow> nat \<Rightarrow> u64 \<Rightarrow> fds \<Rightarrow> mqs \<Rightarrow> nat kres \<times> mqs" where
  "do_mq_notify e pid m mqd sev_ptr F st =
     (case real_fd_of e mqd F of
        None \<Rightarrow> (Err EBADF, st)
      | Some real_fd \<Rightarrow>
     case bget (ms_ends st) real_fd of
        None \<Rightarrow> (Err EBADF, st)
      | Some en \<Rightarrow>
     case bget (ms_queues st) (me_id en) of
        None \<Rightarrow> (Err EBADF, st)
      | Some q \<Rightarrow>
          if sev_ptr = 0 then
            (Ok 0, if mq_owner q = Some real_fd
                   then set_queue (me_id en) (\<lambda>q. q\<lparr>mq_notify := None, mq_owner := None\<rparr>) st else st)
          else if mq_notify q \<noteq> None then (Err EBUSY, st)
          else case copyin m (user_add sev_ptr 8) 4 of
            Err er \<Rightarrow> (Err er, st) | Panic \<Rightarrow> (Panic, st)
          | Ok b1 \<Rightarrow>
              case copyin m (user_add sev_ptr 12) 4 of
                Err er \<Rightarrow> (Err er, st) | Panic \<Rightarrow> (Panic, st)
              | Ok b2 \<Rightarrow>
                  let signo = le_sval b1; how = le_sval b2;
                      register = (\<lambda>n. (Ok 0, set_queue (me_id en) (\<lambda>q. q\<lparr>mq_notify := Some n, mq_owner := Some real_fd\<rparr>) st))
                  in if how = 1 then register NotifyNone
                     else if how = 0 then
                       if signo < 0 \<or> 64 < signo then (Err EINVAL, st) else register (NotifySignal pid (nat signo))
                     else (Err EINVAL, st))"

definition mq_attr_bytes :: "bool \<Rightarrow> message_queue \<Rightarrow> u8 list" where
  "mq_attr_bytes nonblock q =
     le_sbytes 8 (if nonblock then int (unat mq_o_nonblock) else 0) @ le_sbytes 8 (mq_max_msg q) @ le_sbytes 8 (mq_msg_size q)
       @ le_sbytes 8 (int (length (mq_messages q))) @ replicate 32 0"

definition do_mq_getsetattr :: "fd_env \<Rightarrow> nat \<Rightarrow> u64 \<Rightarrow> u64 \<Rightarrow> umem \<Rightarrow> fds \<Rightarrow> mqs \<Rightarrow> nat kres \<times> umem \<times> fds" where
  "do_mq_getsetattr e mqd new_ptr old_ptr m F st =
     (case real_fd_of e mqd F of
        None \<Rightarrow> (Err EBADF, m, F)
      | Some real_fd \<Rightarrow>
     case bget (ms_ends st) real_fd of
        None \<Rightarrow> (Err EBADF, m, F)
      | Some en \<Rightarrow>
          let (r, m1) = (if old_ptr = 0 then (Ok (), m)
            else case bget (ms_queues st) (me_id en) of
              None \<Rightarrow> (Err EBADF, m)
            | Some q \<Rightarrow> copyout m (mq_attr_bytes (is_nonblocking real_fd F) q) (unat old_ptr)) in
          case r of
            Err er \<Rightarrow> (Err er, m1, F) | Panic \<Rightarrow> (Panic, m1, F)
          | Ok _ \<Rightarrow>
              if new_ptr = 0 then (Ok 0, m1, F)
              else case copyin m1 (unat new_ptr) 64 of
                Err er \<Rightarrow> (Err er, m1, F) | Panic \<Rightarrow> (Panic, m1, F)
              | Ok bs \<Rightarrow>
                  (Ok 0, m1, set_nonblocking real_fd ((word_of_nat (le_val (take 8 bs)) :: u64) AND mq_o_nonblock \<noteq> 0) F))"

section \<open>Well-formed queues\<close>

definition queue_ok :: "message_queue \<Rightarrow> bool" where
  "queue_ok q \<longleftrightarrow> 0 < mq_max_msg q \<and> mq_max_msg q \<le> mq_max_maxmsg \<and> 0 < mq_msg_size q \<and> mq_msg_size q \<le> mq_max_msgsize
     \<and> int (length (mq_messages q)) \<le> mq_max_msg q
     \<and> (\<forall>msg \<in> set (mq_messages q). mg_priority msg < mq_prio_max \<and> int (length (mg_data msg)) \<le> mq_msg_size q)
     \<and> sorted_wrt (\<lambda>a b. mg_priority b \<le> mg_priority a) (mq_messages q)
     \<and> (mq_notify q = None \<longleftrightarrow> mq_owner q = None)"

definition ends_of :: "mqs \<Rightarrow> nat \<Rightarrow> int" where
  "ends_of st i = bsum (\<lambda>_ en. of_bool (me_id en = i)) (ms_ends st)"

definition queue_held :: "mqs \<Rightarrow> nat \<Rightarrow> message_queue \<Rightarrow> bool" where
  "queue_held st i q \<longleftrightarrow> queue_ok q \<and> i < ms_next st \<and> int (mq_open_count q) = ends_of st i
     \<and> (mq_unlinked q \<longrightarrow> 0 < mq_open_count q) \<and> (\<not> mq_unlinked q \<longrightarrow> (\<exists>n. bget (ms_names st) n = Some i))
     \<and> (\<forall>fd. mq_owner q = Some fd \<longrightarrow> (\<exists>en. bget (ms_ends st) fd = Some en \<and> me_id en = i))"

text \<open>\<open>bound\<close> is the next file handle to be given out: every end is a file that was opened.\<close>

definition mq_inv :: "nat \<Rightarrow> mqs \<Rightarrow> bool" where
  "mq_inv bound st \<longleftrightarrow> bwf (ms_queues st) \<and> bwf (ms_names st) \<and> bwf (ms_ends st)
     \<and> (\<forall>i q. bget (ms_queues st) i = Some q \<longrightarrow> queue_held st i q)
     \<and> (\<forall>n i. bget (ms_names st) n = Some i \<longrightarrow> (\<exists>q. bget (ms_queues st) i = Some q \<and> \<not> mq_unlinked q))
     \<and> (\<forall>n n' i. bget (ms_names st) n = Some i \<longrightarrow> bget (ms_names st) n' = Some i \<longrightarrow> n = n')
     \<and> (\<forall>fd en. bget (ms_ends st) fd = Some en \<longrightarrow> fd < bound \<and> bget (ms_queues st) (me_id en) \<noteq> None)"

lemma mq_invD:
  assumes "mq_inv b st"
  shows "bwf (ms_queues st)" and "bwf (ms_names st)" and "bwf (ms_ends st)"
    and "bget (ms_queues st) i = Some q \<Longrightarrow> queue_held st i q"
    and "bget (ms_names st) n = Some i \<Longrightarrow> \<exists>q. bget (ms_queues st) i = Some q \<and> \<not> mq_unlinked q"
    and "bget (ms_names st) n = Some i \<Longrightarrow> bget (ms_names st) n' = Some i \<Longrightarrow> n = n'"
    and "bget (ms_ends st) fd = Some en \<Longrightarrow> fd < b \<and> bget (ms_queues st) (me_id en) \<noteq> None"
  using assms unfolding mq_inv_def by blast+

lemma mq_inv_later: "mq_inv b st \<Longrightarrow> b \<le> b' \<Longrightarrow> mq_inv b' st"
  unfolding mq_inv_def by (meson order_less_le_trans)

lemma bsum_zero: "bwf m \<Longrightarrow> (\<And>k v. bget m k = Some v \<Longrightarrow> f k v = 0) \<Longrightarrow> bsum f m = 0"
proof (induction m)
  case (Cons x m)
  obtain a b where x: "x = (a, b)" by (cases x)
  have "f k v = 0" if "bget m k = Some v" for k v
  proof -
    have "k \<noteq> a" using Cons.prems(1) bget_in_set [OF that] by (force simp: x bwf_Cons)
    then show ?thesis using Cons.prems(2) [of k v] that by (simp add: x)
  qed
  moreover have "f a b = 0" using Cons.prems(2) [of a b] by (simp add: x)
  ultimately show ?case using Cons by (simp add: x bwf_Cons)
qed simp

lemma insert_by_priority_eq:
  "insert_by_priority ms p d = takeWhile (\<lambda>m. p \<le> mg_priority m) ms @ \<lparr> mg_priority = p, mg_data = d \<rparr> # dropWhile (\<lambda>m. p \<le> mg_priority m) ms"
proof -
  let ?pos = "case List.find (\<lambda>i. mg_priority (ms ! i) < p) [0..<length ms] of Some i \<Rightarrow> i | None \<Rightarrow> length ms"
  have "?pos = length (takeWhile (\<lambda>m. p \<le> mg_priority m) ms)"
  proof (cases "List.find (\<lambda>i. mg_priority (ms ! i) < p) [0..<length ms]")
    case None
    then have "\<forall>m \<in> set ms. p \<le> mg_priority m" by (auto simp: find_None_iff in_set_conv_nth not_less) (metis leD)
    then have "takeWhile (\<lambda>m. p \<le> mg_priority m) ms = ms" by (simp add: takeWhile_eq_all_conv)
    then show ?thesis using None by (metis option.simps(4))
  next
    case (Some i)
    then have i: "i < length ms" "mg_priority (ms ! i) < p" "\<forall>j < i. p \<le> mg_priority (ms ! j)"
      by (auto simp: find_Some_iff nth_append not_less)
    then have "takeWhile (\<lambda>m. p \<le> mg_priority m) ms = take i ms"
      by (intro takeWhile_eq_take_P_nth) auto
    then show ?thesis using Some i(1) by simp
  qed
  then show ?thesis
    by (simp add: insert_by_priority_def Let_def takeWhile_eq_take [symmetric] dropWhile_eq_drop [symmetric])
qed

lemma set_insert_by_priority [simp]: "set (insert_by_priority ms p d) = insert \<lparr> mg_priority = p, mg_data = d \<rparr> (set ms)"
  unfolding insert_by_priority_eq by (metis set_append takeWhile_dropWhile_id list.simps(15) Un_insert_right)

lemma length_insert_by_priority [simp]: "length (insert_by_priority ms p d) = Suc (length ms)"
  unfolding insert_by_priority_eq by (metis add_Suc_right length_Cons length_append takeWhile_dropWhile_id)

lemma sorted_insert_by_priority:
  assumes "sorted_wrt (\<lambda>a b. mg_priority b \<le> mg_priority a) ms"
  shows "sorted_wrt (\<lambda>a b. mg_priority b \<le> mg_priority a) (insert_by_priority ms p d)"
proof -
  let ?t = "takeWhile (\<lambda>m. p \<le> mg_priority m) ms" and ?d = "dropWhile (\<lambda>m. p \<le> mg_priority m) ms"
  have s: "sorted_wrt (\<lambda>a b. mg_priority b \<le> mg_priority a) (?t @ ?d)" using assms by simp
  have "mg_priority m \<le> p" if "m \<in> set ?d" for m
  proof -
    obtain x xs where d: "?d = x # xs" using \<open>m \<in> set ?d\<close> by (cases ?d) auto
    then have "\<not> p \<le> mg_priority x" by (metis dropWhile_eq_Cons_conv)
    then show ?thesis using s that by (auto simp: d sorted_wrt_append)
  qed
  moreover have "p \<le> mg_priority m" if "m \<in> set ?t" for m using set_takeWhileD [OF that] by simp
  ultimately show ?thesis
    using s [unfolded sorted_wrt_append] unfolding insert_by_priority_eq by (auto simp: sorted_wrt_append intro: le_trans [of _ p])
qed

section \<open>Every operation keeps them so\<close>

lemma set_queue_get [simp]:
  "bget (ms_queues (set_queue i f st)) j = (if j = i then map_option f (bget (ms_queues st) i) else bget (ms_queues st) j)"
  by (simp add: set_queue_def)

lemma set_queue_frame [simp]:
  "ms_next (set_queue i f st) = ms_next st" "ms_names (set_queue i f st) = ms_names st" "ms_ends (set_queue i f st) = ms_ends st"
  "ends_of (set_queue i f st) = ends_of st"
  by (simp_all add: set_queue_def ends_of_def fun_eq_iff)

lemma mq_inv_set_queue:
  assumes "mq_inv b st" and "bget (ms_queues st) i = Some q" and "queue_ok (f q)"
    and "mq_open_count (f q) = mq_open_count q" and "mq_unlinked (f q) = mq_unlinked q"
    and "\<And>fd. mq_owner (f q) = Some fd \<Longrightarrow> \<exists>en. bget (ms_ends st) fd = Some en \<and> me_id en = i"
  shows "mq_inv b (set_queue i f st)"
proof -
  note d = mq_invD [OF assms(1)]
  have held: "queue_held (set_queue i f st) j p" if "bget (ms_queues (set_queue i f st)) j = Some p" for j p
  proof (cases "j = i")
    case True
    then show ?thesis using that assms(2-6) d(4) [OF assms(2)] by (auto simp: queue_held_def)
  next
    case False
    then show ?thesis using that d(4) [of j p] by (simp add: queue_held_def)
  qed
  have named: "\<exists>p. bget (ms_queues (set_queue i f st)) j = Some p \<and> \<not> mq_unlinked p" if "bget (ms_names st) n = Some j" for n j
    using d(5) [OF that] assms(2,5) by auto
  have "bwf (ms_queues (set_queue i f st))" using d(1) by (simp add: set_queue_def)
  then show ?thesis using d(2,3,6,7) held named assms(2) unfolding mq_inv_def set_queue_frame by auto
qed

lemma queue_ok_send:
  assumes "queue_ok q" and "int (length (mq_messages q)) < mq_max_msg q" and "p < mq_prio_max" and "int (length d) \<le> mq_msg_size q"
  shows "queue_ok (q\<lparr>mq_messages := insert_by_priority (mq_messages q) p d\<rparr>)"
  using assms sorted_insert_by_priority [of "mq_messages q" p d] by (auto simp: queue_ok_def)

text \<open>The outcomes of one turn of a send.\<close>

lemma mq_send_cases:
  assumes "mq_send_pass intr req F st k = (r, fire, st', k')"
  obtains (fail) "st' = st" and "k' = k" and "fire = None" and "r \<noteq> Sleep" and "r \<noteq> Return (Ok 0)"
  | (sleep) q where "r = Sleep" and "st' = st" and "fire = None" and "bget (ms_queues st) (mr_id req) = Some q"
      and "mq_max_msg q \<le> int (length (mq_messages q))" and "int (length (mr_data req)) \<le> mq_msg_size q"
      and "k' = block_current (WaitingForMqSpace (mr_id req) (mr_deadline req)) k"
  | (sent) q f where "r = Return (Ok 0)" and "bget (ms_queues st) (mr_id req) = Some q"
      and "int (length (mq_messages q)) < mq_max_msg q" and "int (length (mr_data req)) \<le> mq_msg_size q"
      and "k' = wake_where (mq_receiver (mr_id req)) k" and "st' = set_queue (mr_id req) f st"
      and "f q = q\<lparr>mq_messages := insert_by_priority (mq_messages q) (mr_priority req) (mr_data req)\<rparr>
         \<or> f q = q\<lparr>mq_messages := insert_by_priority (mq_messages q) (mr_priority req) (mr_data req), mq_notify := None, mq_owner := None\<rparr>"
proof (cases "bget (ms_queues st) (mr_id req)")
  case None
  then show ?thesis using assms by (intro fail) (auto simp: mq_send_pass_def)
next
  case (Some q)
  let ?ins = "\<lambda>q. q\<lparr>mq_messages := insert_by_priority (mq_messages q) (mr_priority req) (mr_data req)\<rparr>"
  let ?off = "\<lambda>q. q\<lparr>mq_notify := None, mq_owner := None\<rparr>"
  show ?thesis
  proof (cases "int (length (mr_data req)) \<le> mq_msg_size q")
    case False
    then show ?thesis using assms Some by (intro fail) (auto simp: mq_send_pass_def)
  next
    case size: True
    show ?thesis
    proof (cases "int (length (mq_messages q)) < mq_max_msg q")
      case False
      then show ?thesis
        using assms Some size fail sleep by (auto simp: mq_send_pass_def split: if_splits)
    next
      case True
      define st1 where "st1 = set_queue (mr_id req) ?ins st"
      have out: "r = Return (Ok 0)" "k' = wake_where (mq_receiver (mr_id req)) k" "st' = st1 \<or> st' = set_queue (mr_id req) ?off st1"
        using assms Some size True by (auto simp: mq_send_pass_def wake_mq_receivers_def Let_def st1_def)
      have "set_queue (mr_id req) ?off st1 = set_queue (mr_id req) (\<lambda>q. ?off (?ins q)) st"
        by (simp add: st1_def set_queue_def bupdate_def comp_def case_prod_beta if_distrib cong: if_cong)
      then show ?thesis
        using sent [OF out(1) Some True size out(2), of ?ins] sent [OF out(1) Some True size out(2), of "\<lambda>q. ?off (?ins q)"] out(3)
        by (auto simp: st1_def)
    qed
  qed
qed

lemma mq_inv_send:
  assumes "mq_send_pass intr req F st k = (r, fire, st', k')" and "mq_inv b st" and "mr_priority req < mq_prio_max"
  shows "mq_inv b st'"
  using assms(1)
proof (cases rule: mq_send_cases)
  case (sent q f)
  note h = mq_invD(4) [OF assms(2) sent(2), unfolded queue_held_def]
  have ok: "queue_ok (q\<lparr>mq_messages := insert_by_priority (mq_messages q) (mr_priority req) (mr_data req)\<rparr>)"
    using h sent(3,4) assms(3) queue_ok_send by blast
  show ?thesis unfolding sent(6)
    by (rule mq_inv_set_queue [OF assms(2) sent(2)]) (use sent(7) ok h in \<open>auto simp: queue_ok_def\<close>)
qed (use assms(2) in simp_all)

text \<open>The outcomes of one turn of a receive.\<close>

lemma mq_recv_cases:
  assumes "mq_recv_pass intr wall fd i len msg_ptr prio_ptr at_ptr m F st k = (r, m', st', k')"
  obtains (fail) "st' = st" and "k' = k" and "m' = m" and "r \<noteq> Sleep" and "\<And>n. r \<noteq> Return (Ok n)"
      and "r = Return (Err EFAULT) \<Longrightarrow> \<exists>q. bget (ms_queues st) i = Some q \<and> mq_messages q = []"
  | (sleep) q deadline where "r = Sleep" and "st' = st" and "m' = m" and "bget (ms_queues st) i = Some q"
      and "mq_messages q = []" and "mq_msg_size q \<le> int len" and "k' = block_current (WaitingForMqData i deadline) k"
  | (fault) q msg rest where "bget (ms_queues st) i = Some q" and "mq_messages q = msg # rest"
      and "st' = set_queue i (\<lambda>q. q\<lparr>mq_messages := rest\<rparr>) st" and "k' = k" and "r = Return (Err EFAULT)"
      and "mq_deliver msg msg_ptr prio_ptr m = (Err EFAULT, m')"
  | (taken) q msg rest where "bget (ms_queues st) i = Some q" and "mq_messages q = msg # rest"
      and "st' = set_queue i (\<lambda>q. q\<lparr>mq_messages := rest\<rparr>) st" and "k' = wake_mq_senders i k"
      and "r = Return (Ok (length (mg_data msg)))" and "mq_deliver msg msg_ptr prio_ptr m = (Ok (), m')"
proof (cases "bget (ms_queues st) i")
  case None
  then show ?thesis using assms by (intro fail) (auto simp: mq_recv_pass_def)
next
  case (Some q)
  show ?thesis
  proof (cases "mq_msg_size q \<le> int len")
    case False
    then show ?thesis using assms Some by (intro fail) (auto simp: mq_recv_pass_def)
  next
    case size: True
    show ?thesis
    proof (cases "mq_messages q")
      case Nil
      then show ?thesis using assms Some size fail sleep by (auto simp: mq_recv_pass_def split: if_splits kres.splits)
    next
      case (Cons msg rest)
      obtain c m1 where c: "mq_deliver msg msg_ptr prio_ptr m = (c, m1)" by (cases "mq_deliver msg msg_ptr prio_ptr m")
      have "c = Ok () \<or> c = Err EFAULT"
        using c by (auto simp: mq_deliver_def copyout_def split: if_splits prod.splits bool.splits kres.splits)
      then show ?thesis
        using assms Some size Cons c fault taken by (auto simp: mq_recv_pass_def)
    qed
  qed
qed

lemma mq_inv_recv:
  assumes "mq_recv_pass intr wall fd i len msg_ptr prio_ptr at_ptr m F st k = (r, m', st', k')" and "mq_inv b st"
  shows "mq_inv b st'"
proof -
  have shorter: "mq_inv b (set_queue i (\<lambda>q. q\<lparr>mq_messages := rest\<rparr>) st)"
    if "bget (ms_queues st) i = Some q" "mq_messages q = msg # rest" for q msg rest
    by (rule mq_inv_set_queue [OF assms(2) that(1)])
      (use that(2) mq_invD(4) [OF assms(2) that(1)] in \<open>auto simp: queue_held_def queue_ok_def\<close>)
  show ?thesis using assms(1) by (cases rule: mq_recv_cases) (use assms(2) shorter in simp_all)
qed

lemma mq_inv_notify:
  assumes "do_mq_notify e pid m mqd sev_ptr F st = (r, st')" and "mq_inv b st"
  shows "mq_inv b st'"
proof (cases "st' = st")
  case False
  then obtain fd en q where a: "real_fd_of e mqd F = Some fd" "bget (ms_ends st) fd = Some en" "bget (ms_queues st) (me_id en) = Some q"
    using assms(1) by (auto simp: do_mq_notify_def split: option.splits)
  have "(\<exists>n. st' = set_queue (me_id en) (\<lambda>q. q\<lparr>mq_notify := Some n, mq_owner := Some fd\<rparr>) st)
      \<or> st' = set_queue (me_id en) (\<lambda>q. q\<lparr>mq_notify := None, mq_owner := None\<rparr>) st"
    using assms(1) False a by (auto simp: do_mq_notify_def Let_def split: if_splits kres.splits)
  then obtain f where f: "st' = set_queue (me_id en) f st"
      "f = (\<lambda>q. q\<lparr>mq_notify := None, mq_owner := None\<rparr>) \<or> (\<exists>n. f = (\<lambda>q. q\<lparr>mq_notify := Some n, mq_owner := Some fd\<rparr>))" by blast
  show ?thesis unfolding f(1)
    by (rule mq_inv_set_queue [OF assms(2) a(3)])
      (use f(2) a(2) mq_invD(4) [OF assms(2) a(3)] in \<open>auto simp: queue_held_def queue_ok_def\<close>)
qed (use assms(2) in simp)

lemma mq_inv_resolve:
  assumes "mq_resolve m name flags attr_ptr st = Ok (i, st')" and "mq_inv b st"
  shows "mq_inv b st'" and "\<exists>q. bget (ms_queues st') i = Some q"
proof -
  note d = mq_invD [OF assms(2)]
  have "mq_inv b st' \<and> (\<exists>q. bget (ms_queues st') i = Some q)"
  proof (cases "bget (ms_names st) name")
    case (Some j)
    then show ?thesis using assms d(5) [OF Some] by (auto simp: mq_resolve_def Let_def split: if_splits)
  next
    case None
    then obtain mx sz where bounds: "0 < mx" "mx \<le> mq_max_maxmsg" "0 < sz" "sz \<le> mq_max_msgsize" and i: "i = ms_next st"
      and st': "st' = st\<lparr>ms_next := ms_next st + 1, ms_queues := binsert i (new_queue mx sz) (ms_queues st),
           ms_names := binsert name i (ms_names st)\<rparr>"
      using assms(1) by (auto simp: mq_resolve_def bind_kres_Ok_iff not_le not_less Let_def split: if_splits)
    have q: "queue_ok (new_queue mx sz)" using bounds by (simp add: queue_ok_def new_queue_def)
    have new: "bget (ms_queues st) i = None" using d(4) [of i] by (cases "bget (ms_queues st) i") (auto simp: queue_held_def i)
    have ends: "bget (ms_ends st) fd = Some en \<Longrightarrow> me_id en \<noteq> i" for fd en using d(7) [of fd en] new by auto
    have zero: "ends_of st i = 0" unfolding ends_of_def by (rule bsum_zero [OF d(3)]) (use ends in auto)
    have same: "ends_of st' j = ends_of st j" for j by (simp add: ends_of_def st')
    have frame: "ms_ends st' = ms_ends st" "ms_next st' = ms_next st + 1" by (simp_all add: st')
    have held: "queue_held st' j q" if "bget (ms_queues st') j = Some q" for j q
    proof (cases "j = i")
      case True
      then have "q = new_queue mx sz" using that by (simp add: st')
      then show ?thesis using \<open>queue_ok (new_queue mx sz)\<close> zero same True by (auto simp: queue_held_def new_queue_def st' i)
    next
      case False
      then have old: "bget (ms_queues st) j = Some q" using that by (simp add: st')
      have "\<exists>n. bget (ms_names st') n = Some j" if "bget (ms_names st) n = Some j" for n
        using that None by (intro exI [of _ n]) (auto simp: st')
      then show ?thesis using d(4) [OF old] same frame unfolding queue_held_def by (metis less_Suc_eq Suc_eq_plus1)
    qed
    have named: "\<exists>q. bget (ms_queues st') j = Some q \<and> \<not> mq_unlinked q" if "bget (ms_names st') n = Some j" for n j
      using that d(5) [of n j] new by (auto simp: st' new_queue_def split: if_splits)
    have inj: "n = n'" if "bget (ms_names st') n = Some j" "bget (ms_names st') n' = Some j" for n n' j
      using that d(5) [of n j] d(5) [of n' j] d(6) [of n j n'] new by (auto simp: st' split: if_splits)
    have "bwf (ms_queues st')" "bwf (ms_names st')" "ms_ends st' = ms_ends st" using d(1,2) by (simp_all add: st')
    moreover have "bget (ms_queues st') j \<noteq> None" if "bget (ms_queues st) j \<noteq> None" for j using that by (simp add: st')
    ultimately have "mq_inv b st'" unfolding mq_inv_def using d(3,7) held named inj by fastforce
    then show ?thesis by (simp add: st')
  qed
  then show "mq_inv b st'" "\<exists>q. bget (ms_queues st') i = Some q" by blast+
qed

lemma fd_next_finstall: "fd_next (snd (finstall e r ops data flag kind s)) = fd_next s"
  by (auto simp: finstall_def install_def Let_def split: option.splits)

lemma mq_inv_new_end:
  assumes "mq_inv b st" and "bget (ms_queues st) i = Some q"
  shows "mq_inv (b + 1) ((set_queue i (\<lambda>q. q\<lparr>mq_open_count := mq_open_count q + 1\<rparr>) st)
           \<lparr>ms_ends := binsert b \<lparr> me_id = i, me_access = a \<rparr> (ms_ends st)\<rparr>)" (is "mq_inv _ ?st")
proof -
  note d = mq_invD [OF assms(1)]
  have fresh: "bget (ms_ends st) b = None" using d(7) [of b] by (cases "bget (ms_ends st) b") auto
  have count: "ends_of ?st j = ends_of st j + of_bool (j = i)" for j
    using bsum_binsert [OF d(3)] fresh by (simp add: ends_of_def)
  have held: "queue_held ?st j p" if g: "bget (ms_queues ?st) j = Some p" for j p
  proof -
    obtain p0 where p0: "bget (ms_queues st) j = Some p0" "p = (if j = i then p0\<lparr>mq_open_count := mq_open_count p0 + 1\<rparr> else p0)"
      using g assms(2) by (cases "j = i") auto
    then show ?thesis using d(4) [OF p0(1)] count [of j] fresh by (auto simp: queue_held_def queue_ok_def)
  qed
  have named: "\<exists>p. bget (ms_queues ?st) j = Some p \<and> \<not> mq_unlinked p" if "bget (ms_names st) n = Some j" for n j
    using d(5) [OF that] by auto
  have "bwf (ms_queues ?st)" using d(1) by (simp add: set_queue_def)
  moreover have "fd < b + 1 \<and> bget (ms_queues ?st) (me_id en) \<noteq> None" if "bget (ms_ends ?st) fd = Some en" for fd en
    using that d(7) [of fd en] assms(2) by (auto split: if_splits)
  ultimately show ?thesis unfolding mq_inv_def using d(2,3,6) held named by auto
qed

lemma mq_inv_open:
  assumes "do_mq_open e m name_ptr flags attr_ptr F st = (r, F', st')" and "mq_inv (fd_next F) st"
  shows "mq_inv (fd_next F') st' \<and> fd_next F \<le> fd_next F'"
proof (cases "F' = F \<and> st' = st")
  case False
  then obtain name i st1 where st1: "read_cstr m name_ptr mq_name_max = Ok name" "name \<noteq> []" "\<exists>x. check_room e 1 F = Ok x"
      "mq_resolve m name flags attr_ptr st = Ok (i, st1)"
    using assms(1) by (auto simp: do_mq_open_def split: kres.splits if_splits)
  note inv1 = mq_inv_resolve [OF st1(4) assms(2)]
  obtain q where q: "bget (ms_queues st1) i = Some q" using inv1(2) by blast
  show ?thesis
  proof (cases "mq_open_count q = u32_max")
    case True
    then have "st' = st1" "F' = F" using assms(1) st1 q by (auto simp: do_mq_open_def)
    then show ?thesis using inv1(1) by simp
  next
    case False
    have st': "st' = (set_queue i (\<lambda>q. q\<lparr>mq_open_count := mq_open_count q + 1\<rparr>) st1)
           \<lparr>ms_ends := binsert (fd_next F) \<lparr> me_id = i, me_access = flags AND 3 \<rparr> (ms_ends st1)\<rparr>"
      using assms(1) st1 q False by (auto simp: do_mq_open_def alloc_fd_def Let_def split: prod.splits)
    have "F' = snd (finstall e (fd_next F) mqueue_ops i (open_flag flags) FMqueue (F\<lparr>fd_next := fd_next F + 1\<rparr>))"
      using assms(1) st1 q False by (auto simp: do_mq_open_def alloc_fd_def Let_def split: prod.splits)
    then have "fd_next F' = fd_next F + 1" by (simp add: fd_next_finstall)
    then show ?thesis using mq_inv_new_end [OF inv1(1) q] by (simp add: st')
  qed
qed (use assms(2) in simp)

lemma bsum_ge:
  assumes "bwf m" and "bget m k = Some v" and "\<And>k v. 0 \<le> f k v"
  shows "f k v \<le> bsum f m"
proof -
  have "0 \<le> bsum f (bremove k m)" by (rule bsum_nonneg) (use assms in auto)
  then show ?thesis using bsum_bremove [OF assms(1), of f k] assms(2) by simp
qed

lemma no_ends:
  assumes "bwf (ms_ends st)" and "ends_of st i = 0" and "bget (ms_ends st) fd = Some en"
  shows "me_id en \<noteq> i"
  using bsum_ge [OF assms(1,3), of "\<lambda>_ en. of_bool (me_id en = i)"] assms(2) by (auto simp: ends_of_def)

text \<open>
  A queue changed and the names or ends with it: what has to be checked of the changed queue and of the
  others.
\<close>

lemma mq_inv_change:
  assumes "mq_inv b st" and "ms_next st' = ms_next st"
    and "bwf (ms_queues st')" and "bwf (ms_names st')" and "bwf (ms_ends st')"
    and "\<And>j. j \<noteq> i \<Longrightarrow> bget (ms_queues st') j = bget (ms_queues st) j"
    and "\<And>j. j \<noteq> i \<Longrightarrow> ends_of st' j = ends_of st j"
    and "\<And>fd. bget (ms_ends st') fd \<noteq> bget (ms_ends st) fd \<Longrightarrow> bget (ms_ends st') fd = None \<and> (\<forall>en. bget (ms_ends st) fd = Some en \<longrightarrow> me_id en = i)"
    and "\<And>n. bget (ms_names st') n \<noteq> bget (ms_names st) n \<Longrightarrow> bget (ms_names st') n = None \<and> bget (ms_names st) n = Some i"
    and "\<And>q. bget (ms_queues st') i = Some q \<Longrightarrow> queue_held st' i q"
    and "\<And>n. bget (ms_names st') n = Some i \<Longrightarrow> \<exists>q. bget (ms_queues st') i = Some q \<and> \<not> mq_unlinked q"
    and "\<And>fd en. bget (ms_ends st') fd = Some en \<Longrightarrow> me_id en = i \<Longrightarrow> bget (ms_queues st') i \<noteq> None"
  shows "mq_inv b st'"
proof -
  note d = mq_invD [OF assms(1)]
  have ends: "bget (ms_ends st) fd = Some en" if "bget (ms_ends st') fd = Some en" for fd en using assms(8) [of fd] that by (metis option.distinct(1))
  have names: "bget (ms_names st) n = Some j" if "bget (ms_names st') n = Some j" for n j using assms(9) [of n] that by (metis option.distinct(1))
  have held: "queue_held st' j q" if g: "bget (ms_queues st') j = Some q" for j q
  proof (cases "j = i")
    case True
    then show ?thesis using assms(10) g by simp
  next
    case False
    then have h: "queue_held st j q" using d(4) [of j q] g assms(6) by simp
    have n: "bget (ms_names st') n = Some j" if "bget (ms_names st) n = Some j" for n using assms(9) [of n] that False by auto
    have e: "bget (ms_ends st') fd = Some en" if "bget (ms_ends st) fd = Some en" "me_id en = j" for fd en
      using assms(8) [of fd] that False by auto
    show ?thesis using h n e assms(2,7) False unfolding queue_held_def by metis
  qed
  have named: "\<exists>q. bget (ms_queues st') j = Some q \<and> \<not> mq_unlinked q" if "bget (ms_names st') n = Some j" for n j
    using that names [OF that] d(5) [of n j] assms(6,11) by (cases "j = i") auto
  have "fd < b \<and> bget (ms_queues st') (me_id en) \<noteq> None" if "bget (ms_ends st') fd = Some en" for fd en
    using that d(7) [OF ends [OF that]] assms(6,12) by (cases "me_id en = i") auto
  then show ?thesis unfolding mq_inv_def using assms(3-5) held named names d(6) by blast
qed

lemma mq_inv_close:
  assumes "mq_close fd st = (r, st')" and "mq_inv b st"
  shows "mq_inv b st'"
proof (cases "bget (ms_ends st) fd")
  case None
  then show ?thesis using assms by (simp add: mq_close_def)
next
  case (Some en)
  note d = mq_invD [OF assms(2)]
  obtain q where q: "bget (ms_queues st) (me_id en) = Some q" using d(7) [OF Some] by auto
  note h = d(4) [OF q, unfolded queue_held_def]
  define q2 where "q2 = (if mq_owner q = Some fd then q\<lparr>mq_notify := None, mq_owner := None\<rparr> else q)\<lparr>mq_open_count := mq_open_count q - 1\<rparr>"
  have st': "st' = st\<lparr>ms_ends := bremove fd (ms_ends st),
      ms_queues := (if mq_open_count q2 = 0 \<and> mq_unlinked q2 then bremove (me_id en) (ms_queues st) else binsert (me_id en) q2 (ms_queues st))\<rparr>"
    using assms(1) Some q by (auto simp: mq_close_def Let_def q2_def)
  have count: "ends_of st' j = ends_of st j - of_bool (me_id en = j)" for j
    using bsum_bremove [OF d(3), of "\<lambda>_ en. of_bool (me_id en = j)" fd] Some by (simp add: ends_of_def st')
  have pos: "1 \<le> ends_of st (me_id en)"
    using bsum_ge [OF d(3) Some, of "\<lambda>_ e. of_bool (me_id e = me_id en)"] by (simp add: ends_of_def)
  have q2: "int (mq_open_count q2) = ends_of st' (me_id en)" "mq_unlinked q2 = mq_unlinked q" "queue_ok q2"
    using h pos count by (auto simp: q2_def queue_ok_def)
  have wf: "bwf (ms_ends st')" using d(3) by (simp add: st')
  show ?thesis
  proof (rule mq_inv_change [OF assms(2), where i = "me_id en"])
    show "queue_held st' (me_id en) p" if "bget (ms_queues st') (me_id en) = Some p" for p
    proof -
      have p: "p = q2" "\<not> (mq_open_count q2 = 0 \<and> mq_unlinked q2)" using that by (auto simp: st' split: if_splits)
      have owner: "\<exists>en'. bget (ms_ends st') f = Some en' \<and> me_id en' = me_id en" if "mq_owner q2 = Some f" for f
        using that h by (auto simp: q2_def st' split: if_splits)
      show ?thesis unfolding queue_held_def p(1) using q2 p(2) owner h by (auto simp: st')
    qed
    show "\<exists>p. bget (ms_queues st') (me_id en) = Some p \<and> \<not> mq_unlinked p" if "bget (ms_names st') n = Some (me_id en)" for n
      using that d(5) [of n "me_id en"] q q2(2) by (auto simp: st')
    show "bget (ms_queues st') (me_id en) \<noteq> None" if "bget (ms_ends st') f = Some e" "me_id e = me_id en" for f e
      using no_ends [OF wf _ that(1), of "me_id en"] that(2) q2(1) by (auto simp: st' split: if_splits)
  qed (use d(1,2,3) count Some in \<open>auto simp: st'\<close>)
qed

lemma mq_inv_unlink:
  assumes "do_mq_unlink m name_ptr st = (r, st')" and "mq_inv b st"
  shows "mq_inv b st'"
proof (cases "st' = st")
  case False
  note d = mq_invD [OF assms(2)]
  obtain name i where n: "read_cstr m name_ptr mq_name_max = Ok name" "bget (ms_names st) name = Some i"
    using assms(1) False by (auto simp: do_mq_unlink_def split: kres.splits option.splits)
  obtain q where q: "bget (ms_queues st) i = Some q" using d(5) [OF n(2)] by blast
  note h = d(4) [OF q, unfolded queue_held_def]
  have st': "st' = st\<lparr>ms_names := bremove name (ms_names st), ms_queues := (if mq_open_count q = 0 then bremove i (ms_queues st)
                                     else binsert i (q\<lparr>mq_unlinked := True\<rparr>) (ms_queues st))\<rparr>"
    using assms(1) n q by (auto simp: do_mq_unlink_def Let_def)
  have same: "ends_of st' = ends_of st" by (simp add: st' ends_of_def fun_eq_iff)
  have gone: "bget (ms_names st') n' \<noteq> Some i" for n' using d(6) [OF n(2), of n'] by (auto simp: st')
  show ?thesis
  proof (rule mq_inv_change [OF assms(2), where i = i])
    show "queue_held st' i p" if "bget (ms_queues st') i = Some p" for p
      using that h same by (auto simp: queue_held_def queue_ok_def st' split: if_splits)
    show "bget (ms_queues st') i \<noteq> None" if "bget (ms_ends st') f = Some e" "me_id e = i" for f e
    proof -
      have "ends_of st i \<noteq> 0" using no_ends [OF d(3), of i f e] that by (auto simp: st')
      then have "mq_open_count q \<noteq> 0" using h by auto
      then show ?thesis by (simp add: st')
    qed
  qed (use d(1,2,3) n(2) gone same in \<open>auto simp: st' split: if_splits\<close>)
qed (use assms(2) in simp)

section \<open>Steps\<close>

definition is_mq_reason :: "block_reason \<Rightarrow> bool" where
  "is_mq_reason r \<longleftrightarrow> (case r of WaitingForMqData _ _ \<Rightarrow> True | WaitingForMqSpace _ _ \<Rightarrow> True | _ \<Rightarrow> False)"

text \<open>
  Everything that touches the queues, in any order: sends, receives, and the rest, which is opening, closing,
  unlinking, registering for notification, and whatever else the kernel does to files and processes.
\<close>

inductive mq_ctl :: "mqs \<times> fds \<times> kcore \<Rightarrow> mqs \<times> fds \<times> kcore \<Rightarrow> bool" where
  opens: "do_mq_open e m name_ptr flags attr_ptr F st = (res, F', st') \<Longrightarrow> mq_ctl (st, F, k) (st', F', k)"
| close: "mq_close fd st = (closed, st') \<Longrightarrow> mq_ctl (st, F, k) (st', F, k)"
| unlink: "do_mq_unlink m name_ptr st = (r, st') \<Longrightarrow> mq_ctl (st, F, k) (st', F, k)"
| notify: "do_mq_notify e pid m mqd sev_ptr F st = (r, st') \<Longrightarrow> mq_ctl (st, F, k) (st', F, k)"
| other: "elsewhere is_mq_reason k k' \<Longrightarrow> fd_next F \<le> fd_next F' \<Longrightarrow> mq_ctl (st, F, k) (st, F', k')"

inductive mq_step :: "mqs \<times> fds \<times> kcore \<Rightarrow> mqs \<times> fds \<times> kcore \<Rightarrow> bool" where
  send: "mr_priority req < mq_prio_max \<Longrightarrow> mq_send_pass intr req F st k = (r, fire, st', k') \<Longrightarrow> mq_step (st, F, k) (st', F, k')"
| recv: "mq_recv_pass intr wall fd i len msg_ptr prio_ptr at_ptr m F st k = (r, m', st', k') \<Longrightarrow> mq_step (st, F, k) (st', F, k')"
| ctl: "mq_ctl x x' \<Longrightarrow> mq_step x x'"

definition mq_sys_inv :: "mqs \<times> fds \<times> kcore \<Rightarrow> bool" where
  "mq_sys_inv x \<longleftrightarrow> mq_inv (fd_next (fst (snd x))) (fst x)"

lemma mq_ctl_inv:
  assumes "mq_ctl x x'" and "mq_sys_inv x"
  shows "mq_sys_inv x'"
  using assms
proof (induction rule: mq_ctl.induct)
  case (opens e m name_ptr flags attr_ptr F st res F' st' k)
  then show ?case using mq_inv_open by (simp add: mq_sys_inv_def)
next
  case (close fd st closed st' F k)
  then show ?case using mq_inv_close by (simp add: mq_sys_inv_def)
next
  case (unlink m name_ptr st r st' F k)
  then show ?case using mq_inv_unlink by (simp add: mq_sys_inv_def)
next
  case (notify e pid m mqd sev_ptr F st r st' k)
  then show ?case using mq_inv_notify [OF notify(1)] by (simp add: mq_sys_inv_def)
next
  case (other k k' F F' st)
  then show ?case using mq_inv_later [OF _ other(2)] by (simp add: mq_sys_inv_def)
qed

lemma mq_step_inv:
  assumes "mq_step x x'" and "mq_sys_inv x"
  shows "mq_sys_inv x'"
  using assms
proof (induction rule: mq_step.induct)
  case (send req intr F st k r fire st' k')
  then show ?case using mq_inv_send [OF send(2)] by (simp add: mq_sys_inv_def)
next
  case (recv intr wall fd i len msg_ptr prio_ptr at_ptr m F st k r m' st' k')
  then show ?case using mq_inv_recv [OF recv(1)] by (simp add: mq_sys_inv_def)
next
  case (ctl x x')
  then show ?case using mq_ctl_inv by blast
qed

text \<open>What the rest leaves alone: the messages of every queue that is still there; a new queue has none.\<close>

definition mq_kept :: "mqs \<Rightarrow> mqs \<Rightarrow> bool" where
  "mq_kept st st' \<longleftrightarrow> ms_next st \<le> ms_next st' \<and> (\<forall>i q'. bget (ms_queues st') i = Some q' \<longrightarrow>
     (\<exists>q. bget (ms_queues st) i = Some q \<and> mq_messages q' = mq_messages q) \<or> ms_next st \<le> i \<and> mq_messages q' = [])"

lemma mq_kept_refl: "mq_kept st st"
  by (simp add: mq_kept_def)

lemma mq_kept_cong: "ms_queues b' = ms_queues b \<Longrightarrow> ms_next b' = ms_next b \<Longrightarrow> mq_kept a b' = mq_kept a b"
  by (simp add: mq_kept_def)

lemma mq_kept_trans:
  assumes "mq_kept a b" and "mq_kept b c"
  shows "mq_kept a c"
  unfolding mq_kept_def
proof (intro conjI allI impI)
  show "ms_next a \<le> ms_next c" using assms by (simp add: mq_kept_def)
  show "(\<exists>q. bget (ms_queues a) i = Some q \<and> mq_messages q' = mq_messages q) \<or> ms_next a \<le> i \<and> mq_messages q' = []"
    if g: "bget (ms_queues c) i = Some q'" for i q'
  proof -
    consider q where "bget (ms_queues b) i = Some q" "mq_messages q' = mq_messages q" | "ms_next b \<le> i" "mq_messages q' = []"
      using assms(2) g unfolding mq_kept_def by blast
    then show ?thesis using assms(1) unfolding mq_kept_def by cases auto
  qed
qed

lemma mq_kept_set_queue: "(\<And>q. mq_messages (f q) = mq_messages q) \<Longrightarrow> mq_kept st (set_queue i f st)"
  by (auto simp: mq_kept_def split: if_splits)

lemma mq_kept_open:
  assumes "do_mq_open e m name_ptr flags attr_ptr F st = (r, F', st')" and "mq_inv b st"
  shows "mq_kept st st'"
proof (cases "st' = st")
  case False
  then obtain name i st1 where st1: "mq_resolve m name flags attr_ptr st = Ok (i, st1)"
      and st': "st' = st1 \<or> ms_queues st' = ms_queues (set_queue i (\<lambda>q. q\<lparr>mq_open_count := mq_open_count q + 1\<rparr>) st1) \<and> ms_next st' = ms_next st1"
    using assms(1) by (auto simp: do_mq_open_def Let_def split: kres.splits if_splits prod.splits)
  have "ms_next st \<le> ms_next st1 \<and> (\<forall>j q'. bget (ms_queues st1) j = Some q' \<longrightarrow>
      bget (ms_queues st) j = Some q' \<or> ms_next st \<le> j \<and> mq_messages q' = [])"
    using st1 by (auto simp: mq_resolve_def bind_kres_Ok_iff new_queue_def Let_def split: option.splits if_splits)
  then have "mq_kept st st1" by (auto simp: mq_kept_def)
  moreover have "mq_kept st1 st'"
  proof (cases "st' = st1")
    case True
    then show ?thesis by (simp add: mq_kept_refl)
  next
    case False
    define f where "f = (\<lambda>q :: message_queue. q\<lparr>mq_open_count := mq_open_count q + 1\<rparr>)"
    have "mq_kept st1 (set_queue i f st1)" by (rule mq_kept_set_queue) (simp add: f_def)
    moreover have "mq_kept st1 st' = mq_kept st1 (set_queue i f st1)" by (rule mq_kept_cong) (use st' False in \<open>auto simp: f_def\<close>)
    ultimately show ?thesis by simp
  qed
  ultimately show ?thesis by (rule mq_kept_trans)
qed (simp add: mq_kept_refl)

lemma mq_ctl_kept:
  assumes "mq_ctl x x'" and "mq_sys_inv x"
  shows "mq_kept (fst x) (fst x')"
  using assms
proof (induction rule: mq_ctl.induct)
  case (opens e m name_ptr flags attr_ptr F st res F' st' k)
  then show ?case using mq_kept_open by (simp add: mq_sys_inv_def)
next
  case (close fd st closed st' F k)
  then show ?case by (auto simp: mq_close_def mq_kept_def Let_def split: option.splits if_splits)
next
  case (unlink m name_ptr st r st' F k)
  then show ?case by (auto simp: do_mq_unlink_def mq_kept_def Let_def split: kres.splits option.splits if_splits)
next
  case (notify e pid m mqd sev_ptr F st r st' k)
  then show ?case
    by (auto simp: do_mq_notify_def Let_def mq_kept_refl intro!: mq_kept_set_queue split: kres.splits option.splits if_splits)
next
  case (other k k' F F' st)
  then show ?case by (simp add: mq_kept_refl)
qed

lemma mq_steps_inv: "mq_step\<^sup>*\<^sup>* x x' \<Longrightarrow> mq_sys_inv x \<Longrightarrow> mq_sys_inv x'"
  by (induction rule: rtranclp_induct) (use mq_step_inv in blast)+

section \<open>The order of delivery\<close>

text \<open>
  The specification keeps the messages that have not been received in the order they were sent, and a
  receive takes the oldest of the highest priority.
\<close>

definition best_of :: "mq_message list \<Rightarrow> mq_message" where
  "best_of ms = hd (filter (\<lambda>m. \<forall>m' \<in> set ms. mg_priority m' \<le> mg_priority m) ms)"

definition by_priority :: "mq_message list \<Rightarrow> mq_message list" where
  "by_priority ms = sort_key (\<lambda>m. - int (mg_priority m)) ms"

lemma by_priority_snoc:
  "insert_by_priority (by_priority ms) p d = by_priority (ms @ [\<lparr> mg_priority = p, mg_data = d \<rparr>])"
proof -
  let ?f = "\<lambda>m. - int (mg_priority m)" and ?x = "\<lparr> mg_priority = p, mg_data = d \<rparr>"
  let ?ms = "by_priority ms"
  have sorted: "sorted_wrt (\<lambda>a b. mg_priority b \<le> mg_priority a) (insert_by_priority ?ms p d)"
    using sorted_sort_key [of ?f ms] by (intro sorted_insert_by_priority) (simp add: by_priority_def sorted_map)
  have split: "?ms = takeWhile (\<lambda>m. p \<le> mg_priority m) ?ms @ dropWhile (\<lambda>m. p \<le> mg_priority m) ?ms" by simp
  have late: "mg_priority m < p" if g: "m \<in> set (dropWhile (\<lambda>m. p \<le> mg_priority m) ?ms)" for m
  proof -
    obtain y ys where y: "dropWhile (\<lambda>m. p \<le> mg_priority m) ?ms = y # ys" using g by (cases "dropWhile (\<lambda>m. p \<le> mg_priority m) ?ms") auto
    then have "mg_priority y < p" by (metis dropWhile_eq_Cons_conv not_le)
    moreover have "sorted_wrt (\<lambda>a b. mg_priority b \<le> mg_priority a) (y # ys)"
      using sorted_sort_key [of ?f ms] y split by (metis (no_types, lifting) by_priority_def of_nat_le_iff neg_le_iff_le sorted_map sorted_wrt_append sorted_wrt_mono_rel)
    ultimately show ?thesis using g y by auto
  qed
  have stable: "filter (\<lambda>m. ?f a = ?f m) (insert_by_priority ?ms p d) = filter (\<lambda>m. ?f a = ?f m) (ms @ [?x])" for a
  proof -
    have "filter (\<lambda>m. ?f a = ?f m) (insert_by_priority ?ms p d) = filter (\<lambda>m. ?f a = ?f m) (?ms @ [?x])"
    proof (cases "mg_priority a = p")
      case True
      then have "filter (\<lambda>m. ?f a = ?f m) (dropWhile (\<lambda>m. p \<le> mg_priority m) ?ms) = []" using late by (fastforce simp: filter_empty_conv)
      then show ?thesis unfolding insert_by_priority_eq using True by (subst (3) split) (simp del: takeWhile_dropWhile_id)
    next
      case False
      then show ?thesis unfolding insert_by_priority_eq by (subst (3) split) (simp del: takeWhile_dropWhile_id)
    qed
    also have "\<dots> = filter (\<lambda>m. ?f a = ?f m) (ms @ [?x])"
      using sort_key_stable [of ?f "?f a" ms] by (simp add: by_priority_def eq_commute)
    finally show ?thesis .
  qed
  have all: "mset (insert_by_priority ?ms p d) = mset (ms @ [?x])"
    unfolding insert_by_priority_eq by (simp add: by_priority_def) (metis mset_append mset_sort takeWhile_dropWhile_id)
  have "sorted (map ?f (insert_by_priority ?ms p d))" using sorted by (simp add: sorted_map)
  from properties_for_sort_key [OF all stable this] show ?thesis by (simp only: by_priority_def)
qed

lemma best_of:
  assumes "ms \<noteq> []"
  obtains xs ys where "ms = xs @ best_of ms # ys" and "\<forall>m \<in> set ms. mg_priority m \<le> mg_priority (best_of ms)"
    and "\<forall>m \<in> set xs. mg_priority m < mg_priority (best_of ms)"
proof -
  let ?P = "\<lambda>m. \<forall>m' \<in> set ms. mg_priority m' \<le> mg_priority m"
  have "Max (mg_priority ` set ms) \<in> mg_priority ` set ms" using assms by (intro Max_in) auto
  then obtain m where "m \<in> set ms" "mg_priority m = Max (mg_priority ` set ms)" by auto
  then have "m \<in> set ms" "?P m" by simp_all
  then have "filter ?P ms \<noteq> []" by (auto simp: filter_empty_conv)
  then obtain y zs where y: "filter ?P ms = y # zs" by (cases "filter ?P ms") auto
  then obtain xs ys where x: "ms = xs @ y # ys" "\<forall>m \<in> set xs. \<not> ?P m" "?P y" using filter_eq_ConsD [OF y] by blast
  have b: "best_of ms = y" using y by (simp add: best_of_def)
  have "mg_priority m < mg_priority y" if "m \<in> set xs" for m
  proof (rule ccontr)
    assume "\<not> mg_priority m < mg_priority y"
    then have "?P m" using x(3) by (meson le_trans not_le)
    then show False using x(2) that by blast
  qed
  then show ?thesis using that x b by simp
qed

lemma by_priority_best:
  assumes "ms \<noteq> []"
  shows "by_priority ms = best_of ms # by_priority (remove1 (best_of ms) ms)"
proof -
  let ?f = "\<lambda>m. - int (mg_priority m)" and ?b = "best_of ms"
  obtain xs ys where s: "ms = xs @ ?b # ys" and top: "\<forall>m \<in> set ms. mg_priority m \<le> mg_priority ?b"
    and before: "\<forall>m \<in> set xs. mg_priority m < mg_priority ?b"
    by (rule best_of [OF assms])
  have r: "remove1 ?b ms = xs @ ys" using before by (subst s) (auto simp: remove1_append)
  have none: "filter (\<lambda>m. mg_priority m = mg_priority ?b) xs = []" using before by (auto simp: filter_empty_conv)
  have stable: "filter (\<lambda>m. ?f a = ?f m) (?b # by_priority (xs @ ys)) = filter (\<lambda>m. ?f a = ?f m) ms" for a
  proof -
    have "filter (\<lambda>m. ?f a = ?f m) (by_priority (xs @ ys)) = filter (\<lambda>m. ?f a = ?f m) (xs @ ys)"
      using sort_key_stable [of ?f "?f a" "xs @ ys"] by (simp add: by_priority_def eq_commute)
    then show ?thesis using none by (subst s) (auto simp: eq_commute)
  qed
  have all: "mset (?b # by_priority (xs @ ys)) = mset ms" using arg_cong [OF s, of mset] by (simp add: by_priority_def)
  have "sorted (map ?f (?b # by_priority (xs @ ys)))"
    using top s by (auto simp: by_priority_def) (metis Un_iff insert_iff list.set(2) set_append)+
  from properties_for_sort_key [OF all stable this] show ?thesis unfolding r by (simp only: by_priority_def)
qed

text \<open>The queues running beside the specification, which has for every queue what was sent and not yet received.\<close>

inductive mq_run ::
  "(mqs \<times> fds \<times> kcore) \<times> (nat \<Rightarrow> mq_message list) \<Rightarrow> (mqs \<times> fds \<times> kcore) \<times> (nat \<Rightarrow> mq_message list) \<Rightarrow> bool" where
  send: "mr_priority req < mq_prio_max \<Longrightarrow> mq_send_pass intr req F st k = (r, fire, st', k')
    \<Longrightarrow> A' = (if r = Return (Ok 0) then A(mr_id req := A (mr_id req) @ [\<lparr> mg_priority = mr_priority req, mg_data = mr_data req \<rparr>]) else A)
    \<Longrightarrow> mq_run ((st, F, k), A) ((st', F, k'), A')"
| recv: "mq_recv_pass intr wall fd i len msg_ptr prio_ptr at_ptr m F st k = (r, m', st', k')
    \<Longrightarrow> A' = (case r of Return (Ok _) \<Rightarrow> A(i := remove1 (best_of (A i)) (A i))
           | Return (Err EFAULT) \<Rightarrow> A(i := remove1 (best_of (A i)) (A i)) | _ \<Rightarrow> A)
    \<Longrightarrow> mq_run ((st, F, k), A) ((st', F, k'), A')"
| ctl: "mq_ctl x x' \<Longrightarrow> mq_run (x, A) (x', A)"

definition mq_refines :: "(mqs \<times> fds \<times> kcore) \<times> (nat \<Rightarrow> mq_message list) \<Rightarrow> bool" where
  "mq_refines s \<longleftrightarrow> (case s of (x, A) \<Rightarrow> mq_sys_inv x
     \<and> (\<forall>i q. bget (ms_queues (fst x)) i = Some q \<longrightarrow> mq_messages q = by_priority (A i)) \<and> (\<forall>i \<ge> ms_next (fst x). A i = []))"

lemma by_priority_Nil [simp]: "by_priority ms = [] \<longleftrightarrow> ms = []" "by_priority [] = []"
  by (simp_all add: by_priority_def flip: length_0_conv)

lemma mq_run_step:
  assumes "mq_run s s'" and "mq_refines s"
  shows "mq_refines s'"
  using assms
proof (induction rule: mq_run.induct)
  case (send req intr F st k r fire st' k' A' A)
  have inv: "mq_sys_inv (st', F, k')" using mq_step_inv [OF mq_step.send [OF send(1,2)]] send(4) by (simp add: mq_refines_def)
  from send(2) show ?case
  proof (cases rule: mq_send_cases)
    case (sent q f)
    have lt: "mr_id req < ms_next st"
      using send(4) mq_invD(4) [OF _ sent(2)] by (auto simp: mq_refines_def mq_sys_inv_def queue_held_def)
    have "mq_messages (f q) = by_priority (A' (mr_id req))"
      using sent(1,2,7) send(3,4) by_priority_snoc by (auto simp: mq_refines_def)
    then show ?thesis using send(3,4) inv sent(1,2,6) lt by (auto simp: mq_refines_def)
  qed (use send(3,4) inv in \<open>auto simp: mq_refines_def\<close>)
next
  case (recv intr wall fd i len msg_ptr prio_ptr at_ptr m F st k r m' st' k' A' A)
  have inv: "mq_sys_inv (st', F, k')" using mq_step_inv [OF mq_step.recv [OF recv(1)]] recv(3) by (simp add: mq_refines_def)
  have took: "mq_refines ((set_queue i (\<lambda>q. q\<lparr>mq_messages := rest\<rparr>) st, F, k'), A')"
    if q: "bget (ms_queues st) i = Some q" "mq_messages q = msg # rest" "st' = set_queue i (\<lambda>q. q\<lparr>mq_messages := rest\<rparr>) st"
      "A' = A(i := remove1 (best_of (A i)) (A i))" for q msg rest
  proof -
    have "by_priority (A i) = msg # rest" using q(1,2) recv(3) by (auto simp: mq_refines_def)
    then have "rest = by_priority (A' i)" using by_priority_best [of "A i"] q(4) by (cases "A i = []") auto
    then show ?thesis using recv(3) inv q by (auto simp: mq_refines_def)
  qed
  from recv(1) show ?case
  proof (cases rule: mq_recv_cases)
    case fail
    have "A' = A"
    proof (cases "r = Return (Err EFAULT)")
      case True
      then have "A i = []" using fail(6) recv(3) by (auto simp: mq_refines_def)
      then show ?thesis using recv(2) True by (simp add: fun_upd_idem)
    next
      case False
      then show ?thesis using recv(2) fail by (auto split: pass.splits kres.splits errno.splits)
    qed
    then show ?thesis using recv(3) inv fail by (auto simp: mq_refines_def)
  next
    case (sleep q deadline)
    then show ?thesis using recv(2,3) inv by (auto simp: mq_refines_def)
  next
    case (fault q msg rest)
    then show ?thesis using took [OF fault(1-3)] recv(2) by simp
  next
    case (taken q msg rest)
    then show ?thesis using took [OF taken(1-3)] recv(2) by simp
  qed
next
  case (ctl x x' A)
  then have inv: "mq_sys_inv x" by (simp add: mq_refines_def)
  have "mq_messages q = by_priority (A i)" if "bget (ms_queues (fst x')) i = Some q" for i q
    using that mq_ctl_kept [OF ctl(1) inv] ctl(2) by (fastforce simp: mq_kept_def mq_refines_def)
  then show ?case using mq_ctl_inv [OF ctl(1) inv] mq_ctl_kept [OF ctl(1) inv] ctl(2)
    by (auto simp: mq_refines_def mq_kept_def)
qed

lemma mq_run_reach: "mq_run\<^sup>*\<^sup>* s s' \<Longrightarrow> mq_refines s \<Longrightarrow> mq_refines s'"
  by (induction rule: rtranclp_induct) (use mq_run_step in blast)+

section \<open>No receiver is forgotten\<close>

definition recv_waits :: "mqs \<times> fds \<times> kcore \<Rightarrow> pid \<Rightarrow> nat \<times> nat \<Rightarrow> bool" where
  "recv_waits x pid w \<longleftrightarrow> blocked_as (snd (snd x)) pid (WaitingForMqData (fst w) (snd w))"

definition recv_starved :: "mqs \<times> fds \<times> kcore \<Rightarrow> nat \<times> nat \<Rightarrow> bool" where
  "recv_starved x w \<longleftrightarrow> (\<forall>q. bget (ms_queues (fst x)) (fst w) = Some q \<longrightarrow> mq_messages q = [])"

lemma blocked_recv_woken:
  "blocked_as (wake_where (mq_receiver i) k) pid (WaitingForMqData j d) \<longleftrightarrow> blocked_as k pid (WaitingForMqData j d) \<and> j \<noteq> i"
  by (subst blocked_as_wake_where) (auto simp: mq_receiver_def)

lemma blocked_recv_kept:
  "blocked_as (wake_mq_senders i k) pid (WaitingForMqData j d) \<longleftrightarrow> blocked_as k pid (WaitingForMqData j d)"
  unfolding wake_mq_senders_def by (subst blocked_as_wake_where) (auto simp: mq_sender_def)

lemma mq_send_recv_wakes:
  assumes "mq_send_pass intr req F st k = (r, fire, st', k')" and "recv_waits (st', F, k') pid w"
  shows "recv_starved (st', F, k') w \<or> recv_waits (st, F, k) pid w \<and> (recv_starved (st, F, k) w \<longrightarrow> recv_starved (st', F, k') w)"
  using assms(1)
proof (cases rule: mq_send_cases)
  case (sleep q)
  then show ?thesis using assms(2) by (auto simp: recv_waits_def recv_starved_def blocked_as_block_current split: if_splits)
next
  case (sent q f)
  then show ?thesis using assms(2) by (auto simp: recv_waits_def recv_starved_def blocked_recv_woken)
qed (use assms(2) in \<open>auto simp: recv_waits_def recv_starved_def\<close>)

lemma mq_recv_recv_wakes:
  assumes "mq_recv_pass intr wall fd i len msg_ptr prio_ptr at_ptr m F st k = (r, m', st', k')" and "recv_waits (st', F, k') pid w"
  shows "recv_starved (st', F, k') w \<or> recv_waits (st, F, k) pid w \<and> (recv_starved (st, F, k) w \<longrightarrow> recv_starved (st', F, k') w)"
  using assms(1)
proof (cases rule: mq_recv_cases)
  case fail
  then show ?thesis using assms(2) by (auto simp: recv_waits_def recv_starved_def)
next
  case (sleep q deadline)
  then show ?thesis using assms(2) by (auto simp: recv_waits_def recv_starved_def blocked_as_block_current split: if_splits)
next
  case (fault q msg rest)
  then show ?thesis using assms(2) by (auto simp: recv_waits_def recv_starved_def split: if_splits)
next
  case (taken q msg rest)
  then show ?thesis using assms(2) by (auto simp: recv_waits_def recv_starved_def blocked_recv_kept split: if_splits)
qed

lemma mq_ctl_recv_wakes:
  assumes "mq_ctl x x'" and "mq_sys_inv x" and "recv_waits x' pid w"
  shows "recv_waits x pid w \<and> (recv_starved x w \<longrightarrow> recv_starved x' w)"
proof -
  have "recv_starved x w \<longrightarrow> recv_starved x' w"
    using mq_ctl_kept [OF assms(1,2)] by (fastforce simp: mq_kept_def recv_starved_def)
  moreover have "recv_waits x pid w"
    using assms(1,3) by (induction rule: mq_ctl.induct)
      (auto simp: recv_waits_def is_mq_reason_def intro: blocked_as_elsewhere)
  ultimately show ?thesis by blast
qed

interpretation mq_receivers: wakeup_discipline mq_step recv_waits recv_starved mq_sys_inv
proof
  show "mq_sys_inv x'" if "mq_step x x'" "mq_sys_inv x" for x x' using mq_step_inv that by blast
  show "recv_starved x' w \<or> recv_waits x pid w \<and> (recv_starved x w \<longrightarrow> recv_starved x' w)"
    if "mq_step x x'" "mq_sys_inv x" "recv_waits x' pid w" for x x' pid w
    using that
  proof (induction rule: mq_step.induct)
    case (send req intr F st k r fire st' k')
    then show ?case using mq_send_recv_wakes by blast
  next
    case (recv intr wall fd i len msg_ptr prio_ptr at_ptr m F st k r m' st' k')
    then show ?case using mq_recv_recv_wakes by blast
  next
    case (ctl x x')
    then show ?case using mq_ctl_recv_wakes by blast
  qed
qed

section \<open>A small example\<close>

definition mqs_boot :: mqs where
  "mqs_boot = \<lparr> ms_next = 1, ms_queues = [], ms_names = [], ms_ends = [] \<rparr>"

definition ex_queue_of :: "mq_message list \<Rightarrow> message_queue" where
  "ex_queue_of ms = \<lparr> mq_max_msg = 10, mq_msg_size = 8192, mq_messages = ms, mq_open_count = 1, mq_unlinked = False, mq_notify = None, mq_owner = None \<rparr>"

definition ex_mq :: "mq_message list \<Rightarrow> mqs" where
  "ex_mq ms = \<lparr> ms_next = 2, ms_queues = [(1, ex_queue_of ms)], ms_names = [([47], 1)], ms_ends = [(3, \<lparr> me_id = 1, me_access = 2 \<rparr>)] \<rparr>"

definition ex_req :: "nat \<Rightarrow> u8 \<Rightarrow> mq_request" where
  "ex_req p b = \<lparr> mr_fd = 3, mr_id = 1, mr_priority = p, mr_deadline = u64_max, mr_data = [b] \<rparr>"

definition ex_msg_of :: "nat \<Rightarrow> u8 \<Rightarrow> mq_message" where
  "ex_msg_of p b = \<lparr> mg_priority = p, mg_data = [b] \<rparr>"

text \<open>The name \<open>/\<close> at address \<open>0x2000\<close>.\<close>

definition ex_name_mem :: umem where
  "ex_name_mem = \<lparr> m_bytes = (\<lambda>a. if a = 0x2000 then 47 else 0), m_readable = (\<lambda>_. True), m_writable = (\<lambda>_. True) \<rparr>"

lemma mq_inv_boot: "mq_sys_inv (mqs_boot, F, k)"
  by (simp add: mq_sys_inv_def mq_inv_def mqs_boot_def bwf_def)

lemma ex_name: "read_cstr ex_name_mem 0x2000 mq_name_max = Ok [47]"
proof -
  have peek1: "copyin ex_name_mem a 1 = Ok [m_bytes ex_name_mem a]" if "vm_minuser \<le> a" "a + 1 \<le> vm_maxuser" for a
    using that by (simp add: copyin_def check_range_def checked_add_u64_def u64_max_def vm_maxuser_def peek_def Let_def) (simp add: ex_name_mem_def)
  have "scan_cstr ex_name_mem 0x2000 0 (Suc (Suc n)) [] = Ok [47]" for n
    using peek1 [of "0x2000"] peek1 [of "0x2001"]
    by (simp add: user_add_def vm_minuser_def vm_maxuser_def) (simp add: ex_name_mem_def)
  from this [of 253] show ?thesis by (simp add: read_cstr_def mq_name_max_def)
qed

lemma ex_open: "\<exists>res F'. do_mq_open ex_env ex_name_mem 0x2000 0x42 0 fds_boot mqs_boot = (res, F', ex_mq [])"
proof -
  obtain r F' where f: "finstall ex_env (fd_next fds_boot) mqueue_ops 1 (open_flag 0x42) FMqueue (fds_boot\<lparr>fd_next := fd_next fds_boot + 1\<rparr>) = (r, F')"
    by (cases "finstall ex_env (fd_next fds_boot) mqueue_ops 1 (open_flag 0x42) FMqueue (fds_boot\<lparr>fd_next := fd_next fds_boot + 1\<rparr>)")
  have room: "check_room ex_env 1 fds_boot = Ok ()"
    by (simp add: check_room_def fds_boot_def ex_env_def ft_free_below_def ft_new_def kernel_opening_def)
  have new: "mq_resolve ex_name_mem [47] 0x42 0 mqs_boot = Ok (1, \<lparr> ms_next = 2, ms_queues = [(1, new_queue 10 8192)], ms_names = [([47], 1)], ms_ends = [] \<rparr>)"
    by (simp add: mq_resolve_def mqs_boot_def o_creat_def mq_attr_of_def mq_default_maxmsg_def mq_default_msgsize_def
        mq_max_maxmsg_def mq_max_msgsize_def)
  show ?thesis
    using f room new
    by (simp add: do_mq_open_def ex_name alloc_fd_def Let_def)
      (simp add: new_queue_def u32_max_def set_queue_def bupdate_def ex_mq_def ex_queue_of_def fds_boot_def)
qed

lemma ex_mq_get [simp]:
  "bget (ms_queues (ex_mq ms)) 1 = Some (ex_queue_of ms)" "bget (ms_queues (ex_mq ms)) (Suc 0) = Some (ex_queue_of ms)"
  by (simp_all add: ex_mq_def)

lemma ex_queue_of_sel [simp]:
  "mq_messages (ex_queue_of ms) = ms" "mq_max_msg (ex_queue_of ms) = 10" "mq_msg_size (ex_queue_of ms) = 8192" "mq_notify (ex_queue_of ms) = None"
  by (simp_all add: ex_queue_of_def)

lemma ex_send:
  assumes "length ms < 10"
  shows "mq_send_pass False (ex_req p b) F (ex_mq ms) k
    = (Return (Ok 0), None, ex_mq (insert_by_priority ms p [b]), wake_where (mq_receiver 1) k)"
proof -
  have "bget (ms_queues (ex_mq ms)) (mr_id (ex_req p b)) = Some (ex_queue_of ms)" by (simp add: ex_req_def)
  then show ?thesis
    using assms by (simp add: mq_send_pass_def wake_mq_receivers_def Let_def)
      (simp add: ex_req_def ex_mq_def set_queue_def bupdate_def ex_queue_of_def)
qed

section \<open>Properties\<close>

text \<open>
  C12. Every message queue of every reachable state is well formed: its limits are within the kernel's, it holds
  no more messages than its limit, each of a size and a priority it allows, the highest priority first; it is counted
  open exactly once per descriptor; it has a name unless it was unlinked, and then some descriptor keeps it; and a
  notification is registered exactly when an open descriptor of the queue owns it.
\<close>

theorem mq_wellformed:
  assumes "mq_step\<^sup>*\<^sup>* (mqs_boot, F0, k0) (st, F, k)" and "bget (ms_queues st) i = Some q"
  shows "queue_ok q \<and> int (mq_open_count q) = ends_of st i
    \<and> (mq_unlinked q \<longleftrightarrow> (\<forall>n. bget (ms_names st) n \<noteq> Some i)) \<and> (mq_unlinked q \<longrightarrow> 0 < mq_open_count q)
    \<and> (\<forall>fd. mq_owner q = Some fd \<longrightarrow> (\<exists>en. bget (ms_ends st) fd = Some en \<and> me_id en = i))"
proof -
  have inv: "mq_inv (fd_next F) st" using mq_steps_inv [OF assms(1) mq_inv_boot] by (simp add: mq_sys_inv_def)
  have "bget (ms_names st) n \<noteq> Some i" if "mq_unlinked q" for n using mq_invD(5) [OF inv, of n i] assms(2) that by auto
  then show ?thesis using mq_invD(4) [OF inv assms(2)] unfolding queue_held_def by blast
qed

theorem mq_wellformed_witness:
  "\<exists>F. mq_step\<^sup>*\<^sup>* (mqs_boot, fds_boot, ex_k) (ex_mq [], F, ex_k) \<and> queue_ok (ex_queue_of []) \<and> 1 = ends_of (ex_mq []) 1"
proof -
  obtain res F where "do_mq_open ex_env ex_name_mem 0x2000 0x42 0 fds_boot mqs_boot = (res, F, ex_mq [])" using ex_open by blast
  then have run: "mq_step\<^sup>*\<^sup>* (mqs_boot, fds_boot, ex_k) (ex_mq [], F, ex_k)" using mq_step.ctl [OF mq_ctl.opens] by blast
  have "int (mq_open_count (ex_queue_of [])) = 1" by (simp add: ex_queue_of_def)
  with mq_wellformed [OF run ex_mq_get(1)] run show ?thesis by auto
qed

text \<open>
  C10. A receive gives the oldest of the most urgent messages: whatever sends, receives, opens, closes and
  unlinks went before, a receive that succeeds delivers, to the caller's memory, the first sent among the messages
  of highest priority that were sent to the queue and not yet received.
\<close>

theorem mq_delivery_order:
  assumes "mq_run\<^sup>*\<^sup>* ((mqs_boot, F0, k0), \<lambda>_. []) ((st, F, k), pending)"
    and "mq_recv_pass intr wall fd i len msg_ptr prio_ptr at_ptr m F st k = (Return (Ok n), m', st', k')"
  shows "pending i \<noteq> [] \<and> n = length (mg_data (best_of (pending i)))
    \<and> mq_deliver (best_of (pending i)) msg_ptr prio_ptr m = (Ok (), m')"
proof -
  have "mq_refines ((mqs_boot, F0, k0), \<lambda>_. [])" using mq_inv_boot by (simp add: mq_refines_def) (simp add: mqs_boot_def)
  then have r: "mq_refines ((st, F, k), pending)" using mq_run_reach [OF assms(1)] by blast
  from assms(2) show ?thesis
  proof (cases rule: mq_recv_cases)
    case (taken q msg rest)
    have p: "by_priority (pending i) = msg # rest" using r taken(1,2) by (auto simp: mq_refines_def)
    then have "pending i \<noteq> []" "msg = best_of (pending i)" using by_priority_best [of "pending i"] by (cases "pending i = []"; simp)+
    then show ?thesis using taken(5,6) by simp
  qed auto
qed

theorem mq_delivery_order_witness:
  "\<exists>F k pending st' k'. mq_run\<^sup>*\<^sup>* ((mqs_boot, fds_boot, ex_k), \<lambda>_. []) ((ex_mq [ex_msg_of 7 2, ex_msg_of 3 1], F, k), pending)
     \<and> mq_recv_pass False (0, 0) 3 1 8192 0x2000 0 0 ex_mem F (ex_mq [ex_msg_of 7 2, ex_msg_of 3 1]) k
         = (Return (Ok 1), snd (mq_deliver (ex_msg_of 7 2) 0x2000 0 ex_mem), st', k')
     \<and> best_of (pending 1) = ex_msg_of 7 2 \<and> mq_deliver (best_of (pending 1)) 0x2000 0 ex_mem = (Ok (), snd (mq_deliver (ex_msg_of 7 2) 0x2000 0 ex_mem))"
proof -
  obtain res F where o: "do_mq_open ex_env ex_name_mem 0x2000 0x42 0 fds_boot mqs_boot = (res, F, ex_mq [])" using ex_open by blast
  let ?A = "\<lambda>_::nat. [] :: mq_message list"
  let ?k = "wake_where (mq_receiver 1) ex_k" and ?k2 = "wake_where (mq_receiver 1) (wake_where (mq_receiver 1) ex_k)"
  let ?B = "?A(1 := [ex_msg_of 3 1])" and ?C = "?A(1 := [ex_msg_of 3 1, ex_msg_of 7 2])"
  have 1: "mq_run ((mqs_boot, fds_boot, ex_k), ?A) ((ex_mq [], F, ex_k), ?A)" by (rule mq_run.ctl, rule mq_ctl.opens, rule o)
  have i1: "insert_by_priority [] 3 [1] = [ex_msg_of 3 1]" by (simp add: insert_by_priority_def ex_msg_of_def)
  have i2: "insert_by_priority [ex_msg_of 3 1] 7 [2] = [ex_msg_of 7 2, ex_msg_of 3 1]"
    by (simp add: insert_by_priority_def ex_msg_of_def)
  have 2: "mq_run ((ex_mq [], F, ex_k), ?A) ((ex_mq [ex_msg_of 3 1], F, ?k), ?B)"
    by (rule mq_run.send [OF _ ex_send [of "[]" 3 1, unfolded i1]]) (simp_all add: ex_req_def mq_prio_max_def ex_msg_of_def)
  have 3: "mq_run ((ex_mq [ex_msg_of 3 1], F, ?k), ?B) ((ex_mq [ex_msg_of 7 2, ex_msg_of 3 1], F, ?k2), ?C)"
    by (rule mq_run.send [OF _ ex_send [of "[ex_msg_of 3 1]" 7 2, unfolded i2]]) (simp_all add: ex_req_def mq_prio_max_def ex_msg_of_def)
  have run: "mq_run\<^sup>*\<^sup>* ((mqs_boot, fds_boot, ex_k), ?A) ((ex_mq [ex_msg_of 7 2, ex_msg_of 3 1], F, ?k2), ?C)"
    by (rule converse_rtranclp_into_rtranclp [where r = mq_run, OF 1], rule converse_rtranclp_into_rtranclp [where r = mq_run, OF 2],
        rule r_into_rtranclp [where r = mq_run, OF 3])
  have "\<exists>m'. mq_deliver (ex_msg_of 7 2) 0x2000 0 ex_mem = (Ok (), m')"
    using copyout_ok [of "0x2000" "[2]" ex_mem] by (simp add: mq_deliver_def ex_msg_of_def wrap64_def)
  then obtain m' where d: "mq_deliver (ex_msg_of 7 2) 0x2000 0 ex_mem = (Ok (), m')" by blast
  have recv: "mq_recv_pass False (0, 0) 3 1 8192 0x2000 0 0 ex_mem F (ex_mq [ex_msg_of 7 2, ex_msg_of 3 1]) ?k2
     = (Return (Ok 1), m', set_queue 1 (\<lambda>q. q\<lparr>mq_messages := [ex_msg_of 3 1]\<rparr>) (ex_mq [ex_msg_of 7 2, ex_msg_of 3 1]), wake_mq_senders 1 ?k2)"
    using d by (simp add: mq_recv_pass_def) (simp add: ex_msg_of_def)
  have best: "best_of (?C 1) = ex_msg_of 7 2" by (simp add: best_of_def ex_msg_of_def)
  have del: "mq_deliver (best_of (?C 1)) 0x2000 0 ex_mem = (Ok (), m')" using mq_delivery_order [OF run recv] by blast
  have m: "snd (mq_deliver (ex_msg_of 7 2) 0x2000 0 ex_mem) = m'" using d by simp
  show ?thesis unfolding m using run recv best del by blast
qed

text \<open>
  C24. No receiver is forgotten: whatever the order of the calls, the queue a process is blocked receiving from
  holds no message; run again, its call would not return one.
\<close>

theorem mq_no_lost_receiver:
  assumes "mq_step\<^sup>*\<^sup>* (mqs_boot, F0, k0) (st, F, k)" and "\<forall>pid i d. \<not> blocked_as k0 pid (WaitingForMqData i d)"
    and "blocked_as k pid (WaitingForMqData i deadline)"
  shows "fst (mq_recv_pass intr wall fd i len msg_ptr prio_ptr at_ptr m F' st k') \<noteq> Return (Ok n)"
proof -
  have "recv_starved (st, F, k) (i, deadline)"
    by (rule mq_receivers.no_lost_wakeup [OF assms(1) mq_inv_boot, of pid]) (use assms(2,3) in \<open>simp_all add: recv_waits_def\<close>)
  then have empty: "mq_messages q = []" if "bget (ms_queues st) i = Some q" for q using that by (simp add: recv_starved_def)
  obtain r m1 st1 k1 where p: "mq_recv_pass intr wall fd i len msg_ptr prio_ptr at_ptr m F' st k' = (r, m1, st1, k1)" by (metis prod_cases4)
  then have "r \<noteq> Return (Ok n)" by (cases rule: mq_recv_cases) (use empty in auto)
  then show ?thesis using p by simp
qed

lemma ex_k_not_mq: "\<not> blocked_as ex_k pid (WaitingForMqData i d)"
  by (auto simp: blocked_as_def ex_k_def ex_core_def ex_proc_def split: if_splits)

theorem mq_no_lost_receiver_witness:
  "\<exists>F k. mq_step\<^sup>*\<^sup>* (mqs_boot, fds_boot, ex_k) (ex_mq [], F, k) \<and> blocked_as k 2 (WaitingForMqData 1 u64_max)
     \<and> fst (mq_recv_pass False (0, 0) 3 1 8192 0x2000 0 0 ex_mem F (ex_mq []) k) \<noteq> Return (Ok 1)"
proof -
  obtain res F where o: "do_mq_open ex_env ex_name_mem 0x2000 0x42 0 fds_boot mqs_boot = (res, F, ex_mq [])" using ex_open by blast
  let ?k = "block_current (WaitingForMqData 1 u64_max) ex_k" and ?F = "fds_boot\<lparr>fd_next := fd_next F\<rparr>"
  have "mq_step\<^sup>*\<^sup>* (mqs_boot, fds_boot, ex_k) (ex_mq [], F, ex_k)" using mq_step.ctl [OF mq_ctl.opens [OF o]] by blast
  moreover have "mq_step (ex_mq [], F, ex_k) (ex_mq [], ?F, ex_k)"
    by (rule mq_step.ctl, rule mq_ctl.other) (simp_all add: elsewhere_refl)
  moreover have "mq_step (ex_mq [], ?F, ex_k) (ex_mq [], ?F, ?k)"
    by (rule mq_step.recv [where wall = "(0, 0)" and fd = 3 and i = 1 and len = 8192 and at_ptr = 0 and intr = False and m = ex_mem])
      (simp add: mq_recv_pass_def is_nonblocking_def fds_boot_def resolve_deadline_def u64_max_def ex_k_def)
  ultimately have run: "mq_step\<^sup>*\<^sup>* (mqs_boot, fds_boot, ex_k) (ex_mq [], ?F, ?k)" by (rule rtranclp.rtrancl_into_rtrancl [OF rtranclp.rtrancl_into_rtrancl])
  have blocked: "blocked_as ?k 2 (WaitingForMqData 1 u64_max)" unfolding blocked_as_block_current by (simp add: ex_k_def)
  have "fst (mq_recv_pass False (0, 0) 3 1 8192 0x2000 0 0 ex_mem ?F (ex_mq []) ?k) \<noteq> Return (Ok 1)"
    by (rule mq_no_lost_receiver [OF run _ blocked]) (simp add: ex_k_not_mq)
  then show ?thesis using run blocked by blast
qed

text \<open>
  C32. A receive into a bad buffer can strand a sender: it takes its message off the full queue and returns
  \<open>EFAULT\<close> without waking the senders, so a process blocked sending stays blocked although its send,
  run again, would succeed at once.
\<close>

theorem receive_fault_strands_sender:
  assumes "mq_step\<^sup>*\<^sup>* (mqs_boot, F0, k0) (st, F, k)" and "bget (ms_queues st) i = Some q" and "mq_messages q = msg # rest"
    and "mq_msg_size q \<le> int len" and "mq_deliver msg msg_ptr prio_ptr m = (Err EFAULT, m')"
    and "blocked_as k pid (WaitingForMqSpace i deadline)" and "mr_id req = i" and "int (length (mr_data req)) \<le> mq_msg_size q"
  shows "\<exists>st'. mq_recv_pass intr wall fd i len msg_ptr prio_ptr at_ptr m F st k = (Return (Err EFAULT), m', st', k)
    \<and> blocked_as k pid (WaitingForMqSpace i deadline) \<and> fst (mq_send_pass intr' req F st' k) = Return (Ok 0)"
proof -
  have inv: "mq_inv (fd_next F) st" using mq_steps_inv [OF assms(1) mq_inv_boot] by (simp add: mq_sys_inv_def)
  let ?st = "set_queue i (\<lambda>q. q\<lparr>mq_messages := rest\<rparr>) st"
  have room: "int (length rest) < mq_max_msg q"
    using mq_invD(4) [OF inv assms(2)] assms(3) by (simp add: queue_held_def queue_ok_def)
  have "mq_recv_pass intr wall fd i len msg_ptr prio_ptr at_ptr m F st k = (Return (Err EFAULT), m', ?st, k)"
    using assms(2-5) by (simp add: mq_recv_pass_def)
  moreover have "fst (mq_send_pass intr' req F ?st k) = Return (Ok 0)"
    using assms(2,7,8) room by (simp add: mq_send_pass_def Let_def split: prod.splits)
  ultimately show ?thesis using assms(6) by blast
qed

lemma mq_step_trans: "mq_step\<^sup>*\<^sup>* x y \<Longrightarrow> mq_step y z \<Longrightarrow> mq_step\<^sup>*\<^sup>* x z"
  by (rule rtranclp.rtrancl_into_rtrancl)

lemma ex_k_elsewhere: "elsewhere is_mq_reason k ex_k"
  by (auto simp: elsewhere_def ex_k_def ex_core_def ex_proc_def is_mq_reason_def split: if_splits)

text \<open>Ten messages fill the example's queue.\<close>

lemma ex_fill:
  assumes "n \<le> 10"
  shows "\<exists>b. mq_step\<^sup>*\<^sup>* (mqs_boot, fds_boot, ex_k) (ex_mq (replicate n (ex_msg_of 3 1)), fds_boot\<lparr>fd_next := b\<rparr>, ex_k)"
  using assms
proof (induction n)
  case 0
  obtain res F where o: "do_mq_open ex_env ex_name_mem 0x2000 0x42 0 fds_boot mqs_boot = (res, F, ex_mq [])" using ex_open by blast
  have "mq_step\<^sup>*\<^sup>* (mqs_boot, fds_boot, ex_k) (ex_mq [], F, ex_k)" using mq_step.ctl [OF mq_ctl.opens [OF o]] by blast
  then have "mq_step\<^sup>*\<^sup>* (mqs_boot, fds_boot, ex_k) (ex_mq [], fds_boot\<lparr>fd_next := fd_next F\<rparr>, ex_k)"
    by (rule mq_step_trans) (rule mq_step.ctl, rule mq_ctl.other, simp_all add: ex_k_elsewhere)
  then show ?case by auto
next
  case (Suc n)
  let ?ms = "replicate n (ex_msg_of 3 1)"
  obtain b where run: "mq_step\<^sup>*\<^sup>* (mqs_boot, fds_boot, ex_k) (ex_mq ?ms, fds_boot\<lparr>fd_next := b\<rparr>, ex_k)" using Suc by auto
  have ins: "insert_by_priority ?ms 3 [1] = replicate (Suc n) (ex_msg_of 3 1)"
    unfolding insert_by_priority_eq by (simp add: ex_msg_of_def replicate_append_same)
  have s: "mq_send_pass False (ex_req 3 1) F (ex_mq ?ms) ex_k
      = (Return (Ok 0), None, ex_mq (replicate (Suc n) (ex_msg_of 3 1)), wake_where (mq_receiver 1) ex_k)" for F
    using ex_send [of ?ms 3 1] Suc.prems unfolding ins by simp
  have "mq_step (ex_mq ?ms, fds_boot\<lparr>fd_next := b\<rparr>, ex_k)
      (ex_mq (replicate (Suc n) (ex_msg_of 3 1)), fds_boot\<lparr>fd_next := b\<rparr>, wake_where (mq_receiver 1) ex_k)"
    by (rule mq_step.send [OF _ s]) (simp add: ex_req_def mq_prio_max_def)
  moreover have "mq_step (ex_mq (replicate (Suc n) (ex_msg_of 3 1)), fds_boot\<lparr>fd_next := b\<rparr>, wake_where (mq_receiver 1) ex_k)
      (ex_mq (replicate (Suc n) (ex_msg_of 3 1)), fds_boot\<lparr>fd_next := b\<rparr>, ex_k)"
    by (rule mq_step.ctl, rule mq_ctl.other) (simp_all add: ex_k_elsewhere)
  ultimately show ?case using mq_step_trans [OF mq_step_trans [OF run]] by blast
qed

theorem receive_fault_strands_sender_witness:
  "\<exists>F st st' m'. mq_step\<^sup>*\<^sup>* (mqs_boot, fds_boot, ex_k) (st, F, block_current (WaitingForMqSpace 1 u64_max) ex_k)
     \<and> mq_recv_pass False (0, 0) 3 1 8192 0 0 0 ex_mem F st (block_current (WaitingForMqSpace 1 u64_max) ex_k)
         = (Return (Err EFAULT), m', st', block_current (WaitingForMqSpace 1 u64_max) ex_k)
     \<and> blocked_as (block_current (WaitingForMqSpace 1 u64_max) ex_k) 2 (WaitingForMqSpace 1 u64_max)
     \<and> fst (mq_send_pass False (ex_req 3 1) F st' (block_current (WaitingForMqSpace 1 u64_max) ex_k)) = Return (Ok 0)"
proof -
  let ?ms = "replicate 10 (ex_msg_of 3 1)" and ?k = "block_current (WaitingForMqSpace 1 u64_max) ex_k"
  obtain b where full: "mq_step\<^sup>*\<^sup>* (mqs_boot, fds_boot, ex_k) (ex_mq ?ms, fds_boot\<lparr>fd_next := b\<rparr>, ex_k)" using ex_fill [of 10] by auto
  let ?F = "fds_boot\<lparr>fd_next := b\<rparr>"
  have "mq_step (ex_mq ?ms, ?F, ex_k) (ex_mq ?ms, ?F, ?k)"
    by (rule mq_step.send [where req = "ex_req 3 1" and intr = False])
      (simp_all add: ex_req_def mq_prio_max_def mq_send_pass_def is_nonblocking_def fds_boot_def u64_max_def ex_k_def)
  then have run: "mq_step\<^sup>*\<^sup>* (mqs_boot, fds_boot, ex_k) (ex_mq ?ms, ?F, ?k)" by (rule mq_step_trans [OF full])
  have blocked: "blocked_as ?k 2 (WaitingForMqSpace 1 u64_max)" unfolding blocked_as_block_current by (simp add: ex_k_def)
  have q: "mq_messages (ex_queue_of ?ms) = ex_msg_of 3 1 # replicate 9 (ex_msg_of 3 1)" by (simp add: eval_nat_numeral)
  have d: "mq_deliver (ex_msg_of 3 1) 0 0 ex_mem = (Err EFAULT, ex_mem)"
    by (auto simp: mq_deliver_def ex_msg_of_def copyout_def check_range_def checked_add_u64_def vm_minuser_def split: option.splits)
  show ?thesis
    using receive_fault_strands_sender [OF run ex_mq_get(1) q _ d blocked, where req = "ex_req 3 1"] run blocked
    by (fastforce simp: ex_req_def)
qed

end
