(* ===== verification/Byte_Set.thy ===== *)
theory Byte_Set
  imports Prelude
begin

text \<open>
  Sets of bytes as four machine words (\<open>lib/libregex/src/byteset.rs\<close>): what one position of a
  pattern accepts. Each operation is shown to be the operation on sets it stands for.
\<close>

section \<open>Operations\<close>

type_synonym byteset = "u64 list"

definition bs_new :: byteset where "bs_new = replicate 4 0"
definition bs_full :: byteset where "bs_full = replicate 4 (NOT 0)"

definition bs_contains :: "byteset \<Rightarrow> u8 \<Rightarrow> bool" where
  "bs_contains s b \<longleftrightarrow> drop_bit (unat (b AND 63)) (s ! unat (drop_bit 6 b)) AND 1 \<noteq> 0"

definition bs_insert :: "byteset \<Rightarrow> u8 \<Rightarrow> byteset" where
  "bs_insert s b = (let w = unat (drop_bit 6 b) in s[w := s ! w OR push_bit (unat (b AND 63)) 1])"

definition bs_remove :: "byteset \<Rightarrow> u8 \<Rightarrow> byteset" where
  "bs_remove s b = (let w = unat (drop_bit 6 b) in s[w := s ! w AND NOT (push_bit (unat (b AND 63)) 1)])"

definition bs_single :: "u8 \<Rightarrow> byteset" where
  "bs_single b = bs_insert bs_new b"

definition byte_range :: "u8 \<Rightarrow> u8 \<Rightarrow> u8 list" where
  "byte_range lo hi = map word_of_nat [unat lo..<Suc (unat hi)]"

definition bs_insert_range :: "byteset \<Rightarrow> u8 \<Rightarrow> u8 \<Rightarrow> byteset" where
  "bs_insert_range s lo hi = foldl bs_insert s (byte_range lo hi)"

definition bs_union :: "byteset \<Rightarrow> byteset \<Rightarrow> byteset" where
  "bs_union s o' = map2 (\<lambda>a b. a OR b) s o'"

definition bs_negate :: "byteset \<Rightarrow> byteset" where
  "bs_negate s = map (\<lambda>w. NOT w) s"

definition to_upper :: "u8 \<Rightarrow> u8" where
  "to_upper b = (if 0x61 \<le> b \<and> b \<le> 0x7a then b - 0x20 else b)"

definition fold_step :: "byteset \<Rightarrow> u8 \<Rightarrow> byteset" where
  "fold_step s b =
     (let u = to_upper b in if bs_contains s b \<or> bs_contains s u then bs_insert (bs_insert s b) u else s)"

definition bs_fold_case :: "byteset \<Rightarrow> byteset" where
  "bs_fold_case s = foldl fold_step s (byte_range 0x61 0x7a)"

text \<open>The POSIX locale's character classes.\<close>

definition bytes_of :: "string \<Rightarrow> u8 list" where
  "bytes_of s = map of_char s"

definition class_ranges :: "u8 list \<Rightarrow> (u8 \<times> u8) list option" where
  "class_ranges name =
     (if name = bytes_of ''alpha'' then Some [(0x41, 0x5a), (0x61, 0x7a)]
      else if name = bytes_of ''digit'' then Some [(0x30, 0x39)]
      else if name = bytes_of ''alnum'' then Some [(0x30, 0x39), (0x41, 0x5a), (0x61, 0x7a)]
      else if name = bytes_of ''upper'' then Some [(0x41, 0x5a)]
      else if name = bytes_of ''lower'' then Some [(0x61, 0x7a)]
      else if name = bytes_of ''space'' then Some [(0x09, 0x0d), (0x20, 0x20)]
      else if name = bytes_of ''blank'' then Some [(0x09, 0x09), (0x20, 0x20)]
      else if name = bytes_of ''punct'' then Some [(0x21, 0x2f), (0x3a, 0x40), (0x5b, 0x60), (0x7b, 0x7e)]
      else if name = bytes_of ''print'' then Some [(0x20, 0x7e)]
      else if name = bytes_of ''graph'' then Some [(0x21, 0x7e)]
      else if name = bytes_of ''cntrl'' then Some [(0, 0x1f), (0x7f, 0x7f)]
      else if name = bytes_of ''xdigit'' then Some [(0x30, 0x39), (0x41, 0x46), (0x61, 0x66)]
      else None)"

definition bs_class :: "u8 list \<Rightarrow> byteset option" where
  "bs_class name = map_option (foldl (\<lambda>s (lo, hi). bs_insert_range s lo hi) bs_new) (class_ranges name)"

section \<open>They are the operations on sets\<close>

definition bs_ok :: "byteset \<Rightarrow> bool" where
  "bs_ok s \<longleftrightarrow> length s = 4"

lemma byte_less: "unat b < 256" for b :: u8
  using unsigned_less [where ?'a = nat, of b] by simp

lemma word_index: "unat (drop_bit 6 b) = unat b div 64" "unat (b AND 63) = unat b mod 64" for b :: u8
proof -
  show "unat (drop_bit 6 b) = unat b div 64" by (simp add: drop_bit_eq_div unat_div)
  have "b AND 63 = take_bit 6 b" by (simp add: take_bit_eq_mask mask_eq_exp_minus_1)
  then show "unat (b AND 63) = unat b mod 64" by (simp only: unsigned_take_bit_eq) (simp add: take_bit_eq_mod)
qed

lemma word_index_less: "unat b div 64 < 4" for b :: u8
  using byte_less [of b] by simp

lemma byte_eq_iff: "b = c \<longleftrightarrow> unat b div 64 = unat c div 64 \<and> unat b mod 64 = unat c mod 64" for b c :: u8
  by (metis div_mult_mod_eq word_unat_eq_iff)

lemma bs_contains_bit: "bs_contains s b \<longleftrightarrow> bit (s ! (unat b div 64)) (unat b mod 64)"
  by (simp add: bs_contains_def word_index and_one_eq odd_iff_mod_2_eq_one [symmetric] bit_iff_odd_drop_bit)

lemma bs_contains_new [simp]: "\<not> bs_contains bs_new b"
  using word_index_less [of b] by (simp add: bs_contains_bit bs_new_def)

lemma bs_contains_full [simp]: "bs_contains bs_full b"
  using word_index_less [of b] by (simp add: bs_contains_bit bs_full_def)

lemma bs_contains_insert: "bs_ok s \<Longrightarrow> bs_contains (bs_insert s b) c \<longleftrightarrow> c = b \<or> bs_contains s c"
  using word_index_less [of b] word_index_less [of c]
  by (auto simp: bs_contains_bit bs_insert_def Let_def word_index nth_list_update bs_ok_def byte_eq_iff [of c] bit_simps)

lemma bs_contains_remove: "bs_ok s \<Longrightarrow> bs_contains (bs_remove s b) c \<longleftrightarrow> c \<noteq> b \<and> bs_contains s c"
  using word_index_less [of b] word_index_less [of c]
  by (auto simp: bs_contains_bit bs_remove_def Let_def word_index nth_list_update bs_ok_def byte_eq_iff [of c] bit_simps)

lemma bs_contains_union: "bs_ok s \<Longrightarrow> bs_ok t \<Longrightarrow> bs_contains (bs_union s t) c \<longleftrightarrow> bs_contains s c \<or> bs_contains t c"
  using word_index_less [of c] by (simp add: bs_contains_bit bs_union_def bs_ok_def bit_simps)

lemma bs_contains_negate: "bs_ok s \<Longrightarrow> bs_contains (bs_negate s) c \<longleftrightarrow> \<not> bs_contains s c"
  using word_index_less [of c] by (simp add: bs_contains_bit bs_negate_def bs_ok_def bit_simps)

lemma bs_ok_ops [simp]:
  "bs_ok bs_new" "bs_ok bs_full" "bs_ok (bs_insert s b) = bs_ok s" "bs_ok (bs_remove s b) = bs_ok s" "bs_ok (bs_single b)"
  "bs_ok s \<Longrightarrow> bs_ok t \<Longrightarrow> bs_ok (bs_union s t)" "bs_ok (bs_negate s) = bs_ok s"
  by (simp_all add: bs_ok_def bs_new_def bs_full_def bs_insert_def bs_remove_def bs_single_def bs_union_def bs_negate_def Let_def)

lemma bs_contains_single [simp]: "bs_contains (bs_single b) c \<longleftrightarrow> c = b"
  by (simp add: bs_single_def bs_contains_insert)

lemma set_byte_range: "set (byte_range lo hi) = {b. lo \<le> b \<and> b \<le> hi}"
proof -
  have "b \<in> word_of_nat ` {unat lo..unat hi}" if "lo \<le> b" "b \<le> hi" for b
    using that by (intro image_eqI [of _ _ "unat b"]) (auto simp: word_le_nat_alt)
  moreover have "lo \<le> word_of_nat n \<and> word_of_nat n \<le> hi" if "unat lo \<le> n" "n \<le> unat hi" for n
    using that byte_less [of hi] by (simp add: word_le_nat_alt unat_of_nat)
  moreover have "set (byte_range lo hi) = word_of_nat ` {unat lo..unat hi}"
    by (simp add: byte_range_def atLeastLessThanSuc_atLeastAtMost del: upt_Suc)
  ultimately show ?thesis by auto
qed

lemma foldl_insert: "bs_ok s \<Longrightarrow> bs_ok (foldl bs_insert s bs) \<and> (\<forall>c. bs_contains (foldl bs_insert s bs) c \<longleftrightarrow> c \<in> set bs \<or> bs_contains s c)"
  by (induction bs arbitrary: s) (auto simp: bs_contains_insert)

lemma bs_insert_range:
  assumes "bs_ok s"
  shows "bs_ok (bs_insert_range s lo hi)" and "bs_contains (bs_insert_range s lo hi) c \<longleftrightarrow> lo \<le> c \<and> c \<le> hi \<or> bs_contains s c"
  using foldl_insert [OF assms] by (auto simp: bs_insert_range_def set_byte_range)

text \<open>Two bytes are the same letter up to case.\<close>

definition same_letter :: "u8 \<Rightarrow> u8 \<Rightarrow> bool" where
  "same_letter b c \<longleftrightarrow> to_upper b = to_upper c"

lemma to_upper_inj:
  assumes "0x61 \<le> b" "b \<le> 0x7a" "0x61 \<le> c" "c \<le> 0x7a"
  shows "to_upper b = to_upper c \<longleftrightarrow> b = c" and "to_upper b \<noteq> c" and "to_upper (to_upper b) = to_upper b"
proof -
  show "to_upper b = to_upper c \<longleftrightarrow> b = c" using assms by (auto simp: to_upper_def)
  have "unat (b - 0x20) = unat b - 0x20" using assms(1) by (subst unat_sub) (auto simp: word_le_nat_alt)
  then have u: "to_upper b < 0x61" using assms by (simp add: to_upper_def word_less_nat_alt word_le_nat_alt)
  then show "to_upper b \<noteq> c" and "to_upper (to_upper b) = to_upper b" using assms by (auto simp: to_upper_def [of "to_upper b"])
qed

lemma fold_step:
  assumes "bs_ok s"
  shows "bs_ok (fold_step s b)"
    and "bs_contains (fold_step s b) c \<longleftrightarrow> bs_contains s c \<or> (c = b \<or> c = to_upper b) \<and> (bs_contains s b \<or> bs_contains s (to_upper b))"
  using assms by (auto simp: fold_step_def Let_def bs_contains_insert)

lemma foldl_fold_step:
  assumes "bs_ok s" "\<forall>b\<in>set bs. 0x61 \<le> b \<and> b \<le> 0x7a"
  shows "bs_ok (foldl fold_step s bs) \<and>
    (bs_contains (foldl fold_step s bs) c \<longleftrightarrow>
      bs_contains s c \<or> (\<exists>b\<in>set bs. (c = b \<or> c = to_upper b) \<and> (bs_contains s b \<or> bs_contains s (to_upper b))))"
  using assms
proof (induction bs arbitrary: s)
  case (Cons b bs)
  have "bs_contains (fold_step s b) a \<or> bs_contains (fold_step s b) (to_upper a) \<longleftrightarrow> bs_contains s a \<or> bs_contains s (to_upper a)"
    if "a \<in> set bs" for a
    using to_upper_inj [of a b] to_upper_inj [of b a] that Cons.prems by (auto simp: fold_step)
  then show ?case using Cons by (auto simp: fold_step)
qed simp

lemma bs_fold_case:
  assumes "bs_ok s"
  shows "bs_ok (bs_fold_case s)" and "bs_contains (bs_fold_case s) c \<longleftrightarrow> (\<exists>b. same_letter b c \<and> bs_contains s b)"
proof -
  note f = foldl_fold_step [OF assms, of "byte_range 0x61 0x7a" c]
  show "bs_ok (bs_fold_case s)" using f by (simp add: bs_fold_case_def set_byte_range)
  have "bs_contains (bs_fold_case s) c \<longleftrightarrow> bs_contains s c \<or>
      (\<exists>b. 0x61 \<le> b \<and> b \<le> 0x7a \<and> (c = b \<or> c = to_upper b) \<and> (bs_contains s b \<or> bs_contains s (to_upper b)))"
    using f by (auto simp: bs_fold_case_def set_byte_range)
  also have "\<dots> \<longleftrightarrow> (\<exists>b. same_letter b c \<and> bs_contains s b)"
  proof
    assume "bs_contains s c \<or>
      (\<exists>b. 0x61 \<le> b \<and> b \<le> 0x7a \<and> (c = b \<or> c = to_upper b) \<and> (bs_contains s b \<or> bs_contains s (to_upper b)))"
    then show "\<exists>b. same_letter b c \<and> bs_contains s b" unfolding same_letter_def using to_upper_inj(3) by metis
  next
    assume "\<exists>b. same_letter b c \<and> bs_contains s b"
    then obtain b where b: "to_upper b = to_upper c" "bs_contains s b" by (auto simp: same_letter_def)
    then have "b = c \<or> 0x61 \<le> b \<and> b \<le> 0x7a \<or> 0x61 \<le> c \<and> c \<le> 0x7a" by (auto simp: to_upper_def split: if_splits)
    then show "bs_contains s c \<or>
      (\<exists>b. 0x61 \<le> b \<and> b \<le> 0x7a \<and> (c = b \<or> c = to_upper b) \<and> (bs_contains s b \<or> bs_contains s (to_upper b)))"
    proof (elim disjE)
      assume "0x61 \<le> b \<and> b \<le> 0x7a"
      then have "c = b \<or> c = to_upper b" using b to_upper_inj(1) [of b c] by (auto simp: to_upper_def [of c] split: if_splits)
      then show ?thesis using \<open>0x61 \<le> b \<and> b \<le> 0x7a\<close> b by blast
    next
      assume "0x61 \<le> c \<and> c \<le> 0x7a"
      then have "b = c \<or> b = to_upper c" using b to_upper_inj(1) [of b c] by (auto simp: to_upper_def [of b] split: if_splits)
      then show ?thesis using \<open>0x61 \<le> c \<and> c \<le> 0x7a\<close> b by blast
    qed (use b in simp)
  qed
  finally show "bs_contains (bs_fold_case s) c \<longleftrightarrow> (\<exists>b. same_letter b c \<and> bs_contains s b)" .
qed

lemma bs_class_ok: "bs_class name = Some s \<Longrightarrow> bs_ok s"
proof -
  have "bs_ok (foldl (\<lambda>s (lo, hi). bs_insert_range s lo hi) t rs)" if "bs_ok t" for t rs
    using that by (induction rs arbitrary: t) (auto simp: bs_insert_range)
  then show "bs_class name = Some s \<Longrightarrow> bs_ok s" by (auto simp: bs_class_def)
qed

end
