(* ===== verification/Regex_Ast.thy ===== *)
theory Regex_Ast
  imports Byte_Set
begin

text \<open>
  Syntax trees of regular expressions (\<open>lib/libregex/src/parse.rs\<close>), the text they are matched
  against (\<open>sim.rs\<close>), the outcome of the library's fallible routines (\<open>error.rs\<close>), and the
  meaning of a tree: the pairs of positions between which a node matches.
\<close>

section \<open>Outcomes\<close>

datatype re_error_kind =
    NoMatch | BadPat | Collate | Ctype | Escape | Subreg | Brack | Paren | Brace | BadBr | Range | Space | BadRpt

text \<open>\<open>Good\<close> a value, \<open>Fail\<close> a kind and an offset in the pattern, or \<open>Crash\<close>: an index out of
  range, an \<open>unreachable!\<close>, an overflow.\<close>

datatype 'a rx = Good 'a | Fail re_error_kind nat | Crash

fun bind_rx :: "'a rx \<Rightarrow> ('a \<Rightarrow> 'b rx) \<Rightarrow> 'b rx" where
  "bind_rx (Good a) f = f a"
| "bind_rx (Fail k i) f = Fail k i"
| "bind_rx Crash f = Crash"

text \<open>Every outcome is either a value with the property or one of the errors allowed; in
  particular the routine does not crash.\<close>

fun safe_rx :: "(re_error_kind \<Rightarrow> bool) \<Rightarrow> ('a \<Rightarrow> bool) \<Rightarrow> 'a rx \<Rightarrow> bool" where
  "safe_rx E Q (Good a) = Q a"
| "safe_rx E Q (Fail k i) = E k"
| "safe_rx E Q Crash = False"

lemma safe_bind: "safe_rx E P m \<Longrightarrow> (\<And>a. P a \<Longrightarrow> safe_rx E Q (f a)) \<Longrightarrow> safe_rx E Q (bind_rx m f)"
  by (cases m) auto

lemma safe_mono: "safe_rx E P m \<Longrightarrow> (\<And>a. P a \<Longrightarrow> Q a) \<Longrightarrow> safe_rx E Q m"
  by (cases m) auto

lemma safe_Good: "safe_rx E Q m \<Longrightarrow> m = Good a \<Longrightarrow> Q a"
  by simp

section \<open>Trees and texts\<close>

datatype kind =
    KEmpty
  | KSet byteset
  | KBol
  | KEol
  | KGroup nat nat
  | KConcat "nat list"
  | KAlt "nat list"
  | KRepeat nat nat "nat option"
  | KBackref nat

record node =
  nd_kind :: kind
  nd_groups :: "nat \<times> nat"
  nd_backref :: bool
  nd_indep :: bool
  nd_depth :: nat
  nd_compiled :: bool
  nd_entry :: nat
  nd_exit :: nat
  nd_iters :: "nat list"

record ast =
  as_nodes :: "node list"
  as_root :: nat
  as_nsub :: nat
  as_group_node :: "nat list"
  as_has_backref :: bool

record rtext =
  tx_t :: "u8 list"
  tx_notbol :: bool
  tx_noteol :: bool
  tx_nl :: bool

definition newline :: u8 where "newline = 10"

definition tx_bol :: "rtext \<Rightarrow> nat \<Rightarrow> bool" where
  "tx_bol tx p = (if p = 0 then \<not> tx_notbol tx else tx_nl tx \<and> tx_t tx ! (p - 1) = newline)"

definition tx_eol :: "rtext \<Rightarrow> nat \<Rightarrow> bool" where
  "tx_eol tx p = (if p = length (tx_t tx) then \<not> tx_noteol tx else tx_nl tx \<and> tx_t tx ! p = newline)"

abbreviation tx_len :: "rtext \<Rightarrow> nat" where "tx_len tx \<equiv> length (tx_t tx)"

section \<open>Well-formed trees\<close>

text \<open>Children come before their parents in the arena, an alternation has a branch, an interval is
  not empty, and a back-reference names a group that was closed before it.\<close>

fun kids :: "kind \<Rightarrow> nat list" where
  "kids (KGroup _ b) = [b]"
| "kids (KConcat v) = v"
| "kids (KAlt v) = v"
| "kids (KRepeat b _ _) = [b]"
| "kids _ = []"

fun kind_ok :: "kind list \<Rightarrow> nat list \<Rightarrow> nat \<Rightarrow> kind \<Rightarrow> bool" where
  "kind_ok ks gs n (KAlt v) \<longleftrightarrow> v \<noteq> [] \<and> list_all (\<lambda>c. c < n) v"
| "kind_ok ks gs n (KRepeat b mn mx) \<longleftrightarrow> b < n \<and> (case mx of None \<Rightarrow> True | Some m \<Rightarrow> mn \<le> m)"
| "kind_ok ks gs n (KBackref g) \<longleftrightarrow>
     g < length gs \<and> gs ! g < n \<and> (case ks ! (gs ! g) of KGroup _ b \<Rightarrow> b < gs ! g | _ \<Rightarrow> False)"
| "kind_ok ks gs n k \<longleftrightarrow> list_all (\<lambda>c. c < n) (kids k)"

definition kinds_ok :: "kind list \<Rightarrow> nat list \<Rightarrow> bool" where
  "kinds_ok ks gs \<longleftrightarrow> list_all (\<lambda>n. kind_ok ks gs n (ks ! n)) [0..<length ks]"

definition ast_kinds :: "ast \<Rightarrow> kind list" where
  "ast_kinds a = map nd_kind (as_nodes a)"

definition ast_ok :: "ast \<Rightarrow> bool" where
  "ast_ok a \<longleftrightarrow> kinds_ok (ast_kinds a) (as_group_node a) \<and> as_root a < length (ast_kinds a)"

section \<open>What a tree matches\<close>

text \<open>
  \<open>sem ks gs tx sp n i k\<close>: node \<open>n\<close> matches the text from \<open>i\<close> to \<open>k\<close>. A back-reference is read as
  the automaton reads it: as its group's body, with \<open>sp\<close> set, where anchors are empty and a nested
  back-reference matches anything. Without back-references this is the meaning of the pattern.
\<close>

inductive sem :: "kind list \<Rightarrow> nat list \<Rightarrow> rtext \<Rightarrow> bool \<Rightarrow> nat \<Rightarrow> nat \<Rightarrow> nat \<Rightarrow> bool"
  and sem_seq :: "kind list \<Rightarrow> nat list \<Rightarrow> rtext \<Rightarrow> bool \<Rightarrow> nat list \<Rightarrow> nat \<Rightarrow> nat \<Rightarrow> bool"
  for ks gs tx
where
  empty: "ks ! n = KEmpty \<Longrightarrow> i \<le> tx_len tx \<Longrightarrow> sem ks gs tx sp n i i"
| set_byte: "ks ! n = KSet s \<Longrightarrow> i < tx_len tx \<Longrightarrow> bs_contains s (tx_t tx ! i) \<Longrightarrow> sem ks gs tx sp n i (Suc i)"
| bol: "ks ! n = KBol \<Longrightarrow> i \<le> tx_len tx \<Longrightarrow> sp \<or> tx_bol tx i \<Longrightarrow> sem ks gs tx sp n i i"
| eol: "ks ! n = KEol \<Longrightarrow> i \<le> tx_len tx \<Longrightarrow> sp \<or> tx_eol tx i \<Longrightarrow> sem ks gs tx sp n i i"
| group: "ks ! n = KGroup g b \<Longrightarrow> sem ks gs tx sp b i k \<Longrightarrow> sem ks gs tx sp n i k"
| concat: "ks ! n = KConcat v \<Longrightarrow> sem_seq ks gs tx sp v i k \<Longrightarrow> sem ks gs tx sp n i k"
| alt: "ks ! n = KAlt v \<Longrightarrow> a \<in> set v \<Longrightarrow> sem ks gs tx sp a i k \<Longrightarrow> sem ks gs tx sp n i k"
| repeat: "ks ! n = KRepeat b mn mx \<Longrightarrow> mn \<le> c \<Longrightarrow> case mx of None \<Rightarrow> True | Some m \<Rightarrow> c \<le> m \<Longrightarrow>
    sem_seq ks gs tx sp (replicate c b) i k \<Longrightarrow> sem ks gs tx sp n i k"
| backref: "ks ! n = KBackref g \<Longrightarrow> \<not> sp \<Longrightarrow> ks ! (gs ! g) = KGroup g' b \<Longrightarrow>
    sem ks gs tx True b i k \<Longrightarrow> sem ks gs tx sp n i k"
| anything: "ks ! n = KBackref g \<Longrightarrow> sp \<Longrightarrow> i \<le> k \<Longrightarrow> k \<le> tx_len tx \<Longrightarrow> sem ks gs tx sp n i k"
| nil: "i \<le> tx_len tx \<Longrightarrow> sem_seq ks gs tx sp [] i i"
| cons: "sem ks gs tx sp a i j \<Longrightarrow> sem_seq ks gs tx sp v j k \<Longrightarrow> sem_seq ks gs tx sp (a # v) i k"

inductive_cases semE: "sem ks gs tx sp n i k"
inductive_simps sem_seq_Nil: "sem_seq ks gs tx sp [] i k"
inductive_simps sem_seq_Cons: "sem_seq ks gs tx sp (a # v) i k"

lemma sem_KEmpty: "ks ! n = KEmpty \<Longrightarrow> sem ks gs tx sp n i k \<longleftrightarrow> k = i \<and> i \<le> tx_len tx"
  by (auto elim: semE intro: sem_sem_seq.intros)

lemma sem_KSet:
  "ks ! n = KSet s \<Longrightarrow> sem ks gs tx sp n i k \<longleftrightarrow> k = Suc i \<and> i < tx_len tx \<and> bs_contains s (tx_t tx ! i)"
  by (auto elim: semE intro: sem_sem_seq.intros)

lemma sem_KBol: "ks ! n = KBol \<Longrightarrow> sem ks gs tx sp n i k \<longleftrightarrow> k = i \<and> i \<le> tx_len tx \<and> (sp \<or> tx_bol tx i)"
  by (auto elim: semE intro: sem_sem_seq.intros)

lemma sem_KEol: "ks ! n = KEol \<Longrightarrow> sem ks gs tx sp n i k \<longleftrightarrow> k = i \<and> i \<le> tx_len tx \<and> (sp \<or> tx_eol tx i)"
  by (auto elim: semE intro: sem_sem_seq.intros)

lemma sem_KGroup: "ks ! n = KGroup g b \<Longrightarrow> sem ks gs tx sp n i k \<longleftrightarrow> sem ks gs tx sp b i k"
  by (auto elim: semE intro: sem_sem_seq.intros)

lemma sem_KConcat: "ks ! n = KConcat v \<Longrightarrow> sem ks gs tx sp n i k \<longleftrightarrow> sem_seq ks gs tx sp v i k"
  by (auto elim: semE intro: sem_sem_seq.intros)

lemma sem_KAlt: "ks ! n = KAlt v \<Longrightarrow> sem ks gs tx sp n i k \<longleftrightarrow> (\<exists>a\<in>set v. sem ks gs tx sp a i k)"
  by (subst sem.simps) auto

lemma sem_KRepeat:
  "ks ! n = KRepeat b mn mx \<Longrightarrow>
    sem ks gs tx sp n i k \<longleftrightarrow>
      (\<exists>c. mn \<le> c \<and> (case mx of None \<Rightarrow> True | Some m \<Rightarrow> c \<le> m) \<and> sem_seq ks gs tx sp (replicate c b) i k)"
  by (subst sem.simps) auto

lemma sem_KBackref:
  "ks ! n = KBackref g \<Longrightarrow>
    sem ks gs tx sp n i k \<longleftrightarrow>
      (if sp then i \<le> k \<and> k \<le> tx_len tx
       else \<exists>g' b. ks ! (gs ! g) = KGroup g' b \<and> sem ks gs tx True b i k)"
  by (auto elim: semE intro: sem_sem_seq.intros)

lemma sem_bounds:
  "sem ks gs tx sp n i k \<Longrightarrow> i \<le> k \<and> k \<le> tx_len tx"
  "sem_seq ks gs tx sp v i k \<Longrightarrow> i \<le> k \<and> k \<le> tx_len tx"
  by (induction rule: sem_sem_seq.inducts) auto

lemma sem_seq_append: "sem_seq ks gs tx sp (u @ v) i k \<longleftrightarrow> (\<exists>j. sem_seq ks gs tx sp u i j \<and> sem_seq ks gs tx sp v j k)"
proof (induction u arbitrary: i)
  case Nil
  show ?case using sem_bounds(2) [of ks gs tx sp v i k] by (auto simp: sem_seq_Nil)
qed (auto simp: sem_seq_Cons)

end
