(* ===== verification/Regex_Nfa.thy ===== *)
theory Regex_Nfa
  imports Regex_Ast
begin

text \<open>
  The Thompson automaton of a syntax tree (\<open>lib/libregex/src/nfa.rs\<close>): its states, the builder with
  its fragments, and the reverse edges. \<open>Regex_Thompson\<close> shows that the automaton matches exactly
  what the tree does.
\<close>

section \<open>States\<close>

datatype st =
    SByte byteset nat
  | SSplit nat nat
  | SEps nat
  | SBol nat
  | SEol nat
  | SMatch

record nfa =
  nf_st :: "st list"
  nf_start :: nat
  nf_accept :: nat
  nf_eps_rev :: "nat list list"
  nf_byte_rev :: "nat list list"

definition PATCH :: nat where "PATCH = 2 ^ 32 - 1"
definition MAX_STATES :: nat where "MAX_STATES = 2 ^ 18"

section \<open>The builder\<close>

record builder =
  b_ast :: ast
  b_st :: "st list"
  b_record :: bool
  b_superset :: nat

definition b_add :: "st \<Rightarrow> builder \<Rightarrow> (nat \<times> builder) rx" where
  "b_add s b =
     (if MAX_STATES \<le> length (b_st b) then Fail Space 0
      else Good (length (b_st b), b\<lparr>b_st := b_st b @ [s]\<rparr>))"

definition b_eps :: "builder \<Rightarrow> (nat \<times> builder) rx" where
  "b_eps b = b_add (SEps PATCH) b"

definition b_link :: "nat \<Rightarrow> nat \<Rightarrow> builder \<Rightarrow> builder rx" where
  "b_link from to b =
     (if from < length (b_st b) then
        (case b_st b ! from of
           SEps n \<Rightarrow> Good (b\<lparr>b_st := (b_st b)[from := SEps to]\<rparr>)
         | SSplit n c \<Rightarrow> Good (b\<lparr>b_st := (b_st b)[from := SSplit to c]\<rparr>)
         | _ \<Rightarrow> Crash)
      else Crash)"

definition b_leaf :: "st \<Rightarrow> builder \<Rightarrow> (nat \<times> nat \<times> builder) rx" where
  "b_leaf s b =
     bind_rx (b_eps b) (\<lambda>(e, b).
     bind_rx (b_eps b) (\<lambda>(x, b).
     bind_rx (b_add s b) (\<lambda>(m, b).
     bind_rx (case b_st b ! m of
                SByte s _ \<Rightarrow> Good (b\<lparr>b_st := (b_st b)[m := SByte s x]\<rparr>)
              | SBol _ \<Rightarrow> Good (b\<lparr>b_st := (b_st b)[m := SBol x]\<rparr>)
              | SEol _ \<Rightarrow> Good (b\<lparr>b_st := (b_st b)[m := SEol x]\<rparr>)
              | _ \<Rightarrow> Crash) (\<lambda>b.
     bind_rx (b_link e m b) (\<lambda>b. Good (e, x, b))))))"

definition b_any_loop :: "builder \<Rightarrow> (nat \<times> nat \<times> builder) rx" where
  "b_any_loop b =
     bind_rx (b_eps b) (\<lambda>(e, b).
     bind_rx (b_eps b) (\<lambda>(x, b).
     bind_rx (b_add (SSplit PATCH x) b) (\<lambda>(l, b).
     bind_rx (b_add (SByte bs_full l) b) (\<lambda>(by', b).
     bind_rx (b_link l by' b) (\<lambda>b.
     bind_rx (b_link e l b) (\<lambda>b. Good (e, x, b)))))))"

text \<open>The fragment of a node that matches the empty string.\<close>

definition b_empty :: "builder \<Rightarrow> (nat \<times> nat \<times> builder) rx" where
  "b_empty b =
     bind_rx (b_eps b) (\<lambda>(e, b).
     bind_rx (b_eps b) (\<lambda>(x, b).
     bind_rx (b_link e x b) (\<lambda>b. Good (e, x, b))))"

text \<open>The chain of splits of an alternation, from the last entry backwards.\<close>

fun b_splits :: "nat list \<Rightarrow> nat \<Rightarrow> builder \<Rightarrow> (nat \<times> builder) rx" where
  "b_splits [] tail b = Good (tail, b)"
| "b_splits (ae # aes) tail b = bind_rx (b_add (SSplit ae tail) b) (\<lambda>(tail, b). b_splits aes tail b)"

text \<open>The states a repetition stands in after \<open>t\<close> iterations.\<close>

definition iter_state :: "nat \<Rightarrow> nat option \<Rightarrow> nat \<Rightarrow> nat \<Rightarrow> st" where
  "iter_state mn mx x t = (if mx = Some t then SEps x else if t < mn then SEps PATCH else SSplit PATCH x)"

fun b_iters :: "nat \<Rightarrow> nat option \<Rightarrow> nat \<Rightarrow> nat list \<Rightarrow> builder \<Rightarrow> (nat list \<times> builder) rx" where
  "b_iters mn mx x [] b = Good ([], b)"
| "b_iters mn mx x (t # ts) b =
     bind_rx (b_add (iter_state mn mx x t) b) (\<lambda>(q, b).
     bind_rx (b_iters mn mx x ts b) (\<lambda>(qs, b). Good (q # qs, b)))"

text \<open>A node remembers the states of the first copy made of it.\<close>

definition b_note :: "nat \<Rightarrow> nat \<Rightarrow> nat \<Rightarrow> nat list \<Rightarrow> builder \<Rightarrow> builder" where
  "b_note n e x its b =
     (let nd = as_nodes (b_ast b) ! n in
      if b_record b \<and> \<not> nd_compiled nd
      then b\<lparr>b_ast := (b_ast b)\<lparr>as_nodes :=
             (as_nodes (b_ast b))[n := nd\<lparr>nd_compiled := True, nd_entry := e, nd_exit := x, nd_iters := its\<rparr>]\<rparr>\<rparr>
      else b)"

section \<open>Fragments\<close>

text \<open>
  \<open>frag\<close> calls itself on the children of a node. The loops of its branches, and one call of it, take
  the function for the children as an argument \<open>fr\<close>.
\<close>

type_synonym fragment = "nat \<Rightarrow> builder \<Rightarrow> (nat \<times> nat \<times> builder) rx"

fun frag_items :: "fragment \<Rightarrow> nat list \<Rightarrow> nat \<Rightarrow> builder \<Rightarrow> (nat \<times> builder) rx" where
  "frag_items fr [] prev b = Good (prev, b)"
| "frag_items fr (it # items) prev b =
     bind_rx (fr it b) (\<lambda>(ie, ix, b).
     bind_rx (b_link prev ie b) (\<lambda>b. frag_items fr items ix b))"

fun frag_alts :: "fragment \<Rightarrow> nat list \<Rightarrow> nat \<Rightarrow> builder \<Rightarrow> (nat list \<times> builder) rx" where
  "frag_alts fr [] x b = Good ([], b)"
| "frag_alts fr (a # alts) x b =
     bind_rx (fr a b) (\<lambda>(ae, ax, b).
     bind_rx (b_link ax x b) (\<lambda>b.
     bind_rx (frag_alts fr alts x b) (\<lambda>(entries, b). Good (ae # entries, b))))"

fun frag_copies :: "fragment \<Rightarrow> nat \<Rightarrow> nat list \<Rightarrow> nat \<Rightarrow> nat list \<Rightarrow> builder \<Rightarrow> builder rx" where
  "frag_copies fr body iters lst [] b = Good b"
| "frag_copies fr body iters lst (t # ts) b =
     bind_rx (fr body b) (\<lambda>(ce, cx, b).
     bind_rx (b_link (iters ! t) ce b) (\<lambda>b.
     bind_rx (b_link cx (iters ! min (t + 1) lst) b) (\<lambda>b. frag_copies fr body iters lst ts b)))"

definition frag_concat :: "fragment \<Rightarrow> nat list \<Rightarrow> builder \<Rightarrow> (nat \<times> nat \<times> builder) rx" where
  "frag_concat fr items b =
     bind_rx (b_eps b) (\<lambda>(e, b).
     bind_rx (frag_items fr items e b) (\<lambda>(prev, b).
     bind_rx (b_eps b) (\<lambda>(x, b).
     bind_rx (b_link prev x b) (\<lambda>b. Good (e, x, b)))))"

definition frag_alt :: "fragment \<Rightarrow> nat list \<Rightarrow> builder \<Rightarrow> (nat \<times> nat \<times> builder) rx" where
  "frag_alt fr alts b =
     bind_rx (b_eps b) (\<lambda>(e, b).
     bind_rx (b_eps b) (\<lambda>(x, b).
     bind_rx (frag_alts fr alts x b) (\<lambda>(entries, b).
     if entries = [] then Crash
     else bind_rx (b_splits (rev (butlast entries)) (last entries) b) (\<lambda>(tail, b).
     bind_rx (b_link e tail b) (\<lambda>b. Good (e, x, b))))))"

definition frag_repeat :: "fragment \<Rightarrow> nat \<Rightarrow> nat \<Rightarrow> nat option \<Rightarrow> builder \<Rightarrow> (nat \<times> nat \<times> nat list \<times> builder) rx" where
  "frag_repeat fr body mn mx b =
     bind_rx (b_eps b) (\<lambda>(e, b).
     bind_rx (b_eps b) (\<lambda>(x, b).
     let lst = (case mx of None \<Rightarrow> mn | Some m \<Rightarrow> m) in
     bind_rx (b_iters mn mx x [0..<Suc lst] b) (\<lambda>(iters, b).
     let copies = (case mx of None \<Rightarrow> lst + 1 | Some _ \<Rightarrow> lst) in
     bind_rx (frag_copies fr body iters lst [0..<copies] b) (\<lambda>b.
     bind_rx (b_link e (iters ! 0) b) (\<lambda>b. Good (e, x, iters, b))))))"

definition frag_backref :: "fragment \<Rightarrow> nat \<Rightarrow> builder \<Rightarrow> (nat \<times> nat \<times> builder) rx" where
  "frag_backref fr g b =
     (let a = b_ast b in
      if 0 < b_superset b then b_any_loop b
      else if length (as_group_node a) \<le> g then Crash
      else if length (as_nodes a) \<le> as_group_node a ! g then Crash
      else (case nd_kind (as_nodes a ! (as_group_node a ! g)) of
              KGroup g' body \<Rightarrow>
                bind_rx (fr body (b\<lparr>b_record := False, b_superset := b_superset b + 1\<rparr>))
                  (\<lambda>(e, x, b'). Good (e, x, b'\<lparr>b_superset := b_superset b' - 1, b_record := b_record b\<rparr>))
            | _ \<Rightarrow> Crash))"

definition no_iters :: "(nat \<times> nat \<times> builder) rx \<Rightarrow> (nat \<times> nat \<times> nat list \<times> builder) rx" where
  "no_iters r = bind_rx r (\<lambda>(e, x, b). Good (e, x, [], b))"

definition frag_node :: "fragment \<Rightarrow> fragment" where
  "frag_node fr n b =
     (if length (as_nodes (b_ast b)) \<le> n then Crash
      else bind_rx
        (case nd_kind (as_nodes (b_ast b) ! n) of
           KEmpty \<Rightarrow> no_iters (b_empty b)
         | KSet s \<Rightarrow> no_iters (b_leaf (SByte s PATCH) b)
         | KBol \<Rightarrow> no_iters (if 0 < b_superset b then b_empty b else b_leaf (SBol PATCH) b)
         | KEol \<Rightarrow> no_iters (if 0 < b_superset b then b_empty b else b_leaf (SEol PATCH) b)
         | KGroup g body \<Rightarrow> no_iters (fr body b)
         | KBackref g \<Rightarrow> no_iters (frag_backref fr g b)
         | KConcat items \<Rightarrow> no_iters (frag_concat fr items b)
         | KAlt alts \<Rightarrow> no_iters (frag_alt fr alts b)
         | KRepeat body mn mx \<Rightarrow> frag_repeat fr body mn mx b)
        (\<lambda>(e, x, iters, b). Good (e, x, b_note n e x iters b)))"

text \<open>
  The depth of the recursion is bounded by the first argument: children come before their parents
  in the arena, so \<^term>\<open>Suc n\<close> is enough for node \<open>n\<close> of a well-formed tree.
\<close>

primrec frag :: "nat \<Rightarrow> fragment" where
  "frag 0 = (\<lambda>n b. Crash)"
| "frag (Suc f) = frag_node (frag f)"

section \<open>The automaton\<close>

definition push_at :: "nat \<Rightarrow> nat \<Rightarrow> nat list list \<Rightarrow> nat list list rx" where
  "push_at n q rv = (if n < length rv then Good (rv[n := rv ! n @ [q]]) else Crash)"

text \<open>One state's contribution to the reverse edges.\<close>

definition rev_edges :: "nat \<Rightarrow> st \<Rightarrow> nat list list \<times> nat list list \<Rightarrow> (nat list list \<times> nat list list) rx" where
  "rev_edges q s r =
     (case r of (eps_rev, byte_rev) \<Rightarrow>
      (case s of
         SByte _ n \<Rightarrow> bind_rx (push_at n q byte_rev) (\<lambda>v. Good (eps_rev, v))
       | SSplit a c \<Rightarrow> bind_rx (push_at a q eps_rev) (\<lambda>v. bind_rx (push_at c q v) (\<lambda>v. Good (v, byte_rev)))
       | SEps n \<Rightarrow> bind_rx (push_at n q eps_rev) (\<lambda>v. Good (v, byte_rev))
       | SBol n \<Rightarrow> bind_rx (push_at n q eps_rev) (\<lambda>v. Good (v, byte_rev))
       | SEol n \<Rightarrow> bind_rx (push_at n q eps_rev) (\<lambda>v. Good (v, byte_rev))
       | SMatch \<Rightarrow> Good (eps_rev, byte_rev)))"

fun rev_all :: "(nat \<times> st) list \<Rightarrow> nat list list \<times> nat list list \<Rightarrow> (nat list list \<times> nat list list) rx" where
  "rev_all [] r = Good r"
| "rev_all ((q, s) # qs) r = bind_rx (rev_edges q s r) (rev_all qs)"

definition compile :: "ast \<Rightarrow> (nfa \<times> ast) rx" where
  "compile a =
     bind_rx (frag (Suc (as_root a)) (as_root a) \<lparr>b_ast = a, b_st = [], b_record = True, b_superset = 0\<rparr>) (\<lambda>(e, x, b).
     bind_rx (b_add SMatch b) (\<lambda>(accept, b).
     bind_rx (b_link x accept b) (\<lambda>b.
     let st = b_st b; n = length st in
     bind_rx (rev_all (enumerate 0 st) (replicate n [], replicate n [])) (\<lambda>(er, br).
     Good (\<lparr>nf_st = st, nf_start = e, nf_accept = accept, nf_eps_rev = er, nf_byte_rev = br\<rparr>, b_ast b)))))"

end
