(* ===== verification/Regex_Thompson.thy ===== *)
theory Regex_Thompson
  imports Regex_Nfa
begin

text \<open>
  The automaton built by \<open>Regex_Nfa\<close> matches exactly what the tree does. A fragment is a block of
  states with an entry and an exit; its runs from the entry to the exit, inside the block, are the
  matches of its node. Fragments compose as the source composes them: in sequence, as alternatives
  and as copies of a repetition.
\<close>

section \<open>Runs\<close>

fun moves :: "rtext \<Rightarrow> st \<Rightarrow> nat \<Rightarrow> (nat \<times> nat) set" where
  "moves tx (SByte s n) p = (if p < tx_len tx \<and> bs_contains s (tx_t tx ! p) then {(n, Suc p)} else {})"
| "moves tx (SSplit a b) p = {(a, p), (b, p)}"
| "moves tx (SEps n) p = {(n, p)}"
| "moves tx (SBol n) p = (if tx_bol tx p then {(n, p)} else {})"
| "moves tx (SEol n) p = (if tx_eol tx p then {(n, p)} else {})"
| "moves tx SMatch p = {}"

fun targets :: "st \<Rightarrow> nat set" where
  "targets (SByte s n) = {n}"
| "targets (SSplit a b) = {a, b}"
| "targets (SEps n) = {n}"
| "targets (SBol n) = {n}"
| "targets (SEol n) = {n}"
| "targets SMatch = {}"

definition nstep :: "st list \<Rightarrow> rtext \<Rightarrow> nat \<times> nat \<Rightarrow> nat \<times> nat \<Rightarrow> bool" where
  "nstep st tx c c' \<longleftrightarrow> fst c < length st \<and> c' \<in> moves tx (st ! fst c) (snd c)"

text \<open>Runs that leave only states of a set.\<close>

definition lrun :: "st list \<Rightarrow> rtext \<Rightarrow> nat set \<Rightarrow> nat \<times> nat \<Rightarrow> nat \<times> nat \<Rightarrow> bool" where
  "lrun st tx A = rtranclp (\<lambda>c c'. fst c \<in> A \<and> nstep st tx c c')"

definition closed :: "st list \<Rightarrow> nat set \<Rightarrow> nat set \<Rightarrow> bool" where
  "closed st A B \<longleftrightarrow> (\<forall>q\<in>A. targets (st ! q) \<subseteq> B)"

lemma moves_targets: "(q', p') \<in> moves tx s p \<Longrightarrow> q' \<in> targets s"
  by (cases s) (auto split: if_splits)

lemma moves_pos: "(q', p') \<in> moves tx s p \<Longrightarrow> p \<le> tx_len tx \<Longrightarrow> p \<le> p' \<and> p' \<le> tx_len tx"
  by (cases s) (auto split: if_splits)

lemma lrun_refl [simp]: "lrun st tx A c c"
  by (simp add: lrun_def)

lemma lrun_trans: "lrun st tx A c d \<Longrightarrow> lrun st tx A d e \<Longrightarrow> lrun st tx A c e"
  unfolding lrun_def by (rule rtranclp_trans)

lemma lrun_step: "q \<in> A \<Longrightarrow> q < length st \<Longrightarrow> d \<in> moves tx (st ! q) p \<Longrightarrow> lrun st tx A (q, p) d"
  unfolding lrun_def by (rule r_into_rtranclp) (simp add: nstep_def)

lemma lrun_snoc: "lrun st tx A c (q, p) \<Longrightarrow> q \<in> A \<Longrightarrow> q < length st \<Longrightarrow> d \<in> moves tx (st ! q) p \<Longrightarrow> lrun st tx A c d"
  using lrun_trans lrun_step by blast

lemma lrun_mono: "lrun st tx A c d \<Longrightarrow> A \<subseteq> B \<Longrightarrow> lrun st tx B c d"
  unfolding lrun_def by (erule rtranclp_mono [THEN predicate2D, rotated]) auto

lemma lrun_invariant:
  assumes "lrun st tx A c d" "I (fst c) (snd c)"
    and "\<And>q p q' p'. I q p \<Longrightarrow> q \<in> A \<Longrightarrow> (q', p') \<in> moves tx (st ! q) p \<Longrightarrow> I q' p'"
  shows "I (fst d) (snd d)"
  using assms(1) unfolding lrun_def
proof (induction rule: rtranclp_induct)
  case (step c' d')
  then show ?case using assms(3) [of "fst c'" "snd c'" "fst d'" "snd d'"] by (simp add: nstep_def)
qed (rule assms(2))

lemma lrun_pos: "lrun st tx A (q, i) (r, k) \<Longrightarrow> i \<le> tx_len tx \<Longrightarrow> i \<le> k \<and> k \<le> tx_len tx"
  using lrun_invariant [of st tx A "(q, i)" "(r, k)" "\<lambda>_ p. i \<le> p \<and> p \<le> tx_len tx"] moves_pos by fastforce

lemma lrun_frame:
  assumes "\<And>q. q \<in> A \<Longrightarrow> q < length st \<and> q < length st' \<and> st' ! q = st ! q"
  shows "lrun st' tx A = lrun st tx A"
  unfolding lrun_def by (rule arg_cong [where f = rtranclp]) (auto simp: fun_eq_iff nstep_def dest: assms)

lemma closed_frame: "(\<And>q. q \<in> A \<Longrightarrow> st' ! q = st ! q) \<Longrightarrow> closed st A B \<Longrightarrow> closed st' A B"
  by (auto simp: closed_def)

lemma closed_move: "closed st A B \<Longrightarrow> q \<in> A \<Longrightarrow> (q', p') \<in> moves tx (st ! q) p \<Longrightarrow> q' \<in> B"
  using moves_targets by (fastforce simp: closed_def)

lemma closed_Un: "closed st A B \<Longrightarrow> closed st A' B' \<Longrightarrow> B \<subseteq> C \<Longrightarrow> B' \<subseteq> C \<Longrightarrow> closed st (A \<union> A') C"
  unfolding closed_def by blast

text \<open>A run out of a set that can only be left towards \<open>x\<close>, to \<open>x\<close>, stays in the set.\<close>

lemma lrun_stays:
  assumes "lrun st tx (A \<union> B) c (x, k)" "fst c \<in> A" "closed st A (insert x A)" "x \<notin> A \<union> B"
  shows "lrun st tx A c (x, k)"
proof -
  have "fst c \<in> insert x A \<Longrightarrow> lrun st tx A c (x, k)" if "lrun st tx (A \<union> B) c (x, k)" for c
    using that unfolding lrun_def
  proof (induction rule: converse_rtranclp_induct)
    case (step c d)
    then have A: "fst c \<in> A" using assms(4) by auto
    then have "fst d \<in> insert x A"
      using closed_move [OF assms(3), of "fst c" "fst d" "snd d" tx "snd c"] step.hyps(1) by (simp add: nstep_def)
    then show ?case using step A by (auto intro: converse_rtranclp_into_rtranclp)
  qed simp
  then show ?thesis using assms by auto
qed

section \<open>Fragments\<close>

definition frag_ok :: "st list \<Rightarrow> rtext \<Rightarrow> nat \<Rightarrow> nat \<Rightarrow> nat \<Rightarrow> nat \<Rightarrow> (nat \<Rightarrow> nat \<Rightarrow> bool) \<Rightarrow> bool" where
  "frag_ok st tx a b e x R \<longleftrightarrow>
     a \<le> e \<and> e < b \<and> a \<le> x \<and> x < b \<and> b \<le> length st \<and> st ! x = SEps PATCH \<and>
     closed st ({a..<b} - {x}) {a..<b} \<and>
     (\<forall>i k. i \<le> tx_len tx \<longrightarrow> lrun st tx ({a..<b} - {x}) (e, i) (x, k) \<longleftrightarrow> R i k)"

lemma frag_ok_frame:
  assumes "frag_ok st tx a b e x R" "\<And>q. a \<le> q \<Longrightarrow> q < b \<Longrightarrow> st' ! q = st ! q" "b \<le> length st'"
  shows "frag_ok st' tx a b e x R"
proof -
  have "lrun st' tx ({a..<b} - {x}) = lrun st tx ({a..<b} - {x})"
    using assms by (intro lrun_frame) (auto simp: frag_ok_def)
  moreover have "closed st' ({a..<b} - {x}) {a..<b}"
    using assms by (intro closed_frame [of _ st' st]) (auto simp: frag_ok_def)
  ultimately show ?thesis using assms by (auto simp: frag_ok_def)
qed

lemma frag_ok_cong: "frag_ok st tx a b e x R \<Longrightarrow> (\<And>i k. i \<le> tx_len tx \<Longrightarrow> R i k \<longleftrightarrow> S i k) \<Longrightarrow> frag_ok st tx a b e x S"
  by (simp add: frag_ok_def)

text \<open>The runs of a fragment whose exit has been linked.\<close>

lemma frag_linked:
  assumes "frag_ok st tx a b e x R" "st' = st[x := s]"
  shows "closed st' ({a..<b} - {x}) {a..<b}"
    and "i \<le> tx_len tx \<Longrightarrow> lrun st' tx ({a..<b} - {x}) (e, i) (x, k) \<longleftrightarrow> R i k"
    and "st' ! x = s"
proof -
  note st'_def = assms(2)
  show "closed st' ({a..<b} - {x}) {a..<b}"
    using assms(1) by (auto simp: frag_ok_def closed_def st'_def)
  have "lrun st' tx ({a..<b} - {x}) = lrun st tx ({a..<b} - {x})"
    using assms(1) unfolding st'_def by (intro lrun_frame) (auto simp: frag_ok_def)
  then show "i \<le> tx_len tx \<Longrightarrow> lrun st' tx ({a..<b} - {x}) (e, i) (x, k) \<longleftrightarrow> R i k"
    using assms(1) by (simp add: frag_ok_def)
  show "st' ! x = s" using assms(1) by (simp add: st'_def frag_ok_def)
qed

subsection \<open>In sequence\<close>

lemma frag_eps:
  assumes "n = length st"
  shows "frag_ok (st @ [SEps PATCH]) tx n (Suc n) n n (\<lambda>i k. k = i \<and> i \<le> tx_len tx)"
proof -
  have "{n..<Suc n} - {n} = {}" by auto
  moreover have "lrun (st @ [SEps PATCH]) tx {} (n, i) (n, k) \<longleftrightarrow> k = i" for i k
    using lrun_invariant [of "st @ [SEps PATCH]" tx "{}" "(n, i)" "(n, k)" "\<lambda>_ p. p = i"] by auto
  ultimately show ?thesis by (auto simp: frag_ok_def closed_def assms)
qed

lemma frag_seq:
  assumes f1: "frag_ok st tx a b e x R1" and f2: "frag_ok st tx b c e2 x2 R2"
  shows "frag_ok (st[x := SEps e2]) tx a c e x2 (\<lambda>i k. \<exists>j. R1 i j \<and> R2 j k)"
proof -
  define st' where "st' = st[x := SEps e2]"
  let ?A1 = "{a..<b} - {x}" and ?A2 = "{b..<c} - {x2}" and ?A = "{a..<c} - {x2}"
  have d: "a \<le> e" "e < b" "a \<le> x" "x < b" "b \<le> e2" "e2 < c" "b \<le> x2" "x2 < c" "c \<le> length st'"
    using f1 f2 by (auto simp: frag_ok_def st'_def)
  have x: "st' ! x = SEps e2" "x < length st'" using d by (auto simp: st'_def)
  have g2: "frag_ok st' tx b c e2 x2 R2" using f2 by (rule frag_ok_frame) (use d in \<open>auto simp: st'_def\<close>)
  note l1 = frag_linked [OF f1 st'_def]
  have c2: "closed st' ?A2 {b..<c}" using g2 by (simp add: frag_ok_def)
  have cl: "closed st' ?A {a..<c}"
    unfolding closed_def
  proof (intro ballI subsetI)
    fix q r assume q: "q \<in> ?A" "r \<in> targets (st' ! q)"
    then consider "q \<in> ?A1" | "q = x" | "q \<in> ?A2" by fastforce
    then show "r \<in> {a..<c}"
    proof cases
      case 1
      then show ?thesis using q(2) l1(1) d by (fastforce simp: closed_def)
    next
      case 3
      then show ?thesis using q(2) g2 d by (fastforce simp: closed_def frag_ok_def)
    qed (use q x d in auto)
  qed
  have "lrun st' tx ?A (e, i) (x2, k) \<longleftrightarrow> (\<exists>j. R1 i j \<and> R2 j k)" if i: "i \<le> tx_len tx" for i k
  proof
    assume r: "lrun st' tx ?A (e, i) (x2, k)"
    define I where "I = (\<lambda>q p. q \<in> {a..<b} \<and> lrun st' tx ?A1 (e, i) (q, p) \<or>
      (\<exists>j. R1 i j \<and> j \<le> tx_len tx \<and> q \<in> {b..<c} \<and> lrun st' tx ?A2 (e2, j) (q, p)))"
    have "I q' p'" if I: "I q p" and q: "q \<in> ?A" and m: "(q', p') \<in> moves tx (st' ! q) p" for q p q' p'
    proof -
      from I consider (one) "q \<in> {a..<b}" "lrun st' tx ?A1 (e, i) (q, p)"
        | (two) j where "R1 i j" "j \<le> tx_len tx" "q \<in> {b..<c}" "lrun st' tx ?A2 (e2, j) (q, p)"
        unfolding I_def by blast
      then show ?thesis
      proof cases
        case one
        show ?thesis
        proof (cases "q = x")
          case True
          then have "R1 i p" "p \<le> tx_len tx" using one l1(2) i lrun_pos [OF one(2) i] by simp_all
          then show ?thesis using True m x d unfolding I_def by auto
        next
          case False
          then have q1: "q \<in> ?A1" using one by simp
          have "q' \<in> {a..<b}" by (rule closed_move [OF l1(1) q1 m])
          moreover have "lrun st' tx ?A1 (e, i) (q', p')" using one(2) q1 _ m by (rule lrun_snoc) (use one d in auto)
          ultimately show ?thesis unfolding I_def by blast
        qed
      next
        case two
        then have q2: "q \<in> ?A2" using q by simp
        have "q' \<in> {b..<c}" by (rule closed_move [OF c2 q2 m])
        moreover have "lrun st' tx ?A2 (e2, j) (q', p')" using two(4) q2 _ m by (rule lrun_snoc) (use two d in auto)
        ultimately show ?thesis using two unfolding I_def by blast
      qed
    qed
    then have "I x2 k" using lrun_invariant [OF r, of I] d by (simp add: I_def)
    then show "\<exists>j. R1 i j \<and> R2 j k" using g2 d by (auto simp: I_def frag_ok_def)
  next
    assume "\<exists>j. R1 i j \<and> R2 j k"
    then obtain j where j: "R1 i j" "R2 j k" by blast
    have 1: "lrun st' tx ?A1 (e, i) (x, j)" using l1(2) i j by simp
    then have "j \<le> tx_len tx" using lrun_pos i by blast
    then have "lrun st' tx ?A2 (e2, j) (x2, k)" using g2 j by (simp add: frag_ok_def)
    then have "lrun st' tx ?A (e2, j) (x2, k)" by (rule lrun_mono) (use d in auto)
    moreover have "lrun st' tx ?A (e, i) (x, j)" using 1 by (rule lrun_mono) (use d in auto)
    then have "lrun st' tx ?A (e, i) (e2, j)" by (rule lrun_snoc) (use x d in auto)
    ultimately show "lrun st' tx ?A (e, i) (x2, k)" using lrun_trans by blast
  qed
  then show ?thesis using cl g2 d unfolding st'_def [symmetric] by (auto simp: frag_ok_def)
qed

text \<open>A fragment linked to a state outside it.\<close>

lemma frag_into:
  assumes fr: "frag_ok st tx b c e x R" and st': "st' = st[x := SEps y]" and y: "y \<notin> {b..<c}"
  shows "closed st' {b..<c} (insert y {b..<c})"
    and "i \<le> tx_len tx \<Longrightarrow> lrun st' tx {b..<c} (e, i) (y, k) \<longleftrightarrow> R i k"
proof -
  let ?A = "{b..<c} - {x}"
  have d: "b \<le> e" "e < c" "b \<le> x" "x < c" "c \<le> length st'" using fr by (auto simp: frag_ok_def st')
  note l = frag_linked [OF fr st']
  show "closed st' {b..<c} (insert y {b..<c})" using l(1,3) by (auto simp: closed_def)
  show "lrun st' tx {b..<c} (e, i) (y, k) \<longleftrightarrow> R i k" if i: "i \<le> tx_len tx"
  proof
    assume r: "lrun st' tx {b..<c} (e, i) (y, k)"
    define I where "I = (\<lambda>q p. q \<in> {b..<c} \<and> lrun st' tx ?A (e, i) (q, p) \<or> q = y \<and> R i p)"
    have "I q' p'" if I: "I q p" and q: "q \<in> {b..<c}" and m: "(q', p') \<in> moves tx (st' ! q) p" for q p q' p'
    proof (cases "q = x")
      case True
      then show ?thesis using I m l(2,3) i d y by (auto simp: I_def)
    next
      case False
      then have q1: "q \<in> ?A" "lrun st' tx ?A (e, i) (q, p)" using I q y by (auto simp: I_def)
      have "lrun st' tx ?A (e, i) (q', p')" using q1(2,1) _ m by (rule lrun_snoc) (use q d in auto)
      then show ?thesis using closed_move [OF l(1) q1(1) m] by (simp add: I_def)
    qed
    then have "I y k" using lrun_invariant [OF r, of I] d by (simp add: I_def)
    then show "R i k" using y by (auto simp: I_def)
  next
    assume "R i k"
    then have "lrun st' tx ?A (e, i) (x, k)" using l(2) i by simp
    then have "lrun st' tx {b..<c} (e, i) (x, k)" by (rule lrun_mono) (use d in auto)
    then show "lrun st' tx {b..<c} (e, i) (y, k)" by (rule lrun_snoc) (use l(3) d in auto)
  qed
qed

subsection \<open>Leaves\<close>

lemma frag_leaf:
  assumes n: "n = length st" and s: "targets s = {Suc n}"
  shows "frag_ok (st @ [SEps (n + 2), SEps PATCH, s]) tx n (n + 3) n (Suc n) (\<lambda>i k. (Suc n, k) \<in> moves tx s i)"
proof -
  define st' where "st' = st @ [SEps (n + 2), SEps PATCH, s]"
  have A: "{n..<n + 3} - {Suc n} = {n, n + 2}" by auto
  have st: "st' ! n = SEps (n + 2)" "st' ! Suc n = SEps PATCH" "st' ! (n + 2) = s" "length st' = n + 3"
    by (simp_all add: st'_def n nth_append)
  have "lrun st' tx {n, n + 2} (n, i) (Suc n, k) \<longleftrightarrow> (Suc n, k) \<in> moves tx s i" for i k
  proof
    assume r: "lrun st' tx {n, n + 2} (n, i) (Suc n, k)"
    define I where "I = (\<lambda>q p. (q = n \<or> q = n + 2) \<and> p = i \<or> q = Suc n \<and> (Suc n, p) \<in> moves tx s i)"
    have "I q' p'" if I: "I q p" and q: "q \<in> {n, n + 2}" and m: "(q', p') \<in> moves tx (st' ! q) p" for q p q' p'
    proof (cases "q = n")
      case True
      then show ?thesis using I m st(1) unfolding I_def by simp
    next
      case False
      then have "q = n + 2" "p = i" using I q unfolding I_def by auto
      then show ?thesis using m moves_targets [OF m] st(3) s unfolding I_def by simp
    qed
    from lrun_invariant [OF r, of I, OF _ this] show "(Suc n, k) \<in> moves tx s i" by (simp add: I_def)
  next
    assume "(Suc n, k) \<in> moves tx s i"
    then show "lrun st' tx {n, n + 2} (n, i) (Suc n, k)"
      using lrun_step [of n "{n, n + 2}" st' "(n + 2, i)" tx i] st by (auto intro: lrun_snoc)
  qed
  then show ?thesis unfolding st'_def [symmetric] frag_ok_def A using st s by (auto simp: closed_def)
qed

lemma frag_any_loop:
  assumes n: "n = length st"
  shows "frag_ok (st @ [SEps (n + 2), SEps PATCH, SSplit (n + 3) (Suc n), SByte bs_full (n + 2)]) tx n (n + 4) n (Suc n)
    (\<lambda>i k. i \<le> k \<and> k \<le> tx_len tx)"
proof -
  define st' where "st' = st @ [SEps (n + 2), SEps PATCH, SSplit (n + 3) (Suc n), SByte bs_full (n + 2)]"
  let ?A = "{n, n + 2, n + 3}"
  have A: "{n..<n + 4} - {Suc n} = ?A" by auto
  have st: "st' ! n = SEps (n + 2)" "st' ! Suc n = SEps PATCH" "st' ! (n + 2) = SSplit (n + 3) (Suc n)"
    "st' ! (n + 3) = SByte bs_full (n + 2)" "length st' = n + 4"
    by (simp_all add: st'_def n nth_append)
  have loop: "lrun st' tx ?A (n, i) (n + 2, k)" if "i \<le> k" "k \<le> tx_len tx" for i k
    using that
  proof (induction k rule: dec_induct)
    case base
    show ?case by (rule lrun_step) (simp_all add: st)
  next
    case (step k)
    then have "lrun st' tx ?A (n, i) (n + 2, k)" by simp
    then have "lrun st' tx ?A (n, i) (n + 3, k)" by (rule lrun_snoc) (use st in auto)
    then show ?case by (rule lrun_snoc) (use step st in auto)
  qed
  have "lrun st' tx ?A (n, i) (Suc n, k)" if "i \<le> k" "k \<le> tx_len tx" for i k
    by (rule lrun_snoc [OF loop [OF that]]) (use st in auto)
  then show ?thesis unfolding st'_def [symmetric] frag_ok_def A using st lrun_pos by (auto simp: closed_def)
qed

subsection \<open>Alternatives\<close>

text \<open>Runs of a block towards a state before it.\<close>

definition exits :: "st list \<Rightarrow> rtext \<Rightarrow> nat \<Rightarrow> nat \<Rightarrow> nat \<Rightarrow> nat \<Rightarrow> (nat \<Rightarrow> nat \<Rightarrow> bool) \<Rightarrow> bool" where
  "exits st tx lo hi x q R \<longleftrightarrow>
     lo \<le> q \<and> q < hi \<and> (\<forall>i k. i \<le> tx_len tx \<longrightarrow> lrun st tx {lo..<hi} (q, i) (x, k) \<longleftrightarrow> R i k)"

definition alts_ok :: "st list \<Rightarrow> rtext \<Rightarrow> nat \<Rightarrow> nat \<Rightarrow> nat \<Rightarrow> (nat \<times> (nat \<Rightarrow> nat \<Rightarrow> bool)) set \<Rightarrow> bool" where
  "alts_ok st tx lo hi x F \<longleftrightarrow>
     x < lo \<and> lo \<le> hi \<and> hi \<le> length st \<and> closed st {lo..<hi} (insert x {lo..<hi}) \<and>
     (\<forall>(q, R) \<in> F. exits st tx lo hi x q R)"

lemma lrun_first:
  assumes "lrun st tx A (q, i) (x, k)" "q \<noteq> x"
  obtains d where "q \<in> A" "d \<in> moves tx (st ! q) i" "lrun st tx A d (x, k)"
  using assms(1) unfolding lrun_def
proof (cases rule: converse_rtranclpE)
  case (step d)
  then show thesis using that [of d] by (simp add: lrun_def nstep_def)
qed (use assms(2) in simp)

lemma lrun_block:
  assumes "closed st {lo..<hi} (insert x {lo..<hi})" "lo \<le> q" "q < hi" "x \<notin> {lo..<hi} \<union> B"
  shows "lrun st tx ({lo..<hi} \<union> B) (q, i) (x, k) \<longleftrightarrow> lrun st tx {lo..<hi} (q, i) (x, k)"
proof
  assume "lrun st tx ({lo..<hi} \<union> B) (q, i) (x, k)"
  then show "lrun st tx {lo..<hi} (q, i) (x, k)" by (rule lrun_stays) (use assms in simp_all)
next
  assume "lrun st tx {lo..<hi} (q, i) (x, k)"
  then show "lrun st tx ({lo..<hi} \<union> B) (q, i) (x, k)" by (rule lrun_mono) simp
qed

lemma alts_ok_grow:
  assumes "alts_ok st tx lo hi x F" "\<And>q. lo \<le> q \<Longrightarrow> q < hi \<Longrightarrow> st' ! q = st ! q" "hi \<le> hi'" "hi' \<le> length st'" "(q, R) \<in> F"
  shows "exits st' tx lo hi' x q R"
proof -
  have h: "x < lo" "lo \<le> hi" "hi \<le> length st" "closed st {lo..<hi} (insert x {lo..<hi})" "exits st tx lo hi x q R"
    using assms(1,5) by (auto simp: alts_ok_def)
  have cl: "closed st' {lo..<hi} (insert x {lo..<hi})" using h(4) assms(2) by (auto simp: closed_def)
  have f: "lrun st' tx {lo..<hi} = lrun st tx {lo..<hi}" using assms h by (intro lrun_frame) auto
  have "{lo..<hi'} = {lo..<hi} \<union> {hi..<hi'}" using h assms(3) by auto
  then have "lrun st' tx {lo..<hi'} (q, i) (x, k) \<longleftrightarrow> lrun st tx {lo..<hi} (q, i) (x, k)" for i k
    using lrun_block [OF cl, of q "{hi..<hi'}" tx i k] h f by (simp add: exits_def)
  then show ?thesis using h(5) assms(3) by (auto simp: exits_def)
qed

lemma alts_frag:
  assumes al: "alts_ok st tx lo b x F" and fr: "frag_ok st tx b c e x' R"
  shows "alts_ok (st[x' := SEps x]) tx lo c x (insert (e, R) F)"
proof -
  define st' where "st' = st[x' := SEps x]"
  have d: "x < lo" "lo \<le> b" "b \<le> e" "e < c" "b \<le> x'" "x' < c" "c \<le> length st'" using al fr by (auto simp: alts_ok_def frag_ok_def st'_def)
  have old: "st' ! q = st ! q" if "q < b" for q using that d by (simp add: st'_def)
  have nin: "x \<notin> {b..<c}" using d by simp
  note into = frag_into [OF fr st'_def nin]
  have U: "{lo..<c} = {lo..<b} \<union> {b..<c}" "{lo..<c} = {b..<c} \<union> {lo..<b}" using d by auto
  have "closed st' {lo..<b} (insert x {lo..<b})" using al old by (auto simp: alts_ok_def closed_def)
  then have cl: "closed st' {lo..<c} (insert x {lo..<c})" unfolding U(1) using into(1) by (rule closed_Un) auto
  have new: "lrun st' tx {lo..<c} (e, i) (x, k) \<longleftrightarrow> R i k" if "i \<le> tx_len tx" for i k
    using lrun_block [OF into(1), of e "{lo..<b}" tx i k] into(2) [OF that] d unfolding U(2) by simp
  have "exits st' tx lo c x q S" if "(q, S) \<in> F" for q S
    using alts_ok_grow [OF al _ _ _ that, of st' c] old d by simp
  then show ?thesis using cl new d unfolding st'_def [symmetric] by (auto simp: alts_ok_def exits_def)
qed

lemma alts_split:
  assumes al: "alts_ok st tx lo n x F" and n: "n = length st" and F: "(q1, R1) \<in> F" "(q2, R2) \<in> F"
  shows "alts_ok (st @ [SSplit q1 q2]) tx lo (Suc n) x (insert (n, \<lambda>i k. R1 i k \<or> R2 i k) F)"
proof -
  define st' where "st' = st @ [SSplit q1 q2]"
  have d: "x < lo" "lo \<le> n" "length st' = Suc n" "st' ! n = SSplit q1 q2" using al n by (auto simp: alts_ok_def st'_def)
  have old: "exits st' tx lo (Suc n) x q R" if "(q, R) \<in> F" for q R
    using alts_ok_grow [OF al _ _ _ that, of st' "Suc n"] d n by (simp add: st'_def nth_append)
  have q: "lo \<le> q1" "q1 < n" "lo \<le> q2" "q2 < n" using al F by (auto simp: alts_ok_def exits_def)
  have "closed st' {lo..<n} (insert x {lo..<n})" using al n by (auto simp: alts_ok_def closed_def st'_def nth_append)
  moreover have "closed st' {n} {q1, q2}" using d by (simp add: closed_def)
  ultimately have cl: "closed st' ({lo..<n} \<union> {n}) (insert x {lo..<Suc n})" by (rule closed_Un) (use q in auto)
  have U: "{lo..<Suc n} = {lo..<n} \<union> {n}" using d by auto
  have "lrun st' tx {lo..<Suc n} (n, i) (x, k) \<longleftrightarrow> R1 i k \<or> R2 i k" if i: "i \<le> tx_len tx" for i k
  proof
    assume "lrun st' tx {lo..<Suc n} (n, i) (x, k)"
    then obtain e where "e \<in> moves tx (st' ! n) i" "lrun st' tx {lo..<Suc n} e (x, k)"
      by (rule lrun_first) (use d in auto)
    then show "R1 i k \<or> R2 i k" using old [OF F(1)] old [OF F(2)] i d by (auto simp: exits_def)
  next
    assume "R1 i k \<or> R2 i k"
    then have "\<exists>r. (r = q1 \<or> r = q2) \<and> lrun st' tx {lo..<Suc n} (r, i) (x, k)"
      using old [OF F(1)] old [OF F(2)] i by (auto simp: exits_def)
    then obtain r where r: "r = q1 \<or> r = q2" "lrun st' tx {lo..<Suc n} (r, i) (x, k)" by blast
    have "lrun st' tx {lo..<Suc n} (n, i) (r, i)" by (rule lrun_step) (use r d in auto)
    then show "lrun st' tx {lo..<Suc n} (n, i) (x, k)" using r lrun_trans by blast
  qed
  then show ?thesis using cl old d unfolding st'_def [symmetric] U [symmetric] by (auto simp: alts_ok_def exits_def)
qed

lemma alts_done:
  assumes al: "alts_ok st tx (a + 2) hi (Suc a) F" and F: "(t, R) \<in> F" and x: "st ! Suc a = SEps PATCH"
  shows "frag_ok (st[a := SEps t]) tx a hi a (Suc a) R"
proof -
  define st' where "st' = st[a := SEps t]"
  have d: "a + 2 \<le> t" "t < hi" "hi \<le> length st'" "st' ! a = SEps t" using al F by (auto simp: alts_ok_def exits_def st'_def)
  have A: "{a..<hi} - {Suc a} = {a + 2..<hi} \<union> {a}" using d by auto
  have c: "closed st' {a + 2..<hi} (insert (Suc a) {a + 2..<hi})" using al by (auto simp: alts_ok_def closed_def st'_def)
  have ex: "exits st' tx (a + 2) hi (Suc a) t R" by (rule alts_ok_grow [OF al _ _ _ F]) (use d in \<open>auto simp: st'_def\<close>)
  have "lrun st' tx ({a + 2..<hi} \<union> {a}) (a, i) (Suc a, k) \<longleftrightarrow> R i k" if i: "i \<le> tx_len tx" for i k
  proof
    assume "lrun st' tx ({a + 2..<hi} \<union> {a}) (a, i) (Suc a, k)"
    then obtain e where "e \<in> moves tx (st' ! a) i" "lrun st' tx ({a + 2..<hi} \<union> {a}) e (Suc a, k)" by (rule lrun_first) auto
    then show "R i k" using lrun_block [OF c, of t "{a}" tx i k] d ex i by (simp add: exits_def)
  next
    assume "R i k"
    then have "lrun st' tx ({a + 2..<hi} \<union> {a}) (t, i) (Suc a, k)" using lrun_block [OF c, of t "{a}" tx i k] d ex i by (simp add: exits_def)
    moreover have "lrun st' tx ({a + 2..<hi} \<union> {a}) (a, i) (t, i)" by (rule lrun_step) (use d in auto)
    ultimately show "lrun st' tx ({a + 2..<hi} \<union> {a}) (a, i) (Suc a, k)" using lrun_trans by blast
  qed
  moreover have "closed st' ({a + 2..<hi} \<union> {a}) {a..<hi}"
    by (rule closed_Un [OF c, of "{a}" "{t}"]) (use d in \<open>auto simp: closed_def\<close>)
  ultimately show ?thesis using d x unfolding st'_def [symmetric] frag_ok_def A by (auto simp: st'_def)
qed

subsection \<open>Repetitions\<close>

text \<open>One copy of the body, its exit linked to \<open>nxt\<close>.\<close>

definition copy_ok :: "st list \<Rightarrow> rtext \<Rightarrow> nat \<Rightarrow> nat \<Rightarrow> nat \<Rightarrow> nat \<Rightarrow> (nat \<Rightarrow> nat \<Rightarrow> bool) \<Rightarrow> nat \<Rightarrow> bool" where
  "copy_ok st tx lo hi ce cx R nxt \<longleftrightarrow>
     ce \<in> {lo..<hi} \<and> cx \<in> {lo..<hi} \<and> hi \<le> length st \<and> closed st ({lo..<hi} - {cx}) {lo..<hi} \<and>
     st ! cx = SEps nxt \<and> (\<forall>i k. i \<le> tx_len tx \<longrightarrow> lrun st tx ({lo..<hi} - {cx}) (ce, i) (cx, k) \<longleftrightarrow> R i k)"

lemma copy_ok_frame:
  assumes "copy_ok st tx lo hi ce cx R nxt" "\<And>q. lo \<le> q \<Longrightarrow> q < hi \<Longrightarrow> st' ! q = st ! q" "hi \<le> length st'"
  shows "copy_ok st' tx lo hi ce cx R nxt"
proof -
  have "lrun st' tx ({lo..<hi} - {cx}) = lrun st tx ({lo..<hi} - {cx})"
    using assms by (intro lrun_frame) (auto simp: copy_ok_def)
  moreover have "closed st' ({lo..<hi} - {cx}) {lo..<hi}" using assms by (auto simp: copy_ok_def closed_def)
  ultimately show ?thesis using assms by (auto simp: copy_ok_def)
qed

lemma copy_okI:
  assumes f: "frag_ok st tx lo hi ce cx R"
  shows "copy_ok (st[cx := SEps nxt]) tx lo hi ce cx R nxt"
proof -
  note l = frag_linked [OF f refl, where s = "SEps nxt"]
  have "ce \<in> {lo..<hi}" "cx \<in> {lo..<hi}" "hi \<le> length (st[cx := SEps nxt])" using f by (simp_all add: frag_ok_def)
  then show ?thesis unfolding copy_ok_def using l by blast
qed

text \<open>How many iterations are allowed, and what the states after \<open>t\<close> of them look like.\<close>

definition max_ok :: "nat option \<Rightarrow> nat \<Rightarrow> bool" where
  "max_ok mx c \<longleftrightarrow> (case mx of None \<Rightarrow> True | Some m \<Rightarrow> c \<le> m)"

definition last_iter :: "nat \<Rightarrow> nat option \<Rightarrow> nat" where
  "last_iter mn mx = (case mx of None \<Rightarrow> mn | Some m \<Rightarrow> m)"

definition n_copies :: "nat \<Rightarrow> nat option \<Rightarrow> nat" where
  "n_copies mn mx = (case mx of None \<Rightarrow> last_iter mn mx + 1 | Some _ \<Rightarrow> last_iter mn mx)"

definition linked_iter :: "nat \<Rightarrow> nat option \<Rightarrow> nat \<Rightarrow> nat \<Rightarrow> nat \<Rightarrow> st" where
  "linked_iter mn mx x t ce = (if mx = Some t then SEps x else if t < mn then SEps ce else SSplit ce x)"

definition copies_ok :: "st list \<Rightarrow> rtext \<Rightarrow> nat \<Rightarrow> nat \<Rightarrow> nat \<Rightarrow> nat option \<Rightarrow> (nat \<Rightarrow> nat \<Rightarrow> bool) \<Rightarrow> nat \<Rightarrow> bool" where
  "copies_ok st tx a hi mn mx R t \<longleftrightarrow>
     (\<exists>lo hi' ce cx. a + 3 + last_iter mn mx \<le> lo \<and> hi' \<le> hi \<and>
        copy_ok st tx lo hi' ce cx R (a + 2 + min (Suc t) (last_iter mn mx)) \<and>
        st ! (a + 2 + t) = linked_iter mn mx (Suc a) t ce)"

lemma min_Suc_min: "min (Suc (min c l)) l = min (Suc c) l"
  by simp

text \<open>After \<open>c\<close> iterations the automaton stands in iteration state \<open>min c last\<close>.\<close>

lemma copy_forward:
  assumes cp: "copy_ok st tx lo hi ce cx R nxt" and j: "j \<le> tx_len tx"
    and r: "lrun st tx ({lo..<hi} - {cx}) (ce, j) (q, p)" and q: "q \<in> {lo..<hi}" and m: "(q', p') \<in> moves tx (st ! q) p"
  shows "q \<noteq> cx \<and> q' \<in> {lo..<hi} \<and> lrun st tx ({lo..<hi} - {cx}) (ce, j) (q', p') \<or> q = cx \<and> q' = nxt \<and> p' = p \<and> R j p"
proof (cases "q = cx")
  case True
  then show ?thesis using cp j r m by (auto simp: copy_ok_def)
next
  case False
  then have q1: "q \<in> {lo..<hi} - {cx}" using q by simp
  have "closed st ({lo..<hi} - {cx}) {lo..<hi}" "hi \<le> length st" using cp by (simp_all add: copy_ok_def)
  moreover from this q have "lrun st tx ({lo..<hi} - {cx}) (ce, j) (q', p')" using r q1 m by (intro lrun_snoc [OF r q1 _ m]) simp
  ultimately show ?thesis using closed_move [OF _ q1 m] False by blast
qed

lemma repeat_forward:
  assumes e: "st ! a = SEps (a + 2)"
    and cp: "\<And>t. t < n_copies mn mx \<Longrightarrow> copies_ok st tx a hi mn mx R t"
    and lst: "\<And>m. mx = Some m \<Longrightarrow> st ! (a + 2 + m) = SEps (Suc a)"
    and mm: "\<And>m. mx = Some m \<Longrightarrow> mn \<le> m"
    and i: "i \<le> tx_len tx"
    and r: "lrun st tx ({a..<hi} - {Suc a}) (a, i) (Suc a, k)"
  shows "\<exists>c. mn \<le> c \<and> max_ok mx c \<and> (R ^^ c) i k"
proof -
  let ?l = "last_iter mn mx"
  define In where "In = (\<lambda>q p. \<exists>c lo hi' ce cx j. min c ?l < n_copies mn mx \<and> max_ok mx (Suc c) \<and> (R ^^ c) i j \<and> j \<le> tx_len tx \<and>
      copy_ok st tx lo hi' ce cx R (a + 2 + min (Suc c) ?l) \<and> a + 3 + ?l \<le> lo \<and> q \<in> {lo..<hi'} \<and> lrun st tx ({lo..<hi'} - {cx}) (ce, j) (q, p))"
  define It where "It = (\<lambda>q p. \<exists>c. max_ok mx c \<and> (R ^^ c) i p \<and> p \<le> tx_len tx \<and> q = a + 2 + min c ?l)"
  define Ex where "Ex = (\<lambda>q p. q = Suc a \<and> (\<exists>c. mn \<le> c \<and> max_ok mx c \<and> (R ^^ c) i p))"
  define I where "I = (\<lambda>q p. q = a \<and> p = i \<or> It q p \<or> In q p \<or> Ex q p)"
  have step: "I q' p'" if "I q p" and q: "q \<in> {a..<hi} - {Suc a}" and m: "(q', p') \<in> moves tx (st ! q) p" for q p q' p'
    using \<open>I q p\<close> unfolding I_def
  proof (elim disjE)
    assume "q = a \<and> p = i"
    then have "It q' p'" using m e i unfolding It_def by (intro exI [of _ 0]) (auto simp: max_ok_def split: option.splits)
    then show "q' = a \<and> p' = i \<or> It q' p' \<or> In q' p' \<or> Ex q' p'" by simp
  next
    assume "It q p"
    then obtain c where c: "max_ok mx c" "(R ^^ c) i p" "p \<le> tx_len tx" "q = a + 2 + min c ?l" by (auto simp: It_def)
    let ?t = "min c ?l"
    show "q' = a \<and> p' = i \<or> It q' p' \<or> In q' p' \<or> Ex q' p'"
    proof (cases "mx = Some ?t")
      case True
      then have "c = ?t" using c(1) by (cases mx) (auto simp: max_ok_def last_iter_def)
      then have "Ex q' p'" using True c m lst [of ?t] mm [of ?t] by (auto simp: Ex_def)
      then show ?thesis by simp
    next
      case False
      then have t: "?t < n_copies mn mx" "max_ok mx (Suc c)" using c(1) by (auto simp: n_copies_def last_iter_def max_ok_def split: option.splits)
      then obtain lo hi' ce cx where cc: "a + 3 + ?l \<le> lo" "copy_ok st tx lo hi' ce cx R (a + 2 + min (Suc ?t) ?l)"
          "st ! (a + 2 + ?t) = linked_iter mn mx (Suc a) ?t ce"
        using cp [OF t(1)] unfolding copies_ok_def by blast
      from m c(4) cc(3) False have "q' = ce \<and> p' = p \<or> q' = Suc a \<and> p' = p \<and> \<not> ?t < mn" by (auto simp: linked_iter_def split: if_splits)
      then show ?thesis
      proof
        assume "q' = ce \<and> p' = p"
        moreover have "ce \<in> {lo..<hi'}" using cc(2) by (simp add: copy_ok_def)
        ultimately have "In q' p'" unfolding In_def
          using t c cc(1) cc(2) [unfolded min_Suc_min] by (intro exI conjI) (simp_all, auto)
        then show ?thesis by simp
      next
        assume "q' = Suc a \<and> p' = p \<and> \<not> ?t < mn"
        then have "Ex q' p'" using c by (auto simp: Ex_def intro!: exI [of _ c])
        then show ?thesis by simp
      qed
    qed
  next
    assume "In q p"
    then obtain c lo hi' ce cx j where c: "min c ?l < n_copies mn mx" "max_ok mx (Suc c)" "(R ^^ c) i j" "j \<le> tx_len tx"
      "copy_ok st tx lo hi' ce cx R (a + 2 + min (Suc c) ?l)" "a + 3 + ?l \<le> lo" "q \<in> {lo..<hi'}" "lrun st tx ({lo..<hi'} - {cx}) (ce, j) (q, p)"
      unfolding In_def by blast
    have p: "p \<le> tx_len tx" using lrun_pos [OF c(8,4)] by simp
    from copy_forward [OF c(5,4,8,7) m] show "q' = a \<and> p' = i \<or> It q' p' \<or> In q' p' \<or> Ex q' p'"
    proof
      assume "q \<noteq> cx \<and> q' \<in> {lo..<hi'} \<and> lrun st tx ({lo..<hi'} - {cx}) (ce, j) (q', p')"
      then have "In q' p'" unfolding In_def using c(1-6) by blast
      then show ?thesis by simp
    next
      assume "q = cx \<and> q' = a + 2 + min (Suc c) ?l \<and> p' = p \<and> R j p"
      moreover from this have "(R ^^ Suc c) i p" using c(3) by (auto intro: relpowp_Suc_I)
      ultimately have "It q' p'" unfolding It_def using c(2) p by blast
      then show ?thesis by simp
    qed
  next
    assume "Ex q p"
    then show "q' = a \<and> p' = i \<or> It q' p' \<or> In q' p' \<or> Ex q' p'" using q by (simp add: Ex_def)
  qed
  have "I (Suc a) k" using lrun_invariant [OF r, of I, OF _ step] by (simp add: I_def)
  then show ?thesis by (auto simp: I_def It_def In_def Ex_def)
qed

lemma repeat_iterate:
  assumes e: "st ! a = SEps (a + 2)" and hi: "a + 3 + last_iter mn mx \<le> hi" "hi \<le> length st"
    and cp: "\<And>t. t < n_copies mn mx \<Longrightarrow> copies_ok st tx a hi mn mx R t"
    and i: "i \<le> tx_len tx"
  shows "(R ^^ c) i j \<Longrightarrow> max_ok mx c \<Longrightarrow> lrun st tx ({a..<hi} - {Suc a}) (a, i) (a + 2 + min c (last_iter mn mx), j)"
proof (induction c arbitrary: j)
  case 0
  then show ?case using e hi by (auto intro!: lrun_step)
next
  case (Suc c)
  let ?l = "last_iter mn mx" and ?A = "{a..<hi} - {Suc a}"
  let ?t = "min c ?l"
  from Suc.prems(1) obtain h where h: "(R ^^ c) i h" "R h j" by (auto elim: relpowp_Suc_E)
  have u: "max_ok mx c" "mx \<noteq> Some ?t" "?t < n_copies mn mx"
    using Suc.prems(2) by (auto simp: max_ok_def last_iter_def n_copies_def split: option.splits)
  then have r1: "lrun st tx ?A (a, i) (a + 2 + ?t, h)" using Suc.IH h by blast
  then have hl: "h \<le> tx_len tx" using lrun_pos i by blast
  obtain lo hi' ce cx where cc: "a + 3 + ?l \<le> lo" "hi' \<le> hi" "copy_ok st tx lo hi' ce cx R (a + 2 + min (Suc ?t) ?l)"
      "st ! (a + 2 + ?t) = linked_iter mn mx (Suc a) ?t ce"
    using cp [OF u(3)] unfolding copies_ok_def by blast
  have d: "cx \<in> {lo..<hi'}" "st ! cx = SEps (a + 2 + min (Suc c) ?l)" "lrun st tx ({lo..<hi'} - {cx}) (ce, h) (cx, j)"
    using cc(3) h(2) hl by (simp_all add: copy_ok_def)
  have "lrun st tx ?A (a, i) (ce, h)" using r1
    by (rule lrun_snoc) (use hi cc(4) u(2) in \<open>auto simp: linked_iter_def\<close>)
  moreover have "lrun st tx ?A (ce, h) (cx, j)" using d(3) by (rule lrun_mono) (use cc in auto)
  ultimately have "lrun st tx ?A (a, i) (cx, j)" using lrun_trans by blast
  then show ?case by (rule lrun_snoc) (use d cc hi in auto)
qed

lemma frag_repeat_ok:
  assumes e: "st ! a = SEps (a + 2)" "st ! Suc a = SEps PATCH" and hi: "a + 3 + last_iter mn mx \<le> hi" "hi \<le> length st"
    and cp: "\<And>t. t < n_copies mn mx \<Longrightarrow> copies_ok st tx a hi mn mx R t"
    and lst: "\<And>m. mx = Some m \<Longrightarrow> st ! (a + 2 + m) = SEps (Suc a)"
    and mm: "\<And>m. mx = Some m \<Longrightarrow> mn \<le> m"
    and cl: "closed st {a + 3 + last_iter mn mx..<hi} {a + 2..<hi}"
  shows "frag_ok st tx a hi a (Suc a) (\<lambda>i k. \<exists>c. mn \<le> c \<and> max_ok mx c \<and> (R ^^ c) i k)"
proof -
  let ?l = "last_iter mn mx" and ?A = "{a..<hi} - {Suc a}"
  have it: "targets (st ! (a + 2 + t)) \<subseteq> {a..<hi}" if "t \<le> ?l" for t
  proof (cases "mx = Some t")
    case True
    then show ?thesis using lst hi by auto
  next
    case False
    then have "t < n_copies mn mx" using that by (auto simp: last_iter_def n_copies_def split: option.splits)
    from cp [OF this] show ?thesis using hi by (auto simp: copies_ok_def copy_ok_def linked_iter_def split: if_splits)
  qed
  have "closed st {a + 2..<a + 3 + ?l} {a..<hi}"
    unfolding closed_def
  proof
    fix q assume "q \<in> {a + 2..<a + 3 + ?l}"
    then obtain t where "q = a + 2 + t" "t \<le> ?l" using le_Suc_ex [of "a + 2" q] by auto
    then show "targets (st ! q) \<subseteq> {a..<hi}" using it by simp
  qed
  moreover have "closed st ({a + 3 + ?l..<hi} \<union> {a}) {a..<hi}"
    by (rule closed_Un [OF cl, of "{a}" "{a..<hi}"]) (use e hi in \<open>auto simp: closed_def\<close>)
  ultimately have "closed st ({a + 2..<a + 3 + ?l} \<union> ({a + 3 + ?l..<hi} \<union> {a})) {a..<hi}"
    by (rule closed_Un) simp_all
  moreover have "?A = {a + 2..<a + 3 + ?l} \<union> ({a + 3 + ?l..<hi} \<union> {a})" using hi by auto
  ultimately have c: "closed st ?A {a..<hi}" by simp
  have "lrun st tx ?A (a, i) (Suc a, k)" if i: "i \<le> tx_len tx" and c: "mn \<le> c" "max_ok mx c" "(R ^^ c) i k" for i k c
  proof -
    let ?t = "min c ?l"
    have "(Suc a, k) \<in> moves tx (st ! (a + 2 + ?t)) k"
    proof (cases "mx = Some ?t")
      case True
      then show ?thesis using lst by simp
    next
      case False
      then have t: "?t < n_copies mn mx" "\<not> ?t < mn" using c mm by (auto simp: last_iter_def n_copies_def max_ok_def split: option.splits)
      from cp [OF t(1)] show ?thesis using t(2) False by (auto simp: copies_ok_def linked_iter_def)
    qed
    moreover have "lrun st tx ?A (a, i) (a + 2 + ?t, k)"
      by (rule repeat_iterate [OF e(1) hi _ i c(3,2)]) (rule cp)
    ultimately show ?thesis by (rule lrun_snoc [rotated 3]) (use hi in auto)
  qed
  moreover have "\<exists>c. mn \<le> c \<and> max_ok mx c \<and> (R ^^ c) i k" if "i \<le> tx_len tx" "lrun st tx ?A (a, i) (Suc a, k)" for i k
    by (rule repeat_forward [OF e(1) _ _ _ that]) (erule cp lst mm)+
  ultimately show ?thesis using c hi e unfolding frag_ok_def by auto
qed

end
