(* ===== verification/Regex_Compile.thy ===== *)
theory Regex_Compile
  imports Regex_Thompson
begin

text \<open>
  The builder of \<open>Regex_Nfa\<close> makes the fragments of \<open>Regex_Thompson\<close>: compilation of a well-formed
  tree succeeds or runs out of states, it does not crash, and the automaton it returns has a run
  from its start to its accepting state exactly over the parts of the text the tree matches.
\<close>

section \<open>What the builder's steps leave alone\<close>

definition on_ast :: "kind list \<Rightarrow> nat list \<Rightarrow> builder \<Rightarrow> bool" where
  "on_ast ks gs b \<longleftrightarrow> ast_kinds (b_ast b) = ks \<and> as_group_node (b_ast b) = gs"

definition ext_from :: "nat \<Rightarrow> builder \<Rightarrow> builder \<Rightarrow> bool" where
  "ext_from a b b' \<longleftrightarrow>
     ast_kinds (b_ast b') = ast_kinds (b_ast b) \<and> as_group_node (b_ast b') = as_group_node (b_ast b) \<and>
     b_record b' = b_record b \<and> b_superset b' = b_superset b \<and>
     length (b_st b) \<le> length (b_st b') \<and> (\<forall>q<a. b_st b' ! q = b_st b ! q)"

abbreviation b_len :: "builder \<Rightarrow> nat" where "b_len b \<equiv> length (b_st b)"

definition made :: "rtext \<Rightarrow> builder \<Rightarrow> (nat \<Rightarrow> nat \<Rightarrow> bool) \<Rightarrow> nat \<times> nat \<times> builder \<Rightarrow> bool" where
  "made tx b R r \<longleftrightarrow>
     (case r of (e, x, b') \<Rightarrow> ext_from (b_len b) b b' \<and> frag_ok (b_st b') tx (b_len b) (b_len b') e x R)"

abbreviation safe_space :: "('a \<Rightarrow> bool) \<Rightarrow> 'a rx \<Rightarrow> bool" where
  "safe_space \<equiv> safe_rx (\<lambda>k. k = Space)"

definition fr_ok :: "kind list \<Rightarrow> nat list \<Rightarrow> rtext \<Rightarrow> fragment \<Rightarrow> nat \<Rightarrow> bool" where
  "fr_ok ks gs tx fr n \<longleftrightarrow>
     (\<forall>b. on_ast ks gs b \<longrightarrow> safe_space (made tx b (sem ks gs tx (0 < b_superset b) n)) (fr n b))"

lemma ext_from_refl [simp]: "ext_from a b b"
  by (simp add: ext_from_def)

lemma ext_from_trans: "ext_from a b c \<Longrightarrow> ext_from a' c d \<Longrightarrow> a \<le> a' \<Longrightarrow> ext_from a b d"
  by (auto simp: ext_from_def)

lemma ext_from_st: "(\<And>q. q < a \<Longrightarrow> st ! q = b_st b ! q) \<Longrightarrow> b_len b \<le> length st \<Longrightarrow> ext_from a b (b\<lparr>b_st := st\<rparr>)"
  by (simp add: ext_from_def)

lemma ext_from_on_ast: "ext_from a b b' \<Longrightarrow> on_ast ks gs b \<Longrightarrow> on_ast ks gs b'"
  by (simp add: ext_from_def on_ast_def)

lemma safe_add:
  assumes "Q (b_len b, b\<lparr>b_st := b_st b @ [s]\<rparr>)"
  shows "safe_space Q (b_add s b)"
  using assms by (simp add: b_add_def)

lemma safe_add_bind:
  assumes "safe_space Q (f (b_len b, b\<lparr>b_st := b_st b @ [s]\<rparr>))"
  shows "safe_space Q (bind_rx (b_add s b) f)"
  using assms by (simp add: b_add_def)

lemma safe_eps_bind:
  assumes "safe_space Q (f (b_len b, b\<lparr>b_st := b_st b @ [SEps PATCH]\<rparr>))"
  shows "safe_space Q (bind_rx (b_eps b) f)"
  using assms by (simp add: b_eps_def safe_add_bind)

lemma b_link_eps: "q < b_len b \<Longrightarrow> b_st b ! q = SEps n \<Longrightarrow> b_link q r b = Good (b\<lparr>b_st := (b_st b)[q := SEps r]\<rparr>)"
  by (simp add: b_link_def)

lemma b_link_split: "q < b_len b \<Longrightarrow> b_st b ! q = SSplit n c \<Longrightarrow> b_link q r b = Good (b\<lparr>b_st := (b_st b)[q := SSplit r c]\<rparr>)"
  by (simp add: b_link_def)

section \<open>Leaves\<close>

lemma b_empty_ok: "safe_space (made tx b (\<lambda>i k. k = i \<and> i \<le> tx_len tx)) (b_empty b)"
proof -
  let ?n = "b_len b" and ?st = "b_st b"
  have 1: "frag_ok ((?st @ [SEps PATCH]) @ [SEps PATCH]) tx ?n (Suc ?n) ?n ?n (\<lambda>i k. k = i \<and> i \<le> tx_len tx)"
    by (rule frag_ok_frame [OF frag_eps [OF refl]]) (auto simp: nth_append)
  have 2: "frag_ok ((?st @ [SEps PATCH]) @ [SEps PATCH]) tx (Suc ?n) (Suc (Suc ?n)) (Suc ?n) (Suc ?n) (\<lambda>i k. k = i \<and> i \<le> tx_len tx)"
    by (rule frag_eps) simp
  from frag_seq [OF 1 2] have "frag_ok (?st @ [SEps (Suc ?n), SEps PATCH]) tx ?n (Suc (Suc ?n)) ?n (Suc ?n) (\<lambda>i k. k = i \<and> i \<le> tx_len tx)"
    by (auto elim!: frag_ok_cong simp: list_update_append)
  then show ?thesis unfolding b_empty_def
    by (intro safe_eps_bind) (simp add: b_eps_def b_add_def b_link_def nth_append list_update_append made_def ext_from_def)
qed

lemma b_leaf_ok:
  assumes "s = SByte S PATCH \<or> s = SBol PATCH \<or> s = SEol PATCH"
    and "\<And>i k. R i k \<longleftrightarrow> (b_len b + 1, k) \<in> moves tx (case s of SByte S _ \<Rightarrow> SByte S (b_len b + 1) | SBol _ \<Rightarrow> SBol (b_len b + 1) | _ \<Rightarrow> SEol (b_len b + 1)) i"
  shows "safe_space (made tx b R) (b_leaf s b)"
proof -
  let ?n = "b_len b" and ?st = "b_st b"
  let ?s = "case s of SByte S _ \<Rightarrow> SByte S (?n + 1) | SBol _ \<Rightarrow> SBol (?n + 1) | _ \<Rightarrow> SEol (?n + 1)"
  have "targets ?s = {Suc ?n}" using assms(1) by auto
  from frag_leaf [OF refl this, of tx] have "frag_ok (?st @ [SEps (?n + 2), SEps PATCH, ?s]) tx ?n (?n + 3) ?n (Suc ?n) R"
    by (rule frag_ok_cong) (simp add: assms(2))
  then show ?thesis unfolding b_leaf_def using assms(1)
    by (intro safe_eps_bind)
      (auto simp: safe_eps_bind b_eps_def b_add_def b_link_def nth_append list_update_append made_def ext_from_def numeral_eq_Suc)
qed

lemma b_any_loop_ok: "safe_space (made tx b (\<lambda>i k. i \<le> k \<and> k \<le> tx_len tx)) (b_any_loop b)"
  using frag_any_loop [of "b_len b" "b_st b" tx] unfolding b_any_loop_def
  by (intro safe_eps_bind)
    (auto simp: b_eps_def b_add_def b_link_def nth_append list_update_append made_def ext_from_def numeral_eq_Suc)

section \<open>Sequences\<close>

lemma fr_okD:
  assumes "fr_ok ks gs tx fr n" "on_ast ks gs b"
    and "\<And>e x b'. ext_from (b_len b) b b' \<Longrightarrow> frag_ok (b_st b') tx (b_len b) (b_len b') e x (sem ks gs tx (0 < b_superset b) n) \<Longrightarrow>
      safe_space Q (f (e, x, b'))"
  shows "safe_space Q (bind_rx (fr n b) f)"
  by (rule safe_bind [of _ "made tx b (sem ks gs tx (0 < b_superset b) n)"]) (use assms in \<open>auto simp: fr_ok_def made_def\<close>)

lemma sem_seq_snoc: "sem_seq ks gs tx sp (v @ [n]) i k \<longleftrightarrow> (\<exists>j. sem_seq ks gs tx sp v i j \<and> sem ks gs tx sp n j k)"
  by (auto simp: sem_seq_append sem_seq_Cons sem_seq_Nil dest: sem_bounds(1))

lemma frag_items_ok:
  assumes "\<And>it. it \<in> set items \<Longrightarrow> fr_ok ks gs tx fr it"
    and "on_ast ks gs b" and "sp = (0 < b_superset b)"
    and "frag_ok (b_st b) tx a (b_len b) e prev (sem_seq ks gs tx sp before)"
  shows "safe_space (\<lambda>(prev', b'). ext_from a b b' \<and> frag_ok (b_st b') tx a (b_len b') e prev' (sem_seq ks gs tx sp (before @ items)))
    (frag_items fr items prev b)"
  using assms
proof (induction items arbitrary: before prev b)
  case (Cons it items)
  show ?case unfolding frag_items.simps
  proof (rule fr_okD [where ks = ks and gs = gs and tx = tx])
    fix ie ix b1
    assume x: "ext_from (b_len b) b b1"
      and f: "frag_ok (b_st b1) tx (b_len b) (b_len b1) ie ix (sem ks gs tx (0 < b_superset b) it)"
    have p: "a \<le> prev" "prev < b_len b" "b_st b ! prev = SEps PATCH" using Cons.prems(4) by (auto simp: frag_ok_def)
    have f0: "frag_ok (b_st b1) tx a (b_len b) e prev (sem_seq ks gs tx sp before)"
      by (rule frag_ok_frame [OF Cons.prems(4)]) (use x in \<open>auto simp: ext_from_def\<close>)
    define b2 where "b2 = b1\<lparr>b_st := (b_st b1)[prev := SEps ie]\<rparr>"
    have l: "b_link prev ie b1 = Good b2" unfolding b2_def by (rule b_link_eps) (use x p in \<open>auto simp: ext_from_def\<close>)
    have "ext_from a b b2" using x p unfolding b2_def by (auto simp: ext_from_def on_ast_def)
    have f2: "frag_ok (b_st b2) tx a (b_len b2) e ix (sem_seq ks gs tx sp (before @ [it]))"
      using frag_ok_cong [OF frag_seq [OF f0 f], of "sem_seq ks gs tx sp (before @ [it])"] Cons.prems(3)
      by (simp add: b2_def sem_seq_snoc)
    have "safe_space (\<lambda>(prev', b'). ext_from a b2 b' \<and> frag_ok (b_st b') tx a (b_len b') e prev' (sem_seq ks gs tx sp ((before @ [it]) @ items)))
        (frag_items fr items ix b2)"
    proof (rule Cons.IH)
      show "fr_ok ks gs tx fr j" if "j \<in> set items" for j using Cons.prems(1) that by simp
      show "on_ast ks gs b2" by (rule ext_from_on_ast [OF \<open>ext_from a b b2\<close> Cons.prems(2)])
      show "sp = (0 < b_superset b2)" using Cons.prems(3) \<open>ext_from a b b2\<close> by (simp add: ext_from_def)
    qed (rule f2)
    then show "safe_space (\<lambda>(prev', b'). ext_from a b b' \<and> frag_ok (b_st b') tx a (b_len b') e prev' (sem_seq ks gs tx sp (before @ it # items)))
       (case (ie, ix, b1) of (ie, ix, b) \<Rightarrow> bind_rx (b_link prev ie b) (frag_items fr items ix))"
      using \<open>ext_from a b b2\<close> by (auto simp: l elim!: safe_mono intro: ext_from_trans)
  qed (use Cons.prems in simp_all)
qed simp

lemma frag_concat_ok:
  assumes "\<And>it. it \<in> set items \<Longrightarrow> fr_ok ks gs tx fr it" and "on_ast ks gs b" and "sp = (0 < b_superset b)"
  shows "safe_space (made tx b (sem_seq ks gs tx sp items)) (frag_concat fr items b)"
  unfolding frag_concat_def
proof (rule safe_eps_bind, simp only: prod.case, rule safe_bind)
  let ?n = "b_len b" and ?b = "b\<lparr>b_st := b_st b @ [SEps PATCH]\<rparr>"
  show "safe_space (\<lambda>(prev', b'). ext_from ?n ?b b' \<and> frag_ok (b_st b') tx ?n (b_len b') ?n prev' (sem_seq ks gs tx sp ([] @ items)))
      (frag_items fr items ?n ?b)"
  proof (rule frag_items_ok)
    show "frag_ok (b_st ?b) tx ?n (b_len ?b) ?n ?n (sem_seq ks gs tx sp [])"
      using frag_ok_cong [OF frag_eps [OF refl, of "b_st b" tx], of "sem_seq ks gs tx sp []"] by (auto simp: sem_seq_Nil)
  qed (use assms in \<open>auto simp: on_ast_def\<close>)
  fix r
  assume "case r of (prev', b') \<Rightarrow> ext_from ?n ?b b' \<and> frag_ok (b_st b') tx ?n (b_len b') ?n prev' (sem_seq ks gs tx sp ([] @ items))"
  then obtain prev b' where r: "r = (prev, b')" "ext_from ?n ?b b'" and f: "frag_ok (b_st b') tx ?n (b_len b') ?n prev (sem_seq ks gs tx sp items)"
    by (cases r) auto
  let ?st = "b_st b' @ [SEps PATCH]"
  have f1: "frag_ok ?st tx ?n (b_len b') ?n prev (sem_seq ks gs tx sp items)"
    by (rule frag_ok_frame [OF f]) (auto simp: nth_append)
  have p: "prev < b_len b'" "?n \<le> prev" "b_st b' ! prev = SEps PATCH" using f by (auto simp: frag_ok_def)
  have f3: "frag_ok (?st[prev := SEps (b_len b')]) tx ?n (Suc (b_len b')) ?n (b_len b') (sem_seq ks gs tx sp items)"
    by (rule frag_ok_cong [OF frag_seq [OF f1 frag_eps [OF refl]]]) (auto dest: sem_bounds)
  show "safe_space (made tx b (sem_seq ks gs tx sp items))
      (case r of (prev, b) \<Rightarrow> bind_rx (b_eps b) (\<lambda>(x, b). bind_rx (b_link prev x b) (\<lambda>b. Good (?n, x, b))))"
    using f3 r(2) p unfolding r(1) prod.case
    by (intro safe_eps_bind) (auto simp: b_link_def made_def ext_from_def nth_append)
qed

section \<open>Alternatives\<close>

lemma frag_alts_ok:
  assumes "\<And>v. v \<in> set alts \<Longrightarrow> fr_ok ks gs tx fr v"
    and "on_ast ks gs b" and "sp = (0 < b_superset b)"
    and "alts_ok (b_st b) tx lo (b_len b) x F"
  shows "safe_space (\<lambda>(entries, b'). ext_from lo b b' \<and> length entries = length alts \<and>
      alts_ok (b_st b') tx lo (b_len b') x (F \<union> set (zip entries (map (sem ks gs tx sp) alts))))
    (frag_alts fr alts x b)"
  using assms
proof (induction alts arbitrary: F b)
  case (Cons v alts)
  show ?case unfolding frag_alts.simps
  proof (rule fr_okD [where ks = ks and gs = gs and tx = tx])
    fix ae ax b1
    assume x: "ext_from (b_len b) b b1"
      and f: "frag_ok (b_st b1) tx (b_len b) (b_len b1) ae ax (sem ks gs tx (0 < b_superset b) v)"
    have p: "b_len b \<le> ax" "ax < b_len b1" "b_st b1 ! ax = SEps PATCH" using f by (auto simp: frag_ok_def)
    have lo: "lo \<le> b_len b" using Cons.prems(4) by (simp add: alts_ok_def)
    have "exits (b_st b1) tx lo (b_len b) x q R" if "(q, R) \<in> F" for q R
      by (rule alts_ok_grow [OF Cons.prems(4) _ _ _ that]) (use x in \<open>auto simp: ext_from_def\<close>)
    then have al: "alts_ok (b_st b1) tx lo (b_len b) x F"
      using Cons.prems(4) x by (auto simp: alts_ok_def ext_from_def closed_def)
    define b2 where "b2 = b1\<lparr>b_st := (b_st b1)[ax := SEps x]\<rparr>"
    have l: "b_link ax x b1 = Good b2" unfolding b2_def by (rule b_link_eps) (use p in auto)
    have e2: "ext_from lo b b2" using x p lo unfolding b2_def by (auto simp: ext_from_def on_ast_def)
    have al2: "alts_ok (b_st b2) tx lo (b_len b2) x (insert (ae, sem ks gs tx sp v) F)"
      using alts_frag [OF al f] Cons.prems(3) unfolding b2_def by simp
    have "safe_space (\<lambda>(entries, b'). ext_from lo b2 b' \<and> length entries = length alts \<and>
        alts_ok (b_st b') tx lo (b_len b') x (insert (ae, sem ks gs tx sp v) F \<union> set (zip entries (map (sem ks gs tx sp) alts))))
      (frag_alts fr alts x b2)"
    proof (rule Cons.IH)
      show "fr_ok ks gs tx fr j" if "j \<in> set alts" for j using Cons.prems(1) that by simp
      show "on_ast ks gs b2" by (rule ext_from_on_ast [OF e2 Cons.prems(2)])
      show "sp = (0 < b_superset b2)" using Cons.prems(3) e2 by (simp add: ext_from_def)
    qed (rule al2)
    then show "safe_space (\<lambda>(entries, b'). ext_from lo b b' \<and> length entries = length (v # alts) \<and>
        alts_ok (b_st b') tx lo (b_len b') x (F \<union> set (zip entries (map (sem ks gs tx sp) (v # alts)))))
      (case (ae, ax, b1) of (ae, ax, b) \<Rightarrow> bind_rx (b_link ax x b) (\<lambda>b. bind_rx (frag_alts fr alts x b) (\<lambda>(entries, b). Good (ae # entries, b))))"
      using e2 by (auto simp: l elim!: safe_bind intro: ext_from_trans)
  qed (use Cons.prems in simp_all)
qed simp

lemma b_splits_ok:
  assumes "alts_ok (b_st b) tx lo (b_len b) x F" "(tail, R) \<in> F" "set ps \<subseteq> F"
  shows "safe_space (\<lambda>(tail', b'). ext_from lo b b' \<and>
      (\<exists>F'. alts_ok (b_st b') tx lo (b_len b') x F' \<and> (tail', \<lambda>i k. R i k \<or> (\<exists>p\<in>set ps. snd p i k)) \<in> F'))
    (b_splits (map fst ps) tail b)"
  using assms
proof (induction ps arbitrary: tail R b F)
  case (Cons p ps)
  obtain ae Ra where p: "p = (ae, Ra)" by (cases p)
  let ?b = "b\<lparr>b_st := b_st b @ [SSplit ae tail]\<rparr>"
  have lo: "lo \<le> b_len b" using Cons.prems(1) by (simp add: alts_ok_def)
  have al: "alts_ok (b_st ?b) tx lo (b_len ?b) x (insert (b_len b, \<lambda>i k. Ra i k \<or> R i k) F)"
    using alts_split [OF Cons.prems(1) refl, of ae Ra tail R] Cons.prems p by simp
  have "safe_space (\<lambda>(tail', b'). ext_from lo ?b b' \<and>
      (\<exists>F'. alts_ok (b_st b') tx lo (b_len b') x F' \<and> (tail', \<lambda>i k. (Ra i k \<or> R i k) \<or> (\<exists>p\<in>set ps. snd p i k)) \<in> F'))
    (b_splits (map fst ps) (b_len b) ?b)"
    by (rule Cons.IH [OF al]) (use Cons.prems in auto)
  moreover have "ext_from lo b ?b" using lo by (auto simp: ext_from_def nth_append)
  moreover have "(\<lambda>i k. (Ra i k \<or> R i k) \<or> (\<exists>p\<in>set ps. snd p i k)) = (\<lambda>i k. R i k \<or> (\<exists>p\<in>set (p # ps). snd p i k))"
    by (auto simp: p fun_eq_iff)
  ultimately show ?case unfolding p list.map fst_conv b_splits.simps
    by (intro safe_add_bind) (auto elim!: safe_mono intro: ext_from_trans)
next
  case Nil
  then show ?case by auto
qed

lemma frag_alt_ok:
  assumes "\<And>v. v \<in> set alts \<Longrightarrow> fr_ok ks gs tx fr v" and "on_ast ks gs b" and sp: "sp = (0 < b_superset b)" and "alts \<noteq> []"
  shows "safe_space (made tx b (\<lambda>i k. \<exists>v\<in>set alts. sem ks gs tx sp v i k)) (frag_alt fr alts b)"
  unfolding frag_alt_def
proof (rule safe_eps_bind, simp only: prod.case, rule safe_eps_bind, simp only: prod.case, rule safe_bind)
  let ?n = "b_len b" and ?R = "\<lambda>i k. \<exists>v\<in>set alts. sem ks gs tx sp v i k"
  let ?b1 = "b\<lparr>b_st := b_st b @ [SEps PATCH]\<rparr>"
  let ?b = "?b1\<lparr>b_st := b_st ?b1 @ [SEps PATCH]\<rparr>"
  let ?Q = "\<lambda>(entries, b'). ext_from (?n + 2) ?b b' \<and> length entries = length alts \<and>
      alts_ok (b_st b') tx (?n + 2) (b_len b') (Suc ?n) ({} \<union> set (zip entries (map (sem ks gs tx sp) alts)))"
  have "safe_space ?Q (frag_alts fr alts (Suc ?n) ?b)"
    by (rule frag_alts_ok [of alts ks gs]) (use assms in \<open>auto simp: on_ast_def alts_ok_def closed_def\<close>)
  then show "safe_space ?Q (frag_alts fr alts (b_len ?b1) ?b)" by simp
  fix r
  assume "?Q r"
  then obtain es b' where r: "r = (es, b')" and x: "ext_from (?n + 2) ?b b'" and len: "length es = length alts"
    and al: "alts_ok (b_st b') tx (?n + 2) (b_len b') (Suc ?n) (set (zip es (map (sem ks gs tx sp) alts)))"
    by (cases r) auto
  let ?ps = "zip es (map (sem ks gs tx sp) alts)"
  have ne: "?ps \<noteq> []" "es \<noteq> []" "map fst ?ps = es" using len assms(4) by (auto simp: zip_eq_Nil_iff)
  have ss: "rev (butlast es) = map fst (rev (butlast ?ps))" "last es = fst (last ?ps)"
    using ne by (metis map_butlast rev_map) (metis last_map ne(1,3))
  have e: "b_st b' ! ?n = SEps PATCH" "b_st b' ! Suc ?n = SEps PATCH" "?n + 2 \<le> b_len b'"
    using x by (auto simp: ext_from_def nth_append)
  have R: "(\<lambda>i k. snd (last ?ps) i k \<or> (\<exists>p\<in>set (rev (butlast ?ps)). snd p i k)) = ?R"
  proof -
    have "set ?ps = insert (last ?ps) (set (butlast ?ps))" using ne(1) by (metis append_butlast_last_id insert_is_Un list.set(1) list.simps(15) set_append sup_commute)
    then have "snd (last ?ps) i k \<or> (\<exists>p\<in>set (rev (butlast ?ps)). snd p i k) \<longleftrightarrow> (\<exists>S\<in>snd ` set ?ps. S i k)" for i k by simp
    moreover have "snd ` set ?ps = sem ks gs tx sp ` set alts" using len by (metis list.set_map map_snd_zip length_map)
    ultimately show ?thesis by simp
  qed
  show "safe_space (made tx b ?R)
      (case r of (entries, b) \<Rightarrow> if entries = [] then Crash
        else bind_rx (b_splits (rev (butlast entries)) (last entries) b)
          (\<lambda>(tail, ba). bind_rx (b_link ?n tail ba) (\<lambda>b. Good (?n, b_len ?b1, b))))"
    unfolding r prod.case if_not_P [OF ne(2)] ss
  proof (rule safe_bind)
    have "last ?ps \<in> set ?ps" using ne(1) by (rule last_in_set)
    then show "safe_space (\<lambda>(tail', b''). ext_from (?n + 2) b' b'' \<and>
        (\<exists>F'. alts_ok (b_st b'') tx (?n + 2) (b_len b'') (Suc ?n) F' \<and> (tail', \<lambda>i k. snd (last ?ps) i k \<or> (\<exists>p\<in>set (rev (butlast ?ps)). snd p i k)) \<in> F'))
      (b_splits (map fst (rev (butlast ?ps))) (fst (last ?ps)) b')"
      by (intro b_splits_ok [OF al]) (auto dest: in_set_butlastD)
    fix r2
    assume "case r2 of (tail', b'') \<Rightarrow> ext_from (?n + 2) b' b'' \<and>
        (\<exists>F'. alts_ok (b_st b'') tx (?n + 2) (b_len b'') (Suc ?n) F' \<and> (tail', \<lambda>i k. snd (last ?ps) i k \<or> (\<exists>p\<in>set (rev (butlast ?ps)). snd p i k)) \<in> F')"
    then obtain tl b2 F where r2: "r2 = (tl, b2)" "ext_from (?n + 2) b' b2" "alts_ok (b_st b2) tx (?n + 2) (b_len b2) (Suc ?n) F" "(tl, ?R) \<in> F"
      unfolding R by (cases r2) auto
    have e2: "b_st b2 ! ?n = SEps PATCH" "b_st b2 ! Suc ?n = SEps PATCH" "?n + 2 \<le> b_len b2" using r2(2) e by (auto simp: ext_from_def)
    have "frag_ok ((b_st b2)[?n := SEps tl]) tx ?n (b_len b2) ?n (Suc ?n) ?R" by (rule alts_done [OF r2(3,4) e2(2)])
    then show "safe_space (made tx b ?R) (case r2 of (tail, ba) \<Rightarrow> bind_rx (b_link ?n tail ba) (\<lambda>b. Good (?n, b_len ?b1, b)))"
      using e2 x r2(2) unfolding r2(1) prod.case by (simp add: b_link_def made_def ext_from_def nth_append)
  qed
qed

section \<open>Repetitions\<close>

lemma b_iters_ok:
  "safe_space (\<lambda>(qs, b'). qs = [b_len b..<b_len b + length ts] \<and> b' = b\<lparr>b_st := b_st b @ map (iter_state mn mx x) ts\<rparr>) (b_iters mn mx x ts b)"
proof (induction ts arbitrary: b)
  case (Cons t ts)
  let ?b = "b\<lparr>b_st := b_st b @ [iter_state mn mx x t]\<rparr>"
  have "b_len b # [Suc (b_len b)..<Suc (b_len b) + length ts] = [b_len b..<b_len b + length (t # ts)]" by (simp add: upt_conv_Cons del: upt_Suc)
  then show ?case using Cons.IH [of ?b] by (auto intro!: safe_add_bind elim!: safe_bind)
qed simp

text \<open>The block of a repetition whose first \<open>t\<close> copies are made.\<close>

definition rep_ok :: "st list \<Rightarrow> rtext \<Rightarrow> nat \<Rightarrow> nat \<Rightarrow> nat option \<Rightarrow> (nat \<Rightarrow> nat \<Rightarrow> bool) \<Rightarrow> nat \<Rightarrow> bool" where
  "rep_ok st tx a mn mx R t \<longleftrightarrow>
     a + 3 + last_iter mn mx \<le> length st \<and> st ! a = SEps PATCH \<and> st ! Suc a = SEps PATCH \<and>
     (\<forall>u<t. copies_ok st tx a (length st) mn mx R u) \<and>
     (\<forall>u. t \<le> u \<and> u \<le> last_iter mn mx \<longrightarrow> st ! (a + 2 + u) = iter_state mn mx (Suc a) u) \<and>
     closed st {a + 3 + last_iter mn mx..<length st} {a + 2..<length st}"

lemma copies_ok_frame:
  assumes "copies_ok st tx a hi mn mx R u" "hi \<le> hi'" "hi' \<le> length st'" "u \<le> last_iter mn mx"
    and "\<And>q. a + 3 + last_iter mn mx \<le> q \<Longrightarrow> q < hi \<Longrightarrow> st' ! q = st ! q" and "st' ! (a + 2 + u) = st ! (a + 2 + u)"
  shows "copies_ok st' tx a hi' mn mx R u"
proof -
  obtain lo h ce cx where c: "a + 3 + last_iter mn mx \<le> lo" "h \<le> hi" "copy_ok st tx lo h ce cx R (a + 2 + min (Suc u) (last_iter mn mx))"
      "st ! (a + 2 + u) = linked_iter mn mx (Suc a) u ce"
    using assms(1) unfolding copies_ok_def by blast
  have "copy_ok st' tx lo h ce cx R (a + 2 + min (Suc u) (last_iter mn mx))"
    by (rule copy_ok_frame [OF c(3)]) (use c assms in auto)
  then show ?thesis unfolding copies_ok_def using c assms(2,6) by (intro exI [of _ lo] exI [of _ h] exI [of _ ce] exI [of _ cx]) simp
qed

lemma n_copies_le: "t < n_copies mn mx \<Longrightarrow> t \<le> last_iter mn mx \<and> mx \<noteq> Some t"
  by (auto simp: n_copies_def last_iter_def split: option.splits)

lemma rep_ok_step:
  assumes rep: "rep_ok st tx a mn mx R t" and t: "t < n_copies mn mx"
    and old: "\<And>q. q < length st \<Longrightarrow> st1 ! q = st ! q" and len: "length st \<le> length st1"
    and f: "frag_ok st1 tx (length st) (length st1) ce cx R"
  shows "rep_ok (st1[a + 2 + t := linked_iter mn mx (Suc a) t ce, cx := SEps (a + 2 + min (t + 1) (last_iter mn mx))]) tx a mn mx R (Suc t)"
proof -
  let ?l = "last_iter mn mx"
  define st2 where "st2 = st1[a + 2 + t := linked_iter mn mx (Suc a) t ce]"
  define st3 where "st3 = st2[cx := SEps (a + 2 + min (t + 1) ?l)]"
  have tl: "t \<le> ?l" "mx \<noteq> Some t" using n_copies_le [OF t] by auto
  have h: "a + 3 + ?l \<le> length st" "length st \<le> cx" "cx < length st1" "length st3 = length st1" "length st \<le> ce" "ce < length st1"
    using rep f by (auto simp: rep_ok_def frag_ok_def st2_def st3_def)
  have same: "st3 ! q = st ! q" if "q < length st" "q \<noteq> a + 2 + t" for q
    using that h tl old by (simp add: st3_def st2_def)
  have at: "st3 ! (a + 2 + t) = linked_iter mn mx (Suc a) t ce" using h tl by (simp add: st3_def st2_def)
  have f2: "frag_ok st2 tx (length st) (length st1) ce cx R"
    by (rule frag_ok_frame [OF f]) (use h tl in \<open>auto simp: st2_def\<close>)
  have cp: "copy_ok st3 tx (length st) (length st1) ce cx R (a + 2 + min (Suc t) ?l)"
    using copy_okI [OF f2, of "a + 2 + min (Suc t) ?l"] by (simp add: st3_def)
  have new: "copies_ok st3 tx a (length st3) mn mx R t" unfolding copies_ok_def
    by (intro exI [of _ "length st"] exI [of _ "length st1"] exI [of _ ce] exI [of _ cx]) (use cp at h in simp)
  have cs: "copies_ok st3 tx a (length st3) mn mx R u" if "u < t" for u
  proof (rule copies_ok_frame)
    show "copies_ok st tx a (length st) mn mx R u" using rep that by (simp add: rep_ok_def)
  qed (use h len that tl same in auto)
  have "closed st3 {a + 3 + ?l..<length st} {a + 2..<length st}"
  proof (rule closed_frame)
    show "closed st {a + 3 + ?l..<length st} {a + 2..<length st}" using rep by (simp add: rep_ok_def)
  qed (use same tl in auto)
  moreover have "closed st3 {length st..<length st1} {a + 2..<length st1}"
    unfolding closed_def
  proof
    fix q assume q: "q \<in> {length st..<length st1}"
    show "targets (st3 ! q) \<subseteq> {a + 2..<length st1}"
    proof (cases "q = cx")
      case True
      then have "st3 ! q = SEps (a + 2 + min (Suc t) ?l)" using cp by (simp add: copy_ok_def)
      then show ?thesis using h len by simp
    next
      case False
      then have "targets (st3 ! q) \<subseteq> {length st..<length st1}" using cp q by (simp add: copy_ok_def closed_def)
      then show ?thesis using h by auto
    qed
  qed
  moreover have "{a + 3 + ?l..<length st3} = {a + 3 + ?l..<length st} \<union> {length st..<length st1}" using h len by auto
  ultimately have cl: "closed st3 {a + 3 + ?l..<length st3} {a + 2..<length st3}"
    using closed_Un [of st3 "{a + 3 + ?l..<length st}" "{a + 2..<length st}" "{length st..<length st1}" "{a + 2..<length st1}"] h len by auto
  have "rep_ok st3 tx a mn mx R (Suc t)"
    unfolding rep_ok_def using rep h len cl new cs same by (auto simp: rep_ok_def less_Suc_eq)
  then show ?thesis by (simp add: st3_def st2_def)
qed

lemma b_link_iter:
  assumes "q < b_len b" "b_st b ! q = iter_state mn mx x t" "mx \<noteq> Some t"
  shows "b_link q ce b = Good (b\<lparr>b_st := (b_st b)[q := linked_iter mn mx x t ce]\<rparr>)"
  using assms by (simp add: iter_state_def linked_iter_def b_link_def)

lemma frag_copies_ok:
  assumes "fr_ok ks gs tx fr body" and "on_ast ks gs b" and "0 < b_superset b \<longleftrightarrow> sp"
    and it: "\<And>u. u \<le> last_iter mn mx \<Longrightarrow> iters ! u = a + 2 + u"
    and "rep_ok (b_st b) tx a mn mx (sem ks gs tx sp body) t" and "ts = [t..<n_copies mn mx]"
    and "t \<le> n_copies mn mx"
  shows "safe_space (\<lambda>b'. ext_from a b b' \<and> rep_ok (b_st b') tx a mn mx (sem ks gs tx sp body) (n_copies mn mx))
    (frag_copies fr body iters (last_iter mn mx) ts b)"
  using assms(2,3,5,6,7)
proof (induction ts arbitrary: t b)
  case Nil
  from Nil.prems(4) [symmetric] Nil.prems(5) have "t = n_copies mn mx" by auto
  then show ?case using Nil.prems(3) by simp
next
  case (Cons t' ts)
  let ?l = "last_iter mn mx" and ?R = "sem ks gs tx sp body"
  from Cons.prems(4) have t: "t' = t" "t < n_copies mn mx" "ts = [Suc t..<n_copies mn mx]"
    by (metis list.distinct(1) list.inject upt_rec)+
  have tl: "t \<le> ?l" "mx \<noteq> Some t" using n_copies_le [OF t(2)] by auto
  show ?case unfolding frag_copies.simps t(1)
  proof (rule fr_okD [where ks = ks and gs = gs and tx = tx])
    fix ce cx b1
    assume x: "ext_from (b_len b) b b1" and f0: "frag_ok (b_st b1) tx (b_len b) (b_len b1) ce cx (sem ks gs tx (0 < b_superset b) body)"
    have f: "frag_ok (b_st b1) tx (b_len b) (b_len b1) ce cx ?R" using f0 Cons.prems(2) by simp
    have h: "a + 3 + ?l \<le> b_len b" "b_len b \<le> b_len b1" "b_len b \<le> cx" "cx < b_len b1" "b_st b1 ! cx = SEps PATCH"
      "b_st b1 ! (a + 2 + t) = iter_state mn mx (Suc a) t"
      using Cons.prems(3) f x tl by (auto simp: rep_ok_def frag_ok_def ext_from_def)
    define b2 where "b2 = b1\<lparr>b_st := (b_st b1)[a + 2 + t := linked_iter mn mx (Suc a) t ce]\<rparr>"
    define b3 where "b3 = b2\<lparr>b_st := (b_st b2)[cx := SEps (a + 2 + min (t + 1) ?l)]\<rparr>"
    have l2: "b_link (iters ! t) ce b1 = Good b2" unfolding it [OF tl(1)] b2_def by (rule b_link_iter) (use h tl in auto)
    have "min (t + 1) ?l \<le> ?l" by simp
    then have l3: "b_link cx (iters ! min (t + 1) ?l) b2 = Good b3"
      unfolding it [OF \<open>min (t + 1) ?l \<le> ?l\<close>] b3_def by (intro b_link_eps) (use h tl in \<open>auto simp: b2_def\<close>)
    have e3: "ext_from a b b3" using x h by (auto simp: ext_from_def b3_def b2_def)
    have "rep_ok ((b_st b1)[a + 2 + t := linked_iter mn mx (Suc a) t ce, cx := SEps (a + 2 + min (t + 1) ?l)]) tx a mn mx ?R (Suc t)"
      by (rule rep_ok_step [OF Cons.prems(3) t(2) _ _ f]) (use x in \<open>auto simp: ext_from_def\<close>)
    then have rep: "rep_ok (b_st b3) tx a mn mx ?R (Suc t)" by (simp add: b3_def b2_def)
    have "safe_space (\<lambda>b'. ext_from a b3 b' \<and> rep_ok (b_st b') tx a mn mx ?R (n_copies mn mx)) (frag_copies fr body iters ?l ts b3)"
    proof (rule Cons.IH)
      show "on_ast ks gs b3" by (rule ext_from_on_ast [OF e3 Cons.prems(1)])
      show "(0 < b_superset b3) = sp" using Cons.prems(2) e3 by (simp add: ext_from_def)
      show "Suc t \<le> n_copies mn mx" using t(2) by simp
    qed (fact rep t(3))+
    then have "safe_space (\<lambda>b'. ext_from a b b' \<and> rep_ok (b_st b') tx a mn mx ?R (n_copies mn mx)) (frag_copies fr body iters ?l ts b3)"
      by (rule safe_mono) (use e3 in \<open>auto intro: ext_from_trans\<close>)
    then show "safe_space (\<lambda>b'. ext_from a b b' \<and> rep_ok (b_st b') tx a mn mx ?R (n_copies mn mx))
       (case (ce, cx, b1) of (ce, cx, b) \<Rightarrow> bind_rx (b_link (iters ! t) ce b)
          (\<lambda>b. bind_rx (b_link cx (iters ! min (t + 1) ?l) b) (frag_copies fr body iters ?l ts)))"
      by (simp only: prod.case l2 l3 bind_rx.simps)
  qed (use Cons.prems assms(1) in simp_all)
qed

lemma sem_seq_replicate: "i \<le> tx_len tx \<Longrightarrow> sem_seq ks gs tx sp (replicate c n) i k \<longleftrightarrow> (sem ks gs tx sp n ^^ c) i k"
proof (induction c arbitrary: k)
  case 0
  then show ?case by (auto simp: sem_seq_Nil)
next
  case (Suc c)
  have "replicate (Suc c) n = replicate c n @ [n]" by (simp add: replicate_append_same)
  then show ?case using Suc by (auto simp: sem_seq_snoc simp del: replicate_Suc)
qed

lemma rep_ok_init:
  assumes "n = length st"
  shows "rep_ok (st @ [SEps PATCH, SEps PATCH] @ map (iter_state mn mx (Suc n)) [0..<Suc (last_iter mn mx)]) tx n mn mx R 0"
proof -
  have "(st @ [SEps PATCH, SEps PATCH] @ map (iter_state mn mx (Suc n)) [0..<Suc (last_iter mn mx)]) ! (n + 2 + u) = iter_state mn mx (Suc n) u"
    if "u \<le> last_iter mn mx" for u
    using that assms by (simp add: nth_append del: upt_Suc)
  then show ?thesis using assms by (simp add: rep_ok_def closed_def nth_append)
qed

lemma rep_ok_done:
  assumes rep: "rep_ok st tx a mn mx R (n_copies mn mx)" and mm: "case mx of None \<Rightarrow> True | Some m \<Rightarrow> mn \<le> m"
  shows "frag_ok (st[a := SEps (a + 2)]) tx a (length st) a (Suc a) (\<lambda>i k. \<exists>c. mn \<le> c \<and> max_ok mx c \<and> (R ^^ c) i k)"
proof (rule frag_repeat_ok)
  let ?st = "st[a := SEps (a + 2)]"
  have h: "a + 3 + last_iter mn mx \<le> length st" using rep by (simp add: rep_ok_def)
  then show "a + 3 + last_iter mn mx \<le> length st" "length st \<le> length ?st" "?st ! a = SEps (a + 2)" by auto
  show "?st ! Suc a = SEps PATCH" using rep by (simp add: rep_ok_def)
  show "copies_ok ?st tx a (length st) mn mx R t" if "t < n_copies mn mx" for t
  proof (rule copies_ok_frame)
    show "copies_ok st tx a (length st) mn mx R t" using rep that by (simp add: rep_ok_def)
    show "t \<le> last_iter mn mx" using n_copies_le [OF that] by simp
  qed auto
  show "?st ! (a + 2 + m) = SEps (Suc a)" if "mx = Some m" for m
    using rep that by (auto simp: rep_ok_def n_copies_def last_iter_def iter_state_def)
  show "mn \<le> m" if "mx = Some m" for m using mm that by simp
  show "closed ?st {a + 3 + last_iter mn mx..<length st} {a + 2..<length st}"
  proof (rule closed_frame)
    show "closed st {a + 3 + last_iter mn mx..<length st} {a + 2..<length st}" using rep by (simp add: rep_ok_def)
  qed auto
qed

lemma frag_repeat_made:
  assumes "fr_ok ks gs tx fr body" and "on_ast ks gs b" and sp: "0 < b_superset b \<longleftrightarrow> sp"
    and mm: "case mx of None \<Rightarrow> True | Some m \<Rightarrow> mn \<le> m"
  shows "safe_space (\<lambda>(e, x, its, b'). made tx b (\<lambda>i k. \<exists>c. mn \<le> c \<and> (case mx of None \<Rightarrow> True | Some m \<Rightarrow> c \<le> m) \<and>
      sem_seq ks gs tx sp (replicate c body) i k) (e, x, b')) (frag_repeat fr body mn mx b)"
  unfolding frag_repeat_def
proof (rule safe_eps_bind, simp only: prod.case, rule safe_eps_bind, simp only: prod.case Let_def, rule safe_bind)
  let ?n = "b_len b" and ?l = "last_iter mn mx"
  let ?b1 = "b\<lparr>b_st := b_st b @ [SEps PATCH]\<rparr>"
  let ?b = "?b1\<lparr>b_st := b_st ?b1 @ [SEps PATCH]\<rparr>"
  let ?S = "\<lambda>i k. \<exists>c. mn \<le> c \<and> (case mx of None \<Rightarrow> True | Some m \<Rightarrow> c \<le> m) \<and> sem_seq ks gs tx sp (replicate c body) i k"
  let ?Q = "\<lambda>(qs, b'). qs = [?n + 2..<?n + 3 + ?l] \<and> b' = ?b\<lparr>b_st := b_st ?b @ map (iter_state mn mx (Suc ?n)) [0..<Suc ?l]\<rparr>"
  show "safe_space ?Q (b_iters mn mx (b_len ?b1) [0..<Suc (case mx of None \<Rightarrow> mn | Some m \<Rightarrow> m)] ?b)"
    using b_iters_ok [of ?b "[0..<Suc ?l]" mn mx "Suc ?n"] by (simp add: last_iter_def eval_nat_numeral del: upt_Suc)
  fix r
  assume "?Q r"
  define b2 where "b2 = ?b\<lparr>b_st := b_st ?b @ map (iter_state mn mx (Suc ?n)) [0..<Suc ?l]\<rparr>"
  have r: "r = ([?n + 2..<?n + 3 + ?l], b2)" using \<open>?Q r\<close> by (cases r) (simp add: b2_def)
  have e2: "ext_from ?n b b2" by (simp add: ext_from_def b2_def nth_append)
  have it: "[?n + 2..<?n + 3 + ?l] ! u = ?n + 2 + u" if "u \<le> ?l" for u using that by (simp del: upt_Suc)
  have rep: "rep_ok (b_st b2) tx ?n mn mx (sem ks gs tx sp body) 0"
    using rep_ok_init [OF refl, of "b_st b" mn mx tx "sem ks gs tx sp body"] by (simp add: b2_def del: upt_Suc)
  have lc: "(case mx of None \<Rightarrow> mn | Some m \<Rightarrow> m) = ?l" "(case mx of None \<Rightarrow> ?l + 1 | Some _ \<Rightarrow> ?l) = n_copies mn mx"
    by (simp_all add: last_iter_def n_copies_def)
  show "safe_space (\<lambda>(e, x, its, b'). made tx b ?S (e, x, b'))
      (case r of (iters, b) \<Rightarrow> bind_rx (frag_copies fr body iters (case mx of None \<Rightarrow> mn | Some m \<Rightarrow> m)
           [0..<case mx of None \<Rightarrow> (case mx of None \<Rightarrow> mn | Some m \<Rightarrow> m) + 1 | Some _ \<Rightarrow> case mx of None \<Rightarrow> mn | Some m \<Rightarrow> m] b)
         (\<lambda>b. bind_rx (b_link ?n (iters ! 0) b) (\<lambda>b. Good (?n, b_len ?b1, iters, b))))"
    unfolding r prod.case lc
  proof (rule safe_bind)
    show "safe_space (\<lambda>b'. ext_from ?n b2 b' \<and> rep_ok (b_st b') tx ?n mn mx (sem ks gs tx sp body) (n_copies mn mx))
        (frag_copies fr body [?n + 2..<?n + 3 + ?l] ?l [0..<n_copies mn mx] b2)"
      by (rule frag_copies_ok [OF assms(1) _ _ it rep refl])
        (use ext_from_on_ast [OF e2 assms(2)] sp e2 in \<open>auto simp: ext_from_def\<close>)
    fix b3
    assume b3: "ext_from ?n b2 b3 \<and> rep_ok (b_st b3) tx ?n mn mx (sem ks gs tx sp body) (n_copies mn mx)"
    then have h: "?n < b_len b3" "b_st b3 ! ?n = SEps PATCH" by (auto simp: rep_ok_def)
    have x3: "ext_from ?n b b3" by (rule ext_from_trans [OF e2]) (use b3 in auto)
    have l: "b_link ?n ([?n + 2..<?n + 3 + ?l] ! 0) b3 = Good (b3\<lparr>b_st := (b_st b3)[?n := SEps (?n + 2)]\<rparr>)"
      using it [of 0] h by (simp add: b_link_def)
    have "frag_ok ((b_st b3)[?n := SEps (?n + 2)]) tx ?n (b_len b3) ?n (Suc ?n) ?S"
      by (rule frag_ok_cong [OF rep_ok_done [OF _ mm]]) (use b3 in \<open>auto simp: sem_seq_replicate max_ok_def\<close>)
    then have "made tx b ?S (?n, Suc ?n, b3\<lparr>b_st := (b_st b3)[?n := SEps (?n + 2)]\<rparr>)" using x3 by (simp add: made_def ext_from_def)
    then show "safe_space (\<lambda>(e, x, its, b'). made tx b ?S (e, x, b'))
        (bind_rx (b_link ?n ([?n + 2..<?n + 3 + ?l] ! 0) b3) (\<lambda>b. Good (?n, b_len ?b1, [?n + 2..<?n + 3 + ?l], b)))"
      unfolding l by simp
  qed
qed

section \<open>Nodes\<close>

lemma frag_backref_ok:
  assumes fr: "\<And>c. c < n \<Longrightarrow> fr_ok ks gs tx fr c" and b: "on_ast ks gs b" and n: "n < length ks" "ks ! n = KBackref g" "kind_ok ks gs n (KBackref g)"
  shows "safe_space (made tx b (sem ks gs tx (0 < b_superset b) n)) (frag_backref fr g b)"
proof (cases "0 < b_superset b")
  case True
  then have "sem ks gs tx (0 < b_superset b) n = (\<lambda>i k. i \<le> k \<and> k \<le> tx_len tx)" by (auto simp: fun_eq_iff sem_KBackref [OF n(2)])
  then show ?thesis using b_any_loop_ok True by (simp add: frag_backref_def)
next
  case False
  obtain g' body where g: "g < length gs" "gs ! g < n" "ks ! (gs ! g) = KGroup g' body" "body < gs ! g"
    using n(3) by (auto split: kind.splits)
  let ?b = "b\<lparr>b_record := False, b_superset := b_superset b + 1\<rparr>"
  have len: "length (as_nodes (b_ast b)) = length ks" "nd_kind (as_nodes (b_ast b) ! (gs ! g)) = KGroup g' body" "as_group_node (b_ast b) = gs"
    using b g n(1) by (auto simp: on_ast_def ast_kinds_def)
  have S: "sem ks gs tx False n = sem ks gs tx True body" using g(3) by (auto simp: fun_eq_iff sem_KBackref [OF n(2)])
  have "fr_ok ks gs tx fr body" using fr g by simp
  moreover have "on_ast ks gs ?b" using b by (simp add: on_ast_def)
  ultimately have "safe_space (made tx ?b (sem ks gs tx True body)) (fr body ?b)" by (auto simp: fr_ok_def)
  then have "safe_space (made tx b (sem ks gs tx True body))
      (bind_rx (fr body ?b) (\<lambda>(e, x, b'). Good (e, x, b'\<lparr>b_superset := b_superset b' - 1, b_record := b_record b\<rparr>)))"
    by (rule safe_bind) (auto simp: made_def ext_from_def)
  then show ?thesis using g len False n(1) by (simp add: frag_backref_def Let_def S)
qed

lemma b_note_ok: "n < length (ast_kinds (b_ast b)) \<Longrightarrow> ext_from a b (b_note n e x its b) \<and> b_st (b_note n e x its b) = b_st b"
  by (auto simp: b_note_def Let_def ext_from_def ast_kinds_def map_update intro!: nth_equalityI simp: nth_list_update)

lemma no_iters_ok: "safe_space (made tx b R) r \<Longrightarrow> safe_space (\<lambda>(e, x, its, b'). made tx b R (e, x, b')) (no_iters r)"
  unfolding no_iters_def by (erule safe_bind) auto

lemma frag_node_ok:
  assumes ok: "kinds_ok ks gs" and n: "n < length ks" and fr: "\<And>c. c < n \<Longrightarrow> fr_ok ks gs tx fr c"
  shows "fr_ok ks gs tx (frag_node fr) n"
  unfolding fr_ok_def
proof (intro allI impI)
  fix b
  assume b: "on_ast ks gs b"
  let ?sp = "0 < b_superset b"
  have nd: "length (as_nodes (b_ast b)) = length ks" "nd_kind (as_nodes (b_ast b) ! n) = ks ! n" "length (ast_kinds (b_ast b)) = length ks"
    using b n by (auto simp: on_ast_def ast_kinds_def)
  have kd: "kind_ok ks gs n (ks ! n)" using ok n by (auto simp: kinds_ok_def list_all_iff)
  let ?Q = "\<lambda>(e, x, its :: nat list, b'). made tx b (sem ks gs tx ?sp n) (e, x, b')"
  have E: "safe_space ?Q (no_iters r)" if s: "safe_space (made tx b R) r" and c: "\<And>i k. i \<le> tx_len tx \<Longrightarrow> R i k \<longleftrightarrow> sem ks gs tx ?sp n i k" for R r
    by (rule safe_mono [OF no_iters_ok [OF s]]) (auto simp: made_def intro: frag_ok_cong [OF _ c])
  have "safe_space ?Q
        (case ks ! n of
           KEmpty \<Rightarrow> no_iters (b_empty b)
         | KSet s \<Rightarrow> no_iters (b_leaf (SByte s PATCH) b)
         | KBol \<Rightarrow> no_iters (if 0 < b_superset b then b_empty b else b_leaf (SBol PATCH) b)
         | KEol \<Rightarrow> no_iters (if 0 < b_superset b then b_empty b else b_leaf (SEol PATCH) b)
         | KGroup g body \<Rightarrow> no_iters (fr body b)
         | KBackref g \<Rightarrow> no_iters (frag_backref fr g b)
         | KConcat items \<Rightarrow> no_iters (frag_concat fr items b)
         | KAlt alts \<Rightarrow> no_iters (frag_alt fr alts b)
         | KRepeat body mn mx \<Rightarrow> frag_repeat fr body mn mx b)"
  proof (cases "ks ! n")
    case KEmpty
    then show ?thesis using E [OF b_empty_ok] by (simp add: sem_KEmpty)
  next
    case (KSet s)
    then show ?thesis using E [OF b_leaf_ok [of "SByte s PATCH" s "sem ks gs tx ?sp n"]] by (auto simp: sem_KSet)
  next
    case KBol
    then show ?thesis
      using E [OF b_empty_ok] E [OF b_leaf_ok [of "SBol PATCH" _ "\<lambda>i k. k = i \<and> tx_bol tx i"]] by (auto simp: sem_KBol)
  next
    case KEol
    then show ?thesis
      using E [OF b_empty_ok] E [OF b_leaf_ok [of "SEol PATCH" _ "\<lambda>i k. k = i \<and> tx_eol tx i"]] by (auto simp: sem_KEol)
  next
    case (KGroup g body)
    then have "fr_ok ks gs tx fr body" using kd fr by simp
    then have "safe_space (made tx b (sem ks gs tx ?sp body)) (fr body b)" using b by (simp add: fr_ok_def)
    from E [OF this] show ?thesis using KGroup by (simp add: sem_KGroup)
  next
    case (KConcat items)
    have "safe_space (made tx b (sem_seq ks gs tx ?sp items)) (frag_concat fr items b)"
      by (rule frag_concat_ok [OF fr b refl]) (use kd KConcat in \<open>auto simp: list_all_iff\<close>)
    from E [OF this] show ?thesis using KConcat by (simp add: sem_KConcat)
  next
    case (KAlt alts)
    have "safe_space (made tx b (\<lambda>i k. \<exists>v\<in>set alts. sem ks gs tx ?sp v i k)) (frag_alt fr alts b)"
      by (rule frag_alt_ok [OF fr b refl]) (use kd KAlt in \<open>auto simp: list_all_iff\<close>)
    from E [OF this] show ?thesis using KAlt by (simp add: sem_KAlt)
  next
    case (KRepeat body mn mx)
    then have k: "body < n" "case mx of None \<Rightarrow> True | Some m \<Rightarrow> mn \<le> m" using kd by auto
    have "sem ks gs tx ?sp n = (\<lambda>i k. \<exists>c. mn \<le> c \<and> (case mx of None \<Rightarrow> True | Some m \<Rightarrow> c \<le> m) \<and> sem_seq ks gs tx ?sp (replicate c body) i k)"
      by (intro ext) (rule sem_KRepeat [OF KRepeat])
    then show ?thesis using frag_repeat_made [OF fr [OF k(1)] b refl k(2)] KRepeat by simp
  next
    case (KBackref g)
    then show ?thesis using E [OF frag_backref_ok [OF fr b n KBackref]] kd by simp
  qed
  then show "safe_space (made tx b (sem ks gs tx ?sp n)) (frag_node fr n b)"
    unfolding frag_node_def nd if_not_P [OF n [folded not_le]]
  proof (rule safe_bind)
    fix r
    assume r: "?Q r"
    obtain e x its b' where r': "r = (e, x, its, b')" by (cases r) auto
    have "ext_from (b_len b) b b'" "frag_ok (b_st b') tx (b_len b) (b_len b') e x (sem ks gs tx ?sp n)" using r r' by (auto simp: made_def)
    moreover have "ext_from (b_len b') b' (b_note n e x its b')" "b_st (b_note n e x its b') = b_st b'"
      using b_note_ok [of n b' "b_len b'" e x its] \<open>ext_from (b_len b) b b'\<close> nd n by (auto simp: ext_from_def)
    ultimately show "safe_space (made tx b (sem ks gs tx ?sp n)) (case r of (e, x, iters, b) \<Rightarrow> Good (e, x, b_note n e x iters b))"
      unfolding r' by (auto simp: made_def intro: ext_from_trans simp: ext_from_def)
  qed
qed

lemma frag_fr_ok:
  assumes "kinds_ok ks gs"
  shows "n < f \<Longrightarrow> n < length ks \<Longrightarrow> fr_ok ks gs tx (frag f) n"
proof (induction f arbitrary: n)
  case (Suc f)
  then show ?case using frag_node_ok [OF assms Suc.prems(2), of tx "frag f"] by auto
qed simp

section \<open>The automaton\<close>

fun eps_targets :: "st \<Rightarrow> nat set" where
  "eps_targets (SSplit a b) = {a, b}"
| "eps_targets (SEps n) = {n}"
| "eps_targets (SBol n) = {n}"
| "eps_targets (SEol n) = {n}"
| "eps_targets _ = {}"

fun byte_targets :: "st \<Rightarrow> nat set" where
  "byte_targets (SByte s n) = {n}"
| "byte_targets _ = {}"

definition nfa_ok :: "nfa \<Rightarrow> bool" where
  "nfa_ok nf \<longleftrightarrow>
     (let n = length (nf_st nf) in
      nf_start nf < n \<and> nf_accept nf < n \<and> n \<le> MAX_STATES \<and> closed (nf_st nf) {0..<n} {0..<n} \<and>
      length (nf_eps_rev nf) = n \<and> length (nf_byte_rev nf) = n \<and>
      (\<forall>s<n. set (nf_eps_rev nf ! s) = {q. q < n \<and> s \<in> eps_targets (nf_st nf ! q)}) \<and>
      (\<forall>s<n. set (nf_byte_rev nf ! s) = {q. q < n \<and> s \<in> byte_targets (nf_st nf ! q)}))"

definition nrun :: "nfa \<Rightarrow> rtext \<Rightarrow> nat \<times> nat \<Rightarrow> nat \<times> nat \<Rightarrow> bool" where
  "nrun nf tx = rtranclp (nstep (nf_st nf) tx)"

lemma rev_edges_ok:
  assumes "targets s \<subseteq> {0..<n}" "length er = n" "length br = n"
  shows "\<exists>er' br'. rev_edges q s (er, br) = Good (er', br') \<and> length er' = n \<and> length br' = n \<and>
    (\<forall>t<n. set (er' ! t) = set (er ! t) \<union> (if t \<in> eps_targets s then {q} else {})) \<and>
    (\<forall>t<n. set (br' ! t) = set (br ! t) \<union> (if t \<in> byte_targets s then {q} else {}))"
  using assms by (cases s) (auto simp: rev_edges_def push_at_def nth_list_update)

lemma rev_all_ok:
  assumes "\<And>q. q < length st \<Longrightarrow> targets (st ! q) \<subseteq> {0..<n}" "length er = n" "length br = n"
  shows "\<exists>er' br'. rev_all (enumerate k st) (er, br) = Good (er', br') \<and> length er' = n \<and> length br' = n \<and>
    (\<forall>t<n. set (er' ! t) = set (er ! t) \<union> {k + q | q. q < length st \<and> t \<in> eps_targets (st ! q)}) \<and>
    (\<forall>t<n. set (br' ! t) = set (br ! t) \<union> {k + q | q. q < length st \<and> t \<in> byte_targets (st ! q)})"
  using assms
proof (induction st arbitrary: k er br)
  case (Cons s st)
  have "targets s \<subseteq> {0..<n}" using Cons.prems(1) [of 0] by simp
  from rev_edges_ok [OF this Cons.prems(2,3), of k] obtain er1 br1 where 1: "rev_edges k s (er, br) = Good (er1, br1)" "length er1 = n" "length br1 = n"
    "\<And>t. t < n \<Longrightarrow> set (er1 ! t) = set (er ! t) \<union> (if t \<in> eps_targets s then {k} else {})"
    "\<And>t. t < n \<Longrightarrow> set (br1 ! t) = set (br ! t) \<union> (if t \<in> byte_targets s then {k} else {})" by blast
  have "targets (st ! q) \<subseteq> {0..<n}" if "q < length st" for q using Cons.prems(1) [of "Suc q"] that by simp
  from Cons.IH [OF this 1(2,3), of "Suc k"] obtain er2 br2 where 2: "rev_all (enumerate (Suc k) st) (er1, br1) = Good (er2, br2)" "length er2 = n" "length br2 = n"
    "\<And>t. t < n \<Longrightarrow> set (er2 ! t) = set (er1 ! t) \<union> {Suc k + q | q. q < length st \<and> t \<in> eps_targets (st ! q)}"
    "\<And>t. t < n \<Longrightarrow> set (br2 ! t) = set (br1 ! t) \<union> {Suc k + q | q. q < length st \<and> t \<in> byte_targets (st ! q)}" by blast
  have split: "{k + q | q. q < length (s # st) \<and> P ((s # st) ! q)} = (if P s then {k} else {}) \<union> {Suc k + q | q. q < length st \<and> P (st ! q)}" for P
    by (auto simp: less_Suc_eq_0_disj)
  show ?case
    using 1 2 split [of "\<lambda>s. _ \<in> eps_targets s"] split [of "\<lambda>s. _ \<in> byte_targets s"]
    by (intro exI [of _ er2] exI [of _ br2]) (simp add: Un_assoc)
qed simp

text \<open>Runs of the whole automaton are runs of the root's fragment, continued to the accepting state.\<close>

lemma accept_run:
  assumes f: "frag_ok st tx 0 n e x R" and n: "n = length st" and i: "i \<le> tx_len tx"
  shows "rtranclp (nstep ((st @ [SMatch])[x := SEps n]) tx) (e, i) (n, k) \<longleftrightarrow> R i k"
proof -
  let ?st = "(st @ [SMatch])[x := SEps n]"
  have d: "x < n" "e < n" using f by (auto simp: frag_ok_def)
  have f1: "frag_ok (st @ [SMatch]) tx 0 n e x R" by (rule frag_ok_frame [OF f]) (auto simp: nth_append n)
  have nin: "n \<notin> {0..<n}" by simp
  note into = frag_into [OF f1 refl nin]
  have m: "?st ! n = SMatch" "length ?st = Suc n" using d n by (auto simp: nth_append)
  have "nstep ?st tx = (\<lambda>c c'. fst c \<in> {0..<n} \<union> {} \<and> nstep ?st tx c c')"
    using m by (auto simp: fun_eq_iff nstep_def less_Suc_eq)
  then have "rtranclp (nstep ?st tx) (e, i) (n, k) \<longleftrightarrow> lrun ?st tx ({0..<n} \<union> {}) (e, i) (n, k)" by (simp add: lrun_def)
  then show ?thesis using into(2) [OF i] by simp
qed

lemma compile_ok:
  assumes "ast_ok a"
  shows "safe_space (\<lambda>(nf, a'). nfa_ok nf \<and> ast_kinds a' = ast_kinds a \<and> as_group_node a' = as_group_node a \<and>
      (\<forall>i k. i \<le> tx_len tx \<longrightarrow> nrun nf tx (nf_start nf, i) (nf_accept nf, k) \<longleftrightarrow>
         sem (ast_kinds a) (as_group_node a) tx False (as_root a) i k)) (compile a)"
  unfolding compile_def
proof (rule safe_bind)
  let ?ks = "ast_kinds a" and ?gs = "as_group_node a" and ?n = "as_root a"
  let ?b = "\<lparr>b_ast = a, b_st = [], b_record = True, b_superset = 0\<rparr>"
  have "fr_ok ?ks ?gs tx (frag (Suc ?n)) ?n" by (rule frag_fr_ok) (use assms in \<open>auto simp: ast_ok_def\<close>)
  then show "safe_space (made tx ?b (sem ?ks ?gs tx False ?n)) (frag (Suc ?n) ?n ?b)"
    unfolding fr_ok_def by (elim allE [of _ ?b]) (simp add: on_ast_def)
  fix r
  assume "made tx ?b (sem ?ks ?gs tx False ?n) r"
  then obtain e x b where r: "r = (e, x, b)" and x: "ext_from 0 ?b b" and f: "frag_ok (b_st b) tx 0 (b_len b) e x (sem ?ks ?gs tx False ?n)"
    by (cases r) (auto simp: made_def)
  let ?m = "b_len b" and ?st = "(b_st b @ [SMatch])[x := SEps (b_len b)]"
  have d: "x < ?m" "e < ?m" "b_st b ! x = SEps PATCH" using f by (auto simp: frag_ok_def)
  have f1: "frag_ok (b_st b @ [SMatch]) tx 0 ?m e x (sem ?ks ?gs tx False ?n)" by (rule frag_ok_frame [OF f]) (auto simp: nth_append)
  have nin: "?m \<notin> {0..<?m}" by simp
  have st: "?st ! ?m = SMatch" "length ?st = Suc ?m" using d by (auto simp: nth_append)
  have "closed ?st {0..<?m} (insert ?m {0..<?m})" by (rule frag_into(1) [OF f1 refl nin])
  then have "closed ?st ({0..<?m} \<union> {?m}) {0..<Suc ?m}"
    by (rule closed_Un [of _ _ _ "{?m}" "{}"]) (use st in \<open>auto simp: closed_def\<close>)
  moreover have "{0..<?m} \<union> {?m} = {0..<Suc ?m}" by auto
  ultimately have cl: "closed ?st {0..<Suc ?m} {0..<Suc ?m}" by simp
  have "targets (?st ! q) \<subseteq> {0..<Suc ?m}" if "q < length ?st" for q using cl that unfolding closed_def st(2) by simp
  from rev_all_ok [OF this, of "replicate (Suc ?m) []" "replicate (Suc ?m) []" 0]
  obtain er br where rv: "rev_all (enumerate 0 ?st) (replicate (Suc ?m) [], replicate (Suc ?m) []) = Good (er, br)"
    "length er = Suc ?m" "length br = Suc ?m"
    "\<forall>t<Suc ?m. set (er ! t) = {q. q < Suc ?m \<and> t \<in> eps_targets (?st ! q)}"
    "\<forall>t<Suc ?m. set (br ! t) = {q. q < Suc ?m \<and> t \<in> byte_targets (?st ! q)}"
    by (auto simp: st(2) simp del: replicate_Suc)
  let ?nf = "\<lparr>nf_st = ?st, nf_start = e, nf_accept = ?m, nf_eps_rev = er, nf_byte_rev = br\<rparr>"
  have ok: "nfa_ok ?nf" if "\<not> MAX_STATES \<le> ?m"
    using rv(2-) cl d st(2) that unfolding nfa_ok_def Let_def nfa.simps st(2) by simp
  have run: "\<forall>i k. i \<le> tx_len tx \<longrightarrow> nrun ?nf tx (e, i) (?m, k) \<longleftrightarrow> sem ?ks ?gs tx False ?n i k"
    using accept_run [OF f refl] by (simp add: nrun_def)
  show "safe_space (\<lambda>(nf, a'). nfa_ok nf \<and> ast_kinds a' = ?ks \<and> as_group_node a' = ?gs \<and>
      (\<forall>i k. i \<le> tx_len tx \<longrightarrow> nrun nf tx (nf_start nf, i) (nf_accept nf, k) \<longleftrightarrow> sem ?ks ?gs tx False ?n i k))
     (case r of (e, x, b) \<Rightarrow> bind_rx (b_add SMatch b) (\<lambda>(accept, b). bind_rx (b_link x accept b)
       (\<lambda>b. let st = b_st b; n = length st in bind_rx (rev_all (enumerate 0 st) (replicate n [], replicate n []))
         (\<lambda>(er, br). Good (\<lparr>nf_st = st, nf_start = e, nf_accept = accept, nf_eps_rev = er, nf_byte_rev = br\<rparr>, b_ast b)))))"
  proof (cases "MAX_STATES \<le> ?m")
    case True
    then show ?thesis by (simp add: r b_add_def)
  next
    case False
    have l: "b_link x ?m (b\<lparr>b_st := b_st b @ [SMatch]\<rparr>) = Good (b\<lparr>b_st := ?st\<rparr>)" using d by (simp add: b_link_def nth_append)
    have "ast_kinds (b_ast b) = ?ks" "as_group_node (b_ast b) = ?gs" using x by (auto simp: ext_from_def)
    then show ?thesis using False ok run rv(1)
      by (simp only: r prod.case b_add_def if_False bind_rx.simps l Let_def builder.simps st(2) safe_rx.simps nfa.simps) simp
  qed
qed

end
