(* ===== verification/Sparse_Set.thy ===== *)
theory Sparse_Set
  imports Prelude
begin

text \<open>
  Sparse sets of automaton states and the stack loop that closes one under a successor function
  (\<open>lib/libregex/src/sim.rs\<close>: \<open>SparseSet\<close>, and the loop shared by \<open>fclosure\<close>, the two \<open>rclosure\<close>s and
  \<open>closure_from\<close>). The membership test reads entries of the index that were never reset, so it is
  right only because the dense list is consulted too; the loop ends because each turn either
  shortens the stack or adds a state.
\<close>

section \<open>The set\<close>

record sparse_set =
  ss_dense :: "nat list"
  ss_sparse :: "nat list"

definition ss_new :: "nat \<Rightarrow> sparse_set" where
  "ss_new n = \<lparr>ss_dense = [], ss_sparse = replicate n 0\<rparr>"

definition ss_contains :: "sparse_set \<Rightarrow> nat \<Rightarrow> bool" where
  "ss_contains ss s = (let i = ss_sparse ss ! s in i < length (ss_dense ss) \<and> ss_dense ss ! i = s)"

text \<open>\<open>insert\<close> of a state that is not there; \<open>closure_loop\<close> tests that first.\<close>

definition ss_insert :: "nat \<Rightarrow> sparse_set \<Rightarrow> bool \<times> sparse_set" where
  "ss_insert s ss =
     (if ss_contains ss s then (False, ss)
      else (True, ss\<lparr>ss_sparse := (ss_sparse ss)[s := length (ss_dense ss)], ss_dense := ss_dense ss @ [s]\<rparr>))"

definition ss_clear :: "sparse_set \<Rightarrow> sparse_set" where
  "ss_clear ss = ss\<lparr>ss_dense := []\<rparr>"

definition ss_ok :: "nat \<Rightarrow> sparse_set \<Rightarrow> bool" where
  "ss_ok n ss \<longleftrightarrow>
     length (ss_sparse ss) = n \<and> distinct (ss_dense ss) \<and> set (ss_dense ss) \<subseteq> {0..<n} \<and>
     (\<forall>i<length (ss_dense ss). ss_sparse ss ! (ss_dense ss ! i) = i)"

lemma ss_contains_iff: "ss_ok n ss \<Longrightarrow> ss_contains ss s \<longleftrightarrow> s \<in> set (ss_dense ss)"
  by (auto simp: ss_contains_def ss_ok_def Let_def in_set_conv_nth)

lemma ss_ok_new: "ss_ok n (ss_new n)"
  by (simp add: ss_ok_def ss_new_def)

lemma ss_ok_clear: "ss_ok n ss \<Longrightarrow> ss_ok n (ss_clear ss) \<and> ss_dense (ss_clear ss) = []"
  by (simp add: ss_ok_def ss_clear_def)

lemma ss_ok_insert:
  assumes "ss_ok n ss" "s < n" "s \<notin> set (ss_dense ss)"
  shows "ss_ok n (ss\<lparr>ss_sparse := (ss_sparse ss)[s := length (ss_dense ss)], ss_dense := ss_dense ss @ [s]\<rparr>)"
proof -
  have "ss_dense ss ! i \<noteq> s" if "i < length (ss_dense ss)" for i using assms(3) that by (metis nth_mem)
  then show ?thesis using assms by (auto simp: ss_ok_def nth_append nth_list_update less_Suc_eq)
qed

lemma ss_insert_dense:
  assumes "ss_ok n ss" "s < n"
  shows "ss_ok n (snd (ss_insert s ss))"
    and "fst (ss_insert s ss) \<longleftrightarrow> s \<notin> set (ss_dense ss)"
    and "ss_dense (snd (ss_insert s ss)) = (if s \<in> set (ss_dense ss) then ss_dense ss else ss_dense ss @ [s])"
  using assms ss_ok_insert [OF assms] by (auto simp: ss_insert_def ss_contains_iff)

section \<open>Closing it\<close>

text \<open>
  \<open>closure_loop succ stop ss stack\<close>: the stack's head is its top; \<open>succ s\<close> are the states pushed for
  \<open>s\<close>, in the order they are pushed. \<open>stop\<close> is entered but not left. \<^const>\<open>None\<close> is an index out of
  range.
\<close>

function closure_loop :: "(nat \<Rightarrow> nat list) \<Rightarrow> nat \<Rightarrow> sparse_set \<Rightarrow> nat list \<Rightarrow> sparse_set option" where
  "closure_loop succ stop ss [] = Some ss"
| "closure_loop succ stop ss (s # stack) =
     (if length (ss_sparse ss) \<le> s then None
      else case ss_insert s ss of (new, ss') \<Rightarrow>
        if \<not> new \<or> s = stop then closure_loop succ stop ss' stack
        else closure_loop succ stop ss' (rev (succ s) @ stack))"
  by pat_completeness auto

definition outside :: "sparse_set \<Rightarrow> nat set" where
  "outside ss = {q. q < length (ss_sparse ss) \<and> \<not> ss_contains ss q}"

lemma outside_insert:
  assumes "s < length (ss_sparse ss)" "\<not> ss_contains ss s"
  shows "outside (ss\<lparr>ss_sparse := (ss_sparse ss)[s := length (ss_dense ss)], ss_dense := ss_dense ss @ [s]\<rparr>) = outside ss - {s}"
  using assms by (auto simp: outside_def ss_contains_def Let_def nth_list_update nth_append split: if_splits)

lemma outside_card:
  assumes "(new, ss') = ss_insert s ss" "s < length (ss_sparse ss)"
  shows "new \<Longrightarrow> card (outside ss') < card (outside ss)" and "\<not> new \<Longrightarrow> ss' = ss"
proof -
  have fin: "finite (outside ss)" by (simp add: outside_def)
  assume new
  then have "outside ss' = outside ss - {s}" "s \<in> outside ss"
    using assms outside_insert [of s ss] by (auto simp: ss_insert_def outside_def split: if_splits)
  then show "card (outside ss') < card (outside ss)" using card_Diff1_less [OF fin] by simp
qed (use assms in \<open>auto simp: ss_insert_def split: if_splits\<close>)

termination closure_loop
proof (relation "measures [\<lambda>(succ, stop, ss, stack). card (outside ss), \<lambda>(succ, stop, ss, stack). length stack]")
  fix succ :: "nat \<Rightarrow> nat list" and stop :: nat and ss s stack new ss'
  assume a: "\<not> length (ss_sparse ss) \<le> s" "(new, ss') = ss_insert s ss"
  show "((succ, stop, ss', stack), succ, stop, ss, s # stack) \<in> measures [\<lambda>(succ, stop, ss, stack). card (outside ss), \<lambda>(succ, stop, ss, stack). length stack]"
    using outside_card [of new ss' s ss] a by (cases new) auto
  assume "\<not> (\<not> new \<or> s = stop)"
  then show "((succ, stop, ss', rev (succ s) @ stack), succ, stop, ss, s # stack) \<in> measures [\<lambda>(succ, stop, ss, stack). card (outside ss), \<lambda>(succ, stop, ss, stack). length stack]"
    using outside_card [of new ss' s ss] a by auto
qed simp

text \<open>The edges the loop follows, and what it computes.\<close>

definition follows :: "(nat \<Rightarrow> nat list) \<Rightarrow> nat \<Rightarrow> nat \<Rightarrow> nat \<Rightarrow> bool" where
  "follows succ stop q r \<longleftrightarrow> q \<noteq> stop \<and> r \<in> set (succ q)"

lemma closure_loop_step:
  assumes "ss_ok n ss" "set stack \<subseteq> {0..<n}" "\<forall>q<n. set (succ q) \<subseteq> {0..<n}"
  shows "\<exists>ss'. closure_loop succ stop ss stack = Some ss' \<and> ss_ok n ss' \<and> (\<exists>new. ss_dense ss' = ss_dense ss @ new) \<and>
    set stack \<subseteq> set (ss_dense ss') \<and>
    (\<forall>q\<in>set (ss_dense ss'). q \<in> set (ss_dense ss) \<or> (\<exists>s\<in>set stack. rtranclp (follows succ stop) s q)) \<and>
    (\<forall>q\<in>set (ss_dense ss'). q \<in> set (ss_dense ss) \<or> q = stop \<or> set (succ q) \<subseteq> set (ss_dense ss'))"
  using assms
proof (induction succ stop ss stack rule: closure_loop.induct)
  case (1 succ stop ss)
  then show ?case by simp
next
  case (2 succ stop ss s stack)
  have s: "s < n" "\<not> length (ss_sparse ss) \<le> s" using 2 by (auto simp: ss_ok_def)
  obtain new ss1 where i: "ss_insert s ss = (new, ss1)" by fastforce
  have ok1: "ss_ok n ss1" "new \<longleftrightarrow> s \<notin> set (ss_dense ss)" "ss_dense ss1 = (if new then ss_dense ss @ [s] else ss_dense ss)"
    using ss_insert_dense [OF 2(3) s(1)] i by auto
  show ?case
  proof (cases "\<not> new \<or> s = stop")
    case True
    have st: "set stack \<subseteq> {0..<n}" using 2(4) by simp
    from 2(1) [OF s(2) i [symmetric] True ok1(1) st 2(5)] obtain ss' where *: "closure_loop succ stop ss1 stack = Some ss'" "ss_ok n ss'"
      "\<exists>new. ss_dense ss' = ss_dense ss1 @ new" "set stack \<subseteq> set (ss_dense ss')"
      "\<forall>q\<in>set (ss_dense ss'). q \<in> set (ss_dense ss1) \<or> (\<exists>s\<in>set stack. rtranclp (follows succ stop) s q)"
      "\<forall>q\<in>set (ss_dense ss'). q \<in> set (ss_dense ss1) \<or> q = stop \<or> set (succ q) \<subseteq> set (ss_dense ss')" by auto
    have "closure_loop succ stop ss (s # stack) = Some ss'" using s i True *(1) by auto
    then show ?thesis using * ok1 True by (intro exI [of _ ss']) (auto split: if_splits)
  next
    case False
    have st: "set (rev (succ s) @ stack) \<subseteq> {0..<n}" using 2(4) 2(5) s(1) by auto
    from 2(2) [OF s(2) i [symmetric] False ok1(1) st 2(5)] obtain ss' where *: "closure_loop succ stop ss1 (rev (succ s) @ stack) = Some ss'" "ss_ok n ss'"
      "\<exists>new. ss_dense ss' = ss_dense ss1 @ new" "set (rev (succ s) @ stack) \<subseteq> set (ss_dense ss')"
      "\<forall>q\<in>set (ss_dense ss'). q \<in> set (ss_dense ss1) \<or> (\<exists>s\<in>set (rev (succ s) @ stack). rtranclp (follows succ stop) s q)"
      "\<forall>q\<in>set (ss_dense ss'). q \<in> set (ss_dense ss1) \<or> q = stop \<or> set (succ q) \<subseteq> set (ss_dense ss')" by auto
    have eq: "closure_loop succ stop ss (s # stack) = Some ss'" using s i False *(1) by auto
    have r: "\<exists>s'\<in>set (s # stack). rtranclp (follows succ stop) s' q"
      if "t \<in> set (rev (succ s) @ stack)" "rtranclp (follows succ stop) t q" for t q
    proof (cases "t \<in> set (succ s)")
      case True
      then have "follows succ stop s t" using False by (simp add: follows_def)
      then show ?thesis using that(2) by (meson converse_rtranclp_into_rtranclp list.set_intros(1))
    qed (use that in auto)
    have d: "ss_dense ss1 = ss_dense ss @ [s]" using ok1 False by simp
    have "q \<in> set (ss_dense ss) \<or> (\<exists>s'\<in>set (s # stack). rtranclp (follows succ stop) s' q)" if "q \<in> set (ss_dense ss')" for q
      using *(5) r that d by fastforce
    moreover have "q \<in> set (ss_dense ss) \<or> q = stop \<or> set (succ q) \<subseteq> set (ss_dense ss')" if "q \<in> set (ss_dense ss')" for q
      using *(4,6) that d by fastforce
    ultimately show ?thesis using eq *(2-4) d by (intro exI [of _ ss']) auto
  qed
qed

declare closure_loop.simps [simp del]

definition reach :: "(nat \<Rightarrow> nat list) \<Rightarrow> nat \<Rightarrow> nat set \<Rightarrow> nat set" where
  "reach succ stop S = {q. \<exists>s\<in>S. rtranclp (follows succ stop) s q}"

lemma reach_Un: "reach succ stop (A \<union> B) = reach succ stop A \<union> reach succ stop B"
  by (auto simp: reach_def)

lemma reach_idem: "reach succ stop (reach succ stop A) = reach succ stop A"
  by (auto simp: reach_def intro: rtranclp_trans)

lemma reach_subset: "A \<subseteq> reach succ stop A"
  by (auto simp: reach_def)

lemma reach_closed: "(\<And>q r. q \<in> A \<Longrightarrow> follows succ stop q r \<Longrightarrow> r \<in> A) \<Longrightarrow> reach succ stop A = A"
proof (rule equalityI [OF _ reach_subset])
  assume cl: "\<And>q r. q \<in> A \<Longrightarrow> follows succ stop q r \<Longrightarrow> r \<in> A"
  have "q \<in> A" if "rtranclp (follows succ stop) s q" "s \<in> A" for s q
    using that by (induction rule: rtranclp_induct) (auto intro: cl)
  then show "reach succ stop A \<subseteq> A" by (auto simp: reach_def)
qed

lemma closure_loop_reach:
  assumes "ss_ok n ss" "s < n" "\<forall>q<n. set (succ q) \<subseteq> {0..<n}" "reach succ stop (set (ss_dense ss)) = set (ss_dense ss)"
  shows "\<exists>ss'. closure_loop succ stop ss [s] = Some ss' \<and> ss_ok n ss' \<and>
    set (ss_dense ss') = set (ss_dense ss) \<union> reach succ stop {s}"
proof -
  from closure_loop_step [OF assms(1) _ assms(3), where stack = "[s]" and stop = stop] assms(2) obtain ss' new
    where *: "closure_loop succ stop ss [s] = Some ss'" "ss_ok n ss'" "ss_dense ss' = ss_dense ss @ new" "s \<in> set (ss_dense ss')"
      "\<And>q. q \<in> set (ss_dense ss') \<Longrightarrow> q \<in> set (ss_dense ss) \<or> rtranclp (follows succ stop) s q"
      "\<And>q. q \<in> set (ss_dense ss') \<Longrightarrow> q \<in> set (ss_dense ss) \<or> q = stop \<or> set (succ q) \<subseteq> set (ss_dense ss')" by auto
  have "r \<in> set (ss_dense ss')" if q: "q \<in> set (ss_dense ss')" and f: "follows succ stop q r" for q r
  proof (cases "q \<in> set (ss_dense ss)")
    case True
    then have "r \<in> reach succ stop (set (ss_dense ss))" using f by (auto simp: reach_def)
    then show ?thesis using assms(4) *(3) by auto
  next
    case False
    then show ?thesis using *(6) [OF q] f by (auto simp: follows_def)
  qed
  then have "reach succ stop (set (ss_dense ss')) = set (ss_dense ss')" by (rule reach_closed)
  then have "reach succ stop {s} \<subseteq> set (ss_dense ss')" using *(4) by (auto simp: reach_def)
  then show ?thesis using * by (intro exI [of _ ss']) (auto simp: reach_def)
qed

text \<open>The loop run from one state after another into the same set.\<close>

fun closure_each :: "(nat \<Rightarrow> nat list) \<Rightarrow> nat \<Rightarrow> sparse_set \<Rightarrow> nat list \<Rightarrow> sparse_set option" where
  "closure_each succ stop ss [] = Some ss"
| "closure_each succ stop ss (s # l) = Option.bind (closure_loop succ stop ss [s]) (\<lambda>ss. closure_each succ stop ss l)"

lemma closure_each_reach:
  assumes "ss_ok n ss" "set l \<subseteq> {0..<n}" "\<forall>q<n. set (succ q) \<subseteq> {0..<n}" "reach succ stop (set (ss_dense ss)) = set (ss_dense ss)"
  shows "\<exists>ss'. closure_each succ stop ss l = Some ss' \<and> ss_ok n ss' \<and>
    set (ss_dense ss') = set (ss_dense ss) \<union> reach succ stop (set l)"
  using assms(1,2,4)
proof (induction l arbitrary: ss)
  case Nil
  then show ?case by (simp add: reach_def)
next
  case (Cons s l)
  obtain ss1 where 1: "closure_loop succ stop ss [s] = Some ss1" "ss_ok n ss1" "set (ss_dense ss1) = set (ss_dense ss) \<union> reach succ stop {s}"
    using closure_loop_reach [OF Cons.prems(1) _ assms(3) Cons.prems(3), of s] Cons.prems(2) by auto
  have "reach succ stop (set (ss_dense ss1)) = set (ss_dense ss1)" by (simp add: 1(3) reach_Un reach_idem Cons.prems(3))
  from Cons.IH [OF 1(2) _ this] Cons.prems(2) obtain ss2 where 2: "closure_each succ stop ss1 l = Some ss2" "ss_ok n ss2"
    "set (ss_dense ss2) = set (ss_dense ss1) \<union> reach succ stop (set l)" by auto
  have "reach succ stop (set (s # l)) = reach succ stop {s} \<union> reach succ stop (set l)" using reach_Un [of succ stop "{s}" "set l"] by simp
  then show ?case using 1 2 by (auto simp: Un_assoc)
qed

end
