(* ===== verification/Regex_Sim.thy ===== *)
theory Regex_Sim
  imports Regex_Compile Sparse_Set
begin

text \<open>
  Simulation of the automaton over the text with sets of states (\<open>lib/libregex/src/sim.rs\<close>). The
  scans of the library have one shape: at each position the set is closed under the edges that
  consume nothing, then stepped over the next byte. \<open>level\<close> is that scan, and \<open>level_iff\<close> says what it
  holds; \<open>Sim::ends\<close> and the automata of \<open>Regex_Dfa\<close> compute it.
\<close>

section \<open>Scans\<close>

definition gstep :: "(nat \<Rightarrow> nat \<Rightarrow> nat \<Rightarrow> bool) \<Rightarrow> (nat \<Rightarrow> nat \<Rightarrow> nat \<Rightarrow> bool) \<Rightarrow> nat \<times> nat \<Rightarrow> nat \<times> nat \<Rightarrow> bool" where
  "gstep eps byte c c' \<longleftrightarrow>
     snd c' = snd c \<and> eps (snd c) (fst c) (fst c') \<or> snd c' = Suc (snd c) \<and> byte (snd c) (fst c) (fst c')"

definition cl :: "(nat \<Rightarrow> nat \<Rightarrow> bool) \<Rightarrow> nat set \<Rightarrow> nat set" where
  "cl E S = {r. \<exists>s\<in>S. rtranclp E s r}"

definition image_step :: "(nat \<Rightarrow> nat \<Rightarrow> bool) \<Rightarrow> nat set \<Rightarrow> nat set" where
  "image_step B S = {r. \<exists>q\<in>S. B q r}"

text \<open>\<open>level eps byte J P lo d\<close>: the states at position \<open>lo + d\<close> of a scan that starts with \<open>P\<close> at
  \<open>lo\<close> and adds \<open>J\<close> at every position.\<close>

primrec level :: "(nat \<Rightarrow> nat \<Rightarrow> nat \<Rightarrow> bool) \<Rightarrow> (nat \<Rightarrow> nat \<Rightarrow> nat \<Rightarrow> bool) \<Rightarrow> nat set \<Rightarrow> nat set \<Rightarrow> nat \<Rightarrow> nat \<Rightarrow> nat set" where
  "level eps byte J P lo 0 = cl (eps lo) (J \<union> P)"
| "level eps byte J P lo (Suc d) = cl (eps (lo + Suc d)) (J \<union> image_step (byte (lo + d)) (level eps byte J P lo d))"

lemma gstep_eps_run: "rtranclp (eps p) q r \<Longrightarrow> rtranclp (gstep eps byte) (q, p) (r, p)"
proof (induction rule: rtranclp_induct)
  case (step r r')
  then have "gstep eps byte (r, p) (r', p)" by (simp add: gstep_def)
  then show ?case using step by (meson rtranclp.rtrancl_into_rtrancl)
qed simp

lemma cl_step: "q \<in> cl E S \<Longrightarrow> E q r \<Longrightarrow> r \<in> cl E S"
  unfolding cl_def by (blast intro: rtranclp.rtrancl_into_rtrancl)

lemma cl_base: "q \<in> S \<Longrightarrow> q \<in> cl E S"
  by (auto simp: cl_def)

lemma level_sound:
  "q \<in> level eps byte J P lo d \<Longrightarrow>
    (\<exists>s\<in>P. rtranclp (gstep eps byte) (s, lo) (q, lo + d)) \<or>
    (\<exists>s\<in>J. \<exists>j\<le>d. rtranclp (gstep eps byte) (s, lo + j) (q, lo + d))"
proof (induction d arbitrary: q)
  case 0
  then obtain s where "s \<in> J \<union> P" "rtranclp (eps lo) s q" by (auto simp: cl_def)
  then show ?case using gstep_eps_run [of eps lo s q byte] by auto
next
  case (Suc d)
  then obtain s where s: "s \<in> J \<or> s \<in> image_step (byte (lo + d)) (level eps byte J P lo d)" "rtranclp (eps (lo + Suc d)) s q"
    by (auto simp: cl_def)
  have run: "rtranclp (gstep eps byte) (s, lo + Suc d) (q, lo + Suc d)" by (rule gstep_eps_run [of eps "lo + Suc d", OF s(2)])
  from s(1) show ?case
  proof
    assume "s \<in> J"
    then show ?thesis using run by blast
  next
    assume "s \<in> image_step (byte (lo + d)) (level eps byte J P lo d)"
    then obtain r where r: "r \<in> level eps byte J P lo d" "byte (lo + d) r s" by (auto simp: image_step_def)
    have "gstep eps byte (r, lo + d) (s, lo + Suc d)" using r by (simp add: gstep_def)
    then have "rtranclp (gstep eps byte) (r, lo + d) (q, lo + Suc d)" using run by (rule converse_rtranclp_into_rtranclp)
    then show ?thesis using Suc.IH [OF r(1)] by (meson le_SucI rtranclp_trans)
  qed
qed

lemma level_complete:
  assumes "rtranclp (gstep eps byte) (s, lo + j) c" "s \<in> level eps byte J P lo j"
  shows "\<exists>d\<ge>j. snd c = lo + d \<and> fst c \<in> level eps byte J P lo d"
  using assms(1)
proof (induction rule: rtranclp_induct)
  case base
  then show ?case using assms(2) by auto
next
  case (step c c')
  then obtain d where d: "d \<ge> j" "snd c = lo + d" "fst c \<in> level eps byte J P lo d" by blast
  from step.hyps(2) consider "snd c' = snd c" "eps (snd c) (fst c) (fst c')" | "snd c' = Suc (snd c)" "byte (snd c) (fst c) (fst c')"
    by (auto simp: gstep_def)
  then show ?case
  proof cases
    case 1
    then have "fst c' \<in> level eps byte J P lo d" using d by (cases d) (auto intro: cl_step)
    then show ?thesis using 1 d by auto
  next
    case 2
    then have "fst c' \<in> image_step (byte (lo + d)) (level eps byte J P lo d)" using d by (auto simp: image_step_def)
    then have "fst c' \<in> level eps byte J P lo (Suc d)" by (simp add: cl_base)
    then show ?thesis using 2 d by (intro exI [of _ "Suc d"]) simp
  qed
qed

lemma level_iff:
  "q \<in> level eps byte J P lo d \<longleftrightarrow>
    (\<exists>s\<in>P. rtranclp (gstep eps byte) (s, lo) (q, lo + d)) \<or>
    (\<exists>s\<in>J. \<exists>j\<le>d. rtranclp (gstep eps byte) (s, lo + j) (q, lo + d))"
proof (rule iffI [OF level_sound])
  have J: "s \<in> level eps byte J P lo j" if "s \<in> J" for s j using that by (cases j) (simp_all add: cl_base)
  assume "(\<exists>s\<in>P. rtranclp (gstep eps byte) (s, lo) (q, lo + d)) \<or> (\<exists>s\<in>J. \<exists>j\<le>d. rtranclp (gstep eps byte) (s, lo + j) (q, lo + d))"
  then show "q \<in> level eps byte J P lo d"
  proof (elim disjE bexE exE conjE)
    fix s assume "s \<in> P" "rtranclp (gstep eps byte) (s, lo) (q, lo + d)"
    then show ?thesis using level_complete [of eps byte s lo 0 "(q, lo + d)" J P] by (auto simp: cl_base)
  next
    fix s j assume "s \<in> J" "rtranclp (gstep eps byte) (s, lo + j) (q, lo + d)"
    then show ?thesis using level_complete [of eps byte s lo j "(q, lo + d)" J P] J by auto
  qed
qed assumption

lemma level_empty: "level eps byte J P lo d = {} \<Longrightarrow> J = {} \<Longrightarrow> d \<le> d' \<Longrightarrow> level eps byte J P lo d' = {}"
proof (induction d' arbitrary: d)
  case (Suc d')
  then show ?case by (cases "d = Suc d'") (auto simp: cl_def image_step_def)
qed simp

section \<open>The automaton's edges\<close>

definition fsucc :: "nfa \<Rightarrow> bool \<Rightarrow> bool \<Rightarrow> nat \<Rightarrow> nat list" where
  "fsucc nf bol eol s =
     (case nf_st nf ! s of
        SSplit a b \<Rightarrow> [b, a]
      | SEps n \<Rightarrow> [n]
      | SBol n \<Rightarrow> if bol then [n] else []
      | SEol n \<Rightarrow> if eol then [n] else []
      | _ \<Rightarrow> [])"

definition rsucc :: "nfa \<Rightarrow> bool \<Rightarrow> bool \<Rightarrow> nat \<Rightarrow> nat list" where
  "rsucc nf bol eol s =
     filter (\<lambda>q. case nf_st nf ! q of SBol _ \<Rightarrow> bol | SEol _ \<Rightarrow> eol | _ \<Rightarrow> True) (nf_eps_rev nf ! s)"

text \<open>Epsilon closure, forward and against the edges; \<open>stop\<close> is entered but not left.\<close>

definition fclosure :: "nfa \<Rightarrow> sparse_set \<Rightarrow> nat \<Rightarrow> bool \<Rightarrow> bool \<Rightarrow> nat \<Rightarrow> sparse_set option" where
  "fclosure nf ss s bol eol stop = closure_loop (fsucc nf bol eol) stop ss [s]"

definition rclosure :: "nfa \<Rightarrow> sparse_set \<Rightarrow> nat \<Rightarrow> bool \<Rightarrow> bool \<Rightarrow> nat \<Rightarrow> sparse_set option" where
  "rclosure nf ss s bol eol barrier = closure_loop (rsucc nf bol eol) barrier ss [s]"

text \<open>What a byte leads to from the states of a list, in its order.\<close>

definition byte_next :: "nfa \<Rightarrow> u8 \<Rightarrow> nat list \<Rightarrow> nat list" where
  "byte_next nf c ss =
     concat (map (\<lambda>s. case nf_st nf ! s of SByte S n \<Rightarrow> if bs_contains S c then [n] else [] | _ \<Rightarrow> []) ss)"

definition byte_prev :: "nfa \<Rightarrow> u8 \<Rightarrow> nat list \<Rightarrow> nat list" where
  "byte_prev nf c ss =
     concat (map (\<lambda>s. filter (\<lambda>q. case nf_st nf ! q of SByte S _ \<Rightarrow> bs_contains S c | _ \<Rightarrow> False) (nf_byte_rev nf ! s)) ss)"

definition feps :: "nfa \<Rightarrow> bool \<Rightarrow> bool \<Rightarrow> nat \<Rightarrow> nat \<Rightarrow> bool" where
  "feps nf bol eol q r \<longleftrightarrow> q < length (nf_st nf) \<and> r \<in> set (fsucc nf bol eol q)"

definition fbyte :: "nfa \<Rightarrow> u8 \<Rightarrow> nat \<Rightarrow> nat \<Rightarrow> bool" where
  "fbyte nf c q r \<longleftrightarrow> q < length (nf_st nf) \<and> (\<exists>s. nf_st nf ! q = SByte s r \<and> bs_contains s c)"

lemma fsucc_range: "nfa_ok nf \<Longrightarrow> q < length (nf_st nf) \<Longrightarrow> set (fsucc nf bol eol q) \<subseteq> {0..<length (nf_st nf)}"
proof -
  have "set (fsucc nf bol eol q) \<subseteq> targets (nf_st nf ! q)" by (auto simp: fsucc_def split: st.splits)
  then show "nfa_ok nf \<Longrightarrow> q < length (nf_st nf) \<Longrightarrow> set (fsucc nf bol eol q) \<subseteq> {0..<length (nf_st nf)}"
    by (fastforce simp: nfa_ok_def Let_def closed_def)
qed

lemma rsucc_iff:
  assumes "nfa_ok nf" "s < length (nf_st nf)"
  shows "q \<in> set (rsucc nf bol eol s) \<longleftrightarrow> feps nf bol eol q s"
proof -
  have "set (nf_eps_rev nf ! s) = {q. q < length (nf_st nf) \<and> s \<in> eps_targets (nf_st nf ! q)}"
    using assms by (simp add: nfa_ok_def Let_def)
  then show ?thesis by (cases "nf_st nf ! q") (auto simp: rsucc_def feps_def fsucc_def)
qed

lemma byte_next_iff:
  assumes "set ss \<subseteq> {0..<length (nf_st nf)}"
  shows "set (byte_next nf c ss) = image_step (fbyte nf c) (set ss)"
proof -
  have *: "set (case nf_st nf ! q of SByte S n \<Rightarrow> if bs_contains S c then [n] else [] | _ \<Rightarrow> []) = {r. fbyte nf c q r}" if "q \<in> set ss" for q
    using that assms by (cases "nf_st nf ! q") (auto simp: fbyte_def)
  have "set (byte_next nf c ss) = (\<Union>q\<in>set ss. {r. fbyte nf c q r})"
    unfolding byte_next_def set_concat set_map image_image by (rule SUP_cong [OF refl *])
  then show ?thesis by (auto simp: image_step_def)
qed

lemma byte_prev_iff:
  assumes "nfa_ok nf" "set ss \<subseteq> {0..<length (nf_st nf)}"
  shows "set (byte_prev nf c ss) = image_step (\<lambda>s q. fbyte nf c q s) (set ss)"
proof -
  have *: "set (filter (\<lambda>q. case nf_st nf ! q of SByte S _ \<Rightarrow> bs_contains S c | _ \<Rightarrow> False) (nf_byte_rev nf ! s)) = {q. fbyte nf c q s}"
    if "s \<in> set ss" for s
  proof -
    have "set (nf_byte_rev nf ! s) = {q. q < length (nf_st nf) \<and> s \<in> byte_targets (nf_st nf ! q)}"
      using assms that by (auto simp: nfa_ok_def Let_def)
    moreover have "(s \<in> byte_targets x \<and> (case x of SByte S _ \<Rightarrow> bs_contains S c | _ \<Rightarrow> False)) \<longleftrightarrow> (\<exists>S. x = SByte S s \<and> bs_contains S c)" for x
      by (cases x) auto
    ultimately show ?thesis by (auto simp: fbyte_def)
  qed
  have "set (byte_prev nf c ss) = (\<Union>s\<in>set ss. {q. fbyte nf c q s})"
    unfolding byte_prev_def set_concat set_map image_image by (rule SUP_cong [OF refl *])
  then show ?thesis by (auto simp: image_step_def)
qed

text \<open>One step of the automaton is an edge that consumes nothing or a byte.\<close>

definition tx_feps :: "nfa \<Rightarrow> rtext \<Rightarrow> nat \<Rightarrow> nat \<Rightarrow> nat \<Rightarrow> bool" where
  "tx_feps nf tx p = feps nf (tx_bol tx p) (tx_eol tx p)"

definition tx_fbyte :: "nfa \<Rightarrow> rtext \<Rightarrow> nat \<Rightarrow> nat \<Rightarrow> nat \<Rightarrow> bool" where
  "tx_fbyte nf tx p q r \<longleftrightarrow> p < tx_len tx \<and> fbyte nf (tx_t tx ! p) q r"

lemma nstep_gstep: "nstep (nf_st nf) tx = gstep (tx_feps nf tx) (tx_fbyte nf tx)"
proof (intro ext)
  fix c c' :: "nat \<times> nat"
  show "nstep (nf_st nf) tx c c' = gstep (tx_feps nf tx) (tx_fbyte nf tx) c c'"
    by (cases c, cases c', cases "nf_st nf ! fst c")
      (auto simp: nstep_def gstep_def tx_feps_def tx_fbyte_def feps_def fbyte_def fsucc_def)
qed

text \<open>The closures computed by the stack loop.\<close>

lemma reach_cl:
  assumes "S \<subseteq> {0..<n}" and E: "\<And>q r. q < n \<Longrightarrow> r \<in> set (succ q) \<longleftrightarrow> E q r" and "\<forall>q<n. set (succ q) \<subseteq> {0..<n}"
  shows "reach succ stop S = cl (\<lambda>q r. q \<noteq> stop \<and> q < n \<and> E q r) S"
proof -
  have "rtranclp (follows succ stop) s q \<longleftrightarrow> rtranclp (\<lambda>q r. q \<noteq> stop \<and> q < n \<and> E q r) s q" if "s < n" for s q
  proof
    assume "rtranclp (follows succ stop) s q"
    then have "q < n \<and> rtranclp (\<lambda>q r. q \<noteq> stop \<and> q < n \<and> E q r) s q"
    proof (induction rule: rtranclp_induct)
      case (step q r)
      then have "q < n" "r \<in> set (succ q)" "q \<noteq> stop" by (auto simp: follows_def)
      then have "q \<noteq> stop \<and> q < n \<and> E q r" "r < n" using E [of q r] subsetD [OF assms(3) [rule_format, of q], of r] by auto
      moreover have "rtranclp (\<lambda>q r. q \<noteq> stop \<and> q < n \<and> E q r) s r"
        by (rule rtranclp.rtrancl_into_rtrancl [where b = q]) (use step calculation in auto)
      ultimately show ?case by simp
    qed (use that in simp)
    then show "rtranclp (\<lambda>q r. q \<noteq> stop \<and> q < n \<and> E q r) s q" ..
  next
    assume "rtranclp (\<lambda>q r. q \<noteq> stop \<and> q < n \<and> E q r) s q"
    then show "rtranclp (follows succ stop) s q"
      by (rule rtranclp_mono [THEN predicate2D, rotated]) (auto simp: follows_def E)
  qed
  then have "(\<exists>s\<in>S. rtranclp (follows succ stop) s q) \<longleftrightarrow> (\<exists>s\<in>S. rtranclp (\<lambda>q r. q \<noteq> stop \<and> q < n \<and> E q r) s q)" for q
    using assms(1) by (intro bex_cong refl) auto
  then show ?thesis by (simp add: reach_def cl_def)
qed

lemma reach_fsucc:
  assumes "nfa_ok nf" "S \<subseteq> {0..<length (nf_st nf)}"
  shows "reach (fsucc nf bol eol) stop S = cl (\<lambda>q r. q \<noteq> stop \<and> feps nf bol eol q r) S"
  using reach_cl [OF assms(2), of "fsucc nf bol eol" "\<lambda>q r. r \<in> set (fsucc nf bol eol q)" stop] fsucc_range [OF assms(1)]
  by (auto simp: feps_def [abs_def])

lemma rsucc_range: "nfa_ok nf \<Longrightarrow> q < length (nf_st nf) \<Longrightarrow> set (rsucc nf bol eol q) \<subseteq> {0..<length (nf_st nf)}"
  using rsucc_iff [of nf q] by (auto simp: feps_def)

lemma reach_rsucc:
  assumes "nfa_ok nf" "S \<subseteq> {0..<length (nf_st nf)}"
  shows "reach (rsucc nf bol eol) stop S = cl (\<lambda>q r. q \<noteq> stop \<and> feps nf bol eol r q) S"
proof -
  have "feps nf bol eol r q \<Longrightarrow> q < length (nf_st nf)" for q r
    using fsucc_range [OF assms(1)] by (fastforce simp: feps_def)
  then have "(\<lambda>q r. q \<noteq> stop \<and> q < length (nf_st nf) \<and> feps nf bol eol r q) = (\<lambda>q r. q \<noteq> stop \<and> feps nf bol eol r q)"
    by (auto simp: fun_eq_iff)
  then show ?thesis
    using reach_cl [OF assms(2), of "rsucc nf bol eol" "\<lambda>q r. feps nf bol eol r q" stop] rsucc_iff [OF assms(1)] rsucc_range [OF assms(1)] by simp
qed

section \<open>The ends of a fragment's matches\<close>

record sim =
  sm_a :: sparse_set
  sm_b :: sparse_set
  sm_sa :: "nat list"
  sm_sb :: "nat list"

definition sim_new :: "nfa \<Rightarrow> sim" where
  "sim_new nf = (let n = length (nf_st nf) in \<lparr>sm_a = ss_new n, sm_b = ss_new n, sm_sa = [], sm_sb = []\<rparr>)"

text \<open>The loop of \<open>Sim::ends\<close>; \<^const>\<open>None\<close> is an index out of range.\<close>

function ends_loop :: "nfa \<Rightarrow> rtext \<Rightarrow> nat \<Rightarrow> nat \<Rightarrow> nat \<Rightarrow> sparse_set \<Rightarrow> sparse_set \<Rightarrow> nat list \<Rightarrow> (nat list \<times> sparse_set \<times> sparse_set) option" where
  "ends_loop nf tx stop kmax p a b out =
     (let out' = if ss_contains a stop then out @ [p] else out in
      if kmax \<le> p \<or> ss_dense a = [] then Some (out', a, b)
      else if tx_len tx \<le> p then None
      else case closure_each (fsucc nf (tx_bol tx (p + 1)) (tx_eol tx (p + 1))) stop (ss_clear b) (byte_next nf (tx_t tx ! p) (ss_dense a)) of
             None \<Rightarrow> None
           | Some b' \<Rightarrow> ends_loop nf tx stop kmax (p + 1) b' a out')"
  by pat_completeness auto

termination ends_loop
  by (relation "measure (\<lambda>(nf, tx, stop, kmax, p, a, b, out). kmax - p)") auto

declare ends_loop.simps [simp del]

definition sim_ends :: "sim \<Rightarrow> nfa \<Rightarrow> rtext \<Rightarrow> nat \<Rightarrow> nat \<Rightarrow> nat \<Rightarrow> nat \<Rightarrow> (nat list \<times> sim) option" where
  "sim_ends sm nf tx from stop i kmax =
     (case fclosure nf (ss_clear (sm_a sm)) from (tx_bol tx i) (tx_eol tx i) stop of
        None \<Rightarrow> None
      | Some a \<Rightarrow> map_option (\<lambda>(out, a, b). (out, sm\<lparr>sm_a := a, sm_b := b\<rparr>)) (ends_loop nf tx stop kmax i a (sm_b sm) []))"

definition sim_ok :: "nfa \<Rightarrow> sim \<Rightarrow> bool" where
  "sim_ok nf sm \<longleftrightarrow> ss_ok (length (nf_st nf)) (sm_a sm) \<and> ss_ok (length (nf_st nf)) (sm_b sm)"

text \<open>The set at each position is the scan's level.\<close>

abbreviation run_level :: "nfa \<Rightarrow> rtext \<Rightarrow> nat \<Rightarrow> nat \<Rightarrow> nat \<Rightarrow> nat \<Rightarrow> nat set" where
  "run_level nf tx stop from i d \<equiv> level (\<lambda>p q r. q \<noteq> stop \<and> tx_feps nf tx p q r) (tx_fbyte nf tx) {} {from} i d"

lemma fbyte_range: "nfa_ok nf \<Longrightarrow> fbyte nf c q r \<Longrightarrow> r < length (nf_st nf)"
proof -
  assume ok: "nfa_ok nf" and f: "fbyte nf c q r"
  then have "r \<in> targets (nf_st nf ! q)" "q < length (nf_st nf)" by (auto simp: fbyte_def)
  then show "r < length (nf_st nf)" using ok by (fastforce simp: nfa_ok_def Let_def closed_def)
qed

lemma closure_fresh:
  assumes ok: "nfa_ok nf" and b: "ss_ok (length (nf_st nf)) b" and l: "set l \<subseteq> {0..<length (nf_st nf)}"
  shows "\<exists>b'. closure_each (fsucc nf bol eol) stop (ss_clear b) l = Some b' \<and> ss_ok (length (nf_st nf)) b' \<and>
    set (ss_dense b') = cl (\<lambda>q r. q \<noteq> stop \<and> feps nf bol eol q r) (set l)"
proof -
  have c: "ss_ok (length (nf_st nf)) (ss_clear b)" "ss_dense (ss_clear b) = []" using ss_ok_clear [OF b] by auto
  have "\<forall>q<length (nf_st nf). set (fsucc nf bol eol q) \<subseteq> {0..<length (nf_st nf)}" using fsucc_range [OF ok] by blast
  from closure_each_reach [OF c(1) l this, of stop] c(2) show ?thesis using reach_fsucc [OF ok l] by (simp add: reach_def)
qed

lemma ends_loop_ok:
  assumes ok: "nfa_ok nf" and stop: "stop < length (nf_st nf)" and k: "kmax \<le> tx_len tx"
    and "ss_ok (length (nf_st nf)) a" "ss_ok (length (nf_st nf)) b"
    and "p = i + d" "p \<le> kmax" "set (ss_dense a) = run_level nf tx stop from i d"
  shows "\<exists>a' b'. ends_loop nf tx stop kmax p a b out = Some (out @ filter (\<lambda>p. stop \<in> run_level nf tx stop from i (p - i)) [p..<Suc kmax], a', b') \<and>
    ss_ok (length (nf_st nf)) a' \<and> ss_ok (length (nf_st nf)) b'"
  using assms(4-)
proof (induction "kmax - p" arbitrary: p d a b out rule: less_induct)
  case less
  let ?n = "length (nf_st nf)" and ?L = "run_level nf tx stop from i"
  let ?out = "if ss_contains a stop then out @ [p] else out"
  have c: "ss_contains a stop \<longleftrightarrow> stop \<in> ?L d" using ss_contains_iff [OF less.prems(1)] less.prems(5) by simp
  have up: "[p..<Suc kmax] = p # [Suc p..<Suc kmax]" using less.prems(4) by (simp add: upt_conv_Cons)
  have out: "?out = out @ filter (\<lambda>p. stop \<in> ?L (p - i)) [p]" using c less.prems(3) by simp
  show ?case
  proof (cases "kmax \<le> p \<or> ss_dense a = []")
    case True
    have "filter (\<lambda>p. stop \<in> ?L (p - i)) [Suc p..<Suc kmax] = []"
      using True
    proof
      assume "ss_dense a = []"
      then have "?L (q - i) = {}" if "Suc p \<le> q" for q
        using level_empty [of _ _ _ _ i d "q - i"] less.prems(3,5) that by auto
      then show ?thesis by (auto simp: filter_empty_conv)
    qed simp
    then show ?thesis using True less.prems(1,2) out up unfolding ends_loop.simps [of _ _ _ _ p] by (auto simp: Let_def)
  next
    case False
    have range: "set (ss_dense a) \<subseteq> {0..<?n}" using less.prems(1) by (simp add: ss_ok_def)
    let ?l = "byte_next nf (tx_t tx ! p) (ss_dense a)"
    have bn: "set ?l = image_step (fbyte nf (tx_t tx ! p)) (?L d)" using byte_next_iff [OF range] less.prems(5) by simp
    then have l: "set ?l \<subseteq> {0..<?n}" using fbyte_range [OF ok] by (auto simp: image_step_def)
    obtain b' where b': "closure_each (fsucc nf (tx_bol tx (p + 1)) (tx_eol tx (p + 1))) stop (ss_clear b) ?l = Some b'" "ss_ok ?n b'"
      "set (ss_dense b') = cl (\<lambda>q r. q \<noteq> stop \<and> feps nf (tx_bol tx (p + 1)) (tx_eol tx (p + 1)) q r) (set ?l)"
      using closure_fresh [OF ok less.prems(2) l] by blast
    have p: "p < tx_len tx" using False k by simp
    have "set (ss_dense b') = ?L (Suc d)"
      using b'(3) bn p less.prems(3) by (simp add: tx_feps_def tx_fbyte_def image_step_def)
    then have "\<exists>a'' b''. ends_loop nf tx stop kmax (p + 1) b' a ?out = Some (?out @ filter (\<lambda>p. stop \<in> ?L (p - i)) [p + 1..<Suc kmax], a'', b'') \<and>
        ss_ok ?n a'' \<and> ss_ok ?n b''"
      by (intro less.hyps [of "p + 1" b' a "Suc d"]) (use False less.prems b' in auto)
    moreover have "ends_loop nf tx stop kmax p a b out = ends_loop nf tx stop kmax (p + 1) b' a ?out"
      using False p b'(1) by (subst ends_loop.simps) (simp add: Let_def)
    ultimately show ?thesis using out up by auto
  qed
qed

text \<open>A state that is not a byte is not left even by a byte.\<close>

lemma run_level_iff:
  assumes "\<forall>s n. nf_st nf ! stop \<noteq> SByte s n"
  shows "q \<in> run_level nf tx stop from i d \<longleftrightarrow> lrun (nf_st nf) tx (- {stop}) (from, i) (q, i + d)"
proof -
  have "gstep (\<lambda>p q r. q \<noteq> stop \<and> tx_feps nf tx p q r) (tx_fbyte nf tx) = (\<lambda>c c'. fst c \<in> - {stop} \<and> nstep (nf_st nf) tx c c')"
    using assms by (auto simp: fun_eq_iff nstep_gstep gstep_def tx_fbyte_def fbyte_def)
  then show ?thesis by (simp add: level_iff lrun_def)
qed

lemma sim_ends_ok:
  assumes ok: "nfa_ok nf" and sm: "sim_ok nf sm" and q: "from < length (nf_st nf)" "stop < length (nf_st nf)"
    and s: "\<forall>s n. nf_st nf ! stop \<noteq> SByte s n" and i: "i \<le> kmax" "kmax \<le> tx_len tx"
  shows "\<exists>sm'. sim_ends sm nf tx from stop i kmax =
      Some (filter (\<lambda>p. lrun (nf_st nf) tx (- {stop}) (from, i) (stop, p)) [i..<Suc kmax], sm') \<and> sim_ok nf sm'"
proof -
  let ?n = "length (nf_st nf)"
  have "set [from] \<subseteq> {0..<?n}" using q by simp
  from closure_fresh [OF ok _ this, of "sm_a sm" "tx_bol tx i" "tx_eol tx i" stop] sm obtain a where
    a: "closure_each (fsucc nf (tx_bol tx i) (tx_eol tx i)) stop (ss_clear (sm_a sm)) [from] = Some a" "ss_ok ?n a"
      "set (ss_dense a) = cl (\<lambda>q r. q \<noteq> stop \<and> feps nf (tx_bol tx i) (tx_eol tx i) q r) {from}"
    by (auto simp: sim_ok_def)
  have l0: "set (ss_dense a) = run_level nf tx stop from i 0" using a(3) by (simp add: tx_feps_def)
  have b: "ss_ok ?n (sm_b sm)" using sm by (simp add: sim_ok_def)
  have "\<exists>a' b'. ends_loop nf tx stop kmax i a (sm_b sm) [] = Some ([] @ filter (\<lambda>p. stop \<in> run_level nf tx stop from i (p - i)) [i..<Suc kmax], a', b') \<and>
      ss_ok ?n a' \<and> ss_ok ?n b'"
    by (rule ends_loop_ok [OF ok q(2) i(2) a(2) b _ i(1) l0]) simp
  moreover have "filter (\<lambda>p. stop \<in> run_level nf tx stop from i (p - i)) [i..<Suc kmax] = filter (\<lambda>p. lrun (nf_st nf) tx (- {stop}) (from, i) (stop, p)) [i..<Suc kmax]"
    by (rule filter_cong [OF refl]) (simp add: run_level_iff [OF s] del: upt_Suc)
  moreover have "fclosure nf (ss_clear (sm_a sm)) from (tx_bol tx i) (tx_eol tx i) stop = Some a"
    using a(1) by (simp add: fclosure_def bind_eq_Some_conv)
  ultimately show ?thesis using sm by (auto simp: sim_ends_def sim_ok_def)
qed

end
