(* ===== verification/Regex_Dfa.thy ===== *)
theory Regex_Dfa
  imports Regex_Sim
begin

text \<open>
  The lazy automata (\<open>lib/libregex/src/dfa.rs\<close>): byte classes, the cache of states and transitions
  that is filled one transition at a time and flushed when it is full, and the three scans over a
  text. \<open>Regex_Cache\<close> shows that the cache is transparent, \<open>Regex_Find\<close> what the scans return.
\<close>

section \<open>The automaton\<close>

definition UNKNOWN :: nat where "UNKNOWN = 2 ^ 32 - 1"
definition DFA_MAX_STATES :: nat where "DFA_MAX_STATES = 4096"
definition NO_STATE :: nat where "NO_STATE = 2 ^ 32 - 1"

type_synonym key = "nat list \<times> bool"

datatype dir = Fwd | Rev

record dfa =
  d_dir :: dir
  d_anchored :: bool
  d_class :: "nat list"
  d_nclass :: nat
  d_rep :: "u8 list"
  d_nl :: bool
  d_keys :: "key list"
  d_map :: "key \<Rightarrow> nat option"
  d_trans :: "nat list"
  d_eot :: "u8 list"
  d_start :: "nat list"
  d_set :: sparse_set
  d_generation :: nat

section \<open>Byte classes\<close>

text \<open>One refinement: bytes stay together when they were together and \<open>f\<close> agrees on them.\<close>

fun refine_loop :: "(u8 \<Rightarrow> bool) \<Rightarrow> nat list \<Rightarrow> (nat \<times> bool \<Rightarrow> nat option) \<Rightarrow> nat \<Rightarrow> nat list \<Rightarrow> nat list \<times> nat" where
  "refine_loop f [] m n class = (class, n)"
| "refine_loop f (b # bs) m n class =
     (let k = (class ! b, f (word_of_nat b)) in
      case m k of
        Some i \<Rightarrow> refine_loop f bs m n (class[b := i])
      | None \<Rightarrow> (let i = n mod 256 in refine_loop f bs (m(k \<mapsto> i)) (n + 1) (class[b := i])))"

definition refine :: "(u8 \<Rightarrow> bool) \<Rightarrow> nat list \<Rightarrow> nat list \<times> nat" where
  "refine f class = refine_loop f [0..<256] Map.empty 0 class"

fun byte_classes :: "st list \<Rightarrow> byteset list \<Rightarrow> nat list \<times> nat \<Rightarrow> nat list \<times> nat" where
  "byte_classes [] seen cn = cn"
| "byte_classes (SByte s n # sts) seen cn =
     (if s \<in> set seen then byte_classes sts seen cn
      else byte_classes sts (s # seen) (if snd cn < 256 then refine (bs_contains s) (fst cn) else cn))"
| "byte_classes (_ # sts) seen cn = byte_classes sts seen cn"

definition class_reps :: "nat list \<Rightarrow> nat \<Rightarrow> u8 list" where
  "class_reps class n = foldl (\<lambda>rep b. rep[class ! b := word_of_nat b]) (replicate n 0) (rev [0..<256])"

definition dfa_new :: "nfa \<Rightarrow> bool \<Rightarrow> dir \<Rightarrow> bool \<Rightarrow> dfa" where
  "dfa_new nf nl dir anchored =
     (let cn = byte_classes (nf_st nf) [] (replicate 256 0, 1);
          cn = (if nl then refine (\<lambda>b. b = newline) (fst cn) else cn)
      in \<lparr>d_dir = dir, d_anchored = anchored, d_class = fst cn, d_nclass = snd cn, d_rep = class_reps (fst cn) (snd cn), d_nl = nl,
          d_keys = [], d_map = Map.empty, d_trans = [], d_eot = [], d_start = [UNKNOWN, UNKNOWN],
          d_set = ss_new (length (nf_st nf)), d_generation = 0\<rparr>)"

section \<open>States\<close>

text \<open>The state added at every position (unanchored) or only at the start, and the one looked for.\<close>

definition d_ends :: "nfa \<Rightarrow> dfa \<Rightarrow> nat \<times> nat" where
  "d_ends nf d = (case d_dir d of Fwd \<Rightarrow> (nf_start nf, nf_accept nf) | Rev \<Rightarrow> (nf_accept nf, nf_start nf))"

definition intern :: "key \<Rightarrow> dfa \<Rightarrow> nat \<times> dfa" where
  "intern k d =
     (case d_map d k of
        Some i \<Rightarrow> (i, d)
      | None \<Rightarrow>
          let d1 = (if DFA_MAX_STATES \<le> length (d_keys d)
                    then d\<lparr>d_keys := [], d_map := Map.empty, d_trans := [], d_eot := [],
                           d_start := [UNKNOWN, UNKNOWN], d_generation := d_generation d + 1\<rparr>
                    else d);
              i = length (d_keys d1)
          in (i, d1\<lparr>d_keys := d_keys d1 @ [k], d_map := (d_map d1)(k \<mapsto> i),
                    d_trans := d_trans d1 @ replicate (d_nclass d1) UNKNOWN, d_eot := d_eot d1 @ [0]\<rparr>))"

definition start_state :: "nfa \<Rightarrow> bool \<Rightarrow> dfa \<Rightarrow> nat \<times> dfa" where
  "start_state nf flag d =
     (let s = d_start d ! of_bool flag in
      if s \<noteq> UNKNOWN then (s, d)
      else let pending = (if d_anchored d then [fst (d_ends nf d)] else []);
               (i, d') = intern (pending, flag) d
           in (i, d'\<lparr>d_start := (d_start d')[of_bool flag := i]\<rparr>))"

definition d_dead :: "dfa \<Rightarrow> nat \<Rightarrow> bool" where
  "d_dead d sid \<longleftrightarrow> d_anchored d \<and> fst (d_keys d ! sid) = []"

text \<open>The reverse closure of \<open>dfa.rs\<close> has no barrier; \<^const>\<open>NO_STATE\<close> is no state.\<close>

definition d_succ :: "nfa \<Rightarrow> dir \<Rightarrow> bool \<Rightarrow> bool \<Rightarrow> nat \<Rightarrow> nat list" where
  "d_succ nf dir bol eol = (case dir of Fwd \<Rightarrow> fsucc nf bol eol | Rev \<Rightarrow> rsucc nf bol eol)"

definition dfa_closure :: "nfa \<Rightarrow> nat \<Rightarrow> bool \<Rightarrow> bool \<Rightarrow> dfa \<Rightarrow> dfa option" where
  "dfa_closure nf sid bol eol d =
     (if length (d_keys d) \<le> sid then None
      else let inject = (if d_anchored d then [] else [fst (d_ends nf d)]) in
           map_option (\<lambda>ss. d\<lparr>d_set := ss\<rparr>)
             (closure_each (d_succ nf (d_dir d) bol eol) NO_STATE (ss_clear (d_set d)) (inject @ fst (d_keys d ! sid))))"

definition d_byte_list :: "nfa \<Rightarrow> dir \<Rightarrow> u8 \<Rightarrow> nat list \<Rightarrow> nat list" where
  "d_byte_list nf dir b ss = (case dir of Fwd \<Rightarrow> byte_next nf b ss | Rev \<Rightarrow> byte_prev nf b ss)"

definition d_flags :: "dir \<Rightarrow> bool \<Rightarrow> bool \<Rightarrow> bool \<times> bool" where
  "d_flags dir flag other = (if dir = Fwd then (flag, other) else (other, flag))"

text \<open>The transition of \<open>sid\<close> on class \<open>c\<close>, stored unless making its target flushed the cache.\<close>

definition dfa_step :: "nfa \<Rightarrow> nat \<Rightarrow> nat \<Rightarrow> dfa \<Rightarrow> (nat \<times> dfa) option" where
  "dfa_step nf sid c d =
     (let b = d_rep d ! c; flag = snd (d_keys d ! sid); nlb = (d_nl d \<and> b = newline);
          (bol, eol) = d_flags (d_dir d) flag nlb in
      if length (d_rep d) \<le> c then None
      else case dfa_closure nf sid bol eol d of
        None \<Rightarrow> None
      | Some d1 \<Rightarrow>
          let accept = ss_contains (d_set d1) (snd (d_ends nf d1));
              nxt = remdups_adj (sort (d_byte_list nf (d_dir d1) b (ss_dense (d_set d1))));
              (nid, d2) = intern (nxt, nlb) d1;
              v = 2 * nid + of_bool accept
          in if d_generation d2 \<noteq> d_generation d1 then Some (v, d2)
             else if length (d_trans d2) \<le> sid * d_nclass d2 + c then None
             else Some (v, d2\<lparr>d_trans := (d_trans d2)[sid * d_nclass d2 + c := v]\<rparr>))"

definition dfa_next :: "nfa \<Rightarrow> nat \<Rightarrow> u8 \<Rightarrow> dfa \<Rightarrow> (nat \<times> dfa) option" where
  "dfa_next nf sid b d =
     (let c = d_class d ! unat b; v = d_trans d ! (sid * d_nclass d + c) in
      if length (d_trans d) \<le> sid * d_nclass d + c then None
      else if v \<noteq> UNKNOWN then Some (v, d) else dfa_step nf sid c d)"

definition at_end :: "nfa \<Rightarrow> nat \<Rightarrow> bool \<Rightarrow> dfa \<Rightarrow> (bool \<times> dfa) option" where
  "at_end nf sid nt d =
     (let sh = (if nt then 2 else 0); e = drop_bit sh (d_eot d ! sid) in
      if length (d_eot d) \<le> sid then None
      else if e AND 1 \<noteq> 0 then Some (e AND 2 \<noteq> 0, d)
      else let flag = snd (d_keys d ! sid); (bol, eol) = d_flags (d_dir d) flag (\<not> nt) in
           case dfa_closure nf sid bol eol d of
             None \<Rightarrow> None
           | Some d1 \<Rightarrow>
               let acc = ss_contains (d_set d1) (snd (d_ends nf d1)) in
               Some (acc, d1\<lparr>d_eot := (d_eot d1)[sid := d_eot d1 ! sid OR push_bit sh (1 OR push_bit 1 (of_bool acc))]\<rparr>))"

section \<open>Scans\<close>

fun earliest_loop :: "nfa \<Rightarrow> bool \<Rightarrow> u8 list \<Rightarrow> nat \<Rightarrow> nat \<Rightarrow> dfa \<Rightarrow> (nat option \<times> dfa) option" where
  "earliest_loop nf noteol [] p sid d =
     map_option (\<lambda>(acc, d). (if acc then Some p else None, d)) (at_end nf sid noteol d)"
| "earliest_loop nf noteol (b # bs) p sid d =
     (case dfa_next nf sid b d of
        None \<Rightarrow> None
      | Some (v, d) \<Rightarrow> if odd v then Some (Some p, d) else earliest_loop nf noteol bs (p + 1) (v div 2) d)"

definition earliest :: "nfa \<Rightarrow> u8 list \<Rightarrow> bool \<Rightarrow> bool \<Rightarrow> dfa \<Rightarrow> (nat option \<times> dfa) option" where
  "earliest nf t bol noteol d = (case start_state nf bol d of (sid, d) \<Rightarrow> earliest_loop nf noteol t 0 sid d)"

fun longest_loop :: "nfa \<Rightarrow> bool \<Rightarrow> u8 list \<Rightarrow> nat \<Rightarrow> nat option \<Rightarrow> nat \<Rightarrow> dfa \<Rightarrow> (nat option \<times> dfa) option" where
  "longest_loop nf noteol [] p lst sid d =
     map_option (\<lambda>(acc, d). (if acc then Some p else lst, d)) (at_end nf sid noteol d)"
| "longest_loop nf noteol (b # bs) p lst sid d =
     (case dfa_next nf sid b d of
        None \<Rightarrow> None
      | Some (v, d) \<Rightarrow>
          let lst = (if odd v then Some p else lst); sid = v div 2 in
          if d_dead d sid then Some (lst, d) else longest_loop nf noteol bs (p + 1) lst sid d)"

text \<open>The positions of \<open>t.iter().enumerate().skip(from)\<close> are \<open>from\<close>, \<open>from + 1\<close>, ...; at the end of the
  loop the position is the length of the text.\<close>

definition longest :: "nfa \<Rightarrow> u8 list \<Rightarrow> nat \<Rightarrow> bool \<Rightarrow> bool \<Rightarrow> dfa \<Rightarrow> (nat option \<times> dfa) option" where
  "longest nf t from bol noteol d =
     (case start_state nf bol d of (sid, d) \<Rightarrow>
        longest_loop nf noteol (drop from t) (min from (length t)) None sid d)"

fun leftmost_loop :: "nfa \<Rightarrow> bool \<Rightarrow> u8 list \<Rightarrow> nat \<Rightarrow> nat option \<Rightarrow> nat \<Rightarrow> dfa \<Rightarrow> (nat option \<times> dfa) option" where
  "leftmost_loop nf notbol t 0 frst sid d =
     map_option (\<lambda>(acc, d). (if acc then Some 0 else frst, d)) (at_end nf sid notbol d)"
| "leftmost_loop nf notbol t (Suc p) frst sid d =
     (case dfa_next nf sid (t ! p) d of
        None \<Rightarrow> None
      | Some (v, d) \<Rightarrow> leftmost_loop nf notbol t p (if odd v then Some (Suc p) else frst) (v div 2) d)"

definition leftmost_start :: "nfa \<Rightarrow> u8 list \<Rightarrow> bool \<Rightarrow> bool \<Rightarrow> dfa \<Rightarrow> (nat option \<times> dfa) option" where
  "leftmost_start nf t notbol noteol d =
     (case start_state nf (\<not> noteol) d of (sid, d) \<Rightarrow> leftmost_loop nf notbol t (length t) None sid d)"

end
