(* ===== verification/Regex_Cache.thy ===== *)
theory Regex_Cache
  imports Regex_Dfa
begin

text \<open>
  The lazy automaton's byte classes and cache are transparent: bytes of one class behave alike, every
  transition and end-of-text bit in the cache is the one that would be computed, whatever was
  interned, flushed or looked up before.
\<close>

section \<open>Byte classes\<close>

definition class_ok :: "nat list \<Rightarrow> nat \<Rightarrow> bool" where
  "class_ok cls n \<longleftrightarrow> length cls = 256 \<and> (!) cls ` {0..<256} = {0..<n}"

definition crespects :: "nat list \<Rightarrow> (u8 \<Rightarrow> bool) \<Rightarrow> bool" where
  "crespects cls f \<longleftrightarrow> (\<forall>b<256. \<forall>b'<256. cls ! b = cls ! b' \<longrightarrow> f (word_of_nat b) = f (word_of_nat b'))"

lemma ran_image: "ran m = (\<lambda>x. the (m x)) ` dom m"
  by (force simp: ran_def dom_def)

lemma refine_loop_ok:
  fixes cls0 :: "nat list"
  defines "key \<equiv> \<lambda>f b. (cls0 ! b, f (word_of_nat b))"
  assumes "bs = [k..<256]" "k \<le> 256" "length cls = 256" "n \<le> k"
    and "\<And>b. k \<le> b \<Longrightarrow> b < 256 \<Longrightarrow> cls ! b = cls0 ! b"
    and "\<And>\<kappa>. m \<kappa> = None \<Longrightarrow> \<forall>b<k. key f b \<noteq> \<kappa>"
    and "\<And>b. b < k \<Longrightarrow> m (key f b) = Some (cls ! b)"
    and "inj_on m (dom m)" and "ran m = {0..<n}" and "dom m = key f ` {0..<k}"
  shows "\<exists>cls' n'. refine_loop f bs m n cls = (cls', n') \<and> class_ok cls' n' \<and>
    (\<forall>b<256. \<forall>b'<256. cls' ! b = cls' ! b' \<longleftrightarrow> key f b = key f b')"
  using assms(2-)
proof (induction bs arbitrary: k m n cls)
  case Nil
  from Nil.prems(1) [symmetric] Nil.prems(2) have k: "k = 256" by simp
  have "(!) cls ` {0..<256} = {0..<n}"
  proof -
    have "(!) cls ` {0..<256} = (\<lambda>b. the (m (key f b))) ` {0..<256}" by (rule image_cong [OF refl]) (simp add: Nil.prems(7) k)
    also have "\<dots> = (\<lambda>\<kappa>. the (m \<kappa>)) ` dom m" unfolding Nil.prems(10) k by (simp add: image_image)
    also have "\<dots> = ran m" by (simp add: ran_image)
    finally show ?thesis using Nil.prems(9) by simp
  qed
  moreover have "cls ! b = cls ! b' \<longleftrightarrow> key f b = key f b'" if "b < 256" "b' < 256" for b b'
  proof
    assume "cls ! b = cls ! b'"
    then have "m (key f b) = m (key f b')" using Nil.prems(7) that k by simp
    then show "key f b = key f b'" by (rule inj_onD [OF Nil.prems(8)]) (simp_all add: Nil.prems(10) that k)
  qed (use Nil.prems(7) that k in \<open>metis option.inject\<close>)
  ultimately show ?case using Nil.prems(3) by (auto simp: class_ok_def)
next
  case (Cons b bs)
  have k: "b = k" "k < 256" "bs = [Suc k..<256]" using Cons.prems(1) by (metis list.distinct(1) list.inject upt_rec)+
  have key: "(cls ! b, f (word_of_nat b)) = key f k" using Cons.prems(5) [of k] k by (simp add: key_def)
  show ?case
  proof (cases "m (key f k)")
    case (Some i)
    have "\<exists>cls' n'. refine_loop f bs m n (cls[b := i]) = (cls', n') \<and> class_ok cls' n' \<and>
        (\<forall>b<256. \<forall>b'<256. cls' ! b = cls' ! b' \<longleftrightarrow> key f b = key f b')"
    proof (rule Cons.IH)
      show "m (key f c) = Some (cls[b := i] ! c)" if "c < Suc k" for c
        using Cons.prems(7) that Some k Cons.prems(3) by (cases "c = k") auto
      show "dom m = key f ` {0..<Suc k}" using Cons.prems(10) Some by (auto simp: atLeast0_lessThan_Suc)
      show "\<forall>b<Suc k. key f b \<noteq> \<kappa>" if "m \<kappa> = None" for \<kappa> using Cons.prems(6) [OF that] that Some by (auto simp: less_Suc_eq)
    qed (use Cons.prems k in auto)
    then show ?thesis using key Some by (simp add: Let_def)
  next
    case None
    have new: "key f b' \<noteq> key f k" if "b' < k" for b' using Cons.prems(6) [OF None] that by simp
    have n: "n mod 256 = n" using Cons.prems(4) k by simp
    have "\<exists>cls' n'. refine_loop f bs (m(key f k \<mapsto> n)) (n + 1) (cls[b := n]) = (cls', n') \<and> class_ok cls' n' \<and>
        (\<forall>b<256. \<forall>b'<256. cls' ! b = cls' ! b' \<longleftrightarrow> key f b = key f b')"
    proof (rule Cons.IH)
      show "(m(key f k \<mapsto> n)) (key f c) = Some (cls[b := n] ! c)" if "c < Suc k" for c
        using Cons.prems(7) [of c] that k new [of c] Cons.prems(3) by (cases "c = k") auto
      show "dom (m(key f k \<mapsto> n)) = key f ` {0..<Suc k}" using Cons.prems(10) by (auto simp: atLeast0_lessThan_Suc)
      show "ran (m(key f k \<mapsto> n)) = {0..<n + 1}" using Cons.prems(9) None by (auto simp: ran_map_upd)
      have "n \<notin> ran m" using Cons.prems(9) by simp
      then have "m \<kappa> \<noteq> Some n" for \<kappa> by (metis ranI)
      then show "inj_on (m(key f k \<mapsto> n)) (dom (m(key f k \<mapsto> n)))" using Cons.prems(8) by (auto simp: inj_on_def)
      show "\<forall>b<Suc k. key f b \<noteq> \<kappa>" if "(m(key f k \<mapsto> n)) \<kappa> = None" for \<kappa>
        using Cons.prems(6) [of \<kappa>] that by (auto simp: less_Suc_eq split: if_splits)
    qed (use Cons.prems k in auto)
    then show ?thesis using key None n by (simp add: Let_def)
  qed
qed

lemma refine_ok:
  assumes "length cls = 256" "refine f cls = (cls', n')"
  shows "class_ok cls' n' \<and> crespects cls' f \<and> (\<forall>g. crespects cls g \<longrightarrow> crespects cls' g)"
proof -
  obtain c2 n2 where "refine_loop f [0..<256] Map.empty 0 cls = (c2, n2)" "class_ok c2 n2"
    and k: "\<forall>b<256. \<forall>b'<256. c2 ! b = c2 ! b' \<longleftrightarrow> (cls ! b, f (word_of_nat b)) = (cls ! b', f (word_of_nat b'))"
    using refine_loop_ok [of "[0..<256]" 0 cls 0 cls Map.empty f] assms(1) by auto
  then have c: "class_ok cls' n'" "c2 = cls'" using assms(2) by (auto simp: refine_def)
  have "cls ! b = cls ! b'" "f (word_of_nat b) = f (word_of_nat b')" if "b < 256" "b' < 256" "cls' ! b = cls' ! b'" for b b'
    using k that c(2) by simp_all
  then show ?thesis unfolding crespects_def using c(1) by blast
qed

lemma class_full: "class_ok cls n \<Longrightarrow> 256 \<le> n \<Longrightarrow> crespects cls f"
proof -
  assume a: "class_ok cls n" "256 \<le> n"
  have "card ((!) cls ` {0..<256}) = card {0..<256::nat}"
    using a card_image_le [of "{0..<256}" "(!) cls"] by (simp add: class_ok_def)
  then have "inj_on ((!) cls) {0..<256}" by (rule eq_card_imp_inj_on [rotated]) simp
  then have "b = b'" if "b < 256" "b' < 256" "cls ! b = cls ! b'" for b b'
    by (rule inj_onD) (use that in simp_all)
  then show "crespects cls f" unfolding crespects_def by blast
qed

lemma byte_classes_ok:
  assumes "class_ok cls n" "\<And>s. s \<in> set seen \<Longrightarrow> crespects cls (bs_contains s)" "byte_classes sts seen (cls, n) = (cls', n')"
  shows "class_ok cls' n' \<and> (\<forall>s r. SByte s r \<in> set sts \<longrightarrow> crespects cls' (bs_contains s)) \<and>
    (\<forall>g. crespects cls g \<longrightarrow> crespects cls' g)"
  using assms
proof (induction sts seen "(cls, n)" arbitrary: cls n rule: byte_classes.induct)
  case (2 s r sts seen cls n)
  show ?case
  proof (cases "s \<in> set seen")
    case True
    then show ?thesis using 2 by auto
  next
    case False
    obtain cls1 n1 where c1: "(if n < 256 then refine (bs_contains s) cls else (cls, n)) = (cls1, n1)" by fastforce
    have r: "class_ok cls1 n1 \<and> crespects cls1 (bs_contains s) \<and> (\<forall>g. crespects cls g \<longrightarrow> crespects cls1 g)"
    proof (cases "n < 256")
      case True
      then show ?thesis using refine_ok [of cls "bs_contains s" cls1 n1] 2(3) c1 by (simp add: class_ok_def)
    next
      case False
      then show ?thesis using class_full [OF 2(3)] c1 2(3) by simp
    qed
    have seen: "crespects cls1 (bs_contains s')" if "s' \<in> set (s # seen)" for s' using that r 2(4) by auto
    have "byte_classes sts (s # seen) (cls1, n1) = (cls', n')" using 2(5) False c1 by (simp split: if_splits)
    then have "class_ok cls' n' \<and> (\<forall>s r. SByte s r \<in> set sts \<longrightarrow> crespects cls' (bs_contains s)) \<and> (\<forall>g. crespects cls1 g \<longrightarrow> crespects cls' g)"
      by (intro 2(2) [OF False, of cls1 n1]) (use c1 r seen in \<open>simp_all split: if_splits\<close>)
    then show ?thesis using r by auto
  qed
qed auto

lemma class_reps_ok:
  assumes "class_ok cls n" "c < n"
  shows "\<exists>b<256. class_reps cls n ! c = word_of_nat b \<and> cls ! b = c" and "length (class_reps cls n) = n"
proof -
  let ?f = "\<lambda>rep b. rep[cls ! b := word_of_nat b :: u8]"
  have fold: "length (foldl ?f (replicate n 0) bs) = n \<and>
      (c \<in> (!) cls ` set bs \<longrightarrow> (\<exists>b\<in>set bs. foldl ?f (replicate n 0) bs ! c = word_of_nat b \<and> cls ! b = c))"
    if "c < n" for bs :: "nat list"
  proof (induction bs rule: rev_induct)
    case (snoc x xs)
    then show ?case using that by (cases "cls ! x = c") auto
  qed simp
  from fold [OF assms(2), of "rev [0..<256]"] show "length (class_reps cls n) = n" by (simp add: class_reps_def)
  have "c \<in> (!) cls ` set (rev [0..<256])" using assms by (simp add: class_ok_def)
  with fold [OF assms(2), of "rev [0..<256]"] show "\<exists>b<256. class_reps cls n ! c = word_of_nat b \<and> cls ! b = c"
    unfolding class_reps_def by (auto simp del: upt_conv_Cons)
qed

section \<open>What a cached state stands for\<close>

definition d_eps :: "nfa \<Rightarrow> dir \<Rightarrow> bool \<Rightarrow> bool \<Rightarrow> nat \<Rightarrow> nat \<Rightarrow> bool" where
  "d_eps nf dir bol eol q r \<longleftrightarrow> (case dir of Fwd \<Rightarrow> feps nf bol eol q r | Rev \<Rightarrow> feps nf bol eol r q)"

definition d_byte :: "nfa \<Rightarrow> dir \<Rightarrow> u8 \<Rightarrow> nat \<Rightarrow> nat \<Rightarrow> bool" where
  "d_byte nf dir b q r \<longleftrightarrow> (case dir of Fwd \<Rightarrow> fbyte nf b q r | Rev \<Rightarrow> fbyte nf b r q)"

definition nlb :: "dfa \<Rightarrow> u8 \<Rightarrow> bool" where
  "nlb d b \<longleftrightarrow> d_nl d \<and> b = newline"

text \<open>The closure of a key when the anchor on the unread side is \<open>other\<close>, whether it holds the target,
  and the states a byte leads to.\<close>

definition d_inject :: "nfa \<Rightarrow> dfa \<Rightarrow> nat set" where
  "d_inject nf d = (if d_anchored d then {} else {fst (d_ends nf d)})"

definition key_closure :: "nfa \<Rightarrow> dfa \<Rightarrow> key \<Rightarrow> bool \<Rightarrow> nat set" where
  "key_closure nf d k other =
     (case d_flags (d_dir d) (snd k) other of (bol, eol) \<Rightarrow> cl (d_eps nf (d_dir d) bol eol) (d_inject nf d \<union> set (fst k)))"

definition key_accept :: "nfa \<Rightarrow> dfa \<Rightarrow> key \<Rightarrow> bool \<Rightarrow> bool" where
  "key_accept nf d k other \<longleftrightarrow> snd (d_ends nf d) \<in> key_closure nf d k other"

definition key_pending :: "nfa \<Rightarrow> dfa \<Rightarrow> key \<Rightarrow> u8 \<Rightarrow> nat set" where
  "key_pending nf d k b = image_step (d_byte nf (d_dir d) b) (key_closure nf d k (nlb d b))"

definition same_conf :: "dfa \<Rightarrow> dfa \<Rightarrow> bool" where
  "same_conf d d' \<longleftrightarrow>
     d_dir d' = d_dir d \<and> d_anchored d' = d_anchored d \<and> d_class d' = d_class d \<and> d_nclass d' = d_nclass d \<and>
     d_rep d' = d_rep d \<and> d_nl d' = d_nl d"

lemma key_conf:
  assumes "same_conf d d'"
  shows "key_closure nf d' = key_closure nf d" "key_accept nf d' = key_accept nf d" "key_pending nf d' = key_pending nf d" "nlb d' = nlb d"
    "d_ends nf d' = d_ends nf d" "d_inject nf d' = d_inject nf d"
  using assms by (simp_all add: fun_eq_iff same_conf_def key_closure_def key_accept_def key_pending_def nlb_def d_ends_def d_inject_def)

lemma same_conf_trans: "same_conf a b \<Longrightarrow> same_conf b c \<Longrightarrow> same_conf a c"
  by (simp add: same_conf_def)

text \<open>\<open>v\<close> is the transition of key \<open>k\<close> on byte \<open>b\<close>.\<close>

definition leads :: "nfa \<Rightarrow> dfa \<Rightarrow> key \<Rightarrow> u8 \<Rightarrow> nat \<Rightarrow> bool" where
  "leads nf d k b v \<longleftrightarrow>
     v div 2 < length (d_keys d) \<and> (odd v \<longleftrightarrow> key_accept nf d k (nlb d b)) \<and>
     set (fst (d_keys d ! (v div 2))) = key_pending nf d k b \<and> snd (d_keys d ! (v div 2)) = nlb d b"

definition eot_ok :: "nfa \<Rightarrow> dfa \<Rightarrow> key \<Rightarrow> u8 \<Rightarrow> bool" where
  "eot_ok nf d k e \<longleftrightarrow> (bit e 1 \<longleftrightarrow> bit e 0 \<and> key_accept nf d k True) \<and> (bit e 3 \<longleftrightarrow> bit e 2 \<and> key_accept nf d k False)"

definition conf_ok :: "nfa \<Rightarrow> dfa \<Rightarrow> bool" where
  "conf_ok nf d \<longleftrightarrow>
     class_ok (d_class d) (d_nclass d) \<and> length (d_rep d) = d_nclass d \<and>
     (\<forall>c<d_nclass d. \<exists>b<256. d_rep d ! c = word_of_nat b \<and> d_class d ! b = c) \<and>
     (\<forall>s r. SByte s r \<in> set (nf_st nf) \<longrightarrow> crespects (d_class d) (bs_contains s)) \<and>
     (d_nl d \<longrightarrow> crespects (d_class d) (\<lambda>b. b = newline))"

definition start_ok :: "nfa \<Rightarrow> dfa \<Rightarrow> bool" where
  "start_ok nf d \<longleftrightarrow>
     (\<forall>f. d_start d ! of_bool f = UNKNOWN \<or> d_start d ! of_bool f < length (d_keys d) \<and>
        d_keys d ! (d_start d ! of_bool f) = (if d_anchored d then [fst (d_ends nf d)] else [], f))"

definition dfa_ok :: "nfa \<Rightarrow> dfa \<Rightarrow> bool" where
  "dfa_ok nf d \<longleftrightarrow>
     conf_ok nf d \<and> ss_ok (length (nf_st nf)) (d_set d) \<and>
     length (d_trans d) = length (d_keys d) * d_nclass d \<and> length (d_eot d) = length (d_keys d) \<and> length (d_start d) = 2 \<and>
     (\<forall>k\<in>set (d_keys d). set (fst k) \<subseteq> {0..<length (nf_st nf)}) \<and>
     (\<forall>k i. d_map d k = Some i \<longrightarrow> i < length (d_keys d) \<and> d_keys d ! i = k) \<and>
     (\<forall>s<length (d_keys d). \<forall>c<d_nclass d. d_trans d ! (s * d_nclass d + c) = UNKNOWN \<or>
        leads nf d (d_keys d ! s) (d_rep d ! c) (d_trans d ! (s * d_nclass d + c))) \<and>
     (\<forall>s<length (d_keys d). eot_ok nf d (d_keys d ! s) (d_eot d ! s)) \<and> start_ok nf d"

lemma table_index: "s < n \<Longrightarrow> c < m \<Longrightarrow> s * m + c < n * (m :: nat)"
  by (metis add.commute add_less_cancel_left less_le_trans mult_Suc mult_le_mono1 Suc_leI)

lemma table_index_inj: "c < m \<Longrightarrow> c' < m \<Longrightarrow> s * m + c = s' * m + c' \<longleftrightarrow> s = s' \<and> c = (c' :: nat)"
  by (metis add.commute div_mult_self3 less_nat_zero_code mod_less mod_mult_self1 div_less add_0)

lemma dfa_ok_startD:
  "dfa_ok nf d \<Longrightarrow> d_start d ! of_bool f \<noteq> UNKNOWN \<Longrightarrow> d_start d ! of_bool f < length (d_keys d) \<and>
    d_keys d ! (d_start d ! of_bool f) = (if d_anchored d then [fst (d_ends nf d)] else [], f)"
  unfolding dfa_ok_def start_ok_def by blast

lemma start_ok_frame: "same_conf d d' \<Longrightarrow> d_keys d' = d_keys d \<Longrightarrow> d_start d' = d_start d \<Longrightarrow> start_ok nf d' = start_ok nf d"
  using key_conf(5) [of d d' nf] by (simp only: start_ok_def same_conf_def)

section \<open>A new automaton\<close>

lemma dfa_new_ok: "dfa_ok nf (dfa_new nf nl dir anchored)" "d_dir (dfa_new nf nl dir anchored) = dir"
  "d_anchored (dfa_new nf nl dir anchored) = anchored" "d_nl (dfa_new nf nl dir anchored) = nl"
proof -
  let ?d = "dfa_new nf nl dir anchored"
  obtain c1 n1 where 1: "byte_classes (nf_st nf) [] (replicate 256 0, 1) = (c1, n1)" by fastforce
  have "(!) (replicate 256 (0::nat)) ` {0..<256} = (\<lambda>_. 0) ` {0..<256::nat}" by (rule image_cong) auto
  then have "class_ok (replicate 256 0) 1" by (simp add: class_ok_def image_constant_conv)
  then have o1: "class_ok c1 n1" "\<forall>s r. SByte s r \<in> set (nf_st nf) \<longrightarrow> crespects c1 (bs_contains s)"
    using byte_classes_ok [OF _ _ 1] by auto
  obtain c2 n2 where 2: "(if nl then refine (\<lambda>b. b = newline) c1 else (c1, n1)) = (c2, n2)" by fastforce
  have o2: "class_ok c2 n2" "\<forall>s r. SByte s r \<in> set (nf_st nf) \<longrightarrow> crespects c2 (bs_contains s)" "nl \<longrightarrow> crespects c2 (\<lambda>b. b = newline)"
    using o1 2 refine_ok [of c1 "\<lambda>b. b = newline" c2 n2] by (auto simp: class_ok_def split: if_splits)
  have d: "d_class ?d = c2" "d_nclass ?d = n2" "d_rep ?d = class_reps c2 n2" "d_nl ?d = nl"
    using 1 2 by (auto simp: dfa_new_def Let_def split: if_splits)
  have "0 < n2" using o2(1) by (auto simp: class_ok_def intro: ccontr)
  then have "conf_ok nf ?d" using o2 class_reps_ok [OF o2(1)] unfolding conf_ok_def d by auto
  moreover have "d_keys ?d = []" "d_map ?d = Map.empty" "d_trans ?d = []" "d_eot ?d = []" "d_start ?d = [UNKNOWN, UNKNOWN]" "d_set ?d = ss_new (length (nf_st nf))"
    by (simp_all add: dfa_new_def Let_def)
  ultimately show "dfa_ok nf ?d" by (auto simp: dfa_ok_def start_ok_def ss_ok_new of_bool_def)
qed (simp_all add: dfa_new_def Let_def)

section \<open>Interning\<close>

lemma leads_grow:
  assumes "leads nf d k b v" "same_conf d d'" "d_keys d' = d_keys d @ ext"
  shows "leads nf d' k b v"
  using assms by (simp add: leads_def key_conf [OF assms(2)] nth_append)

lemma eot_ok_conf: "same_conf d d' \<Longrightarrow> eot_ok nf d' = eot_ok nf d"
  by (simp add: fun_eq_iff eot_ok_def key_conf)

lemma conf_ok_conf: "same_conf d d' \<Longrightarrow> conf_ok nf d' = conf_ok nf d"
  by (simp add: conf_ok_def same_conf_def)

definition flushed :: "dfa \<Rightarrow> dfa" where
  "flushed d = d\<lparr>d_keys := [], d_map := Map.empty, d_trans := [], d_eot := [], d_start := [UNKNOWN, UNKNOWN], d_generation := d_generation d + 1\<rparr>"

definition pushed :: "key \<Rightarrow> dfa \<Rightarrow> dfa" where
  "pushed k d = d\<lparr>d_keys := d_keys d @ [k], d_map := (d_map d)(k \<mapsto> length (d_keys d)),
     d_trans := d_trans d @ replicate (d_nclass d) UNKNOWN, d_eot := d_eot d @ [0]\<rparr>"

lemma intern_cases:
  "intern k d = (case d_map d k of Some i \<Rightarrow> (i, d) | None \<Rightarrow>
     let d1 = (if DFA_MAX_STATES \<le> length (d_keys d) then flushed d else d) in (length (d_keys d1), pushed k d1))"
  by (simp add: intern_def flushed_def pushed_def Let_def split: option.splits)

lemma flushed_ok: "dfa_ok nf d \<Longrightarrow> dfa_ok nf (flushed d)" "same_conf d (flushed d)"
  by (auto simp: dfa_ok_def start_ok_def flushed_def same_conf_def conf_ok_def of_bool_def)

lemma pushed_ok:
  assumes ok: "dfa_ok nf d" and k: "set (fst k) \<subseteq> {0..<length (nf_st nf)}"
  shows "dfa_ok nf (pushed k d)"
proof -
  let ?d = "pushed k d" and ?n = "length (d_keys d)"
  have sc: "same_conf d ?d" by (simp add: same_conf_def pushed_def)
  have keys: "d_keys ?d = d_keys d @ [k]" by (simp add: pushed_def)
  have "d_trans ?d ! (s * d_nclass d + c) = UNKNOWN \<or> leads nf ?d (d_keys ?d ! s) (d_rep d ! c) (d_trans ?d ! (s * d_nclass d + c))"
    if s: "s < Suc ?n" and c: "c < d_nclass d" for s c
  proof (cases "s < ?n")
    case True
    then have i: "s * d_nclass d + c < length (d_trans d)" using table_index [OF True c] ok by (simp add: dfa_ok_def)
    have "d_trans d ! (s * d_nclass d + c) = UNKNOWN \<or> leads nf d (d_keys d ! s) (d_rep d ! c) (d_trans d ! (s * d_nclass d + c))"
      using ok True c by (simp add: dfa_ok_def)
    moreover have "d_trans ?d ! (s * d_nclass d + c) = d_trans d ! (s * d_nclass d + c)" using i by (simp add: pushed_def nth_append)
    moreover have "d_keys ?d ! s = d_keys d ! s" using True by (simp add: keys nth_append)
    ultimately show ?thesis using leads_grow [OF _ sc keys] by metis
  next
    case False
    then have "s = ?n" using s by simp
    then have "d_trans ?d ! (s * d_nclass d + c) = UNKNOWN" using ok c by (simp add: pushed_def nth_append dfa_ok_def)
    then show ?thesis ..
  qed
  moreover have "eot_ok nf ?d (d_keys ?d ! s) (d_eot ?d ! s)" if "s < Suc ?n" for s
    using ok that unfolding eot_ok_conf [OF sc] by (cases "s < ?n") (auto simp: dfa_ok_def pushed_def nth_append eot_ok_def less_Suc_eq)
  moreover have "d_map ?d k' = Some i \<longrightarrow> i < Suc ?n \<and> d_keys ?d ! i = k'" for k' i
  proof -
    have "d_map d k' = Some i \<longrightarrow> i < ?n \<and> d_keys d ! i = k'" using ok unfolding dfa_ok_def by blast
    then show ?thesis by (auto simp: pushed_def nth_append)
  qed
  moreover have "start_ok nf ?d"
    unfolding start_ok_def
  proof
    fix f
    have "d_start ?d = d_start d" "d_anchored ?d = d_anchored d" by (simp_all add: pushed_def)
    then show "d_start ?d ! of_bool f = UNKNOWN \<or> d_start ?d ! of_bool f < length (d_keys ?d) \<and>
        d_keys ?d ! (d_start ?d ! of_bool f) = (if d_anchored ?d then [fst (d_ends nf ?d)] else [], f)"
      using dfa_ok_startD [OF ok, of f] key_conf(5) [OF sc, of nf] by (cases "d_start d ! of_bool f = UNKNOWN") (auto simp: keys nth_append)
  qed
  moreover have "conf_ok nf ?d" using ok conf_ok_conf [OF sc] by (simp add: dfa_ok_def)
  moreover have "ss_ok (length (nf_st nf)) (d_set ?d)" "length (d_trans ?d) = Suc ?n * d_nclass d" "length (d_eot ?d) = Suc ?n" "length (d_start ?d) = 2"
    "\<forall>k\<in>set (d_keys ?d). set (fst k) \<subseteq> {0..<length (nf_st nf)}" "d_nclass ?d = d_nclass d" "d_rep ?d = d_rep d" "length (d_keys ?d) = Suc ?n"
    using ok k by (auto simp: dfa_ok_def pushed_def)
  ultimately show ?thesis unfolding dfa_ok_def by simp
qed

lemma intern_ok:
  assumes ok: "dfa_ok nf d" and k: "set (fst k) \<subseteq> {0..<length (nf_st nf)}" and i: "intern k d = (i, d')"
  shows "dfa_ok nf d'" "same_conf d d'" "i < length (d_keys d')" "d_keys d' ! i = k" "d_set d' = d_set d"
    "d_generation d' = d_generation d \<Longrightarrow> \<exists>ext. d_keys d' = d_keys d @ ext"
proof -
  consider (hit) "d_map d k = Some i" "d' = d"
    | (room) "d' = pushed k d" "i = length (d_keys d)"
    | (full) "d' = pushed k (flushed d)" "i = 0"
    using i by (auto simp: intern_cases Let_def flushed_def split: option.splits if_splits)
  then have "dfa_ok nf d' \<and> same_conf d d' \<and> i < length (d_keys d') \<and> d_keys d' ! i = k \<and> d_set d' = d_set d \<and>
    (d_generation d' = d_generation d \<longrightarrow> (\<exists>ext. d_keys d' = d_keys d @ ext))"
  proof cases
    case hit
    then have "i < length (d_keys d) \<and> d_keys d ! i = k" using ok unfolding dfa_ok_def by blast
    then show ?thesis using ok hit by (simp add: same_conf_def)
  next
    case room
    then show ?thesis using pushed_ok [OF ok k] by (simp add: pushed_def same_conf_def)
  next
    case full
    then show ?thesis using pushed_ok [OF flushed_ok(1) [OF ok] k] by (simp add: pushed_def flushed_def same_conf_def)
  qed
  then show "dfa_ok nf d'" "same_conf d d'" "i < length (d_keys d')" "d_keys d' ! i = k" "d_set d' = d_set d"
    "d_generation d' = d_generation d \<Longrightarrow> \<exists>ext. d_keys d' = d_keys d @ ext" by auto
qed

lemma start_state_ok:
  assumes ok: "dfa_ok nf d" and nf: "nfa_ok nf" and s: "start_state nf flag d = (sid, d')"
  shows "dfa_ok nf d'" "same_conf d d'" "sid < length (d_keys d')" "d_keys d' ! sid = (if d_anchored d then [fst (d_ends nf d)] else [], flag)"
proof -
  let ?k = "(if d_anchored d then [fst (d_ends nf d)] else [], flag)"
  have k: "set (fst ?k) \<subseteq> {0..<length (nf_st nf)}" using nf by (auto simp: nfa_ok_def Let_def d_ends_def split: dir.splits)
  have "dfa_ok nf d' \<and> same_conf d d' \<and> sid < length (d_keys d') \<and> d_keys d' ! sid = ?k"
  proof (cases "d_start d ! of_bool flag = UNKNOWN")
    case False
    then have "sid = d_start d ! of_bool flag" "d' = d" using s by (auto simp: start_state_def Let_def)
    then show ?thesis using dfa_ok_startD [OF ok False] ok by (simp add: same_conf_def)
  next
    case True
    obtain i d1 where i: "intern ?k d = (i, d1)" by fastforce
    note o = intern_ok [OF ok k i]
    have s': "sid = i" "d' = d1\<lparr>d_start := (d_start d1)[of_bool flag := i]\<rparr>" using s True i by (auto simp: start_state_def Let_def split: if_splits)
    have sc: "same_conf d1 d'" by (simp add: same_conf_def s')
    have start: "d_start d' ! of_bool f = UNKNOWN \<or> d_start d' ! of_bool f < length (d_keys d') \<and>
        d_keys d' ! (d_start d' ! of_bool f) = (if d_anchored d' then [fst (d_ends nf d')] else [], f)" for f
    proof (cases "f = flag")
      case True
      then have "d_start d' ! of_bool f = i" using o(1) by (simp add: s' dfa_ok_def)
      then show ?thesis using o(2-4) s' True key_conf(5) [OF sc, of nf] key_conf(5) [OF o(2), of nf] by (simp add: same_conf_def)
    next
      case False
      then have "d_start d' ! of_bool f = d_start d1 ! of_bool f" by (cases f; cases flag) (simp_all add: s')
      then show ?thesis using dfa_ok_startD [OF o(1), of f] s' key_conf(5) [OF sc, of nf] by auto
    qed
    have "start_ok nf d'" unfolding start_ok_def using start by blast
    moreover have "leads nf d' = leads nf d1" "eot_ok nf d' = eot_ok nf d1" "conf_ok nf d' = conf_ok nf d1"
      using key_conf [OF sc] conf_ok_conf [OF sc] eot_ok_conf [OF sc] by (auto simp: fun_eq_iff leads_def s')
    ultimately have "dfa_ok nf d'" using o(1) unfolding dfa_ok_def by (simp add: s')
    then show ?thesis using o s' same_conf_trans [OF o(2) sc] by simp
  qed
  then show "dfa_ok nf d'" "same_conf d d'" "sid < length (d_keys d')" "d_keys d' ! sid = ?k" by auto
qed

section \<open>Transitions\<close>

lemma feps_range: "nfa_ok nf \<Longrightarrow> feps nf bol eol q r \<Longrightarrow> q < length (nf_st nf) \<and> r < length (nf_st nf)"
  using fsucc_range [of nf q bol eol] by (auto simp: feps_def)

lemma no_state: "nfa_ok nf \<Longrightarrow> q < length (nf_st nf) \<Longrightarrow> q \<noteq> NO_STATE"
  by (auto simp: nfa_ok_def Let_def NO_STATE_def MAX_STATES_def)

lemma reach_d_succ:
  assumes ok: "nfa_ok nf" and S: "S \<subseteq> {0..<length (nf_st nf)}"
  shows "reach (d_succ nf dir bol eol) NO_STATE S = cl (d_eps nf dir bol eol) S"
proof (cases dir)
  case Fwd
  have "(\<lambda>q r. q \<noteq> NO_STATE \<and> feps nf bol eol q r) = d_eps nf dir bol eol"
    using feps_range [OF ok] no_state [OF ok] by (fastforce simp: fun_eq_iff d_eps_def Fwd)
  then show ?thesis using reach_fsucc [OF assms] by (simp add: d_succ_def Fwd)
next
  case Rev
  have "(\<lambda>q r. q \<noteq> NO_STATE \<and> feps nf bol eol r q) = d_eps nf dir bol eol"
    using feps_range [OF ok] no_state [OF ok] by (fastforce simp: fun_eq_iff d_eps_def Rev)
  then show ?thesis using reach_rsucc [OF assms] by (simp add: d_succ_def Rev)
qed

lemma d_succ_range: "nfa_ok nf \<Longrightarrow> \<forall>q<length (nf_st nf). set (d_succ nf dir bol eol q) \<subseteq> {0..<length (nf_st nf)}"
  using fsucc_range [of nf] rsucc_range [of nf] by (cases dir) (simp_all add: d_succ_def)

lemma d_byte_list_iff:
  assumes "nfa_ok nf" "set l \<subseteq> {0..<length (nf_st nf)}"
  shows "set (d_byte_list nf dir b l) = image_step (d_byte nf dir b) (set l)"
  using byte_next_iff [OF assms(2)] byte_prev_iff [OF assms] by (cases dir) (simp_all add: d_byte_list_def d_byte_def [abs_def])

lemma d_byte_range: "nfa_ok nf \<Longrightarrow> d_byte nf dir b q r \<Longrightarrow> r < length (nf_st nf)"
  using fbyte_range [of nf b q r] by (cases dir) (auto simp: d_byte_def fbyte_def)

lemma dfa_ok_set: "dfa_ok nf d \<Longrightarrow> ss_ok (length (nf_st nf)) ss \<Longrightarrow> dfa_ok nf (d\<lparr>d_set := ss\<rparr>) \<and> same_conf d (d\<lparr>d_set := ss\<rparr>)"
proof -
  assume ok: "dfa_ok nf d" and ss: "ss_ok (length (nf_st nf)) ss"
  let ?d = "d\<lparr>d_set := ss\<rparr>"
  have sc: "same_conf d ?d" by (simp add: same_conf_def)
  then have "leads nf ?d = leads nf d" "eot_ok nf ?d = eot_ok nf d" "conf_ok nf ?d = conf_ok nf d" "start_ok nf ?d = start_ok nf d"
    using key_conf [OF sc] conf_ok_conf [OF sc] eot_ok_conf [OF sc] start_ok_frame [OF sc] by (auto simp: fun_eq_iff leads_def)
  then show "dfa_ok nf ?d \<and> same_conf d ?d" using ok ss sc unfolding dfa_ok_def by simp
qed

lemma dfa_closure_ok:
  assumes ok: "dfa_ok nf d" and nf: "nfa_ok nf" and sid: "sid < length (d_keys d)"
    and f: "d_flags (d_dir d) (snd (d_keys d ! sid)) other = (bol, eol)"
  shows "\<exists>ss. dfa_closure nf sid bol eol d = Some (d\<lparr>d_set := ss\<rparr>) \<and> ss_ok (length (nf_st nf)) ss \<and>
    set (ss_dense ss) = key_closure nf d (d_keys d ! sid) other"
proof -
  let ?n = "length (nf_st nf)" and ?l = "(if d_anchored d then [] else [fst (d_ends nf d)]) @ fst (d_keys d ! sid)"
  have "set (fst (d_keys d ! sid)) \<subseteq> {0..<?n}" using ok sid by (simp add: dfa_ok_def)
  moreover have "fst (d_ends nf d) < ?n" using nf by (auto simp: nfa_ok_def Let_def d_ends_def split: dir.splits)
  ultimately have l: "set ?l \<subseteq> {0..<?n}" by auto
  have c: "ss_ok ?n (ss_clear (d_set d))" "ss_dense (ss_clear (d_set d)) = []" using ss_ok_clear ok by (auto simp: dfa_ok_def)
  have r0: "reach (d_succ nf (d_dir d) bol eol) NO_STATE (set (ss_dense (ss_clear (d_set d)))) = set (ss_dense (ss_clear (d_set d)))"
    by (simp add: c(2) reach_def)
  from closure_each_reach [OF c(1) l d_succ_range [OF nf] r0] obtain ss where
    ss: "closure_each (d_succ nf (d_dir d) bol eol) NO_STATE (ss_clear (d_set d)) ?l = Some ss" "ss_ok ?n ss"
      "set (ss_dense ss) = cl (d_eps nf (d_dir d) bol eol) (set ?l)"
    using c(2) reach_d_succ [OF nf l] by auto
  have "set ?l = d_inject nf d \<union> set (fst (d_keys d ! sid))" by (simp add: d_inject_def)
  then have "set (ss_dense ss) = key_closure nf d (d_keys d ! sid) other" using ss(3) f by (simp add: key_closure_def)
  moreover have "dfa_closure nf sid bol eol d = Some (d\<lparr>d_set := ss\<rparr>)" using ss(1) sid by (simp add: dfa_closure_def Let_def)
  ultimately show ?thesis using ss(2) by blast
qed

lemma dfa_ok_trans:
  assumes ok: "dfa_ok nf d" and sid: "sid < length (d_keys d)" and c: "c < d_nclass d" and l: "leads nf d (d_keys d ! sid) (d_rep d ! c) v"
  shows "dfa_ok nf (d\<lparr>d_trans := (d_trans d)[sid * d_nclass d + c := v]\<rparr>)" and "same_conf d (d\<lparr>d_trans := (d_trans d)[sid * d_nclass d + c := v]\<rparr>)"
proof -
  let ?d = "d\<lparr>d_trans := (d_trans d)[sid * d_nclass d + c := v]\<rparr>"
  show sc: "same_conf d ?d" by (simp add: same_conf_def)
  have e: "leads nf ?d = leads nf d" "eot_ok nf ?d = eot_ok nf d" "conf_ok nf ?d = conf_ok nf d" "start_ok nf ?d = start_ok nf d"
    using key_conf [OF sc] conf_ok_conf [OF sc] eot_ok_conf [OF sc] start_ok_frame [OF sc] by (auto simp: fun_eq_iff leads_def)
  have "d_trans ?d ! (s * d_nclass d + c') = UNKNOWN \<or> leads nf d (d_keys d ! s) (d_rep d ! c') (d_trans ?d ! (s * d_nclass d + c'))"
    if s: "s < length (d_keys d)" and c': "c' < d_nclass d" for s c'
  proof (cases "s = sid \<and> c' = c")
    case True
    then show ?thesis using l table_index [OF sid c] ok by (simp add: dfa_ok_def)
  next
    case False
    then have "s * d_nclass d + c' \<noteq> sid * d_nclass d + c" using table_index_inj [OF c' c] by blast
    then have "d_trans ?d ! (s * d_nclass d + c') = d_trans d ! (s * d_nclass d + c')" by simp
    then show ?thesis using ok s c' unfolding dfa_ok_def by metis
  qed
  then show "dfa_ok nf ?d" using ok e unfolding dfa_ok_def by simp
qed

lemma dfa_step_ok:
  assumes ok: "dfa_ok nf d" and nf: "nfa_ok nf" and sid: "sid < length (d_keys d)" and c: "c < d_nclass d"
  shows "\<exists>v d'. dfa_step nf sid c d = Some (v, d') \<and> dfa_ok nf d' \<and> same_conf d d' \<and> leads nf d' (d_keys d ! sid) (d_rep d ! c) v"
proof -
  let ?n = "length (nf_st nf)" and ?k = "d_keys d ! sid" and ?b = "d_rep d ! c"
  obtain bol eol where f: "d_flags (d_dir d) (snd ?k) (nlb d ?b) = (bol, eol)" by fastforce
  obtain ss where ss: "dfa_closure nf sid bol eol d = Some (d\<lparr>d_set := ss\<rparr>)" "ss_ok ?n ss" "set (ss_dense ss) = key_closure nf d ?k (nlb d ?b)"
    using dfa_closure_ok [OF ok nf sid f] by blast
  define d1 where "d1 = d\<lparr>d_set := ss\<rparr>"
  have d1: "dfa_ok nf d1" "same_conf d d1" using dfa_ok_set [OF ok ss(2)] by (auto simp: d1_def)
  define nxt where "nxt = remdups_adj (sort (d_byte_list nf (d_dir d) ?b (ss_dense ss)))"
  have range: "set (ss_dense ss) \<subseteq> {0..<?n}" using ss(2) by (simp add: ss_ok_def)
  have nxt: "set nxt = key_pending nf d ?k ?b" using d_byte_list_iff [OF nf range] ss(3) by (simp add: nxt_def key_pending_def)
  then have nr: "set (fst (nxt, nlb d ?b)) \<subseteq> {0..<?n}" using d_byte_range [OF nf] by (auto simp: key_pending_def image_step_def)
  obtain nid d2 where i: "intern (nxt, nlb d ?b) d1 = (nid, d2)" by fastforce
  note o = intern_ok [OF d1(1) nr i]
  have sc: "same_conf d d2" using same_conf_trans [OF d1(2) o(2)] .
  define v where "v = 2 * nid + of_bool (ss_contains ss (snd (d_ends nf d)))"
  have acc: "ss_contains ss (snd (d_ends nf d)) \<longleftrightarrow> key_accept nf d ?k (nlb d ?b)" using ss_contains_iff [OF ss(2)] ss(3) by (simp add: key_accept_def)
  have lv: "leads nf d2 ?k ?b v" using o(3,4) nxt acc by (simp add: leads_def v_def key_conf [OF sc])
  have ends: "d_ends nf d1 = d_ends nf d" by (rule key_conf(5) [OF d1(2)])
  have step: "dfa_step nf sid c d = (if d_generation d2 \<noteq> d_generation d1 then Some (v, d2)
      else if length (d_trans d2) \<le> sid * d_nclass d2 + c then None
      else Some (v, d2\<lparr>d_trans := (d_trans d2)[sid * d_nclass d2 + c := v]\<rparr>))"
  proof -
    have "c < length (d_rep d)" using ok c by (simp add: dfa_ok_def conf_ok_def)
    then show ?thesis using f ss(1) i ends
      by (simp add: dfa_step_def Let_def nlb_def [symmetric] d1_def [symmetric] not_le) (simp add: d1_def nxt_def v_def)
  qed
  show ?thesis
  proof (cases "d_generation d2 = d_generation d1")
    case False
    then show ?thesis using step o(1) sc lv by auto
  next
    case True
    then obtain ext where ext: "d_keys d2 = d_keys d @ ext" using o(6) by (auto simp: d1_def)
    have s2: "sid < length (d_keys d2)" "d_keys d2 ! sid = ?k" using sid by (auto simp: ext nth_append)
    have c2: "c < d_nclass d2" "d_rep d2 = d_rep d" using c sc by (auto simp: same_conf_def)
    have "length (d_trans d2) = length (d_keys d2) * d_nclass d2" using o(1) by (simp add: dfa_ok_def)
    then have in2: "\<not> length (d_trans d2) \<le> sid * d_nclass d2 + c" using table_index [OF s2(1) c2(1)] by simp
    have l2: "leads nf d2 (d_keys d2 ! sid) (d_rep d2 ! c) v" using lv s2 c2 by simp
    define d3 where "d3 = d2\<lparr>d_trans := (d_trans d2)[sid * d_nclass d2 + c := v]\<rparr>"
    have d3: "dfa_ok nf d3" "same_conf d2 d3" using dfa_ok_trans [OF o(1) s2(1) c2(1) l2] by (auto simp: d3_def)
    have "leads nf d3 ?k ?b v" using lv by (rule leads_grow [of _ _ _ _ _ _ "[]"]) (use d3(2) in \<open>simp_all add: d3_def\<close>)
    then show ?thesis using step True in2 d3 same_conf_trans [OF sc d3(2)] by (simp add: d3_def)
  qed
qed

text \<open>Bytes of one class behave alike.\<close>

lemma class_same:
  assumes ok: "conf_ok nf d"
  defines "c \<equiv> \<lambda>b. d_class d ! unat b"
  shows "c b < d_nclass d" "d_byte nf dir (d_rep d ! c b) = d_byte nf dir b" "nlb d (d_rep d ! c b) = nlb d b"
proof -
  have u: "unat b < 256" by (rule byte_less)
  then have "c b \<in> (!) (d_class d) ` {0..<256}" by (simp add: c_def)
  then show cn: "c b < d_nclass d" using ok by (simp add: conf_ok_def class_ok_def)
  then obtain b0 where b0: "b0 < 256" "d_rep d ! c b = word_of_nat b0" "d_class d ! b0 = c b" using ok unfolding conf_ok_def by blast
  have same: "f (word_of_nat b0) = f b" if "crespects (d_class d) f" for f :: "u8 \<Rightarrow> bool"
  proof -
    have "f (word_of_nat b0) = f (word_of_nat (unat b))" using that b0(1,3) u unfolding crespects_def c_def by blast
    then show ?thesis by simp
  qed
  have "bs_contains s (d_rep d ! c b) = bs_contains s b" if "q < length (nf_st nf)" "nf_st nf ! q = SByte s r" for q s r
    unfolding b0(2) by (rule same) (use ok that in \<open>force simp: conf_ok_def in_set_conv_nth\<close>)
  then have "fbyte nf (d_rep d ! c b) q r = fbyte nf b q r" for q r unfolding fbyte_def by blast
  then show "d_byte nf dir (d_rep d ! c b) = d_byte nf dir b" by (auto simp: fun_eq_iff d_byte_def split: dir.splits)
  show "nlb d (d_rep d ! c b) = nlb d b"
    using same [of "\<lambda>b. b = newline"] ok b0(2) by (auto simp: nlb_def conf_ok_def)
qed

lemma leads_class:
  assumes "conf_ok nf d" "same_conf d d'" "leads nf d' k (d_rep d ! (d_class d ! unat b)) v"
  shows "leads nf d' k b v"
  using assms(3) class_same(2) [OF assms(1), where dir = "d_dir d" and b = b] class_same(3) [OF assms(1), of b] unfolding leads_def key_pending_def key_conf(3,4) [OF assms(2)]
  by (simp add: key_pending_def key_conf [OF assms(2)])

lemma dfa_next_ok:
  assumes ok: "dfa_ok nf d" and nf: "nfa_ok nf" and sid: "sid < length (d_keys d)"
  shows "\<exists>v d'. dfa_next nf sid b d = Some (v, d') \<and> dfa_ok nf d' \<and> same_conf d d' \<and> leads nf d' (d_keys d ! sid) b v"
proof -
  let ?c = "d_class d ! unat b"
  have conf: "conf_ok nf d" using ok by (simp add: dfa_ok_def)
  have c: "?c < d_nclass d" by (rule class_same(1) [OF conf])
  have i: "sid * d_nclass d + ?c < length (d_trans d)" using table_index [OF sid c] ok by (simp add: dfa_ok_def)
  show ?thesis
  proof (cases "d_trans d ! (sid * d_nclass d + ?c) = UNKNOWN")
    case True
    then have "dfa_next nf sid b d = dfa_step nf sid ?c d" using i by (simp add: dfa_next_def Let_def)
    then show ?thesis using dfa_step_ok [OF ok nf sid c] leads_class [OF conf] by metis
  next
    case False
    then have l: "leads nf d (d_keys d ! sid) (d_rep d ! ?c) (d_trans d ! (sid * d_nclass d + ?c))" using ok sid c unfolding dfa_ok_def by blast
    have sc: "same_conf d d" by (simp add: same_conf_def)
    show ?thesis using False i ok sc leads_class [OF conf sc l] by (simp add: dfa_next_def Let_def)
  qed
qed

section \<open>The end of the text\<close>

lemma and_bit: "e AND 1 \<noteq> 0 \<longleftrightarrow> bit e 0" "e AND 2 \<noteq> 0 \<longleftrightarrow> bit e 1" for e :: u8
proof -
  show "e AND 1 \<noteq> 0 \<longleftrightarrow> bit e 0" by (simp add: and_one_eq bit_0 odd_iff_mod_2_eq_one)
  show "e AND 2 \<noteq> 0 \<longleftrightarrow> bit e 1" using bit_iff_and_push_bit_not_eq_0 [of e 1] by simp
qed

lemma dfa_ok_eot:
  assumes ok: "dfa_ok nf d" and e: "eot_ok nf d (d_keys d ! sid) e"
  shows "dfa_ok nf (d\<lparr>d_eot := (d_eot d)[sid := e]\<rparr>)" and "same_conf d (d\<lparr>d_eot := (d_eot d)[sid := e]\<rparr>)"
proof -
  let ?d = "d\<lparr>d_eot := (d_eot d)[sid := e]\<rparr>"
  show sc: "same_conf d ?d" by (simp add: same_conf_def)
  have c: "leads nf ?d = leads nf d" "eot_ok nf ?d = eot_ok nf d" "conf_ok nf ?d = conf_ok nf d" "start_ok nf ?d = start_ok nf d"
    using key_conf [OF sc] conf_ok_conf [OF sc] eot_ok_conf [OF sc] start_ok_frame [OF sc] by (auto simp: fun_eq_iff leads_def)
  have "eot_ok nf d (d_keys d ! s) (d_eot ?d ! s)" if "s < length (d_keys d)" for s
    using ok e that by (cases "s = sid") (auto simp: dfa_ok_def)
  then show "dfa_ok nf ?d" using ok c unfolding dfa_ok_def by simp
qed

lemma eot_set:
  assumes "eot_ok nf d k e" "\<not> bit e (if nt then 2 else 0)" "acc = key_accept nf d k (\<not> nt)"
  shows "eot_ok nf d k (e OR push_bit (if nt then 2 else 0) (1 OR push_bit 1 (of_bool acc)))"
  using assms by (cases nt) (auto simp: eot_ok_def bit_simps)

lemma at_end_ok:
  assumes ok: "dfa_ok nf d" and nf: "nfa_ok nf" and sid: "sid < length (d_keys d)"
  shows "\<exists>d'. at_end nf sid nt d = Some (key_accept nf d (d_keys d ! sid) (\<not> nt), d') \<and> dfa_ok nf d' \<and> same_conf d d'"
proof -
  let ?k = "d_keys d ! sid" and ?sh = "if nt then 2 else 0 :: nat"
  have len: "sid < length (d_eot d)" using ok sid by (simp add: dfa_ok_def)
  have e: "eot_ok nf d ?k (d_eot d ! sid)" using ok sid by (simp add: dfa_ok_def)
  show ?thesis
  proof (cases "bit (d_eot d ! sid) ?sh")
    case True
    then have "bit (d_eot d ! sid) (Suc ?sh) \<longleftrightarrow> key_accept nf d ?k (\<not> nt)" using e by (cases nt) (auto simp: eot_ok_def numeral_eq_Suc)
    then show ?thesis using True len ok
      by (auto simp: at_end_def Let_def and_bit bit_drop_bit_eq same_conf_def)
  next
    case False
    obtain bol eol where f: "d_flags (d_dir d) (snd ?k) (\<not> nt) = (bol, eol)" by fastforce
    obtain ss where ss: "dfa_closure nf sid bol eol d = Some (d\<lparr>d_set := ss\<rparr>)" "ss_ok (length (nf_st nf)) ss" "set (ss_dense ss) = key_closure nf d ?k (\<not> nt)"
      using dfa_closure_ok [OF ok nf sid f] by blast
    define d1 where "d1 = d\<lparr>d_set := ss\<rparr>"
    have d1: "dfa_ok nf d1" "same_conf d d1" using dfa_ok_set [OF ok ss(2)] by (auto simp: d1_def)
    have acc: "ss_contains ss (snd (d_ends nf d1)) \<longleftrightarrow> key_accept nf d ?k (\<not> nt)"
      using ss_contains_iff [OF ss(2)] ss(3) key_conf(5) [OF d1(2)] by (simp add: key_accept_def)
    let ?e = "d_eot d ! sid OR push_bit ?sh (1 OR push_bit 1 (of_bool (key_accept nf d ?k (\<not> nt))))"
    have "eot_ok nf d ?k ?e" by (rule eot_set [OF e False refl])
    then have e1: "eot_ok nf d1 (d_keys d1 ! sid) ?e" using eot_ok_conf [OF d1(2)] by (simp add: d1_def)
    define d2 where "d2 = d1\<lparr>d_eot := (d_eot d1)[sid := ?e]\<rparr>"
    have d2: "dfa_ok nf d2" "same_conf d1 d2" using dfa_ok_eot [OF d1(1) e1] by (auto simp: d2_def)
    have nb: "(drop_bit ?sh (d_eot d ! sid) AND 1 \<noteq> 0) = False" using False by (simp add: and_bit bit_drop_bit_eq)
    have cl: "dfa_closure nf sid bol eol d = Some d1" "d_set d1 = ss" "d_eot d1 = d_eot d" using ss(1) by (simp_all add: d1_def)
    have "(length (d_eot d) \<le> sid) = False" using len by simp
    then have "at_end nf sid nt d = Some (key_accept nf d ?k (\<not> nt), d2)"
      unfolding at_end_def Let_def d2_def by (simp only: nb cl f acc if_False prod.case option.case)
    then show ?thesis using d2 same_conf_trans [OF d1(2) d2(2)] by blast
  qed
qed

end
