(* ===== verification/Regex_Scan.thy ===== *)
theory Regex_Scan
  imports Regex_Cache
begin

text \<open>
  What the three scans of \<open>Regex_Dfa\<close> return, in terms of the runs of the automaton: the earliest end
  of a match, the longest match from a position, and the leftmost position a match starts at.
\<close>

section \<open>Scans by pending states\<close>

text \<open>The states entered by the last byte, before closure: what a cached state holds.\<close>

fun pend :: "(nat \<Rightarrow> nat \<Rightarrow> nat \<Rightarrow> bool) \<Rightarrow> (nat \<Rightarrow> nat \<Rightarrow> nat \<Rightarrow> bool) \<Rightarrow> nat set \<Rightarrow> nat set \<Rightarrow> nat \<Rightarrow> nat \<Rightarrow> nat set" where
  "pend eps byte J P lo 0 = P"
| "pend eps byte J P lo (Suc d) = image_step (byte (lo + d)) (level eps byte J P lo d)"

lemma level_pend: "level eps byte J P lo d = cl (eps (lo + d)) (J \<union> pend eps byte J P lo d)"
  by (cases d) simp_all

lemma pend_empty: "pend eps byte {} P lo d = {} \<Longrightarrow> d \<le> d' \<Longrightarrow> level eps byte {} P lo d' = {}"
  using level_empty [of eps byte "{}" P lo d d'] by (simp add: level_pend [of _ _ _ _ _ d] cl_def)

section \<open>Forward\<close>

abbreviation fwd_level :: "nfa \<Rightarrow> rtext \<Rightarrow> nat set \<Rightarrow> nat set \<Rightarrow> nat \<Rightarrow> nat \<Rightarrow> nat set" where
  "fwd_level nf tx \<equiv> level (tx_feps nf tx) (tx_fbyte nf tx)"

abbreviation fwd_pend :: "nfa \<Rightarrow> rtext \<Rightarrow> nat set \<Rightarrow> nat set \<Rightarrow> nat \<Rightarrow> nat \<Rightarrow> nat set" where
  "fwd_pend nf tx \<equiv> pend (tx_feps nf tx) (tx_fbyte nf tx)"

text \<open>A cached state at position \<open>p\<close> of a forward scan that started with \<open>P\<close> at \<open>lo\<close>.\<close>

definition fwd_at :: "nfa \<Rightarrow> rtext \<Rightarrow> nat set \<Rightarrow> nat \<Rightarrow> nat \<Rightarrow> nat \<Rightarrow> dfa \<Rightarrow> bool" where
  "fwd_at nf tx P lo p sid d \<longleftrightarrow>
     dfa_ok nf d \<and> d_dir d = Fwd \<and> d_nl d = tx_nl tx \<and> lo \<le> p \<and> p \<le> tx_len tx \<and> sid < length (d_keys d) \<and>
     set (fst (d_keys d ! sid)) = fwd_pend nf tx (d_inject nf d) P lo (p - lo) \<and> snd (d_keys d ! sid) = tx_bol tx p"

lemma fwd_closure:
  assumes "fwd_at nf tx P lo p sid d" "other = tx_eol tx p"
  shows "key_closure nf d (d_keys d ! sid) other = fwd_level nf tx (d_inject nf d) P lo (p - lo)"
  using assms by (simp add: fwd_at_def key_closure_def d_flags_def level_pend d_eps_def [abs_def] tx_feps_def)

lemma fwd_accept:
  assumes "fwd_at nf tx P lo p sid d" "other = tx_eol tx p"
  shows "key_accept nf d (d_keys d ! sid) other \<longleftrightarrow> nf_accept nf \<in> fwd_level nf tx (d_inject nf d) P lo (p - lo)"
  using fwd_closure [OF assms] assms(1) by (simp add: key_accept_def d_ends_def fwd_at_def)

lemma fwd_next:
  assumes at: "fwd_at nf tx P lo p sid d" and p: "p < tx_len tx" and nf: "nfa_ok nf"
  shows "\<exists>v d'. dfa_next nf sid (tx_t tx ! p) d = Some (v, d') \<and> same_conf d d' \<and> fwd_at nf tx P lo (Suc p) (v div 2) d' \<and>
    (odd v \<longleftrightarrow> nf_accept nf \<in> fwd_level nf tx (d_inject nf d) P lo (p - lo))"
proof -
  let ?b = "tx_t tx ! p" and ?k = "d_keys d ! sid"
  have h: "dfa_ok nf d" "sid < length (d_keys d)" "d_dir d = Fwd" "d_nl d = tx_nl tx" "lo \<le> p" using at by (auto simp: fwd_at_def)
  obtain v d' where n: "dfa_next nf sid ?b d = Some (v, d')" "dfa_ok nf d'" "same_conf d d'" "leads nf d' ?k ?b v"
    using dfa_next_ok [OF h(1) nf h(2)] by blast
  have eol: "nlb d ?b = tx_eol tx p" using p h(4) by (simp add: nlb_def tx_eol_def)
  have bol: "nlb d ?b = tx_bol tx (Suc p)" using h(4) by (simp add: nlb_def tx_bol_def)
  have "key_pending nf d ?k ?b = image_step (tx_fbyte nf tx p) (fwd_level nf tx (d_inject nf d) P lo (p - lo))"
    using fwd_closure [OF at eol] h(3) p by (simp add: key_pending_def d_byte_def [abs_def] image_step_def tx_fbyte_def)
  then have "key_pending nf d ?k ?b = fwd_pend nf tx (d_inject nf d) P lo (Suc p - lo)" using h(5) by (simp add: Suc_diff_le)
  then have "fwd_at nf tx P lo (Suc p) (v div 2) d'"
    using n h p bol key_conf [OF n(3)] by (simp add: fwd_at_def leads_def same_conf_def)
  moreover have "odd v \<longleftrightarrow> nf_accept nf \<in> fwd_level nf tx (d_inject nf d) P lo (p - lo)"
    using n(4) fwd_accept [OF at eol] key_conf [OF n(3)] by (simp add: leads_def)
  ultimately show ?thesis using n by blast
qed

lemma fwd_end:
  assumes at: "fwd_at nf tx P lo (tx_len tx) sid d" and nf: "nfa_ok nf"
  shows "\<exists>d'. at_end nf sid (tx_noteol tx) d = Some (nf_accept nf \<in> fwd_level nf tx (d_inject nf d) P lo (tx_len tx - lo), d') \<and>
    dfa_ok nf d' \<and> same_conf d d'"
proof -
  have h: "dfa_ok nf d" "sid < length (d_keys d)" using at by (auto simp: fwd_at_def)
  have "(\<not> tx_noteol tx) = tx_eol tx (tx_len tx)" by (simp add: tx_eol_def)
  from fwd_accept [OF at this] show ?thesis using at_end_ok [OF h(1) nf h(2), of "tx_noteol tx"] by auto
qed

lemma fwd_start:
  assumes ok: "dfa_ok nf d" "d_dir d = Fwd" "d_nl d = tx_nl tx" and nf: "nfa_ok nf" and lo: "lo \<le> tx_len tx"
    and s: "start_state nf (tx_bol tx lo) d = (sid, d')"
  shows "same_conf d d'" "fwd_at nf tx (if d_anchored d then {nf_start nf} else {}) lo lo sid d'"
proof -
  note o = start_state_ok [OF ok(1) nf s]
  show "same_conf d d'" by (rule o(2))
  show "fwd_at nf tx (if d_anchored d then {nf_start nf} else {}) lo lo sid d'"
    using o ok lo by (auto simp: fwd_at_def same_conf_def d_ends_def)
qed

text \<open>The first end, scanning on from \<open>p\<close>.\<close>

lemma earliest_loop_ok:
  assumes nf: "nfa_ok nf"
  shows "fwd_at nf tx P lo p sid d \<Longrightarrow> bs = drop p (tx_t tx) \<Longrightarrow>
    \<exists>d'. earliest_loop nf (tx_noteol tx) bs p sid d =
        Some (find (\<lambda>q. nf_accept nf \<in> fwd_level nf tx (d_inject nf d) P lo (q - lo)) [p..<Suc (tx_len tx)], d') \<and>
      dfa_ok nf d' \<and> same_conf d d'"
proof (induction bs arbitrary: p sid d)
  case Nil
  then have p: "p = tx_len tx" by (auto simp: fwd_at_def)
  obtain d' where "at_end nf sid (tx_noteol tx) d = Some (nf_accept nf \<in> fwd_level nf tx (d_inject nf d) P lo (tx_len tx - lo), d')" "dfa_ok nf d'" "same_conf d d'"
    using fwd_end [OF Nil.prems(1) [unfolded p] nf] by blast
  then show ?case using p by (simp add: upt_rec)
next
  case (Cons b bs)
  then have p: "p < tx_len tx" "b = tx_t tx ! p" "bs = drop (Suc p) (tx_t tx)"
    by (metis length_drop list.size(3) nat_neq_iff Cons_nth_drop_Suc drop_all leI list.distinct(1) list.inject)+
  obtain v d1 where n: "dfa_next nf sid b d = Some (v, d1)" "same_conf d d1" "fwd_at nf tx P lo (Suc p) (v div 2) d1"
    "odd v \<longleftrightarrow> nf_accept nf \<in> fwd_level nf tx (d_inject nf d) P lo (p - lo)"
    using fwd_next [OF Cons.prems(1) p(1) nf] p(2) by blast
  have up: "[p..<Suc (tx_len tx)] = p # [Suc p..<Suc (tx_len tx)]" using p by (simp add: upt_conv_Cons)
  show ?case
  proof (cases "odd v")
    case True
    then show ?thesis using n up by (auto simp: fwd_at_def)
  next
    case False
    from Cons.IH [OF n(3) p(3)] obtain d2 where "earliest_loop nf (tx_noteol tx) bs (Suc p) (v div 2) d1 =
        Some (find (\<lambda>q. nf_accept nf \<in> fwd_level nf tx (d_inject nf d) P lo (q - lo)) [Suc p..<Suc (tx_len tx)], d2)" "dfa_ok nf d2" "same_conf d1 d2"
      using key_conf(6) [OF n(2)] by auto
    then show ?thesis using False n up same_conf_trans by auto
  qed
qed

text \<open>The last end, scanning on from \<open>p\<close>; the scan stops when no state is left.\<close>

lemma longest_loop_ok:
  assumes nf: "nfa_ok nf"
  shows "fwd_at nf tx P lo p sid d \<Longrightarrow> d_anchored d \<Longrightarrow> bs = drop p (tx_t tx) \<Longrightarrow>
    \<exists>d'. longest_loop nf (tx_noteol tx) bs p lst sid d =
        Some (case find (\<lambda>q. nf_accept nf \<in> fwd_level nf tx {} P lo (q - lo)) (rev [p..<Suc (tx_len tx)]) of None \<Rightarrow> lst | Some q \<Rightarrow> Some q, d') \<and>
      dfa_ok nf d' \<and> same_conf d d'"
proof (induction bs arbitrary: p sid d lst)
  case Nil
  then have p: "p = tx_len tx" by (auto simp: fwd_at_def)
  have inj: "d_inject nf d = {}" using Nil.prems(2) by (simp add: d_inject_def)
  obtain d' where "at_end nf sid (tx_noteol tx) d = Some (nf_accept nf \<in> fwd_level nf tx {} P lo (tx_len tx - lo), d')" "dfa_ok nf d'" "same_conf d d'"
    using fwd_end [OF Nil.prems(1) [unfolded p] nf] inj by auto
  then show ?case using p by (simp add: upt_rec)
next
  case (Cons b bs)
  then have p: "p < tx_len tx" "b = tx_t tx ! p" "bs = drop (Suc p) (tx_t tx)"
    by (metis length_drop list.size(3) nat_neq_iff Cons_nth_drop_Suc drop_all leI list.distinct(1) list.inject)+
  have inj: "d_inject nf d = {}" using Cons.prems(2) by (simp add: d_inject_def)
  let ?A = "\<lambda>q. nf_accept nf \<in> fwd_level nf tx {} P lo (q - lo)"
  obtain v d1 where n: "dfa_next nf sid b d = Some (v, d1)" "same_conf d d1" "fwd_at nf tx P lo (Suc p) (v div 2) d1" "odd v \<longleftrightarrow> ?A p"
    using fwd_next [OF Cons.prems(1) p(1) nf] p(2) inj by auto
  have a1: "d_anchored d1" "d_inject nf d1 = {}" using n(2) Cons.prems(2) by (auto simp: same_conf_def d_inject_def)
  have up: "rev [p..<Suc (tx_len tx)] = rev [Suc p..<Suc (tx_len tx)] @ [p]" using p by (simp add: upt_conv_Cons)
  let ?lst = "if odd v then Some p else lst"
  have fa: "find ?A (xs @ [p]) = (case find ?A xs of None \<Rightarrow> if ?A p then Some p else None | Some q \<Rightarrow> Some q)" for xs
    by (induction xs) auto
  show ?case
  proof (cases "d_dead d1 (v div 2)")
    case True
    then have "fwd_pend nf tx {} P lo (Suc p - lo) = {}" using n(3) a1 by (auto simp: d_dead_def fwd_at_def)
    then have "\<not> ?A q" if "Suc p \<le> q" for q using pend_empty [of "tx_feps nf tx" "tx_fbyte nf tx" P lo "Suc p - lo" "q - lo"] that by simp
    then have "find ?A (rev [Suc p..<Suc (tx_len tx)]) = None" by (auto simp: find_None_iff)
    then show ?thesis using True n up fa by (auto simp: fwd_at_def)
  next
    case False
    from Cons.IH [OF n(3) a1(1) p(3), of ?lst] obtain d2 where "longest_loop nf (tx_noteol tx) bs (Suc p) ?lst (v div 2) d1 =
        Some (case find ?A (rev [Suc p..<Suc (tx_len tx)]) of None \<Rightarrow> ?lst | Some q \<Rightarrow> Some q, d2)" "dfa_ok nf d2" "same_conf d1 d2" by blast
    then show ?thesis using False n up fa same_conf_trans [OF n(2)] by (auto simp: Let_def split: option.splits)
  qed
qed

section \<open>Backward\<close>

text \<open>A backward scan is a scan of the reversed edges; \<open>m\<close> counts from the end of the text.\<close>

definition rv_eps :: "nfa \<Rightarrow> rtext \<Rightarrow> nat \<Rightarrow> nat \<Rightarrow> nat \<Rightarrow> bool" where
  "rv_eps nf tx m q r = tx_feps nf tx (tx_len tx - m) r q"

definition rv_byte :: "nfa \<Rightarrow> rtext \<Rightarrow> nat \<Rightarrow> nat \<Rightarrow> nat \<Rightarrow> bool" where
  "rv_byte nf tx m q r \<longleftrightarrow> m < tx_len tx \<and> fbyte nf (tx_t tx ! (tx_len tx - Suc m)) r q"

abbreviation rev_level :: "nfa \<Rightarrow> rtext \<Rightarrow> nat set \<Rightarrow> nat \<Rightarrow> nat set" where
  "rev_level nf tx J \<equiv> level (rv_eps nf tx) (rv_byte nf tx) J {} 0"

definition rev_at :: "nfa \<Rightarrow> rtext \<Rightarrow> nat \<Rightarrow> nat \<Rightarrow> dfa \<Rightarrow> bool" where
  "rev_at nf tx p sid d \<longleftrightarrow>
     dfa_ok nf d \<and> d_dir d = Rev \<and> \<not> d_anchored d \<and> d_nl d = tx_nl tx \<and> p \<le> tx_len tx \<and> sid < length (d_keys d) \<and>
     set (fst (d_keys d ! sid)) = pend (rv_eps nf tx) (rv_byte nf tx) {nf_accept nf} {} 0 (tx_len tx - p) \<and> snd (d_keys d ! sid) = tx_eol tx p"

lemma rev_closure:
  assumes "rev_at nf tx p sid d" "other = tx_bol tx p"
  shows "key_closure nf d (d_keys d ! sid) other = rev_level nf tx {nf_accept nf} (tx_len tx - p)"
  using assms by (simp add: rev_at_def key_closure_def d_flags_def level_pend d_eps_def [abs_def] rv_eps_def [abs_def] tx_feps_def d_inject_def d_ends_def)

lemma rev_accept:
  assumes "rev_at nf tx p sid d" "other = tx_bol tx p"
  shows "key_accept nf d (d_keys d ! sid) other \<longleftrightarrow> nf_start nf \<in> rev_level nf tx {nf_accept nf} (tx_len tx - p)"
  using rev_closure [OF assms] assms(1) by (simp add: key_accept_def d_ends_def rev_at_def)

lemma rev_next:
  assumes at: "rev_at nf tx (Suc p) sid d" and nf: "nfa_ok nf"
  shows "\<exists>v d'. dfa_next nf sid (tx_t tx ! p) d = Some (v, d') \<and> same_conf d d' \<and> rev_at nf tx p (v div 2) d' \<and>
    (odd v \<longleftrightarrow> nf_start nf \<in> rev_level nf tx {nf_accept nf} (tx_len tx - Suc p))"
proof -
  let ?b = "tx_t tx ! p" and ?k = "d_keys d ! sid"
  have h: "dfa_ok nf d" "sid < length (d_keys d)" "d_dir d = Rev" "d_nl d = tx_nl tx" "Suc p \<le> tx_len tx" using at by (auto simp: rev_at_def)
  obtain v d' where n: "dfa_next nf sid ?b d = Some (v, d')" "dfa_ok nf d'" "same_conf d d'" "leads nf d' ?k ?b v"
    using dfa_next_ok [OF h(1) nf h(2)] by blast
  have bol: "nlb d ?b = tx_bol tx (Suc p)" using h(4) by (simp add: nlb_def tx_bol_def)
  have eol: "nlb d ?b = tx_eol tx p" using h(4,5) by (simp add: nlb_def tx_eol_def)
  have m: "tx_len tx - p = Suc (tx_len tx - Suc p)" "tx_len tx - Suc (tx_len tx - Suc p) = p" "tx_len tx - Suc p < tx_len tx" using h(5) by auto
  have "key_pending nf d ?k ?b = image_step (rv_byte nf tx (tx_len tx - Suc p)) (rev_level nf tx {nf_accept nf} (tx_len tx - Suc p))"
    using rev_closure [OF at bol] h(3,5) by (simp add: key_pending_def d_byte_def [abs_def] image_step_def rv_byte_def m(2,3))
  then have "key_pending nf d ?k ?b = pend (rv_eps nf tx) (rv_byte nf tx) {nf_accept nf} {} 0 (tx_len tx - p)" using m by simp
  then have "rev_at nf tx p (v div 2) d'"
    using n h eol at key_conf [OF n(3)] by (simp add: rev_at_def leads_def same_conf_def)
  moreover have "odd v \<longleftrightarrow> nf_start nf \<in> rev_level nf tx {nf_accept nf} (tx_len tx - Suc p)"
    using n(4) rev_accept [OF at bol] key_conf [OF n(3)] by (simp add: leads_def)
  ultimately show ?thesis using n by blast
qed

lemma leftmost_loop_ok:
  assumes nf: "nfa_ok nf"
  shows "rev_at nf tx p sid d \<Longrightarrow>
    \<exists>d'. leftmost_loop nf (tx_notbol tx) (tx_t tx) p frst sid d =
        Some (case find (\<lambda>q. nf_start nf \<in> rev_level nf tx {nf_accept nf} (tx_len tx - q)) [0..<Suc p] of None \<Rightarrow> frst | Some q \<Rightarrow> Some q, d') \<and>
      dfa_ok nf d' \<and> same_conf d d'"
proof (induction p arbitrary: sid d frst)
  case 0
  have h: "dfa_ok nf d" "sid < length (d_keys d)" using 0 by (auto simp: rev_at_def)
  have "(\<not> tx_notbol tx) = tx_bol tx 0" by (simp add: tx_bol_def)
  note acc = rev_accept [OF 0 this]
  obtain d' where "at_end nf sid (tx_notbol tx) d = Some (key_accept nf d (d_keys d ! sid) (\<not> tx_notbol tx), d')" "dfa_ok nf d'" "same_conf d d'"
    using at_end_ok [OF h(1) nf h(2)] by blast
  then show ?case by (simp add: acc)
next
  case (Suc p)
  let ?A = "\<lambda>q. nf_start nf \<in> rev_level nf tx {nf_accept nf} (tx_len tx - q)"
  obtain v d1 where n: "dfa_next nf sid (tx_t tx ! p) d = Some (v, d1)" "same_conf d d1" "rev_at nf tx p (v div 2) d1" "odd v \<longleftrightarrow> ?A (Suc p)"
    using rev_next [OF Suc.prems nf] by blast
  let ?f = "if odd v then Some (Suc p) else frst"
  have fa: "find ?A (xs @ [Suc p]) = (case find ?A xs of None \<Rightarrow> if ?A (Suc p) then Some (Suc p) else None | Some q \<Rightarrow> Some q)" for xs
    by (induction xs) auto
  from Suc.IH [OF n(3), of ?f] obtain d2 where 2: "leftmost_loop nf (tx_notbol tx) (tx_t tx) p ?f (v div 2) d1 =
      Some (case find ?A [0..<Suc p] of None \<Rightarrow> ?f | Some q \<Rightarrow> Some q, d2)" "dfa_ok nf d2" "same_conf d1 d2" by blast
  have up: "[0..<Suc (Suc p)] = [0..<Suc p] @ [Suc p]" by simp
  have "leftmost_loop nf (tx_notbol tx) (tx_t tx) (Suc p) frst sid d = Some (case find ?A [0..<Suc (Suc p)] of None \<Rightarrow> frst | Some q \<Rightarrow> Some q, d2)"
    unfolding up fa using n(1,4) 2(1) by (cases "find ?A [0..<Suc p]") (simp_all del: upt_Suc)
  then show ?case using 2 same_conf_trans [OF n(2)] by blast
qed

section \<open>Scans and runs\<close>

lemma nrun_pos: "nrun nf tx (q, i) (r, k) \<Longrightarrow> i \<le> tx_len tx \<Longrightarrow> i \<le> k \<and> k \<le> tx_len tx"
  using lrun_pos [of "nf_st nf" tx UNIV q i r k] by (simp add: nrun_def lrun_def)

lemma fwd_level_anywhere:
  "q \<in> fwd_level nf tx {s} {} 0 p \<longleftrightarrow> (\<exists>i\<le>p. nrun nf tx (s, i) (q, p))"
  by (simp add: level_iff nrun_def nstep_gstep)

lemma fwd_level_anchored:
  "lo \<le> p \<Longrightarrow> q \<in> fwd_level nf tx {} {s} lo (p - lo) \<longleftrightarrow> nrun nf tx (s, lo) (q, p)"
  by (simp add: level_iff nrun_def nstep_gstep)

lemma rev_step:
  assumes "m \<le> tx_len tx" "m' \<le> tx_len tx"
  shows "gstep (rv_eps nf tx) (rv_byte nf tx) (q, m) (r, m') \<longleftrightarrow> nstep (nf_st nf) tx (r, tx_len tx - m') (q, tx_len tx - m)"
proof
  assume "gstep (rv_eps nf tx) (rv_byte nf tx) (q, m) (r, m')"
  then show "nstep (nf_st nf) tx (r, tx_len tx - m') (q, tx_len tx - m)"
    unfolding nstep_gstep using assms
    by (auto simp: gstep_def rv_eps_def rv_byte_def tx_fbyte_def Suc_diff_Suc)
next
  assume n: "nstep (nf_st nf) tx (r, tx_len tx - m') (q, tx_len tx - m)"
  have "tx_len tx - m = tx_len tx - m' \<longleftrightarrow> m' = m" "tx_len tx - m = Suc (tx_len tx - m') \<longleftrightarrow> m' = Suc m" using assms by linarith+
  then consider "m' = m" "tx_feps nf tx (tx_len tx - m) r q" | "m' = Suc m" "tx_fbyte nf tx (tx_len tx - m') r q"
    using n unfolding nstep_gstep gstep_def fst_conv snd_conv by metis
  then show "gstep (rv_eps nf tx) (rv_byte nf tx) (q, m) (r, m')"
    using assms by cases (auto simp: gstep_def rv_eps_def rv_byte_def tx_fbyte_def)
qed

lemma rev_run_sound:
  assumes "rtranclp (gstep (rv_eps nf tx) (rv_byte nf tx)) c c'" "snd c \<le> tx_len tx"
  shows "snd c' \<le> tx_len tx \<and> nrun nf tx (fst c', tx_len tx - snd c') (fst c, tx_len tx - snd c)"
  using assms(1)
proof (induction rule: rtranclp_induct)
  case base
  then show ?case using assms(2) by (simp add: nrun_def)
next
  case (step d e)
  have e: "snd e \<le> tx_len tx" using step.hyps(2) step.IH by (auto simp: gstep_def rv_byte_def)
  have "nstep (nf_st nf) tx (fst e, tx_len tx - snd e) (fst d, tx_len tx - snd d)"
    using rev_step [of "snd d" tx "snd e" nf "fst d" "fst e"] step e by simp
  then show ?case using step.IH e unfolding nrun_def by (auto intro: converse_rtranclp_into_rtranclp)
qed

lemma rev_run_complete:
  assumes "rtranclp (nstep (nf_st nf) tx) c c'" "snd c \<le> tx_len tx"
  shows "snd c' \<le> tx_len tx \<and> rtranclp (gstep (rv_eps nf tx) (rv_byte nf tx)) (fst c', tx_len tx - snd c') (fst c, tx_len tx - snd c)"
  using assms(1)
proof (induction rule: rtranclp_induct)
  case base
  then show ?case using assms(2) by simp
next
  case (step d e)
  have e: "snd e \<le> tx_len tx" using step.hyps(2) step.IH by (auto simp: nstep_gstep gstep_def tx_fbyte_def)
  have "gstep (rv_eps nf tx) (rv_byte nf tx) (fst e, tx_len tx - snd e) (fst d, tx_len tx - snd d)"
    using rev_step [of "tx_len tx - snd e" tx "tx_len tx - snd d" nf "fst e" "fst d"] step e by simp
  then show ?case using step.IH e by (auto intro: converse_rtranclp_into_rtranclp)
qed

lemma rev_level_starts:
  assumes "p \<le> tx_len tx"
  shows "q \<in> rev_level nf tx {s} (tx_len tx - p) \<longleftrightarrow> (\<exists>k. nrun nf tx (q, p) (s, k))"
proof
  assume "q \<in> rev_level nf tx {s} (tx_len tx - p)"
  then obtain j where "j \<le> tx_len tx - p" "rtranclp (gstep (rv_eps nf tx) (rv_byte nf tx)) (s, j) (q, tx_len tx - p)" by (auto simp: level_iff)
  moreover from this(1) have "j \<le> tx_len tx" by simp
  ultimately show "\<exists>k. nrun nf tx (q, p) (s, k)" using rev_run_sound [of nf tx "(s, j)" "(q, tx_len tx - p)"] assms by auto
next
  assume "\<exists>k. nrun nf tx (q, p) (s, k)"
  then obtain k where k: "nrun nf tx (q, p) (s, k)" by blast
  then have "p \<le> k" "k \<le> tx_len tx" using nrun_pos assms by blast+
  moreover have "rtranclp (gstep (rv_eps nf tx) (rv_byte nf tx)) (s, tx_len tx - k) (q, tx_len tx - p)"
    using rev_run_complete [of nf tx "(q, p)" "(s, k)"] k assms by (simp add: nrun_def)
  ultimately show "q \<in> rev_level nf tx {s} (tx_len tx - p)" by (auto simp: level_iff intro!: exI [of _ "tx_len tx - k"])
qed

end
