(* ===== verification/Regex_Size.thy ===== *)
theory Regex_Size
  imports Regex_Compile
begin

text \<open>
  The size of the Thompson automaton (\<open>lib/libregex/src/nfa.rs\<close>): the states each kind of node takes,
  and that running out of them is the only way to refuse a well-formed tree.
\<close>

section \<open>States of a tree\<close>

primrec n_states :: "nat \<Rightarrow> kind list \<Rightarrow> nat list \<Rightarrow> bool \<Rightarrow> nat \<Rightarrow> nat" where
  "n_states 0 ks gs sp n = 0"
| "n_states (Suc f) ks gs sp n =
     (case ks ! n of
        KEmpty \<Rightarrow> 2
      | KSet s \<Rightarrow> 3
      | KBol \<Rightarrow> (if sp then 2 else 3)
      | KEol \<Rightarrow> (if sp then 2 else 3)
      | KGroup g b \<Rightarrow> n_states f ks gs sp b
      | KConcat v \<Rightarrow> 2 + (\<Sum>c\<leftarrow>v. n_states f ks gs sp c)
      | KAlt v \<Rightarrow> 2 + (\<Sum>c\<leftarrow>v. n_states f ks gs sp c) + (length v - 1)
      | KRepeat b mn mx \<Rightarrow>
          (case mx of
             None \<Rightarrow> 2 + (mn + 1) + (mn + 1) * n_states f ks gs sp b
           | Some m \<Rightarrow> 2 + (m + 1) + m * n_states f ks gs sp b)
      | KBackref g \<Rightarrow>
          (if sp then 4
           else case ks ! (gs ! g) of KGroup g' b \<Rightarrow> n_states f ks gs True b | _ \<Rightarrow> 0))"

text \<open>Children come before their parents, so the root's index bounds the depth.\<close>

definition ast_states :: "ast \<Rightarrow> nat" where
  "ast_states a = n_states (Suc (as_root a)) (ast_kinds a) (as_group_node a) False (as_root a)"

section \<open>Steps of the builder\<close>

text \<open>
  \<open>grows m b p r\<close>: a step from builder \<open>b\<close> with outcome \<open>r\<close> takes \<open>m\<close> states, where \<open>p\<close> finds the
  builder in the result; it is refused only when they do not fit.
\<close>

definition grows :: "nat \<Rightarrow> builder \<Rightarrow> ('a \<Rightarrow> builder) \<Rightarrow> 'a rx \<Rightarrow> bool" where
  "grows m b p r \<longleftrightarrow>
     (case r of
        Good v \<Rightarrow> length (b_st (p v)) = length (b_st b) + m \<and> (length (b_st b) \<le> MAX_STATES \<longrightarrow> length (b_st (p v)) \<le> MAX_STATES) \<and>
          b_superset (p v) = b_superset b \<and> ast_kinds (b_ast (p v)) = ast_kinds (b_ast b) \<and>
          as_group_node (b_ast (p v)) = as_group_node (b_ast b)
      | Fail k off \<Rightarrow> MAX_STATES < length (b_st b) + m
      | Crash \<Rightarrow> True)"

abbreviation third :: "'a \<times> 'b \<times> 'c \<Rightarrow> 'c" where
  "third v \<equiv> snd (snd v)"

text \<open>What the size of a node depends on; no step changes it.\<close>

definition scope :: "builder \<Rightarrow> kind list \<times> nat list \<times> bool" where
  "scope b = (ast_kinds (b_ast b), as_group_node (b_ast b), 0 < b_superset b)"

lemma grows_bind:
  assumes "grows m b p r" and "\<And>v. r = Good v \<Longrightarrow> scope (p v) = scope b \<Longrightarrow> grows m' (p v) p' (g v)"
  shows "grows (m + m') b p' (bind_rx r g)"
  using assms by (cases r) (fastforce simp: grows_def scope_def split: rx.splits)+

lemma grows_bind1:
  assumes "grows m b id r" and "\<And>b'. r = Good b' \<Longrightarrow> scope b' = scope b \<Longrightarrow> grows m' b' p' (g b')"
  shows "grows (m + m') b p' (bind_rx r g)"
  using assms by (auto intro: grows_bind)

lemma grows_bind2:
  assumes "grows m b snd r" and "\<And>q b'. r = Good (q, b') \<Longrightarrow> scope b' = scope b \<Longrightarrow> grows m' b' p' (g q b')"
  shows "grows (m + m') b p' (bind_rx r (\<lambda>(q, b'). g q b'))"
  by (rule grows_bind [OF assms(1)]) (use assms(2) in \<open>auto split: prod.split\<close>)

lemma grows_bind3:
  assumes "grows m b third r" and "\<And>e x b'. r = Good (e, x, b') \<Longrightarrow> scope b' = scope b \<Longrightarrow> grows m' b' p' (g e x b')"
  shows "grows (m + m') b p' (bind_rx r (\<lambda>(e, x, b'). g e x b'))"
  by (rule grows_bind [OF assms(1)]) (use assms(2) in \<open>auto split: prod.split\<close>)

lemma grows_good: "p v = b \<Longrightarrow> grows 0 b p (Good v)"
  by (simp add: grows_def)

lemma grows_crash [simp]: "grows m b p Crash"
  by (simp add: grows_def)

lemma grows_eq: "grows m' b p r \<Longrightarrow> m = m' \<Longrightarrow> grows m b p r"
  by simp

lemma grows_add: "grows 1 b snd (b_add s b)"
  by (simp add: b_add_def grows_def)

lemma grows_eps: "grows 1 b snd (b_eps b)"
  unfolding b_eps_def by (rule grows_add)

lemma grows_link: "grows 0 b id (b_link from to b)"
  by (simp add: b_link_def grows_def split: st.splits)

lemmas add_then = grows_bind2 [OF grows_add]
lemmas eps_then = grows_bind2 [OF grows_eps]
lemmas link_then = grows_bind1 [OF grows_link]

lemma grows_patch:
  assumes "\<And>v. r = Good v \<Longrightarrow> \<exists>s. v = b\<lparr>b_st := (b_st b)[q := s]\<rparr>" "\<And>k off. r \<noteq> Fail k off"
  shows "grows 0 b id r"
  using assms by (cases r) (fastforce simp: grows_def)+

lemma grows_leaf: "grows 3 b third (b_leaf s b)"
  unfolding b_leaf_def
  by (rule grows_eq, (rule eps_then)+, rule add_then, rule grows_bind1, rule grows_patch, (auto split: st.splits) [2],
      rule link_then, rule grows_good) simp_all

lemma grows_any_loop: "grows 4 b third (b_any_loop b)"
  unfolding b_any_loop_def by (rule grows_eq, (rule eps_then)+, (rule add_then)+, (rule link_then)+, rule grows_good) simp_all

lemma grows_empty: "grows 2 b third (b_empty b)"
  unfolding b_empty_def by (rule grows_eq, (rule eps_then)+, rule link_then, rule grows_good) simp_all

lemma grows_splits: "grows (length aes) b snd (b_splits aes tail b)"
proof (induction aes arbitrary: tail b)
  case (Cons ae aes)
  show ?case unfolding b_splits.simps by (rule grows_eq, rule add_then, rule Cons.IH) simp
qed (simp add: grows_good)

lemma grows_iters: "grows (length ts) b snd (b_iters mn mx x ts b)"
proof (induction ts arbitrary: b)
  case (Cons t ts)
  show ?case unfolding b_iters.simps by (rule grows_eq, rule add_then, rule grows_bind2, rule Cons.IH, rule grows_good) simp_all
qed (simp add: grows_good)

section \<open>Nodes\<close>

definition fr_size :: "kind list \<Rightarrow> nat list \<Rightarrow> (bool \<Rightarrow> nat \<Rightarrow> nat) \<Rightarrow> fragment \<Rightarrow> bool" where
  "fr_size ks gs sz fr \<longleftrightarrow> (\<forall>n b sp. scope b = (ks, gs, sp) \<longrightarrow> grows (sz sp n) b third (fr n b))"

lemma grows_fr: "fr_size ks gs sz fr \<Longrightarrow> scope b = (ks, gs, sp) \<Longrightarrow> grows (sz sp n) b third (fr n b)"
  by (simp add: fr_size_def)

lemma grows_items:
  assumes fr: "fr_size ks gs sz fr"
  shows "scope b = (ks, gs, sp) \<Longrightarrow> grows (\<Sum>c\<leftarrow>v. sz sp c) b snd (frag_items fr v prev b)"
proof (induction v arbitrary: prev b)
  case (Cons c v)
  show ?case unfolding frag_items.simps
    by (rule grows_eq, rule grows_bind3, rule grows_fr [OF fr Cons.prems], rule link_then, rule Cons.IH) (simp_all add: Cons.prems)
qed (simp add: grows_good)

lemma grows_alts:
  assumes fr: "fr_size ks gs sz fr"
  shows "scope b = (ks, gs, sp) \<Longrightarrow> grows (\<Sum>c\<leftarrow>v. sz sp c) b snd (frag_alts fr v x b)"
proof (induction v arbitrary: b)
  case (Cons c v)
  show ?case unfolding frag_alts.simps
    by (rule grows_eq, rule grows_bind3, rule grows_fr [OF fr Cons.prems], rule link_then, rule grows_bind2, rule Cons.IH)
      (simp_all add: Cons.prems grows_good)
qed (simp add: grows_good)

lemma bind_assoc: "bind_rx (bind_rx m f) g = bind_rx m (\<lambda>v. bind_rx (f v) g)"
  by (cases m) auto

lemma bind_Fail: "bind_rx m f = Fail k i \<longleftrightarrow> m = Fail k i \<or> (\<exists>v. m = Good v \<and> f v = Fail k i)"
  by (cases m) auto

lemma bind_Good: "bind_rx m f = Good r \<longleftrightarrow> (\<exists>v. m = Good v \<and> f v = Good r)"
  by (cases m) auto

lemma frag_alts_length: "frag_alts fr v x b = Good (es, b') \<Longrightarrow> length es = length v"
  by (induction v arbitrary: b es b') (auto simp: bind_Good)

lemma grows_copies:
  assumes fr: "fr_size ks gs sz fr"
  shows "scope b = (ks, gs, sp) \<Longrightarrow> grows (length ts * sz sp body) b id (frag_copies fr body iters lst ts b)"
proof (induction ts arbitrary: b)
  case (Cons t ts)
  show ?case unfolding frag_copies.simps
    by (rule grows_eq, rule grows_bind3, rule grows_fr [OF fr Cons.prems], rule link_then, rule link_then, rule Cons.IH) (simp_all add: Cons.prems)
qed (simp add: grows_good)

lemma grows_concat:
  assumes fr: "fr_size ks gs sz fr" and b: "scope b = (ks, gs, sp)"
  shows "grows (2 + (\<Sum>c\<leftarrow>v. sz sp c)) b third (frag_concat fr v b)"
  unfolding frag_concat_def
  by (rule grows_eq, rule eps_then, rule grows_bind2, rule grows_items [OF fr], simp add: b, rule eps_then, rule link_then,
      rule grows_good) simp_all

lemma grows_alt:
  assumes fr: "fr_size ks gs sz fr" and b: "scope b = (ks, gs, sp)"
  shows "grows (2 + (\<Sum>c\<leftarrow>v. sz sp c) + (length v - 1)) b third (frag_alt fr v b)"
proof -
  have tail: "grows (length v - 1) b1 third
      (if es = [] then Crash
       else bind_rx (b_splits (rev (butlast es)) (last es) b1) (\<lambda>(tail, b). bind_rx (b_link e tail b) (\<lambda>b. Good (e, x, b))))"
    if "frag_alts fr v x b2 = Good (es, b1)" for b1 b2 es e x
  proof (cases "es = []")
    case False
    show ?thesis unfolding if_not_P [OF False]
      by (rule grows_eq, rule grows_bind2, rule grows_splits, rule link_then, rule grows_good) (simp_all add: frag_alts_length [OF that])
  qed simp
  show ?thesis unfolding frag_alt_def
    by (rule grows_eq, rule eps_then, rule eps_then, rule grows_bind2, rule grows_alts [OF fr], simp add: b, rule tail, assumption) simp
qed

lemma grows_repeat:
  assumes fr: "fr_size ks gs sz fr" and b: "scope b = (ks, gs, sp)"
  shows "grows (case mx of None \<Rightarrow> 2 + (mn + 1) + (mn + 1) * sz sp body | Some m \<Rightarrow> 2 + (m + 1) + m * sz sp body) b
    (\<lambda>v. snd (third v)) (frag_repeat fr body mn mx b)"
  unfolding frag_repeat_def Let_def
  by (rule grows_eq, rule eps_then, rule eps_then, rule grows_bind2, rule grows_iters, rule grows_bind1, rule grows_copies [OF fr],
      simp add: b, rule link_then, rule grows_good) (simp_all split: option.splits)

lemma grows_no_iters: "grows m b third r \<Longrightarrow> grows m b (\<lambda>v. snd (third v)) (no_iters r)"
  unfolding no_iters_def by (rule grows_eq, rule grows_bind3, assumption, rule grows_good) simp_all

lemma grows_backref:
  assumes fr: "fr_size ks gs sz fr" and b: "scope b = (ks, gs, sp)"
  shows "grows (if sp then 4 else case ks ! (gs ! g) of KGroup g' body \<Rightarrow> sz True body | _ \<Rightarrow> 0) b third (frag_backref fr g b)"
proof (cases "sp \<or> \<not> g < length gs \<or> \<not> gs ! g < length ks")
  case True
  then show ?thesis using b grows_any_loop [of b] by (auto simp: frag_backref_def scope_def Let_def ast_kinds_def)
next
  case False
  then have k: "nd_kind (as_nodes (b_ast b) ! (as_group_node (b_ast b) ! g)) = ks ! (gs ! g)" "\<not> 0 < b_superset b"
    using b by (auto simp: scope_def ast_kinds_def)
  have "grows (sz True body) b third
      (bind_rx (fr body (b\<lparr>b_record := False, b_superset := b_superset b + 1\<rparr>))
        (\<lambda>(e, x, b'). Good (e, x, b'\<lparr>b_superset := b_superset b' - 1, b_record := b_record b\<rparr>)))" for body
  proof -
    have "grows (sz True body) (b\<lparr>b_record := False, b_superset := b_superset b + 1\<rparr>) third (fr body (b\<lparr>b_record := False, b_superset := b_superset b + 1\<rparr>))"
      by (rule grows_fr [OF fr]) (use b in \<open>simp add: scope_def\<close>)
    then show ?thesis by (auto simp: grows_def split: rx.splits)
  qed
  then show ?thesis using False k b by (auto simp: frag_backref_def scope_def Let_def ast_kinds_def split: kind.splits)
qed

lemma map_same: "f v = f (xs ! n) \<Longrightarrow> map f (xs[n := v]) = map f xs"
  by (cases "n < length xs") (auto intro: nth_equalityI simp: nth_list_update)

lemma grows_note: "grows 0 b third (Good (e, x, b_note n e x its b))"
  by (simp add: grows_def b_note_def Let_def ast_kinds_def map_same)

lemma grows_node:
  assumes fr: "fr_size ks gs (n_states f ks gs) fr" and b: "scope b = (ks, gs, sp)"
  shows "grows (n_states (Suc f) ks gs sp n) b third (frag_node fr n b)"
proof (cases "n < length ks")
  case False
  then show ?thesis using b by (auto simp: frag_node_def scope_def ast_kinds_def)
next
  case True
  then have k: "nd_kind (as_nodes (b_ast b) ! n) = ks ! n" "\<not> length (as_nodes (b_ast b)) \<le> n" "(0 < b_superset b) = sp"
    using b by (auto simp: scope_def ast_kinds_def)
  have noted: "grows m b third (bind_rx r (\<lambda>(e, x, iters, b). Good (e, x, b_note n e x iters b)))"
    if "grows m b (\<lambda>v. snd (third v)) r" for m r
    by (rule grows_eq, rule grows_bind [OF that]) (auto simp: grows_note split: prod.split)
  have "grows (n_states (Suc f) ks gs sp n) b (\<lambda>v. snd (third v))
      (case ks ! n of
           KEmpty \<Rightarrow> no_iters (b_empty b)
         | KSet s \<Rightarrow> no_iters (b_leaf (SByte s PATCH) b)
         | KBol \<Rightarrow> no_iters (if 0 < b_superset b then b_empty b else b_leaf (SBol PATCH) b)
         | KEol \<Rightarrow> no_iters (if 0 < b_superset b then b_empty b else b_leaf (SEol PATCH) b)
         | KGroup g body \<Rightarrow> no_iters (fr body b)
         | KBackref g \<Rightarrow> no_iters (frag_backref fr g b)
         | KConcat items \<Rightarrow> no_iters (frag_concat fr items b)
         | KAlt alts \<Rightarrow> no_iters (frag_alt fr alts b)
         | KRepeat body mn mx \<Rightarrow> frag_repeat fr body mn mx b)"
  proof (cases "ks ! n")
    case KEmpty
    then show ?thesis using grows_no_iters [OF grows_empty] by simp
  next
    case (KSet s)
    then show ?thesis using grows_no_iters [OF grows_leaf] by simp
  next
    case KBol
    then show ?thesis
      using grows_no_iters [OF grows_empty] grows_no_iters [OF grows_leaf] k(3) by simp
  next
    case KEol
    then show ?thesis
      using grows_no_iters [OF grows_empty] grows_no_iters [OF grows_leaf] k(3) by simp
  next
    case (KGroup g body)
    then show ?thesis using grows_no_iters [OF grows_fr [OF fr b]] by simp
  next
    case (KConcat items)
    then show ?thesis using grows_no_iters [OF grows_concat [OF fr b]] by simp
  next
    case (KAlt alts)
    then show ?thesis using grows_no_iters [OF grows_alt [OF fr b]] by simp
  next
    case (KRepeat body mn mx)
    then show ?thesis using grows_repeat [OF fr b] by (simp only: n_states.simps kind.case)
  next
    case (KBackref g)
    then show ?thesis using grows_no_iters [OF grows_backref [OF fr b]] by simp
  qed
  then show ?thesis unfolding frag_node_def if_not_P [OF k(2)] k(1) by (rule noted)
qed

lemma frag_size: "fr_size ks gs (n_states f ks gs) (frag f)"
proof (induction f)
  case (Suc f)
  show ?case unfolding fr_size_def frag.simps using grows_node [OF Suc] by blast
qed (simp add: fr_size_def)

lemma rev_all_Fail: "rev_all qs r \<noteq> Fail k off"
proof (induction qs r rule: rev_all.induct)
  case (2 q s qs r)
  then show ?case by (cases r; cases s) (auto simp: rev_edges_def push_at_def)
qed simp

text \<open>Refusing a tree is a matter of its size alone.\<close>

lemma compile_size:
  assumes "ast_ok a"
  defines "m \<equiv> Suc (ast_states a)"
  shows "case compile a of Good (nf, a') \<Rightarrow> length (nf_st nf) = m \<and> m \<le> MAX_STATES | Fail k off \<Rightarrow> k = Space \<and> MAX_STATES < m | Crash \<Rightarrow> False"
proof -
  let ?b = "\<lparr>b_ast = a, b_st = [], b_record = True, b_superset = 0\<rparr>"
  define r where "r = bind_rx (frag (Suc (as_root a)) (as_root a) ?b) (\<lambda>(e, x, b).
     bind_rx (b_add SMatch b) (\<lambda>(accept, b). bind_rx (b_link x accept b) (\<lambda>b. Good (e, accept, b))))"
  have b: "scope ?b = (ast_kinds a, as_group_node a, False)" by (simp add: scope_def)
  have g: "grows m ?b third r" unfolding r_def m_def ast_states_def
    by (rule grows_eq, rule grows_bind3, rule grows_fr [OF frag_size b], rule add_then, rule link_then, rule grows_good) simp_all
  have c: "compile a = bind_rx r (\<lambda>(e, accept, b). bind_rx (rev_all (enumerate 0 (b_st b)) (replicate (length (b_st b)) [], replicate (length (b_st b)) []))
     (\<lambda>(er, br). Good (\<lparr>nf_st = b_st b, nf_start = e, nf_accept = accept, nf_eps_rev = er, nf_byte_rev = br\<rparr>, b_ast b)))"
    unfolding r_def compile_def bind_assoc Let_def by (simp only: split_def bind_assoc bind_rx.simps prod.sel)
  have "safe_space (\<lambda>_. True) (compile a)" by (rule safe_mono [OF compile_ok [OF assms(1)]]) simp
  then show ?thesis using g unfolding c
    by (cases r) (auto simp: grows_def bind_Good bind_Fail rev_all_Fail split: rx.splits prod.splits)
qed

end
