(* ===== verification/Regex_Backref.thy ===== *)
theory Regex_Backref
  imports Regex_Ast
begin

text \<open>
  The meaning of a pattern with back-references (the rules at the head of \<open>lib/libregex/src/exec.rs\<close>
  and \<open>lib.rs\<close>), and that what the automaton reads for a back-reference is an over-approximation of it.
  Without back-references the two meanings agree.
\<close>

section \<open>Matches with captures\<close>

definition same_byte :: "bool \<Rightarrow> u8 \<Rightarrow> u8 \<Rightarrow> bool" where
  "same_byte icase b c \<longleftrightarrow> (if icase then same_letter b c else b = c)"

definition same_text :: "bool \<Rightarrow> rtext \<Rightarrow> nat \<Rightarrow> nat \<Rightarrow> nat \<Rightarrow> bool" where
  "same_text icase tx a i n \<longleftrightarrow> (\<forall>j<n. same_byte icase (tx_t tx ! (a + j)) (tx_t tx ! (i + j)))"

text \<open>The groups an iteration of a repetition starts by unsetting.\<close>

definition unset :: "nat \<times> nat \<Rightarrow> (nat \<rightharpoonup> nat \<times> nat) \<Rightarrow> nat \<rightharpoonup> nat \<times> nat" where
  "unset r c = c |` (- {fst r..<snd r})"

text \<open>
  \<open>msem ks rg icase tx n i c k d\<close>: node \<open>n\<close> matches the text from \<open>i\<close> to \<open>k\<close>, and turns the captures
  \<open>c\<close> into \<open>d\<close>. A back-reference matches only a repetition of the text its group has captured; \<open>rg\<close>
  has the range of groups inside each node.
\<close>

inductive msem :: "kind list \<Rightarrow> (nat \<times> nat) list \<Rightarrow> bool \<Rightarrow> rtext \<Rightarrow>
    nat \<Rightarrow> nat \<Rightarrow> (nat \<rightharpoonup> nat \<times> nat) \<Rightarrow> nat \<Rightarrow> (nat \<rightharpoonup> nat \<times> nat) \<Rightarrow> bool"
  and msem_seq :: "kind list \<Rightarrow> (nat \<times> nat) list \<Rightarrow> bool \<Rightarrow> rtext \<Rightarrow>
    nat list \<Rightarrow> nat \<Rightarrow> (nat \<rightharpoonup> nat \<times> nat) \<Rightarrow> nat \<Rightarrow> (nat \<rightharpoonup> nat \<times> nat) \<Rightarrow> bool"
  and msem_iter :: "kind list \<Rightarrow> (nat \<times> nat) list \<Rightarrow> bool \<Rightarrow> rtext \<Rightarrow>
    nat \<Rightarrow> nat \<Rightarrow> nat \<Rightarrow> (nat \<rightharpoonup> nat \<times> nat) \<Rightarrow> nat \<Rightarrow> (nat \<rightharpoonup> nat \<times> nat) \<Rightarrow> bool"
  for ks rg icase tx
where
  m_empty: "ks ! n = KEmpty \<Longrightarrow> i \<le> tx_len tx \<Longrightarrow> msem ks rg icase tx n i c i c"
| m_set: "ks ! n = KSet s \<Longrightarrow> i < tx_len tx \<Longrightarrow> bs_contains s (tx_t tx ! i) \<Longrightarrow> msem ks rg icase tx n i c (Suc i) c"
| m_bol: "ks ! n = KBol \<Longrightarrow> i \<le> tx_len tx \<Longrightarrow> tx_bol tx i \<Longrightarrow> msem ks rg icase tx n i c i c"
| m_eol: "ks ! n = KEol \<Longrightarrow> i \<le> tx_len tx \<Longrightarrow> tx_eol tx i \<Longrightarrow> msem ks rg icase tx n i c i c"
| m_group: "ks ! n = KGroup g b \<Longrightarrow> msem ks rg icase tx b i c k d \<Longrightarrow> msem ks rg icase tx n i c k (d(g \<mapsto> (i, k)))"
| m_concat: "ks ! n = KConcat v \<Longrightarrow> msem_seq ks rg icase tx v i c k d \<Longrightarrow> msem ks rg icase tx n i c k d"
| m_alt: "ks ! n = KAlt v \<Longrightarrow> a \<in> set v \<Longrightarrow> msem ks rg icase tx a i c k d \<Longrightarrow> msem ks rg icase tx n i c k d"
| m_repeat: "ks ! n = KRepeat b mn mx \<Longrightarrow> mn \<le> m \<Longrightarrow> case mx of None \<Rightarrow> True | Some x \<Rightarrow> m \<le> x \<Longrightarrow>
    msem_iter ks rg icase tx b m i c k d \<Longrightarrow> msem ks rg icase tx n i c k d"
| m_backref: "ks ! n = KBackref g \<Longrightarrow> c g = Some (s, e) \<Longrightarrow> i + (e - s) \<le> tx_len tx \<Longrightarrow>
    same_text icase tx s i (e - s) \<Longrightarrow> msem ks rg icase tx n i c (i + (e - s)) c"
| m_nil: "i \<le> tx_len tx \<Longrightarrow> msem_seq ks rg icase tx [] i c i c"
| m_cons: "msem ks rg icase tx a i c j d \<Longrightarrow> msem_seq ks rg icase tx v j d k f \<Longrightarrow> msem_seq ks rg icase tx (a # v) i c k f"
| m_done: "i \<le> tx_len tx \<Longrightarrow> msem_iter ks rg icase tx b 0 i c i c"
| m_more: "msem ks rg icase tx b i (unset (rg ! b) c) j d \<Longrightarrow> msem_iter ks rg icase tx b m j d k f \<Longrightarrow>
    msem_iter ks rg icase tx b (Suc m) i c k f"

text \<open>The pattern matches the text from \<open>i\<close> to \<open>k\<close>.\<close>

definition ast_matches :: "bool \<Rightarrow> ast \<Rightarrow> rtext \<Rightarrow> nat \<Rightarrow> nat \<Rightarrow> bool" where
  "ast_matches icase a tx i k \<longleftrightarrow>
     (\<exists>d. msem (ast_kinds a) (map nd_groups (as_nodes a)) icase tx (as_root a) i Map.empty k d)"

section \<open>What the parser promises of groups and sets\<close>

text \<open>\<open>group_node\<close> names each group's node; under \<open>REG_ICASE\<close> every set is closed under case.\<close>

definition groups_ok :: "kind list \<Rightarrow> nat list \<Rightarrow> bool" where
  "groups_ok ks gs \<longleftrightarrow> list_all (\<lambda>n. case ks ! n of KGroup g b \<Rightarrow> gs ! g = n | _ \<Rightarrow> True) [0..<length ks]"

definition folds_ok :: "bool \<Rightarrow> kind list \<Rightarrow> bool" where
  "folds_ok icase ks \<longleftrightarrow>
     (icase \<longrightarrow> list_all (\<lambda>k. case k of KSet s \<Rightarrow> bs_ok s \<and> bs_fold_case s = s | _ \<Rightarrow> True) ks)"

definition no_backrefs :: "kind list \<Rightarrow> bool" where
  "no_backrefs ks \<longleftrightarrow> list_all (\<lambda>k. case k of KBackref g \<Rightarrow> False | _ \<Rightarrow> True) ks"

section \<open>The automaton reads a superset\<close>

lemma same_text_split:
  assumes "same_text icase tx s i (e - s)" "s \<le> j" "j \<le> e"
  shows "same_text icase tx s i (j - s)" "same_text icase tx j (i + (j - s)) (e - j)"
proof -
  show "same_text icase tx s i (j - s)" using assms by (simp add: same_text_def)
  show "same_text icase tx j (i + (j - s)) (e - j)" unfolding same_text_def
  proof (intro allI impI)
    fix l assume "l < e - j"
    then have "(j - s) + l < e - s" using assms by simp
    then have "same_byte icase (tx_t tx ! (s + ((j - s) + l))) (tx_t tx ! (i + ((j - s) + l)))" using assms(1) unfolding same_text_def by blast
    then show "same_byte icase (tx_t tx ! (j + l)) (tx_t tx ! (i + (j - s) + l))" using assms(2) by (simp add: add.assoc)
  qed
qed

lemma kids_less:
  assumes "kinds_ok ks gs" "n < length ks"
  shows "set (kids (ks ! n)) \<subseteq> {0..<length ks}"
proof -
  have "kind_ok ks gs n (ks ! n)" using assms by (simp add: kinds_ok_def list_all_iff)
  then show ?thesis using assms(2) by (cases "ks ! n") (auto simp: list_all_iff)
qed

lemma folds_okD:
  assumes "folds_ok icase ks" "n < length ks" "ks ! n = KSet s" "same_byte icase b c" "bs_contains s b"
  shows "bs_contains s c"
proof (cases icase)
  case True
  then have "bs_ok s" "bs_fold_case s = s" using assms(1) nth_mem [OF assms(2)] by (auto simp: folds_ok_def list_all_iff assms(3))
  then show ?thesis using bs_fold_case(2) [of s c] assms(4,5) True by (auto simp: same_byte_def)
next
  case False
  then show ?thesis using assms(4,5) by (simp add: same_byte_def)
qed

text \<open>A node that matches a text somewhere matches, with the anchors let go, a copy of it anywhere.\<close>

lemma sem_copy:
  assumes fold: "folds_ok icase ks" and wf: "kinds_ok ks gs"
  shows "sem ks gs tx sp n s e \<Longrightarrow> n < length ks \<Longrightarrow> i + (e - s) \<le> tx_len tx \<Longrightarrow> same_text icase tx s i (e - s) \<Longrightarrow>
      sem ks gs tx True n i (i + (e - s))"
    and "sem_seq ks gs tx sp v s e \<Longrightarrow> set v \<subseteq> {0..<length ks} \<Longrightarrow> i + (e - s) \<le> tx_len tx \<Longrightarrow> same_text icase tx s i (e - s) \<Longrightarrow>
      sem_seq ks gs tx True v i (i + (e - s))"
proof (induction arbitrary: i and i rule: sem_sem_seq.inducts)
  case (set_byte n S s sp)
  then show ?case using folds_okD [OF fold, of n S "tx_t tx ! s" "tx_t tx ! i"] by (auto simp: sem_KSet same_text_def)
next
  case (group n g b sp s e)
  then show ?case using kids_less [OF wf, of n] by (simp add: sem_KGroup)
next
  case (concat n v sp s e)
  then show ?case using kids_less [OF wf, of n] by (simp add: sem_KConcat)
next
  case (alt n v a sp s e)
  then have "a < length ks" using kids_less [OF wf, of n] by auto
  then show ?case using alt by (auto simp: sem_KAlt)
next
  case (repeat n b mn mx m sp s e)
  then have "set (replicate m b) \<subseteq> {0..<length ks}" using kids_less [OF wf, of n] by auto
  then have "sem_seq ks gs tx True (replicate m b) i (i + (e - s))" using repeat(3,7,8) by blast
  then show ?case using repeat(1,4,5) by (auto simp: sem_KRepeat)
next
  case (backref n g sp g' b s e)
  then show ?case by (simp add: sem_KBackref)
next
  case (anything n g sp s e)
  then show ?case by (simp add: sem_KBackref)
next
  case (cons sp a s j v e)
  have le: "s \<le> j" "j \<le> e" using sem_bounds cons(1,3) by blast+
  note t = same_text_split [OF cons(7) le]
  have "sem ks gs tx True a i (i + (j - s))" using cons(2) [of i] cons(5-7) t(1) le by simp
  moreover have "sem_seq ks gs tx True v (i + (j - s)) (i + (j - s) + (e - j))"
    using cons(4) [of "i + (j - s)"] cons(5-7) t(2) le by simp
  moreover have "i + (j - s) + (e - j) = i + (e - s)" using le by simp
  ultimately show ?case by (auto simp: sem_seq_Cons)
qed (auto simp: sem_KEmpty sem_KBol sem_KEol sem_seq_Nil)

text \<open>Captures are texts their groups have matched.\<close>

definition caps_ok :: "kind list \<Rightarrow> nat list \<Rightarrow> rtext \<Rightarrow> (nat \<rightharpoonup> nat \<times> nat) \<Rightarrow> bool" where
  "caps_ok ks gs tx c \<longleftrightarrow>
     (\<forall>g s e. c g = Some (s, e) \<longrightarrow> (\<exists>b. ks ! (gs ! g) = KGroup g b \<and> b < length ks \<and> sem ks gs tx False b s e))"

lemma caps_ok_unset: "caps_ok ks gs tx c \<Longrightarrow> caps_ok ks gs tx (unset r c)"
  unfolding caps_ok_def unset_def by (auto simp: restrict_map_def split: if_splits)

lemma caps_ok_upd:
  "caps_ok ks gs tx c \<Longrightarrow> ks ! (gs ! g) = KGroup g b \<Longrightarrow> b < length ks \<Longrightarrow> sem ks gs tx False b i k \<Longrightarrow> caps_ok ks gs tx (c(g \<mapsto> (i, k)))"
  unfolding caps_ok_def by auto

lemma msem_sem:
  assumes fold: "folds_ok icase ks" and wf: "kinds_ok ks gs" and gr: "groups_ok ks gs"
  shows "msem ks rg icase tx n i c k d \<Longrightarrow> n < length ks \<Longrightarrow> caps_ok ks gs tx c \<Longrightarrow> sem ks gs tx False n i k \<and> caps_ok ks gs tx d"
    and "msem_seq ks rg icase tx v i c k d \<Longrightarrow> set v \<subseteq> {0..<length ks} \<Longrightarrow> caps_ok ks gs tx c \<Longrightarrow>
      sem_seq ks gs tx False v i k \<and> caps_ok ks gs tx d"
    and "msem_iter ks rg icase tx b m i c k d \<Longrightarrow> b < length ks \<Longrightarrow> caps_ok ks gs tx c \<Longrightarrow>
      sem_seq ks gs tx False (replicate m b) i k \<and> caps_ok ks gs tx d"
proof (induction rule: msem_msem_seq_msem_iter.inducts)
  case (m_group n g b i c k d)
  have "gs ! g = n" using gr m_group(1,4) by (auto simp: groups_ok_def list_all_iff dest!: bspec [of _ _ n])
  moreover have b: "b < length ks" using kids_less [OF wf m_group(4)] m_group(1) by simp
  moreover note m_group(3) [OF b m_group(5)]
  ultimately show ?case using caps_ok_upd [of ks gs tx d g b i k] m_group(1) by (auto simp: sem_KGroup simp del: fun_upd_apply)
next
  case (m_concat n v i c k d)
  then show ?case using kids_less [OF wf, of n] by (simp add: sem_KConcat)
next
  case (m_alt n v a i c k d)
  then have "a < length ks" using kids_less [OF wf, of n] by auto
  then show ?case using m_alt by (auto simp: sem_KAlt)
next
  case (m_repeat n b mn mx m i c k d)
  then show ?case using kids_less [OF wf, of n] by (auto simp: sem_KRepeat)
next
  case (m_backref n g c s e i)
  then obtain b where b: "ks ! (gs ! g) = KGroup g b" "b < length ks" "sem ks gs tx False b s e" unfolding caps_ok_def by blast
  have "sem ks gs tx True b i (i + (e - s))" using sem_copy(1) [OF fold wf b(3,2)] m_backref by blast
  then show ?case using m_backref b(1) by (auto simp: sem_KBackref)
next
  case (m_more b i c j d m k f)
  then show ?case using caps_ok_unset [of ks gs tx c] by (auto simp: sem_seq_Cons)
qed (auto simp: sem_KEmpty sem_KSet sem_KBol sem_KEol sem_seq_Nil sem_seq_Cons)

text \<open>Without back-references nothing is lost.\<close>

lemma sem_msem:
  assumes wf: "kinds_ok ks gs" and nb: "no_backrefs ks"
  shows "sem ks gs tx sp n i k \<Longrightarrow> \<not> sp \<Longrightarrow> n < length ks \<Longrightarrow> \<exists>d. msem ks rg icase tx n i c k d"
    and "sem_seq ks gs tx sp v i k \<Longrightarrow> \<not> sp \<Longrightarrow> set v \<subseteq> {0..<length ks} \<Longrightarrow>
      (\<exists>d. msem_seq ks rg icase tx v i c k d) \<and> (\<forall>m b. v = replicate m b \<longrightarrow> (\<exists>d. msem_iter ks rg icase tx b m i c k d))"
proof (induction arbitrary: c and c rule: sem_sem_seq.inducts)
  case (group n g b sp i k)
  then show ?case using kids_less [OF wf, of n] by (auto intro: m_group)
next
  case (concat n v sp i k)
  then obtain d where "msem_seq ks rg icase tx v i c k d" using kids_less [OF wf, of n] by fastforce
  then show ?case using m_concat [OF concat(1)] by blast
next
  case (alt n v a sp i k)
  then have "a < length ks" using kids_less [OF wf, of n] by auto
  then obtain d where "msem ks rg icase tx a i c k d" using alt by blast
  then show ?case using alt m_alt by blast
next
  case (repeat n b mn mx m sp i k)
  then have "set (replicate m b) \<subseteq> {0..<length ks}" using kids_less [OF wf, of n] by auto
  then obtain d where "msem_iter ks rg icase tx b m i c k d" using repeat(3,6) by blast
  then show ?case using m_repeat [OF repeat(1,4,5)] by blast
next
  case (backref n g sp g' b i k)
  then show ?case using nb nth_mem [of n ks] by (auto simp: no_backrefs_def list_all_iff)
next
  case (nil i sp)
  then show ?case by (auto intro: m_nil m_done)
next
  case (cons sp a i j v k)
  obtain d where d: "msem ks rg icase tx a i c j d" using cons(2) [of c] cons(5,6) by auto
  obtain f where f: "msem_seq ks rg icase tx v j d k f" using cons(4) [of d] cons(5,6) by auto
  have "\<exists>f. msem_iter ks rg icase tx b m i c k f" if v: "a # v = replicate m b" for m b
  proof -
    obtain m' where m: "m = Suc m'" "a = b" "v = replicate m' b" using v by (cases m) auto
    obtain d where d: "msem ks rg icase tx b i (unset (rg ! b) c) j d" using cons(2) [of "unset (rg ! b) c"] cons(5,6) m(2) by auto
    obtain f where "msem_iter ks rg icase tx b m' j d k f" using cons(4) [of d] cons(5,6) m(3) by auto
    then show ?thesis using m_more [OF d] m(1) by blast
  qed
  then show ?case using m_cons [OF d f] by blast
qed (auto intro: m_empty m_set m_bol m_eol)

lemma ast_matches_sem:
  assumes "ast_ok a" "groups_ok (ast_kinds a) (as_group_node a)" "folds_ok icase (ast_kinds a)" "ast_matches icase a tx i k"
  shows "sem (ast_kinds a) (as_group_node a) tx False (as_root a) i k"
  using assms msem_sem(1) [OF assms(3) _ assms(2)] by (auto simp: ast_ok_def ast_matches_def caps_ok_def)

lemma ast_matches_iff:
  assumes "ast_ok a" "groups_ok (ast_kinds a) (as_group_node a)" "folds_ok icase (ast_kinds a)" "no_backrefs (ast_kinds a)"
  shows "ast_matches icase a tx i k \<longleftrightarrow> sem (ast_kinds a) (as_group_node a) tx False (as_root a) i k"
  using assms ast_matches_sem [OF assms(1-3)] sem_msem(1) [OF _ assms(4)] unfolding ast_ok_def ast_matches_def by blast

end
