(* ===== verification/Regex_Find.thy ===== *)
theory Regex_Find
  imports Regex_Scan Regex_Size Regex_Backref
begin

text \<open>
  The searches of the regular expression library (\<open>lib/libregex/src/lib.rs\<close>) put together: the lazy
  automata a compiled expression keeps, filled and flushed by every search made with it, and the
  match they find. The results are stated against the meaning of the syntax tree.
\<close>

section \<open>The automata of an expression\<close>

record dfas =
  df_fwd :: dfa
  df_rev :: "dfa option"
  df_anchored :: "dfa option"

definition dfas_new :: "nfa \<Rightarrow> bool \<Rightarrow> dfas" where
  "dfas_new nf nl = \<lparr>df_fwd = dfa_new nf nl Fwd False, df_rev = None, df_anchored = None\<rparr>"

text \<open>The leftmost-longest match by the reverse and anchored automata, made on first use.\<close>

definition dfa_extent :: "nfa \<Rightarrow> rtext \<Rightarrow> dfas \<Rightarrow> ((nat \<times> nat) option \<times> dfas) option" where
  "dfa_extent nf tx df =
     (let nl = tx_nl tx;
          rv = (case df_rev df of Some d \<Rightarrow> d | None \<Rightarrow> dfa_new nf nl Rev False) in
      case leftmost_start nf (tx_t tx) (tx_notbol tx) (tx_noteol tx) rv of
        None \<Rightarrow> None
      | Some (None, rv) \<Rightarrow> Some (None, df\<lparr>df_rev := Some rv\<rparr>)
      | Some (Some s, rv) \<Rightarrow>
          let an = (case df_anchored df of Some d \<Rightarrow> d | None \<Rightarrow> dfa_new nf nl Fwd True) in
          (case longest nf (tx_t tx) s (tx_bol tx s) (tx_noteol tx) an of
             None \<Rightarrow> None
           | Some (e, an) \<Rightarrow> Some (map_option (Pair s) e, df\<lparr>df_rev := Some rv, df_anchored := Some an\<rparr>)))"

text \<open>The end of the earliest-ending match, as \<open>Regex::run\<close> asks for it.\<close>

definition first_end :: "nfa \<Rightarrow> rtext \<Rightarrow> dfas \<Rightarrow> (nat option \<times> dfas) option" where
  "first_end nf tx df =
     map_option (\<lambda>(r, d). (r, df\<lparr>df_fwd := d\<rparr>)) (earliest nf (tx_t tx) (tx_bol tx 0) (tx_noteol tx) (df_fwd df))"

text \<open>The automata after any searches, over any texts, since the expression was compiled.\<close>

inductive dfas_reach :: "nfa \<Rightarrow> bool \<Rightarrow> dfas \<Rightarrow> bool" for nf nl where
  init: "dfas_reach nf nl (dfas_new nf nl)"
| scan: "dfas_reach nf nl df \<Longrightarrow> tx_nl tx = nl \<Longrightarrow> first_end nf tx df = Some (r, df') \<Longrightarrow> dfas_reach nf nl df'"
| extent: "dfas_reach nf nl df \<Longrightarrow> tx_nl tx = nl \<Longrightarrow> dfa_extent nf tx df = Some (r, df') \<Longrightarrow> dfas_reach nf nl df'"

section \<open>What the scans return\<close>

definition dfa_for :: "nfa \<Rightarrow> bool \<Rightarrow> dir \<Rightarrow> bool \<Rightarrow> dfa \<Rightarrow> bool" where
  "dfa_for nf nl dir anchored d \<longleftrightarrow> dfa_ok nf d \<and> d_nl d = nl \<and> d_dir d = dir \<and> d_anchored d = anchored"

lemma dfa_for_new: "dfa_for nf nl dir anchored (dfa_new nf nl dir anchored)"
  by (simp add: dfa_for_def dfa_new_ok)

lemma dfa_for_conf: "dfa_for nf nl dir anchored d \<Longrightarrow> same_conf d d' \<Longrightarrow> dfa_ok nf d' \<Longrightarrow> dfa_for nf nl dir anchored d'"
  by (simp add: dfa_for_def same_conf_def)

text \<open>The runs of the automaton over a text: where a match may start and end.\<close>

definition accepts :: "nfa \<Rightarrow> rtext \<Rightarrow> nat \<Rightarrow> nat \<Rightarrow> bool" where
  "accepts nf tx i k \<longleftrightarrow> nrun nf tx (nf_start nf, i) (nf_accept nf, k)"

lemma earliest_ok:
  assumes nf: "nfa_ok nf" and d: "dfa_for nf (tx_nl tx) Fwd False d"
  shows "\<exists>d'. earliest nf (tx_t tx) (tx_bol tx 0) (tx_noteol tx) d =
      Some (find (\<lambda>k. \<exists>i\<le>k. accepts nf tx i k) [0..<Suc (tx_len tx)], d') \<and> dfa_for nf (tx_nl tx) Fwd False d'"
proof -
  obtain sid d1 where s: "start_state nf (tx_bol tx 0) d = (sid, d1)" by fastforce
  have h: "dfa_ok nf d" "d_dir d = Fwd" "d_nl d = tx_nl tx" "\<not> d_anchored d" using d by (auto simp: dfa_for_def)
  note st = fwd_start [OF h(1-3) nf _ s]
  have at: "fwd_at nf tx {} 0 0 sid d1" using st(2) h(4) by simp
  have inj: "d_inject nf d1 = {nf_start nf}" using st(1) h by (simp add: d_inject_def d_ends_def same_conf_def)
  obtain d' where l: "earliest_loop nf (tx_noteol tx) (tx_t tx) 0 sid d1 =
      Some (find (\<lambda>k. nf_accept nf \<in> fwd_level nf tx {nf_start nf} {} 0 (k - 0)) [0..<Suc (tx_len tx)], d')" "dfa_ok nf d'" "same_conf d1 d'"
    using earliest_loop_ok [OF nf at, of "tx_t tx"] inj by auto
  have "same_conf d d'" using same_conf_trans [OF _ l(3)] st(1) by simp
  then show ?thesis using l d s by (auto simp: earliest_def fwd_level_anywhere accepts_def intro: dfa_for_conf)
qed

lemma longest_ok:
  assumes nf: "nfa_ok nf" and d: "dfa_for nf (tx_nl tx) Fwd True d" and s: "s \<le> tx_len tx"
  shows "\<exists>d'. longest nf (tx_t tx) s (tx_bol tx s) (tx_noteol tx) d =
      Some (find (accepts nf tx s) (rev [s..<Suc (tx_len tx)]), d') \<and> dfa_for nf (tx_nl tx) Fwd True d'"
proof -
  obtain sid d1 where st: "start_state nf (tx_bol tx s) d = (sid, d1)" by fastforce
  have h: "dfa_ok nf d" "d_dir d = Fwd" "d_nl d = tx_nl tx" "d_anchored d" using d by (auto simp: dfa_for_def)
  note o = fwd_start [OF h(1-3) nf s st]
  have at: "fwd_at nf tx {nf_start nf} s s sid d1" "d_anchored d1" using o h(4) by (auto simp: same_conf_def)
  obtain d' where l: "longest_loop nf (tx_noteol tx) (drop s (tx_t tx)) s None sid d1 =
      Some (find (\<lambda>k. nf_accept nf \<in> fwd_level nf tx {} {nf_start nf} s (k - s)) (rev [s..<Suc (tx_len tx)]), d')" "dfa_ok nf d'" "same_conf d1 d'"
    using longest_loop_ok [OF nf at refl, of None] by (auto split: option.splits)
  have "find (\<lambda>k. nf_accept nf \<in> fwd_level nf tx {} {nf_start nf} s (k - s)) (rev [s..<Suc (tx_len tx)]) = find (accepts nf tx s) (rev [s..<Suc (tx_len tx)])"
    by (rule find_cong [OF refl]) (simp add: fwd_level_anchored accepts_def del: upt_Suc)
  moreover have "same_conf d d'" using same_conf_trans [OF o(1) l(3)] .
  ultimately show ?thesis using l d st s by (auto simp: longest_def min_def intro: dfa_for_conf)
qed

lemma leftmost_ok:
  assumes nf: "nfa_ok nf" and d: "dfa_for nf (tx_nl tx) Rev False d"
  shows "\<exists>d'. leftmost_start nf (tx_t tx) (tx_notbol tx) (tx_noteol tx) d =
      Some (find (\<lambda>i. \<exists>k. accepts nf tx i k) [0..<Suc (tx_len tx)], d') \<and> dfa_for nf (tx_nl tx) Rev False d'"
proof -
  obtain sid d1 where st: "start_state nf (\<not> tx_noteol tx) d = (sid, d1)" by fastforce
  have h: "dfa_ok nf d" "d_dir d = Rev" "d_nl d = tx_nl tx" "\<not> d_anchored d" using d by (auto simp: dfa_for_def)
  note o = start_state_ok [OF h(1) nf st]
  have at: "rev_at nf tx (tx_len tx) sid d1" using o h by (auto simp: rev_at_def same_conf_def tx_eol_def)
  obtain d' where l: "leftmost_loop nf (tx_notbol tx) (tx_t tx) (tx_len tx) None sid d1 =
      Some (find (\<lambda>q. nf_start nf \<in> rev_level nf tx {nf_accept nf} (tx_len tx - q)) [0..<Suc (tx_len tx)], d')" "dfa_ok nf d'" "same_conf d1 d'"
    using leftmost_loop_ok [OF nf at, of None] by (auto split: option.splits)
  have "find (\<lambda>q. nf_start nf \<in> rev_level nf tx {nf_accept nf} (tx_len tx - q)) [0..<Suc (tx_len tx)] = find (\<lambda>i. \<exists>k. accepts nf tx i k) [0..<Suc (tx_len tx)]"
    by (rule find_cong [OF refl]) (simp add: rev_level_starts accepts_def del: upt_Suc)
  moreover have "same_conf d d'" using same_conf_trans [OF o(2) l(3)] .
  ultimately show ?thesis using l d st by (auto simp: leftmost_start_def intro: dfa_for_conf)
qed

text \<open>The leftmost of the matches, and of those the longest.\<close>

definition leftmost_longest :: "rtext \<Rightarrow> (nat \<Rightarrow> nat \<Rightarrow> bool) \<Rightarrow> (nat \<times> nat) option" where
  "leftmost_longest tx M =
     (case find (\<lambda>i. \<exists>k. M i k) [0..<Suc (tx_len tx)] of
        None \<Rightarrow> None
      | Some i \<Rightarrow> map_option (Pair i) (find (M i) (rev [i..<Suc (tx_len tx)])))"

definition dfas_ok :: "nfa \<Rightarrow> bool \<Rightarrow> dfas \<Rightarrow> bool" where
  "dfas_ok nf nl df \<longleftrightarrow>
     dfa_for nf nl Fwd False (df_fwd df) \<and> (\<forall>d. df_rev df = Some d \<longrightarrow> dfa_for nf nl Rev False d) \<and>
     (\<forall>d. df_anchored df = Some d \<longrightarrow> dfa_for nf nl Fwd True d)"

lemma first_end_ok:
  assumes nf: "nfa_ok nf" and d: "dfas_ok nf (tx_nl tx) df"
  shows "\<exists>df'. first_end nf tx df = Some (find (\<lambda>k. \<exists>i\<le>k. accepts nf tx i k) [0..<Suc (tx_len tx)], df') \<and> dfas_ok nf (tx_nl tx) df'"
  using earliest_ok [OF nf, of tx "df_fwd df"] d by (auto simp: first_end_def dfas_ok_def)

lemma dfa_extent_ok:
  assumes nf: "nfa_ok nf" and d: "dfas_ok nf (tx_nl tx) df"
  shows "\<exists>df'. dfa_extent nf tx df = Some (leftmost_longest tx (accepts nf tx), df') \<and> dfas_ok nf (tx_nl tx) df'"
proof -
  define rv where "rv = (case df_rev df of Some d \<Rightarrow> d | None \<Rightarrow> dfa_new nf (tx_nl tx) Rev False)"
  define an where "an = (case df_anchored df of Some d \<Rightarrow> d | None \<Rightarrow> dfa_new nf (tx_nl tx) Fwd True)"
  have fr: "dfa_for nf (tx_nl tx) Rev False rv" "dfa_for nf (tx_nl tx) Fwd True an"
    using d dfa_for_new by (auto simp: rv_def an_def dfas_ok_def split: option.splits)
  let ?S = "find (\<lambda>i. \<exists>k. accepts nf tx i k) [0..<Suc (tx_len tx)]"
  obtain rv' where rv': "leftmost_start nf (tx_t tx) (tx_notbol tx) (tx_noteol tx) rv = Some (?S, rv')" "dfa_for nf (tx_nl tx) Rev False rv'"
    using leftmost_ok [OF nf fr(1)] by blast
  show ?thesis
  proof (cases ?S)
    case None
    then show ?thesis using rv' d by (auto simp: dfa_extent_def leftmost_longest_def rv_def [symmetric] Let_def dfas_ok_def simp del: upt_Suc)
  next
    case (Some s)
    then have "s \<in> set [0..<Suc (tx_len tx)]" by (metis (no_types, lifting) find_Some_iff nth_mem)
    then have s: "s \<le> tx_len tx" by auto
    obtain an' where "longest nf (tx_t tx) s (tx_bol tx s) (tx_noteol tx) an = Some (find (accepts nf tx s) (rev [s..<Suc (tx_len tx)]), an')" "dfa_for nf (tx_nl tx) Fwd True an'"
      using longest_ok [OF nf fr(2) s] by blast
    then show ?thesis using rv' d Some
      by (auto simp: dfa_extent_def leftmost_longest_def rv_def [symmetric] an_def [symmetric] Let_def dfas_ok_def simp del: upt_Suc)
  qed
qed

lemma dfas_reach_ok:
  assumes nf: "nfa_ok nf"
  shows "dfas_reach nf nl df \<Longrightarrow> dfas_ok nf nl df"
proof (induction rule: dfas_reach.induct)
  case init
  then show ?case by (simp add: dfas_ok_def dfas_new_def dfa_for_new)
next
  case (scan df tx r df')
  then show ?case using first_end_ok [OF nf, of tx df] by auto
next
  case (extent df tx r df')
  then show ?case using dfa_extent_ok [OF nf, of tx df] by auto
qed

section \<open>Searches and the meaning of a tree\<close>

lemma leftmost_longest_cong:
  assumes "\<And>i k. i \<le> tx_len tx \<Longrightarrow> M i k \<longleftrightarrow> N i k"
  shows "leftmost_longest tx M = leftmost_longest tx N"
proof -
  have "find (\<lambda>i. \<exists>k. M i k) [0..<Suc (tx_len tx)] = find (\<lambda>i. \<exists>k. N i k) [0..<Suc (tx_len tx)]"
    by (rule find_cong [OF refl]) (auto simp: assms)
  moreover have "find (M i) (rev [i..<Suc (tx_len tx)]) = find (N i) (rev [i..<Suc (tx_len tx)])" for i
    by (rule find_cong [OF refl]) (auto simp: assms)
  ultimately show ?thesis by (simp only: leftmost_longest_def)
qed

lemma compile_accepts:
  assumes "ast_ok a" "compile a = Good (nf, a')"
  shows "nfa_ok nf" "i \<le> tx_len tx \<Longrightarrow> accepts nf tx i k \<longleftrightarrow> sem (ast_kinds a) (as_group_node a) tx False (as_root a) i k"
  using safe_Good [OF compile_ok [OF assms(1)] assms(2)] by (auto simp: accepts_def)

lemma find_upt_least:
  assumes "P k" "k < n"
  shows "\<exists>e\<le>k. find P [0..<n] = Some e"
proof -
  obtain e where e: "find P [0..<n] = Some e" using assms by (cases "find P [0..<n]") (auto simp: find_None_iff)
  then obtain j where "j < n" "e = j" "\<forall>l<j. \<not> P l" by (auto simp: find_Some_iff)
  then show ?thesis using e assms(1) by (meson not_le)
qed

lemma first_end_sem:
  assumes "ast_ok a" "compile a = Good (nf, a')" "dfas_reach nf (tx_nl tx) df"
  shows "\<exists>df'. first_end nf tx df =
    Some (find (\<lambda>k. \<exists>i\<le>k. sem (ast_kinds a) (as_group_node a) tx False (as_root a) i k) [0..<Suc (tx_len tx)], df')"
proof -
  note c = compile_accepts [OF assms(1,2)]
  have "find (\<lambda>k. \<exists>i\<le>k. accepts nf tx i k) [0..<Suc (tx_len tx)] =
      find (\<lambda>k. \<exists>i\<le>k. sem (ast_kinds a) (as_group_node a) tx False (as_root a) i k) [0..<Suc (tx_len tx)]"
  proof (rule find_cong [OF refl])
    fix k assume "k \<in> set [0..<Suc (tx_len tx)]"
    then have "i \<le> tx_len tx" if "i \<le> k" for i using that by auto
    then show "(\<exists>i\<le>k. accepts nf tx i k) \<longleftrightarrow> (\<exists>i\<le>k. sem (ast_kinds a) (as_group_node a) tx False (as_root a) i k)"
      using c(2) by blast
  qed
  then show ?thesis using first_end_ok [OF c(1) dfas_reach_ok [OF c(1) assms(3)]] by auto
qed

text \<open>A pattern used in the examples: \<open>(a|b)*c\<close>, with an anchor at its end.\<close>

definition plain_node :: "kind \<Rightarrow> node" where
  "plain_node k = \<lparr>nd_kind = k, nd_groups = (0, 0), nd_backref = False, nd_indep = False, nd_depth = 0,
     nd_compiled = False, nd_entry = 0, nd_exit = 0, nd_iters = []\<rparr>"

definition ex_ast :: ast where
  "ex_ast = \<lparr>as_nodes = map plain_node [KSet (bs_single 97), KSet (bs_single 98), KAlt [0, 1], KGroup 1 2, KRepeat 3 0 None,
       KSet (bs_single 99), KEol, KConcat [4, 5, 6]],
     as_root = 7, as_nsub = 1, as_group_node = [0, 3], as_has_backref = False\<rparr>"

lemma ex_ast_ok: "ast_ok ex_ast"
  by code_simp

definition ex_nfa :: nfa where
  "ex_nfa = (case compile ex_ast of Good (nf, _) \<Rightarrow> nf)"

lemma Good_fst: "(case r of Good _ \<Rightarrow> True | _ \<Rightarrow> False) \<Longrightarrow> \<exists>b. r = Good (case r of Good (v, _) \<Rightarrow> v, b)"
  by (cases r) auto

definition ex_text :: rtext where
  "ex_text = \<lparr>tx_t = [120, 98, 97, 99], tx_notbol = False, tx_noteol = False, tx_nl = False\<rparr>"

lemma ex_states: "ast_states ex_ast = 20"
  by code_simp

lemma ex_root: "as_root ex_ast = 7" "as_group_node ex_ast = [0, 3]"
  by (simp_all add: ex_ast_def)

lemma ex_compile: "\<exists>a'. compile ex_ast = Good (ex_nfa, a')"
  unfolding ex_nfa_def
proof (rule Good_fst)
  have "\<not> MAX_STATES < Suc 20" by (simp add: MAX_STATES_def)
  then show "case compile ex_ast of Good _ \<Rightarrow> True | _ \<Rightarrow> False"
    using compile_size [OF ex_ast_ok] ex_states by (simp add: ex_root split: rx.splits)
qed

lemma ex_kinds:
  "ast_kinds ex_ast = [KSet (bs_single 97), KSet (bs_single 98), KAlt [0, 1], KGroup 1 2, KRepeat 3 0 None, KSet (bs_single 99),
    KEol, KConcat [4, 5, 6]]"
  by (simp add: ast_kinds_def ex_ast_def plain_node_def)

lemma ex_sem: "sem (ast_kinds ex_ast) [0, 3] ex_text False 7 1 4"
proof -
  let ?s = "sem (ast_kinds ex_ast) [0, 3] ex_text False"
  have leaf: "?s 1 1 2" "?s 0 2 3" "?s 5 3 4" by (simp_all add: sem_KSet ex_kinds ex_text_def)
  have alt: "?s 3 i k" if "?s 0 i k \<or> ?s 1 i k" for i k using that by (auto simp: sem_KGroup sem_KAlt ex_kinds)
  have "sem_seq (ast_kinds ex_ast) [0, 3] ex_text False (replicate 2 3) 1 3"
    using alt leaf by (auto simp: numeral_2_eq_2 sem_seq_Cons sem_seq_Nil ex_text_def)
  then have "?s 4 1 3" using sem_KRepeat [of "ast_kinds ex_ast" 4 3 0 None] by (auto simp: ex_kinds)
  moreover have "?s 6 4 4" by (simp add: sem_KEol ex_kinds ex_text_def tx_eol_def)
  ultimately show ?thesis using leaf(3) by (auto simp: sem_KConcat ex_kinds sem_seq_Cons sem_seq_Nil ex_text_def)
qed

text \<open>The pattern \<open>(a|b)\1\<close> of the examples with a back-reference.\<close>

definition bx_ast :: ast where
  "bx_ast = \<lparr>as_nodes = map plain_node [KSet (bs_single 97), KSet (bs_single 98), KAlt [0, 1], KGroup 1 2, KBackref 1, KConcat [3, 4]],
     as_root = 5, as_nsub = 1, as_group_node = [0, 3], as_has_backref = True\<rparr>"

definition bx_nfa :: nfa where
  "bx_nfa = (case compile bx_ast of Good (nf, _) \<Rightarrow> nf)"

definition bx_text :: rtext where
  "bx_text = \<lparr>tx_t = [120, 98, 98], tx_notbol = False, tx_noteol = False, tx_nl = False\<rparr>"

lemma bx_ast_ok: "ast_ok bx_ast" "groups_ok (ast_kinds bx_ast) (as_group_node bx_ast)" "folds_ok False (ast_kinds bx_ast)"
  by code_simp+

lemma ex_ast_oks: "groups_ok (ast_kinds ex_ast) (as_group_node ex_ast)" "folds_ok False (ast_kinds ex_ast)" "no_backrefs (ast_kinds ex_ast)"
  by code_simp+

lemma ex_matches: "ast_matches False ex_ast ex_text 1 4"
  using ast_matches_iff [OF ex_ast_ok ex_ast_oks] ex_sem by (simp add: ex_root)

lemma bx_states: "ast_states bx_ast = 20"
  by code_simp

lemma bx_compile: "\<exists>a'. compile bx_ast = Good (bx_nfa, a')"
  unfolding bx_nfa_def
proof (rule Good_fst)
  have "\<not> MAX_STATES < Suc 20" by (simp add: MAX_STATES_def)
  then show "case compile bx_ast of Good _ \<Rightarrow> True | _ \<Rightarrow> False"
    using compile_size [OF bx_ast_ok(1)] bx_states by (simp split: rx.splits)
qed

lemma bx_matches: "ast_matches False bx_ast bx_text 1 3"
proof -
  have ks: "ast_kinds bx_ast = [KSet (bs_single 97), KSet (bs_single 98), KAlt [0, 1], KGroup 1 2, KBackref 1, KConcat [3, 4]]"
    "as_root bx_ast = 5" by (simp_all add: ast_kinds_def bx_ast_def plain_node_def)
  let ?m = "msem (ast_kinds bx_ast) (map nd_groups (as_nodes bx_ast)) False bx_text"
  have "?m 1 1 Map.empty 2 Map.empty" using m_set [of "ast_kinds bx_ast" 1 "bs_single 98" 1 bx_text] by (simp add: ks bx_text_def numeral_2_eq_2)
  then have "?m 2 1 Map.empty 2 Map.empty" using m_alt [of "ast_kinds bx_ast" 2 "[0, 1]" 1] by (simp add: ks)
  then have g: "?m 3 1 Map.empty 2 [1 \<mapsto> (1, 2)]" using m_group [of "ast_kinds bx_ast" 3 1 2] by (simp add: ks)
  have "?m 4 2 [1 \<mapsto> (1, 2)] 3 [1 \<mapsto> (1, 2)]"
    using m_backref [of "ast_kinds bx_ast" 4 1 "[1 \<mapsto> (1, 2)]" 1 2 2 bx_text False] by (simp add: ks bx_text_def same_text_def same_byte_def)
  then have "msem_seq (ast_kinds bx_ast) (map nd_groups (as_nodes bx_ast)) False bx_text [3, 4] 1 Map.empty 3 [1 \<mapsto> (1, 2)]"
    by (rule m_cons [OF g m_cons [OF _ m_nil]]) (simp add: bx_text_def)
  moreover have "ast_kinds bx_ast ! 5 = KConcat [3, 4]" by (simp add: ks(1))
  ultimately show ?thesis unfolding ast_matches_def ks(2) using m_concat by blast
qed

text \<open>
  C4. A compiled expression means what its tree means: over any text, with any flags, the Thompson
  automaton has a run from the start state at \<open>i\<close> to the accepting state at \<open>k\<close> exactly when the
  tree matches the bytes from \<open>i\<close> to \<open>k\<close>. A back-reference counts as its group's body, which is
  how the automaton is meant to over-approximate it.
\<close>

theorem compile_exact:
  assumes "ast_ok a" "compile a = Good (nf, a')" "i \<le> tx_len tx"
  shows "accepts nf tx i k \<longleftrightarrow> sem (ast_kinds a) (as_group_node a) tx False (as_root a) i k"
  by (rule compile_accepts(2) [OF assms])

theorem compile_exact_witness: "accepts ex_nfa ex_text 1 4"
proof -
  obtain a' where "compile ex_ast = Good (ex_nfa, a')" using ex_compile by blast
  from compile_exact [OF ex_ast_ok this, of 1 ex_text 4] show ?thesis using ex_sem by (simp add: ex_root ex_text_def)
qed

text \<open>
  C21. Compiling a well-formed tree never crashes, and refuses it only for its size: with
  \<open>REG_ESPACE\<close>, exactly when the states its nodes take, counted repetition by repetition, do not fit
  in the limit.
\<close>

theorem compile_refuses_size:
  assumes "ast_ok a"
  shows "case compile a of
      Good (nf, a') \<Rightarrow> length (nf_st nf) = Suc (ast_states a) \<and>
        length (nf_st nf) \<le> MAX_STATES
    | Fail e off \<Rightarrow> e = Space \<and> MAX_STATES \<le> ast_states a
    | Crash \<Rightarrow> False"
  using compile_size [OF assms] by (auto split: rx.splits)

theorem compile_refuses_size_witness: "length (nf_st ex_nfa) = 21"
  using compile_refuses_size [OF ex_ast_ok] ex_compile ex_states by (auto simp: ex_root)

text \<open>
  C1. The match reported is the leftmost one and, of those that start there, the longest one the
  pattern has. It is so whatever searches, over whatever texts, have filled the lazily built
  automata before, and however often they were flushed; the search never fails.
\<close>

theorem dfa_extent_leftmost_longest:
  assumes "ast_ok a" "compile a = Good (nf, a')" "dfas_reach nf (tx_nl tx) df"
  shows "\<exists>df'. dfa_extent nf tx df =
    Some (leftmost_longest tx (sem (ast_kinds a) (as_group_node a) tx False (as_root a)), df')"
proof -
  note c = compile_accepts [OF assms(1,2)]
  have "leftmost_longest tx (accepts nf tx) = leftmost_longest tx (sem (ast_kinds a) (as_group_node a) tx False (as_root a))"
    by (rule leftmost_longest_cong) (rule c(2))
  then show ?thesis using dfa_extent_ok [OF c(1) dfas_reach_ok [OF c(1) assms(3)]] by auto
qed

theorem dfa_extent_leftmost_longest_witness:
  "\<exists>df'. dfa_extent ex_nfa ex_text (dfas_new ex_nfa False) =
    Some (leftmost_longest ex_text (sem (ast_kinds ex_ast) [0, 3] ex_text False 7), df')"
proof -
  obtain a' where "compile ex_ast = Good (ex_nfa, a')" using ex_compile by blast
  from dfa_extent_leftmost_longest [OF ex_ast_ok this, of ex_text] show ?thesis
    using dfas_reach.init [of ex_nfa False] by (simp add: ex_root ex_text_def)
qed

text \<open>
  C15. The first scan, which every search makes before anything else, is a sound prefilter: whatever
  searches came before, it reports an end no later than the end of any match of the pattern,
  back-references and captures included, so it never misses a match. For a pattern without
  back-references it is exact: it returns the first position where a match ends, and none when
  there is no match.
\<close>

theorem first_end_exact:
  assumes "ast_ok a" "groups_ok (ast_kinds a) (as_group_node a)" "folds_ok icase (ast_kinds a)"
    and "compile a = Good (nf, a')" "dfas_reach nf (tx_nl tx) df"
  shows "\<exists>r df'. first_end nf tx df = Some (r, df') \<and>
    (\<forall>i k. ast_matches icase a tx i k \<longrightarrow> (\<exists>e\<le>k. r = Some e)) \<and>
    (no_backrefs (ast_kinds a) \<longrightarrow> r = find (\<lambda>k. \<exists>i\<le>k. ast_matches icase a tx i k) [0..<Suc (tx_len tx)])"
proof -
  let ?S = "sem (ast_kinds a) (as_group_node a) tx False (as_root a)"
  let ?r = "find (\<lambda>k. \<exists>i\<le>k. ?S i k) [0..<Suc (tx_len tx)]"
  obtain df' where f: "first_end nf tx df = Some (?r, df')" using first_end_sem [OF assms(1,4,5)] by blast
  have "\<exists>e\<le>k. ?r = Some e" if "ast_matches icase a tx i k" for i k
  proof -
    have m: "?S i k" using ast_matches_sem [OF assms(1-3) that] .
    then have "i \<le> k" "k < Suc (tx_len tx)" using sem_bounds(1) [OF m] by auto
    then show ?thesis using find_upt_least [of "\<lambda>k. \<exists>i\<le>k. ?S i k" k] m by blast
  qed
  moreover have "?r = find (\<lambda>k. \<exists>i\<le>k. ast_matches icase a tx i k) [0..<Suc (tx_len tx)]" if "no_backrefs (ast_kinds a)"
    using ast_matches_iff [OF assms(1-3) that] by (simp only:)
  ultimately show ?thesis using f by blast
qed

theorem first_end_exact_witness:
  "(\<exists>e df'. e \<le> 3 \<and> first_end bx_nfa bx_text (dfas_new bx_nfa False) = Some (Some e, df')) \<and>
   (\<exists>i k df'. first_end ex_nfa ex_text (dfas_new ex_nfa False) = Some (Some k, df') \<and> ast_matches False ex_ast ex_text i k)"
proof
  obtain a' where c: "compile bx_ast = Good (bx_nfa, a')" using bx_compile by blast
  have r: "dfas_reach bx_nfa (tx_nl bx_text) (dfas_new bx_nfa False)" using dfas_reach.init by (simp add: bx_text_def)
  show "\<exists>e df'. e \<le> 3 \<and> first_end bx_nfa bx_text (dfas_new bx_nfa False) = Some (Some e, df')"
    using first_end_exact [OF bx_ast_ok c r] bx_matches by metis
next
  obtain a' where c: "compile ex_ast = Good (ex_nfa, a')" using ex_compile by blast
  have r: "dfas_reach ex_nfa (tx_nl ex_text) (dfas_new ex_nfa False)" using dfas_reach.init by (simp add: ex_text_def)
  obtain e df' where e: "first_end ex_nfa ex_text (dfas_new ex_nfa False) = Some (Some e, df')"
      "find (\<lambda>k. \<exists>i\<le>k. ast_matches False ex_ast ex_text i k) [0..<Suc (tx_len ex_text)] = Some e"
    using first_end_exact [OF ex_ast_ok ex_ast_oks(1,2) c r] ex_ast_oks(3) ex_matches by metis
  then obtain i where "ast_matches False ex_ast ex_text i e" by (auto simp: find_Some_iff simp del: upt_Suc)
  then show "\<exists>i k df'. first_end ex_nfa ex_text (dfas_new ex_nfa False) = Some (Some k, df') \<and> ast_matches False ex_ast ex_text i k"
    using e(1) by blast
qed

end
