(* ===== verification/Spec2Isabelle.thy ===== *)
theory Spec2Isabelle
  imports Scheduler User_Memory Wakeup Sysv_Ipc Sysv_Sem Sysv_Msg Vm_Map Fd_Table Pipe_Stream Mqueue Regex_Find
begin

text \<open>
  \<^bold>\<open>A verification development for OxideBSD\<close>: the kernel (\<open>src/sys\<close>) and the regular expression
  library (\<open>src/lib/libregex\<close>), both in Rust.

  OxideBSD is a small BSD-like kernel: processes and threads under a priority scheduler, address
  spaces kept as sorted maps of mappings, a descriptor table shared by the threads of a process, and
  the System V and POSIX means for processes to talk to each other. The development models the parts
  that decide what processes observe of each other and proves what makes them correct. All system
  calls run with interrupts off except where they sleep, and every table is behind a lock that is
  dropped before the scheduler is called; so an execution of the kernel is a sequence of atomic turns, and
  a blocking call is a loop of such turns. A turn is one definition here, its result \<open>Return r\<close> or
  \<open>Sleep\<close>, and the interleavings are the paths of a step relation over the turns of all calls.

  \<^bold>\<open>The library.\<close>
  \<^item> \<open>Prelude\<close>: machine types, error numbers, the result types \<open>kres\<close> (\<open>Ok\<close>, \<open>Err\<close>,
    \<open>Panic\<close>) and \<open>pass\<close>, Rust's checked arithmetic, little-endian encodings with their round trips.
  \<^item> \<open>Ordered_Map\<close>: the locale \<open>ordered_map\<close>, what the kernel relies on of \<open>BTreeMap\<close>, and its
    interpretation on sorted association lists, with sums over a map.
  \<^item> \<open>Wakeup\<close>: the locale \<open>wakeup_discipline\<close>, the contract between whoever sleeps and whoever
    changes what is slept for. Its law is local to a step, its theorem \<open>no_lost_wakeup\<close> global. It is
    interpreted for semaphores, for both directions of System V messages, for pipes and FIFOs, and for
    receivers of POSIX message queues.

  \<^bold>\<open>The components\<close>, with the files they model.
  \<^item> \<open>Process_Table\<close> (\<open>process/mod.rs\<close>, \<open>process/identity.rs\<close>): the process record, its states and
    block reasons, credentials, and the wake-up loop over the table.
  \<^item> \<open>Scheduler\<close> (\<open>process/scheduler.rs\<close>, \<open>process/sched_4bsd.rs\<close>, \<open>kern/kern_synch.rs\<close>, the timer's
    deadline scan): the ready queue and the choice of the next thread, sleep and wakeup channels. The
    best ready thread is chosen, in arrival order among equals, the queue stays exact, and a best thread
    runs after at most as many switches as its place in the queue.
  \<^item> \<open>User_Memory\<close> (\<open>memory/usercopy.rs\<close>, \<open>kern/subr_uio.rs\<close>): copies to and from user memory
    with faults at any byte, and vectored transfers. A transfer moves exactly the bytes at the next
    addresses of its vector, and a rewind gives them back.
  \<^item> \<open>Sysv_Ipc\<close>, \<open>Sysv_Sem\<close>, \<open>Sysv_Msg\<close> (\<open>fs/sysv_ipc.rs\<close>, \<open>fs/sysv_sem.rs\<close>, \<open>fs/sysv_msg.rs\<close>): key
    namespaces (locale \<open>ipc_namespace\<close>), permissions, semaphore arrays with undo, message queues by
    type. A \<open>semop\<close> applies all or nothing; \<open>SEM_UNDO\<close> restores; \<open>msgrcv\<close> is a
    FIFO per type; nobody whose request could be granted stays asleep, with the exceptions found;
    every outcome of one turn of \<open>semop\<close> and of \<open>msgrcv\<close> is given with the condition it has.
  \<^item> \<open>Vm_Map\<close> (\<open>process/vm_map.rs\<close> and the placement code of \<open>process/mm.rs\<close>): the map of an address
    space, refined to a function from addresses to mappings.
  \<^item> \<open>Fd_Bitmap\<close>, \<open>Fd_Table\<close> (\<open>fs/fd.rs\<close>): the two-level bitmap of used numbers, equivalent to a set, and
    the table of slots and open file descriptions, whose reference counts are exact in every reachable
    state. The file operations a close calls are a log, from which a component runs its own.
  \<^item> \<open>Pipe\<close>, \<open>Pipe_Stream\<close> (\<open>fs/pipe.rs\<close>): pipes and FIFOs on top of the descriptor table and transfers.
    A pipe is a bounded queue of bytes between the callers' memories; \<open>pipe(2)\<close> is all or nothing
    together with the descriptor table; \<open>poll\<close> tells what a call would find.
  \<^item> \<open>Mqueue\<close> (\<open>fs/mqueue.rs\<close>, \<open>abstime_to_ticks\<close> of \<open>process/timers.rs\<close>): POSIX message queues, refined
    to lists of messages in the order they were sent.

  \<^bold>\<open>The regular expression library\<close> turns a pattern into a tree, the tree into a Thompson automaton,
  and searches a text with automata built from that one a transition at a time. Files are those
  of \<open>lib/libregex/src\<close>.
  \<^item> \<open>Byte_Set\<close> (\<open>byteset.rs\<close>): sets of bytes as four words, with ranges, classes and case folding,
    each shown to be the operation on sets it stands for.
  \<^item> \<open>Regex_Ast\<close> (\<open>parse.rs\<close>, \<open>error.rs\<close>, \<open>Text\<close> of \<open>sim.rs\<close>): the tree in its arena, what the rest
    relies on of it (\<open>ast_ok\<close>: children before parents), and the meaning of a node as an inductive
    relation \<open>sem\<close> between positions of a text, in which a back-reference reads what its group could match.
  \<^item> \<open>Regex_Backref\<close> (the rules at the head of \<open>exec.rs\<close> and \<open>lib.rs\<close>): the meaning with captures, where a
    back-reference repeats the text its group has matched. \<open>sem\<close> includes it, and equals it without back-references.
  \<^item> \<open>Regex_Nfa\<close> (\<open>nfa.rs\<close>): the builder and its fragments. \<open>Regex_Thompson\<close> has the graph lemmas for
    each way of putting fragments together, \<open>Regex_Compile\<close> shows that the automaton has a run exactly
    where the tree matches, \<open>Regex_Size\<close> that only size makes it refuse a tree.
  \<^item> \<open>Sparse_Set\<close>, \<open>Regex_Sim\<close> (\<open>sim.rs\<close>): sparse sets, epsilon closures as reachability, and the ends
    of a fragment's matches as levels of a run.
  \<^item> \<open>Regex_Dfa\<close> (\<open>dfa.rs\<close>): byte classes, interned states with flushing, lazily computed transitions, and
    the three scans. \<open>Regex_Cache\<close> has the invariant that every cached entry is the one that would be
    computed anew; \<open>Regex_Scan\<close> follows the scans through it.
  \<^item> \<open>Regex_Find\<close> (\<open>lib.rs\<close>): the automata of an expression across searches, and the leftmost-longest
    match of the tree as what they find. The first scan is a sound filter for every pattern, and exact
    for one without back-references.

  \<^bold>\<open>How code becomes definitions.\<close> A Rust function is one definition of the same name where possible.
  A \<open>struct\<close> is a \<open>record\<close>, an \<open>enum\<close> a \<open>datatype\<close>, a static behind a lock a field of the
  component's state record. \<open>Result\<close> is \<open>kres\<close>; what would panic (an \<open>unwrap\<close> of nothing, an
  arithmetic overflow in a build with overflow checks) is \<open>Panic\<close> or \<^const>\<open>None\<close>; in the
  regular expression library, whose errors carry an offset, the outcome is \<open>rx\<close> with \<open>Crash\<close>. Machine words
  that are flags or arguments are words; counters that only grow are natural numbers, with the check
  written out where the source has one.

  \<^bold>\<open>Loops and bounds.\<close> Loops over data are structural recursion; the loops of \<open>Vm_Map\<close> whose end is not
  structural are \<open>function\<close>s with a termination proof. The copy and retry loops of a pipe write are
  \<open>partial_function (option)\<close>, and it is proved that they return. The closure
  loops of the automata terminate because each turn adds a state or shortens the stack. The one bound is the depth of
  \<open>frag\<close>: children come before their parents in the arena, so the root's index suffices, and the theorem
  that compiling never crashes includes that it does.

  \<^bold>\<open>Parameters.\<close> What comes from outside the modelled code is an argument: the wall clock, whether a
  signal interrupts a sleeper, the resource limits of the caller, where a ring buffer wraps. The rest of the
  kernel appears in the step relations as a step that may do anything to processes except put one to sleep
  for a component's own reason (\<open>elsewhere\<close>).

  \<^bold>\<open>Not modelled.\<close> Device drivers, boot, interrupt entry, page tables and context switch act on
  hardware. File systems, networking, terminals and the module loader are whole subsystems of their own.
  Process creation, \<open>exec\<close> and termination touch every one of these. User programs and the other
  libraries (\<open>bin\<close>, \<open>sbin\<close>, \<open>usr.bin\<close>, \<open>lib\<close> and others) run above the kernel. Of the regular expression
  library, the parser, the Pike search used when a match ends early in a long text, the assignment of
  subexpressions and the back-reference search are left out.
\<close>

end
